(* ===== verification/Prelude.thy ===== *)
theory Prelude
  imports Main "HOL-Library.Word" "HOL-Library.Multiset"
begin

text \<open>
  Shared vocabulary of the development: the machine integer types of the C++ sources, the
  list operations that model its arrays and vectors, and the lemmas about them that the
  component theories use through the simplifier or by name.
\<close>

unbundle bit_operations_syntax

section \<open>Machine integers\<close>

type_synonym u8 = "8 word"
type_synonym i8 = "8 word"      \<comment> \<open>read with \<open>sint\<close>\<close>
type_synonym u16 = "16 word"
type_synonym i16 = "16 word"
type_synonym u32 = "32 word"
type_synonym u64 = "64 word"
type_synonym i64 = "64 word"    \<comment> \<open>an \<open>std::atomic<int64_t>\<close>: wraps on overflow\<close>
type_synonym bytes = "u8 list"

section \<open>Fixed arrays and vectors\<close>

text \<open>
  A C array of length n is a list of length n; \<open>xs ! i\<close> and \<open>xs[i := v]\<close> are only used
  under an index bound that the well-formedness predicates carry.
  \<open>upd_at i f xs\<close> is the in-place update of one cell.
\<close>

definition upd_at :: "nat \<Rightarrow> ('a \<Rightarrow> 'a) \<Rightarrow> 'a list \<Rightarrow> 'a list" where
  "upd_at i f xs = xs[i := f (xs ! i)]"

lemma length_upd_at [simp]: "length (upd_at i f xs) = length xs"
  by (simp add: upd_at_def)

lemma nth_upd_at: "i < length xs \<Longrightarrow> upd_at i f xs ! j = (if j = i then f (xs ! i) else xs ! j)"
  by (simp add: upd_at_def nth_list_update)

lemma nth_upd_at_same [simp]: "i < length xs \<Longrightarrow> upd_at i f xs ! i = f (xs ! i)"
  by (simp add: upd_at_def)

lemma nth_upd_at_other [simp]: "j \<noteq> i \<Longrightarrow> upd_at i f xs ! j = xs ! j"
  by (simp add: upd_at_def)

lemma upd_at_out [simp]: "length xs \<le> i \<Longrightarrow> upd_at i f xs = xs"
  by (simp add: upd_at_def list_update_beyond)

lemma map_upd_at_id: "(\<And>x. g (f x) = g x) \<Longrightarrow> map g (upd_at i f xs) = map g xs"
  by (cases "i < length xs") (auto simp: upd_at_def nth_list_update intro!: nth_equalityI)

text \<open>
  The search loop \<open>for (i = 0; i < n; ++i) if (p(v[i])) ...\<close>: the first index that satisfies
  the test.
\<close>

fun first_index :: "('a \<Rightarrow> bool) \<Rightarrow> 'a list \<Rightarrow> nat option" where
  "first_index p [] = None"
| "first_index p (x # xs) = (if p x then Some 0 else map_option Suc (first_index p xs))"

lemma first_index_None [simp]: "first_index p xs = None \<longleftrightarrow> (\<forall>x\<in>set xs. \<not> p x)"
  by (induction xs) auto

lemma first_index_SomeD:
  "first_index p xs = Some i \<Longrightarrow> i < length xs \<and> p (xs ! i) \<and> (\<forall>j<i. \<not> p (xs ! j))"
proof (induction xs arbitrary: i)
  case Nil
  then show ?case by simp
next
  case (Cons x xs)
  then show ?case
    by (cases i) (auto split: if_splits simp: less_Suc_eq_0_disj)
qed

text \<open>
  \<open>v[i] = v.back(); v.pop_back();\<close>, the constant-time removal the sources use for the
  open-room list, the owned-session list and the worker's room list.
\<close>

definition swap_pop :: "nat \<Rightarrow> 'a list \<Rightarrow> 'a list" where
  "swap_pop i xs = butlast (xs[i := last xs])"

definition swap_remove :: "'a \<Rightarrow> 'a list \<Rightarrow> 'a list" where
  "swap_remove x xs = (case first_index (\<lambda>y. y = x) xs of None \<Rightarrow> xs | Some i \<Rightarrow> swap_pop i xs)"

lemma swap_pop_snoc:
  "i < length xs \<Longrightarrow> swap_pop i (xs @ [y]) = xs[i := y]"
  by (simp add: swap_pop_def list_update_append)

lemma swap_pop_last: "swap_pop (length xs) (xs @ [y]) = xs"
  by (simp add: swap_pop_def)

lemma length_swap_pop [simp]: "length (swap_pop i xs) = length xs - 1"
  by (simp add: swap_pop_def)

lemma mset_swap_pop: "i < length xs \<Longrightarrow> mset (swap_pop i xs) = mset xs - {#xs ! i#}"
proof (cases xs rule: rev_cases)
  case Nil
  then show "i < length xs \<Longrightarrow> ?thesis" by simp
next
  case (snoc ys y)
  assume i: "i < length xs"
  show ?thesis
  proof (cases "i < length ys")
    case True
    then show ?thesis using snoc
      by (simp add: swap_pop_snoc mset_update nth_append)
  next
    case False
    with i snoc have "i = length ys" by simp
    then show ?thesis using snoc by (simp add: swap_pop_last)
  qed
qed

lemma mset_swap_remove: "mset (swap_remove x xs) = mset xs - {#x#}"
proof (cases "first_index (\<lambda>y. y = x) xs")
  case None
  then have "x \<notin> set xs" by auto
  with None show ?thesis unfolding swap_remove_def by (auto simp del: first_index_None)
next
  case (Some i)
  from first_index_SomeD [OF Some] Some show ?thesis
    by (simp add: swap_remove_def mset_swap_pop)
qed

lemma mset_eq_mset_setD:
  assumes "mset ys = mset_set S" and "finite S"
  shows "distinct ys \<and> set ys = S"
proof -
  have "set ys = S"
    using assms by (metis finite_set_mset_mset_set set_mset_mset)
  moreover have "count (mset ys) a = (if a \<in> set ys then 1 else 0)" for a
    using assms calculation by simp
  ultimately show ?thesis by (simp add: distinct_count_atmost_1)
qed

lemma swap_remove_distinct_set:
  assumes "distinct xs"
  shows "distinct (swap_remove x xs) \<and> set (swap_remove x xs) = set xs - {x}"
proof (rule mset_eq_mset_setD)
  have "mset xs - {#x#} = mset_set (set xs - {x})"
    using assms by (cases "x \<in> set xs") (auto simp: mset_set_set [symmetric] mset_set_Diff)
  then show "mset (swap_remove x xs) = mset_set (set xs - {x})"
    by (simp add: mset_swap_remove)
qed simp

lemma distinct_swap_remove [intro]: "distinct xs \<Longrightarrow> distinct (swap_remove x xs)"
  by (simp add: swap_remove_distinct_set)

lemma set_swap_remove: "distinct xs \<Longrightarrow> set (swap_remove x xs) = set xs - {x}"
  by (simp add: swap_remove_distinct_set)

lemma set_swap_remove_subset: "set (swap_remove x xs) \<subseteq> set xs"
  by (metis diff_subset_eq_self mset_swap_remove set_mset_mono set_mset_mset)

end
