(* ===== verification/Double.thy ===== *)
theory Double
  imports Complex_Main "HOL-Library.Log_Nat" Prelude
begin

text \<open>
  The C++ type \<open>double\<close>: IEEE 754 binary64, round to nearest, ties to even. A finite
  double is its rational value; every arithmetic operation of the program computes the exact
  rational result and rounds it once with \<open>rnd\<close>. Signed zero is not distinguished (the
  program only compares, adds, multiplies and quantises its doubles, none of which tells
  \<open>-0\<close> from \<open>0\<close>) and overflow to infinity is not represented: the theory Sim proves
  that no intermediate result of a tick comes near the range limit.

  The locales \<open>rounding\<close> and \<open>nearest_rounding\<close> state what the clients use of the
  rounding function; both are interpreted on \<open>rnd\<close> at the end.
\<close>

section \<open>The rounding interface\<close>

locale rounding =
  fixes rd :: "rat \<Rightarrow> rat" and rep :: "rat \<Rightarrow> bool"
  assumes rd_mono: "x \<le> y \<Longrightarrow> rd x \<le> rd y"
    and rd_rep: "rep (rd x)"
    and rd_fix: "rep x \<Longrightarrow> rd x = x"
begin

lemma rd_idem: "rd (rd x) = rd x"
  by (rule rd_fix [OF rd_rep])

lemma rd_ge: "rep l \<Longrightarrow> l \<le> x \<Longrightarrow> l \<le> rd x"
  using rd_mono [of l x] by (simp add: rd_fix)

lemma rd_le: "rep u \<Longrightarrow> x \<le> u \<Longrightarrow> rd x \<le> u"
  using rd_mono [of x u] by (simp add: rd_fix)

lemma rd_abs_le: "rep u \<Longrightarrow> rep (- u) \<Longrightarrow> \<bar>x\<bar> \<le> u \<Longrightarrow> \<bar>rd x\<bar> \<le> u"
  using rd_le [of u x] rd_ge [of "- u" x] by (simp add: abs_le_iff)

end

text \<open>A rounding whose error is bounded in terms of a power of two above the argument.\<close>

locale nearest_rounding = rounding +
  fixes lo :: int
  assumes rd_err: "lo \<le> k \<Longrightarrow> \<bar>x\<bar> < 2 powi k \<Longrightarrow> \<bar>rd x - x\<bar> \<le> 2 powi (k - 54)"
begin

lemma rd_err_le:
  "lo \<le> k \<Longrightarrow> \<bar>x\<bar> < 2 powi k \<Longrightarrow> 2 powi (k - 54) \<le> e \<Longrightarrow> \<bar>rd x - x\<bar> \<le> e"
  using rd_err order_trans by blast

end

section \<open>Binary exponents\<close>

lemma powi2_pos [simp]: "(0::rat) < 2 powi e"
  by (simp add: zero_less_power_int)

lemma powi2_nonneg [simp]: "(0::rat) \<le> 2 powi e"
  by simp

lemma powi2_less_iff [simp]: "(2::rat) powi a < 2 powi b \<longleftrightarrow> a < b"
  by (metis linorder_neqE less_asym less_irrefl one_less_numeral_iff power_int_strict_increasing
      semiring_norm(76))

lemma powi2_le_iff [simp]: "(2::rat) powi a \<le> 2 powi b \<longleftrightarrow> a \<le> b"
  by (simp add: linorder_not_less [symmetric])

lemma powi2_add: "(2::rat) powi (a + b) = 2 powi a * 2 powi b"
  by (simp add: power_int_add)

lemma powi2_Suc: "(2::rat) powi (a + 1) = 2 * 2 powi a"
  by (simp add: power_int_add)

lemma powi2_diff: "(2::rat) powi (a - b) = 2 powi a / 2 powi b"
  by (simp add: power_int_diff)

lemma powi2_nonneg_int: "0 \<le> k \<Longrightarrow> (2::rat) powi k = of_int (2 ^ nat k)"
  by (simp add: power_int_def)

lemma powi2_52_add: "(2::rat) powi (52 + u) = of_int (2 ^ 52) * 2 powi u"
  and powi2_53_add: "(2::rat) powi (53 + u) = of_int (2 ^ 53) * 2 powi u"
  by (simp_all add: powi2_add)

text \<open>The exponent of the leading bit of a positive rational, from its numerator and denominator.\<close>

definition flog2 :: "rat \<Rightarrow> int" where
  "flog2 q = (case quotient_of q of (n, d) \<Rightarrow>
     let e = bitlen n - bitlen d in if q < 2 powi e then e - 1 else e)"

lemma bitlen_powi:
  assumes "0 < n"
  shows "2 powi (bitlen n - 1) \<le> (of_int n :: rat)" and "(of_int n :: rat) < 2 powi bitlen n"
proof -
  have b: "2 ^ nat (bitlen n - 1) \<le> n" "n < 2 ^ nat (bitlen n)"
    using bitlen_bounds [OF assms] by auto
  have "0 < bitlen n"
    using assms by (meson bitlen_nonneg bitlen_eq_zero_iff not_le order_le_less order_less_le)
  then have p: "(2::rat) powi (bitlen n - 1) = of_int (2 ^ nat (bitlen n - 1))"
    "(2::rat) powi bitlen n = of_int (2 ^ nat (bitlen n))"
    by (simp_all add: powi2_nonneg_int)
  show "2 powi (bitlen n - 1) \<le> (of_int n :: rat)"
    unfolding p using b(1) by (simp only: of_int_le_iff)
  show "(of_int n :: rat) < 2 powi bitlen n"
    unfolding p using b(2) by (simp only: of_int_less_iff)
qed

lemma flog2_bounds:
  assumes "0 < q"
  shows "2 powi flog2 q \<le> q" and "q < 2 powi (flog2 q + 1)"
proof -
  obtain n d where nd: "quotient_of q = (n, d)" by (cases "quotient_of q")
  then have q: "q = of_int n / of_int d" and d: "0 < d"
    by (auto simp: quotient_of_div quotient_of_denom_pos)
  with assms have n: "0 < n" by (simp add: zero_less_divide_iff)
  let ?e = "bitlen n - bitlen d"
  have "q < 2 powi bitlen n / 2 powi (bitlen d - 1)"
    unfolding q using bitlen_powi [OF n] bitlen_powi [OF d] d n
    by (intro frac_less) (auto simp: order_trans [OF powi2_nonneg])
  then have up: "q < 2 powi (?e + 1)"
    by (simp add: powi2_diff powi2_add field_simps)
  have "2 powi (bitlen n - 1) / 2 powi bitlen d \<le> q"
    unfolding q using bitlen_powi [OF n] bitlen_powi [OF d] d n
    by (intro frac_le) (auto simp: order_trans [OF powi2_nonneg])
  then have low: "2 powi (?e - 1) \<le> q"
    using powi2_Suc [of "bitlen d"] by (simp add: powi2_diff field_simps)
  show "2 powi flog2 q \<le> q" "q < 2 powi (flog2 q + 1)"
    using up low by (auto simp: flog2_def nd Let_def)
qed

lemma flog2_unique:
  assumes "2 powi e \<le> q" and "q < 2 powi (e + 1)"
  shows "flog2 q = e"
proof -
  have q: "0 < q" using assms(1) powi2_pos less_le_trans by blast
  have "2 powi e < (2::rat) powi (flog2 q + 1)" "2 powi flog2 q < (2::rat) powi (e + 1)"
    using assms flog2_bounds [OF q] by linarith+
  then show ?thesis by simp
qed

lemma flog2_mono: "0 < x \<Longrightarrow> x \<le> y \<Longrightarrow> flog2 x \<le> flog2 y"
proof -
  assume "0 < x" "x \<le> y"
  then have "2 powi flog2 x < (2::rat) powi (flog2 y + 1)"
    using flog2_bounds(1) [of x] flog2_bounds(2) [of y] by linarith
  then show ?thesis by simp
qed

section \<open>Rounding to the nearest integer, ties to even\<close>

definition reven :: "rat \<Rightarrow> int" where
  "reven y = (let f = \<lfloor>y\<rfloor>; d = y - of_int f in
     if d < 1/2 then f else if 1/2 < d then f + 1 else if even f then f else f + 1)"

lemma reven_of_int [simp]: "reven (of_int k) = k"
  by (simp add: reven_def)

lemma reven_err: "\<bar>of_int (reven y) - y\<bar> \<le> 1/2"
proof -
  have "of_int \<lfloor>y\<rfloor> \<le> y" "y < of_int \<lfloor>y\<rfloor> + 1" using floor_correct [of y] by simp_all
  then show ?thesis by (auto simp: reven_def Let_def abs_le_iff)
qed

lemma reven_mono:
  assumes "x \<le> y"
  shows "reven x \<le> reven y"
proof (cases "\<lfloor>x\<rfloor> = \<lfloor>y\<rfloor>")
  case True
  then show ?thesis using assms by (auto simp: reven_def Let_def)
next
  case False
  with floor_mono [OF assms] have "\<lfloor>x\<rfloor> + 1 \<le> \<lfloor>y\<rfloor>" by simp
  moreover have "reven x \<le> \<lfloor>x\<rfloor> + 1" "\<lfloor>y\<rfloor> \<le> reven y" by (auto simp: reven_def Let_def)
  ultimately show ?thesis by linarith
qed

lemma reven_ge: "of_int k \<le> y \<Longrightarrow> k \<le> reven y"
  using reven_mono [of "of_int k" y] by simp

lemma reven_le: "y \<le> of_int k \<Longrightarrow> reven y \<le> k"
  using reven_mono [of y "of_int k"] by simp

lemma reven_minus: "reven (- y) = - reven y"
proof (cases "y = of_int \<lfloor>y\<rfloor>")
  case True
  then show ?thesis by (metis of_int_minus reven_of_int)
next
  case False
  then have "of_int \<lfloor>y\<rfloor> < y" using of_int_floor_le [of y] by linarith
  then have "\<lfloor>- y\<rfloor> = - \<lfloor>y\<rfloor> - 1"
    using floor_correct [of y] by (intro floor_unique) auto
  then show ?thesis by (auto simp: reven_def Let_def)
qed

section \<open>Binary64\<close>

text \<open>
  \<open>ulp_exp x\<close> is the exponent of the unit in the last place of x: 52 bits below the leading
  bit, and never below the subnormal quantum \<open>2^-1074\<close>.
\<close>

definition ulp_exp :: "rat \<Rightarrow> int" where
  "ulp_exp x = max (flog2 \<bar>x\<bar> - 52) (- 1074)"

definition rnd :: "rat \<Rightarrow> rat" where
  "rnd x = (if x = 0 then 0 else of_int (reven (x / 2 powi ulp_exp x)) * 2 powi ulp_exp x)"

definition is_dbl :: "rat \<Rightarrow> bool" where
  "is_dbl x \<longleftrightarrow> rnd x = x"

definition fadd :: "rat \<Rightarrow> rat \<Rightarrow> rat" where "fadd x y = rnd (x + y)"
definition fsub :: "rat \<Rightarrow> rat \<Rightarrow> rat" where "fsub x y = rnd (x - y)"
definition fmul :: "rat \<Rightarrow> rat \<Rightarrow> rat" where "fmul x y = rnd (x * y)"
definition fdiv :: "rat \<Rightarrow> rat \<Rightarrow> rat" where "fdiv x y = rnd (x / y)"

lemma rnd_0 [simp]: "rnd 0 = 0"
  by (simp add: rnd_def)

lemma ulp_exp_minus [simp]: "ulp_exp (- x) = ulp_exp x"
  by (simp add: ulp_exp_def)

lemma rnd_minus: "rnd (- x) = - rnd x"
  by (simp add: rnd_def reven_minus)

lemma ulp_exp_mono: "0 < x \<Longrightarrow> x \<le> y \<Longrightarrow> ulp_exp x \<le> ulp_exp y"
  using flog2_mono [of x y] by (simp add: ulp_exp_def)

lemma rnd_err_ulp: "\<bar>rnd x - x\<bar> \<le> 2 powi ulp_exp x / 2"
proof (cases "x = 0")
  case True
  then show ?thesis by simp
next
  case False
  let ?u = "2 powi ulp_exp x :: rat"
  have "\<bar>of_int (reven (x / ?u)) - x / ?u\<bar> * ?u \<le> 1/2 * ?u"
    by (intro mult_right_mono reven_err) simp
  moreover have "rnd x - x = (of_int (reven (x / ?u)) - x / ?u) * ?u"
    using False by (simp add: rnd_def field_simps)
  ultimately show ?thesis by (simp add: abs_mult)
qed

text \<open>A multiple of a unit that is at least as coarse as the ulp rounds to itself.\<close>

lemma rnd_multiple:
  assumes "x = of_int m * 2 powi e" and "ulp_exp x \<le> e"
  shows "rnd x = x"
proof (cases "x = 0")
  case False
  have "2 powi e / 2 powi ulp_exp x = (of_int (2 ^ nat (e - ulp_exp x)) :: rat)"
    using assms(2) by (simp only: powi2_diff [symmetric] powi2_nonneg_int)
  then have "x / 2 powi ulp_exp x = of_int (m * 2 ^ nat (e - ulp_exp x))"
    by (subst assms(1)) (simp only: of_int_mult times_divide_eq_right [symmetric])
  then have "of_int (reven (x / 2 powi ulp_exp x)) = x / 2 powi ulp_exp x"
    by (simp only: reven_of_int)
  with False show ?thesis by (simp add: rnd_def)
qed simp

text \<open>The binary64 values: 53-bit significands at exponents from \<open>-1074\<close>.\<close>

lemma is_dblI:
  assumes "x = of_int m * 2 powi e" and "\<bar>m\<bar> < 2 ^ 53" and "- 1074 \<le> e"
  shows "is_dbl x"
proof (cases "x = 0")
  case True
  then show ?thesis by (simp add: is_dbl_def)
next
  case False
  have "(of_int \<bar>m\<bar> :: rat) < of_int (2 ^ 53)"
    using assms(2) by (simp only: of_int_less_iff)
  also have "\<dots> = 2 powi 53" by (simp add: power_int_def)
  finally have "\<bar>x\<bar> < 2 powi 53 * 2 powi e"
    using assms(1) by (simp add: abs_mult)
  then have lt: "\<bar>x\<bar> < 2 powi (53 + e)" by (simp only: powi2_add)
  have "2 powi flog2 \<bar>x\<bar> \<le> \<bar>x\<bar>"
    using False by (intro flog2_bounds) simp
  with lt have "(2::rat) powi flog2 \<bar>x\<bar> < 2 powi (53 + e)" by linarith
  then have "flog2 \<bar>x\<bar> \<le> 52 + e" by simp
  then show ?thesis
    unfolding is_dbl_def using assms(1,3) by (intro rnd_multiple) (auto simp: ulp_exp_def)
qed

lemma is_dbl_powi: "- 1074 \<le> e \<Longrightarrow> is_dbl (2 powi e)"
  by (rule is_dblI [of _ 1]) auto

lemma is_dbl_minus [simp]: "is_dbl (- x) \<longleftrightarrow> is_dbl x"
  by (simp add: is_dbl_def rnd_minus)

lemma is_dbl_int: "\<bar>m\<bar> < 2 ^ 53 \<Longrightarrow> is_dbl (of_int m)"
  by (rule is_dblI [of _ m 0]) auto

lemma is_dbl_0 [simp]: "is_dbl 0"
  by (simp add: is_dbl_def)

lemma is_dbl_numeral: "(numeral n :: int) < 2 ^ 53 \<Longrightarrow> is_dbl (numeral n)"
  using is_dbl_int [of "numeral n"] by simp

text \<open>
  Every result of rounding has a 53-bit significand (the exponent range upwards aside), so it is
  a binary64 value.
\<close>

lemma rnd_form:
  obtains m e where "rnd x = of_int m * 2 powi e" "\<bar>m\<bar> < 2 ^ 53" "- 1074 \<le> e"
proof (cases "x = 0")
  case True
  then show thesis by (intro that [of 0 0]) simp_all
next
  case False
  let ?u = "ulp_exp x" and ?k = "reven (x / 2 powi ulp_exp x)"
  have r: "rnd x = of_int ?k * 2 powi ?u" using False by (simp add: rnd_def)
  have u: "- 1074 \<le> ?u" by (simp add: ulp_exp_def)
  have "\<bar>x\<bar> < 2 powi (flog2 \<bar>x\<bar> + 1)" using False by (intro flog2_bounds) simp
  also have "\<dots> \<le> 2 powi (53 + ?u)" by (simp add: ulp_exp_def)
  also have "\<dots> = 2 powi 53 * 2 powi ?u" by (rule powi2_add)
  finally have "\<bar>x / 2 powi ?u\<bar> < 2 powi 53"
    by (simp add: abs_divide divide_less_eq)
  then have b: "\<bar>x / 2 powi ?u\<bar> \<le> of_int (2 ^ 53)" by (simp add: power_int_def)
  then have k: "\<bar>?k\<bar> \<le> 2 ^ 53"
    using reven_le [of "x / 2 powi ?u" "2 ^ 53"] reven_ge [of "- (2 ^ 53)" "x / 2 powi ?u"]
    using b by (simp only: abs_le_iff of_int_minus minus_le_iff simp_thms)
  show thesis
  proof (cases "\<bar>?k\<bar> = 2 ^ 53")
    case True
    then have "\<exists>m. ?k = 2 * m \<and> \<bar>m\<bar> < 2 ^ 53"
      by (intro exI [of _ "if 0 \<le> ?k then 4503599627370496 else - 4503599627370496"]) auto
    then obtain m where "?k = 2 * m" "\<bar>m\<bar> < 2 ^ 53" by blast
    with r u show thesis
      by (intro that [of m "?u + 1"]) (simp_all add: powi2_Suc)
  next
    case False
    with r u k show thesis by (intro that [of ?k ?u]) auto
  qed
qed

lemma is_dbl_rnd [simp]: "is_dbl (rnd x)"
  by (rule rnd_form [of x]) (rule is_dblI)

lemma is_dblE:
  assumes "is_dbl x"
  obtains m e where "x = of_int m * 2 powi e" "\<bar>m\<bar> < 2 ^ 53" "- 1074 \<le> e"
  using rnd_form [of x] assms by (auto simp: is_dbl_def)

text \<open>Scaling up by a power of two is exact.\<close>

lemma is_dbl_scale:
  assumes "is_dbl x" "0 \<le> k"
  shows "is_dbl (x * 2 powi k)"
proof -
  obtain m e where "x = of_int m * 2 powi e" "\<bar>m\<bar> < 2 ^ 53" "- 1074 \<le> e"
    using assms(1) by (rule is_dblE)
  with assms(2) show ?thesis by (intro is_dblI [of _ m "e + k"]) (simp_all add: powi2_add)
qed

lemma rnd_rnd [simp]: "rnd (rnd x) = rnd x"
  using is_dbl_rnd [of x] by (simp add: is_dbl_def)

lemma rnd_nonneg: "0 \<le> x \<Longrightarrow> 0 \<le> rnd x"
  by (simp add: rnd_def reven_ge)

text \<open>Rounding stays within the closed binade of its argument.\<close>

lemma rnd_binade:
  assumes "0 < x" and "- 1022 \<le> flog2 x"
  shows "2 powi flog2 x \<le> rnd x" and "rnd x \<le> 2 powi (flog2 x + 1)"
proof -
  have u: "ulp_exp x = flog2 x - 52" using assms by (simp add: ulp_exp_def)
  let ?u = "2 powi ulp_exp x :: rat"
  have e: "2 powi flog2 x = of_int (2 ^ 52) * ?u" "2 powi (flog2 x + 1) = of_int (2 ^ 53) * ?u"
    using powi2_52_add [of "flog2 x - 52"] powi2_53_add [of "flog2 x - 52"]
    unfolding u by (simp_all add: add.commute)
  have "of_int (2 ^ 52) \<le> x / ?u" "x / ?u \<le> of_int (2 ^ 53)"
    using flog2_bounds [OF assms(1)] unfolding e by (simp_all add: field_simps)
  then have "2 ^ 52 \<le> reven (x / ?u)" "reven (x / ?u) \<le> 2 ^ 53"
    by (auto intro: reven_ge reven_le)
  then have "of_int (2 ^ 52) * ?u \<le> of_int (reven (x / ?u)) * ?u"
    "of_int (reven (x / ?u)) * ?u \<le> of_int (2 ^ 53) * ?u"
    by (simp_all only: of_int_le_iff mult_right_mono powi2_nonneg)
  then show "2 powi flog2 x \<le> rnd x" "rnd x \<le> 2 powi (flog2 x + 1)"
    unfolding e rnd_def using assms(1) by simp_all
qed

lemma rnd_mono_pos:
  assumes "0 < x" and "x \<le> y"
  shows "rnd x \<le> rnd y"
proof (cases "ulp_exp x = ulp_exp y")
  case True
  have "reven (x / 2 powi ulp_exp y) \<le> reven (y / 2 powi ulp_exp y)"
    using assms by (intro reven_mono divide_right_mono) auto
  then show ?thesis using assms True by (simp add: rnd_def)
next
  case False
  with ulp_exp_mono [OF assms] flog2_mono [OF assms] assms
  have f: "flog2 x < flog2 y" and y: "- 1022 \<le> flog2 y" by (auto simp: ulp_exp_def)
  have "rnd x \<le> 2 powi flog2 y"
  proof (cases "- 1022 \<le> flog2 x")
    case True
    have "rnd x \<le> 2 powi (flog2 x + 1)" using assms(1) True by (rule rnd_binade)
    also have "\<dots> \<le> 2 powi flog2 y" using f by simp
    finally show ?thesis .
  next
    case False
    then have u: "ulp_exp x = - 1074" using assms by (simp add: ulp_exp_def)
    have "x < 2 powi (flog2 x + 1)" using assms(1) by (rule flog2_bounds)
    also have "\<dots> \<le> 2 powi (52 + - 1074)" using False by (simp only: powi2_le_iff)
    also have "\<dots> = 2 powi 52 * 2 powi (- 1074)" by (rule powi2_add)
    finally have "x / 2 powi (- 1074) \<le> of_int (2 ^ 52)"
      by (simp add: divide_le_eq power_int_def)
    then have "reven (x / 2 powi (- 1074)) \<le> 2 ^ 52" by (rule reven_le)
    then have "of_int (reven (x / 2 powi (- 1074))) * 2 powi (- 1074)
        \<le> (of_int (2 ^ 52) :: rat) * 2 powi (- 1074)"
      by (simp only: of_int_le_iff mult_right_mono powi2_nonneg)
    also have "\<dots> = 2 powi (52 + - 1074)" by (rule powi2_52_add [symmetric])
    also have "\<dots> \<le> 2 powi flog2 y" using y by (simp only: powi2_le_iff)
    finally show ?thesis using u assms(1) by (simp add: rnd_def)
  qed
  also have "\<dots> \<le> rnd y" using assms y by (intro rnd_binade) auto
  finally show ?thesis .
qed

lemma rnd_mono: "x \<le> y \<Longrightarrow> rnd x \<le> rnd y"
proof -
  assume le: "x \<le> y"
  consider "0 < x" | "x \<le> 0" "0 \<le> y" | "y < 0" by linarith
  then show ?thesis
  proof cases
    case 1
    then show ?thesis using le by (rule rnd_mono_pos)
  next
    case 2
    then show ?thesis using rnd_nonneg [of "- x"] rnd_nonneg [of y] by (simp add: rnd_minus)
  next
    case 3
    then show ?thesis using rnd_mono_pos [of "- y" "- x"] le by (simp add: rnd_minus)
  qed
qed

lemma rnd_err_powi:
  assumes "- 1021 \<le> k" and "\<bar>x\<bar> < 2 powi k"
  shows "\<bar>rnd x - x\<bar> \<le> 2 powi (k - 54)"
proof (cases "x = 0")
  case True
  then show ?thesis by simp
next
  case False
  have "2 powi flog2 \<bar>x\<bar> \<le> \<bar>x\<bar>" using False by (intro flog2_bounds) simp
  with assms(2) have "(2::rat) powi flog2 \<bar>x\<bar> < 2 powi k" by linarith
  with assms(1) have u: "ulp_exp x \<le> k - 53" by (simp add: ulp_exp_def)
  have "2 powi ulp_exp x / 2 \<le> (2::rat) powi (k - 53) / 2"
    using u by (intro divide_right_mono) simp_all
  also have "\<dots> = 2 powi (k - 54)" using powi2_add [of "k - 54" 1] by simp
  finally show ?thesis using rnd_err_ulp [of x] by linarith
qed

interpretation dbl: nearest_rounding rnd is_dbl "- 1021"
  by unfold_locales (auto simp: rnd_mono is_dbl_def intro: rnd_err_powi)

text \<open>Evaluation of \<open>rnd\<close> at a concrete value from its binade and nearest multiple.\<close>

lemma rnd_eval:
  assumes "2 powi e \<le> x" and "x < 2 powi (e + 1)" and "- 1022 \<le> e"
  shows "rnd x = of_int (reven (x / 2 powi (e - 52))) * 2 powi (e - 52)"
proof -
  have "0 < x" using assms(1) powi2_pos less_le_trans by blast
  moreover have "ulp_exp x = e - 52"
    using flog2_unique [OF assms(1,2)] assms(3) calculation by (simp add: ulp_exp_def)
  ultimately show ?thesis by (simp add: rnd_def)
qed

lemma is_dbl_ops [simp]:
  "is_dbl (fadd x y)" "is_dbl (fsub x y)" "is_dbl (fmul x y)" "is_dbl (fdiv x y)"
  by (simp_all add: fadd_def fsub_def fmul_def fdiv_def)

end
