(* ===== verification/World.thy ===== *)
theory World
  imports Double
begin

text \<open>
  The game rule constants (Constants.h), the actors and the world of one room, the spawn tables
  (Room.h) and the reset of a world (RoomManager.cpp). Coordinates are binary64 values; a
  literal whose decimal value is not a binary64 value is rounded, as the compiler does.
\<close>

section \<open>Constants.h\<close>

definition TICK_HZ :: rat where "TICK_HZ = 60"
definition TICK_DT :: rat where "TICK_DT = fdiv 1 60"
definition WORLD_W :: rat where "WORLD_W = 1600"
definition DEPTH_MIN :: rat where "DEPTH_MIN = 0"
definition DEPTH_MAX :: rat where "DEPTH_MAX = 165"
definition P_SPEED_X :: rat where "P_SPEED_X = 215"
definition P_SPEED_Y :: rat where "P_SPEED_Y = 132"
definition BODY_HALF_W :: rat where "BODY_HALF_W = 17"
definition BODY_HALF_D :: rat where "BODY_HALF_D = 9"
definition EXIT_ZONE_X :: rat where "EXIT_ZONE_X = fsub WORLD_W 200"

lemma EXIT_ZONE_X_value: "EXIT_ZONE_X = 1400"
proof -
  have "is_dbl 1400" by (rule is_dbl_numeral) simp
  then show ?thesis by (simp add: EXIT_ZONE_X_def WORLD_W_def fsub_def is_dbl_def)
qed

section \<open>Room.h: actors, worlds, spawn tables\<close>

definition kRoomMembers :: nat where "kRoomMembers = 4"
definition kSnapActors :: nat where "kSnapActors = 14"

lemma member_slot [simp]: "i < kRoomMembers \<Longrightarrow> i < kSnapActors"
  by (simp add: kRoomMembers_def kSnapActors_def)

record SimActor =
  a_present :: bool
  a_kind :: u8       \<comment> \<open>0 player, 1 orc\<close>
  a_state :: u8
  a_face :: i8
  a_x :: rat
  a_y :: rat
  a_hp :: i16

definition default_actor :: SimActor where
  "default_actor = \<lparr>a_present = False, a_kind = 0, a_state = 0, a_face = 1, a_x = 0, a_y = 0, a_hp = 0\<rparr>"

record SimWorld =
  w_tick :: u32
  w_actors :: "SimActor list"

definition kPlayerSpawn :: "(rat \<times> rat) list" where
  "kPlayerSpawn = [(180, 100), (140, 60), (220, 140), (100, 120)]"

definition kOrcSpawn :: "(rat \<times> rat) list" where
  "kOrcSpawn =
     [(520, 40), (700, 120), (980, 70), (1180, 140), (1330, 55),
      (620, 150), (840, 30), (1060, 110), (1240, 20), (1450, 125)]"

text \<open>\<open>ResetWorld\<close>: all slots to the default actor, then the ten orcs on slots 4 to 13.\<close>

definition spawn_orc :: "nat \<Rightarrow> SimActor \<Rightarrow> SimActor" where
  "spawn_orc i a = a\<lparr>a_present := True, a_kind := 1, a_x := fst (kOrcSpawn ! i),
     a_y := snd (kOrcSpawn ! i), a_face := - 1, a_hp := 3\<rparr>"

definition ResetWorld :: "SimWorld \<Rightarrow> SimWorld" where
  "ResetWorld w = w\<lparr>w_tick := 0,
     w_actors := fold (\<lambda>i. upd_at (kRoomMembers + i) (spawn_orc i)) [0..<10]
       (replicate kSnapActors default_actor)\<rparr>"

text \<open>The player actor placed on its spawn point, at join and after a room move.\<close>

definition spawn_player :: "nat \<Rightarrow> SimActor \<Rightarrow> SimActor" where
  "spawn_player i a = a\<lparr>a_present := True, a_kind := 0, a_state := 0, a_face := 1,
     a_x := fst (kPlayerSpawn ! i), a_y := snd (kPlayerSpawn ! i), a_hp := 10\<rparr>"

section \<open>Well-formed worlds\<close>

definition on_stage :: "SimActor \<Rightarrow> bool" where
  "on_stage a \<longleftrightarrow> 20 \<le> a_x a \<and> a_x a \<le> 1580 \<and> 0 \<le> a_y a \<and> a_y a \<le> 165"

definition dbl_actor :: "SimActor \<Rightarrow> bool" where
  "dbl_actor a \<longleftrightarrow> is_dbl (a_x a) \<and> is_dbl (a_y a)"

text \<open>
  A world of the server: 14 slots, binary64 coordinates, every present actor on the stage.
  A slot that has never been used still has the coordinates (0,0) of the default actor.
\<close>

definition world_ok :: "SimWorld \<Rightarrow> bool" where
  "world_ok w \<longleftrightarrow> length (w_actors w) = kSnapActors \<and>
     (\<forall>a\<in>set (w_actors w). dbl_actor a \<and> \<bar>a_x a\<bar> \<le> 1580 \<and> \<bar>a_y a\<bar> \<le> 165 \<and>
       (a_present a \<longrightarrow> on_stage a))"

lemma upt_10: "[0..<10] = [0, 1, 2, 3, 4, 5, 6, 7, 8, 9::nat]"
  by (simp add: upt_rec numeral_eq_Suc)

lemma ResetWorld_actors:
  "w_actors (ResetWorld w) = replicate 4 default_actor @ map (\<lambda>i. spawn_orc i default_actor) [0..<10]"
  by (simp add: ResetWorld_def upt_10 upd_at_def kRoomMembers_def kSnapActors_def numeral_eq_Suc)

lemma ResetWorld_tick [simp]: "w_tick (ResetWorld w) = 0"
  by (simp add: ResetWorld_def)

lemma is_dbl_1 [simp]: "is_dbl 1"
  using is_dbl_int [of 1] by simp

lemma world_ok_ResetWorld: "world_ok (ResetWorld w)"
  by (simp add: world_ok_def ResetWorld_actors kSnapActors_def upt_10 spawn_orc_def default_actor_def
      kOrcSpawn_def dbl_actor_def on_stage_def is_dbl_numeral)

lemma player_spawn_ok:
  assumes "i < kRoomMembers"
  shows "dbl_actor (spawn_player i a) \<and> on_stage (spawn_player i a)"
proof -
  from assms have "i = 0 \<or> i = 1 \<or> i = 2 \<or> i = 3" by (auto simp: kRoomMembers_def)
  then show ?thesis
    by (auto simp: spawn_player_def kPlayerSpawn_def dbl_actor_def on_stage_def is_dbl_numeral)
qed

lemma world_ok_upd:
  assumes "world_ok w" and "dbl_actor a" and "on_stage a"
  shows "world_ok (w\<lparr>w_actors := (w_actors w)[i := a]\<rparr>)"
proof -
  have "\<forall>b\<in>set ((w_actors w)[i := a]). b = a \<or> b \<in> set (w_actors w)"
    using set_update_subset_insert [of "w_actors w" i a] by auto
  then show ?thesis using assms by (fastforce simp: world_ok_def on_stage_def abs_le_iff)
qed

end
