(* ===== verification/Sim.thy ===== *)
theory Sim
  imports World
begin

text \<open>
  The deterministic simulation (Sim.cpp): player movement, pairwise body separation and the
  stage clamp of one tick, with the operation order of the source, every operation rounded.
\<close>

definition ST_IDLE :: u8 where "ST_IDLE = 0"
definition ST_WALK :: u8 where "ST_WALK = 1"

record SimInput =
  in_mx :: int
  in_my :: int

definition neutral_input :: SimInput where
  "neutral_input = \<lparr>in_mx = 0, in_my = 0\<rparr>"

section \<open>Player movement\<close>

text \<open>The literal \<open>0.7071067811865476\<close> as the compiler reads it.\<close>

definition DIAG :: rat where
  "DIAG = rnd (7071067811865476 / 10000000000000000)"

definition step_len :: "int \<Rightarrow> rat \<Rightarrow> rat \<Rightarrow> rat" where
  "step_len m speed k = fmul (fmul (fmul (of_int m) speed) TICK_DT) k"

definition move_player :: "SimInput \<Rightarrow> SimActor \<Rightarrow> SimActor" where
  "move_player inp p =
     (let mx = in_mx inp; my = in_my inp in
      if mx \<noteq> 0 \<or> my \<noteq> 0 then
        (let k = (if mx \<noteq> 0 \<and> my \<noteq> 0 then DIAG else 1)
         in p\<lparr>a_x := fadd (a_x p) (step_len mx P_SPEED_X k),
              a_y := fadd (a_y p) (step_len my P_SPEED_Y k),
              a_face := (if mx \<noteq> 0 then (if 0 < mx then 1 else - 1) else a_face p),
              a_state := ST_WALK\<rparr>)
      else p\<lparr>a_state := ST_IDLE\<rparr>)"

definition move_players :: "SimInput list \<Rightarrow> SimActor list \<Rightarrow> SimActor list" where
  "move_players inputs as =
     fold (\<lambda>i as. if a_present (as ! i) then upd_at i (move_player (inputs ! i)) as else as)
       [0..<kRoomMembers] as"

section \<open>Body separation\<close>

definition separate_pair :: "SimActor \<Rightarrow> SimActor \<Rightarrow> SimActor \<times> SimActor" where
  "separate_pair a b =
     (let dx = fsub (a_x b) (a_x a); dy = fsub (a_y b) (a_y a);
          ox = fsub (fmul BODY_HALF_W 2) \<bar>dx\<bar>;
          oy = fsub (fmul BODY_HALF_D 2) \<bar>dy\<bar>
      in if ox \<le> 0 \<or> oy \<le> 0 then (a, b)
         else if ox < oy then
           (let push = fmul (fmul (if 0 \<le> dx then 1 else - 1) ox) (1/2)
            in (a\<lparr>a_x := fsub (a_x a) push\<rparr>, b\<lparr>a_x := fadd (a_x b) push\<rparr>))
         else
           (let push = fmul (fmul (if 0 \<le> dy then 1 else - 1) oy) (1/2)
            in (a\<lparr>a_y := fsub (a_y a) push\<rparr>, b\<lparr>a_y := fadd (a_y b) push\<rparr>)))"

definition separate_at :: "nat \<Rightarrow> nat \<Rightarrow> SimActor list \<Rightarrow> SimActor list" where
  "separate_at i j as =
     (let ab = separate_pair (as ! i) (as ! j) in as[i := fst ab, j := snd ab])"

definition separate :: "SimActor list \<Rightarrow> SimActor list" where
  "separate as =
     fold (\<lambda>i as.
         if a_present (as ! i) then
           fold (\<lambda>j as. if a_present (as ! j) then separate_at i j as else as)
             [Suc i..<kSnapActors] as
         else as)
       [0..<kSnapActors] as"

section \<open>Stage bounds and the tick\<close>

definition clampd :: "rat \<Rightarrow> rat \<Rightarrow> rat \<Rightarrow> rat" where
  "clampd v lo hi = (if v < lo then lo else if hi < v then hi else v)"

definition clamp_actor :: "SimActor \<Rightarrow> SimActor" where
  "clamp_actor a = a\<lparr>a_x := clampd (a_x a) 20 (fsub WORLD_W 20),
                     a_y := clampd (a_y a) DEPTH_MIN DEPTH_MAX\<rparr>"

definition SimStep :: "SimWorld \<Rightarrow> SimInput list \<Rightarrow> SimWorld" where
  "SimStep w inputs =
     w\<lparr>w_actors := map clamp_actor (separate (move_players inputs (w_actors w)))\<rparr>"

section \<open>The separation pass as one fold over pairs\<close>

definition actor_pairs :: "(nat \<times> nat) list" where
  "actor_pairs = concat (map (\<lambda>i. map (Pair i) [Suc i..<kSnapActors]) [0..<kSnapActors])"

definition separate_if :: "nat \<times> nat \<Rightarrow> SimActor list \<Rightarrow> SimActor list" where
  "separate_if = (\<lambda>(i, j) as.
     if a_present (as ! i) \<and> a_present (as ! j) then separate_at i j as else as)"

lemma actor_pairs_less: "(i, j) \<in> set actor_pairs \<Longrightarrow> i < j \<and> j < kSnapActors"
  by (auto simp: actor_pairs_def)

lemma length_actor_pairs: "length actor_pairs = 91"
  by (simp add: actor_pairs_def kSnapActors_def upt_rec length_concat numeral_eq_Suc)

lemma separate_pair_present [simp]:
  "a_present (fst (separate_pair a b)) = a_present a"
  "a_present (snd (separate_pair a b)) = a_present b"
  by (auto simp: separate_pair_def Let_def)

lemma length_separate_at [simp]: "length (separate_at i j as) = length as"
  by (simp add: separate_at_def Let_def)

lemma separate_at_present [simp]:
  "i < length as \<Longrightarrow> j < length as \<Longrightarrow> a_present (separate_at i j as ! k) = a_present (as ! k)"
  by (auto simp: separate_at_def Let_def nth_list_update)

lemma length_separate_if [simp]: "length (separate_if p as) = length as"
  by (simp add: separate_if_def split: prod.split)

lemma fold_separate_row:
  assumes "i < length as" and "\<forall>j\<in>set js. j < length as"
  shows "fold separate_if (map (Pair i) js) as =
     (if a_present (as ! i) then
        fold (\<lambda>j as. if a_present (as ! j) then separate_at i j as else as) js as
      else as)"
  using assms
proof (induction js arbitrary: as)
  case Nil
  then show ?case by simp
next
  case (Cons j js)
  then show ?case by (simp add: separate_if_def)
qed

lemma separate_fold:
  assumes "length as = kSnapActors"
  shows "separate as = fold separate_if actor_pairs as"
proof -
  have "fold (\<lambda>i as. if a_present (as ! i) then
           fold (\<lambda>j as. if a_present (as ! j) then separate_at i j as else as) [Suc i..<kSnapActors] as
         else as) is as
      = fold separate_if (concat (map (\<lambda>i. map (Pair i) [Suc i..<kSnapActors]) is)) as"
    if "\<forall>i\<in>set is. i < kSnapActors" for "is"
    using that assms
  proof (induction "is" arbitrary: as)
    case Nil
    then show ?case by simp
  next
    case (Cons i "is")
    have row: "fold separate_if (map (Pair i) [Suc i..<kSnapActors]) as =
        (if a_present (as ! i) then
           fold (\<lambda>j as. if a_present (as ! j) then separate_at i j as else as) [Suc i..<kSnapActors] as
         else as)"
      using Cons.prems by (intro fold_separate_row) auto
    have len: "length (fold separate_if ps as) = kSnapActors" for ps
      using Cons.prems(2) by (induction ps arbitrary: as) auto
    show ?case
      using Cons.IH [OF _ len [of "map (Pair i) [Suc i..<kSnapActors]"]] Cons.prems(1)
      by (simp add: row)
  qed
  then show ?thesis by (simp add: separate_def actor_pairs_def)
qed

text \<open>
  Induction over the two loops: what each single movement and each single separation keeps,
  the whole pass keeps.
\<close>

lemma separate_induct:
  assumes "length as = kSnapActors" and "P as"
    and "\<And>i j as. i < j \<Longrightarrow> j < kSnapActors \<Longrightarrow> length as = kSnapActors \<Longrightarrow> P as \<Longrightarrow>
           a_present (as ! i) \<Longrightarrow> a_present (as ! j) \<Longrightarrow> P (separate_at i j as)"
  shows "length (separate as) = kSnapActors \<and> P (separate as)"
  unfolding separate_fold [OF assms(1)]
proof (rule fold_invariant [where Q = "\<lambda>p. p \<in> set actor_pairs"])
  show "length as = kSnapActors \<and> P as" using assms by simp
  fix p as assume p: "p \<in> set actor_pairs" and as: "length as = kSnapActors \<and> P as"
  obtain i j where ij: "p = (i, j)" by (cases p)
  with p have "i < j" "j < kSnapActors" using actor_pairs_less by blast+
  with as assms(3) show "length (separate_if p as) = kSnapActors \<and> P (separate_if p as)"
    by (simp add: separate_if_def ij)
qed simp

lemma move_players_induct:
  assumes "length as = kSnapActors" and "P as"
    and "\<And>i as. i < kRoomMembers \<Longrightarrow> length as = kSnapActors \<Longrightarrow> P as \<Longrightarrow> a_present (as ! i) \<Longrightarrow>
           P (upd_at i (move_player (inputs ! i)) as)"
  shows "length (move_players inputs as) = kSnapActors \<and> P (move_players inputs as)"
  unfolding move_players_def
  by (rule fold_invariant [where Q = "\<lambda>i. i < kRoomMembers"]) (use assms in auto)

section \<open>Sizes of the rounded quantities\<close>

lemma fmul_minus: "fmul (- x) y = - fmul x y"
  by (simp add: fmul_def rnd_minus)

lemma step_len_minus: "step_len (- m) s k = - step_len m s k"
  by (simp add: step_len_def fmul_minus)

lemma is_dbl_frac16: "\<bar>m\<bar> < 2 ^ 53 \<Longrightarrow> is_dbl (of_int m / 65536)"
  by (rule is_dblI [of _ m "- 16"]) (simp_all add: power_int_def field_simps)

lemma TICK_DT_bounds: "1092 / 65536 \<le> TICK_DT" "TICK_DT \<le> 1093 / 65536"
proof -
  have r: "is_dbl (1092 / 65536)" "is_dbl (1093 / 65536)"
    using is_dbl_frac16 [of 1092] is_dbl_frac16 [of 1093] by simp_all
  show "1092 / 65536 \<le> TICK_DT" "TICK_DT \<le> 1093 / 65536"
    unfolding TICK_DT_def fdiv_def by (intro dbl.rd_ge dbl.rd_le r; simp)+
qed

lemma DIAG_bounds: "0 \<le> DIAG" "DIAG \<le> 1"
  unfolding DIAG_def by (auto intro!: dbl.rd_ge dbl.rd_le)

text \<open>The length of one step along one axis, for a non-negative input and an integral speed.\<close>

lemma step_len_bounds:
  assumes "0 \<le> m" "m \<le> 128" "0 \<le> s" "s \<le> 1000" "0 \<le> k" "k \<le> 1"
  shows "0 \<le> step_len m (of_int s) k"
    and "step_len m (of_int s) k \<le> of_int (m * s * 1093) / 65536"
    and "k = 1 \<Longrightarrow> of_int (m * s * 1092) / 65536 \<le> step_len m (of_int s) k"
proof -
  have ms: "0 \<le> m * s" "m * s \<le> 128 * 1000"
    using assms mult_mono [of m 128 s 1000] by simp_all
  let ?d = "fmul (fmul (of_int m) (of_int s)) TICK_DT"
  have p: "fmul (of_int m) (of_int s) = of_int (m * s)"
    using ms is_dbl_int [of "m * s"] by (simp add: fmul_def is_dbl_def)
  have msr: "(0::rat) \<le> of_int (m * s)" using ms(1) by (simp only: of_int_0_le_iff)
  have b: "of_int (m * s) * (1092 / 65536) \<le> of_int (m * s) * TICK_DT"
    "of_int (m * s) * TICK_DT \<le> of_int (m * s) * (1093 / 65536)"
    by (rule mult_left_mono [OF TICK_DT_bounds(1) msr] mult_left_mono [OF TICK_DT_bounds(2) msr])+
  have r: "is_dbl (of_int (m * s * 1092) / 65536)" "is_dbl (of_int (m * s * 1093) / 65536)"
    using ms is_dbl_frac16 [of "m * s * 1092"] is_dbl_frac16 [of "m * s * 1093"]
    by (simp_all add: abs_mult del: of_int_mult)
  have d: "of_int (m * s * 1092) / 65536 \<le> ?d" "?d \<le> of_int (m * s * 1093) / 65536"
    unfolding fmul_def [of _ TICK_DT] p using b
    by (intro dbl.rd_ge dbl.rd_le r; simp only: of_int_mult [of _ 1092] of_int_mult [of _ 1093]
        times_divide_eq_right of_int_numeral)+
  have "(0::rat) \<le> of_int (m * s * 1092) / 65536" using msr by simp
  with d have d0: "0 \<le> ?d" by linarith
  have k: "0 \<le> ?d * k" "?d * k \<le> ?d"
    using assms d0 mult_left_le [of k ?d] by auto
  show "0 \<le> step_len m (of_int s) k" "step_len m (of_int s) k \<le> of_int (m * s * 1093) / 65536"
    unfolding step_len_def fmul_def [of _ k] using k d
    by (intro dbl.rd_ge dbl.rd_le r is_dbl_0; linarith)+
  show "of_int (m * s * 1092) / 65536 \<le> step_len m (of_int s) k" if "k = 1"
    unfolding step_len_def fmul_def [of _ k] using that d by (intro dbl.rd_ge r) simp
qed

lemma step_len_abs:
  assumes "\<bar>m\<bar> \<le> 128" "0 \<le> s" "s \<le> 1000" "0 \<le> k" "k \<le> 1"
  shows "\<bar>step_len m (of_int s) k\<bar> \<le> of_int (\<bar>m\<bar> * s * 1093) / 65536"
proof (cases "0 \<le> m")
  case True
  with step_len_bounds [of m s k] assms show ?thesis by simp
next
  case False
  with step_len_bounds [of "- m" s k] assms show ?thesis by (simp add: step_len_minus)
qed

lemma P_SPEED_of_int: "P_SPEED_X = of_int 215" "P_SPEED_Y = of_int 132"
  by (simp_all add: P_SPEED_X_def P_SPEED_Y_def)

section \<open>Magnitudes during a tick\<close>

definition sized :: "int \<Rightarrow> SimActor list \<Rightarrow> bool" where
  "sized B as \<longleftrightarrow> list_all (\<lambda>a. dbl_actor a \<and> \<bar>a_x a\<bar> \<le> of_int B \<and> \<bar>a_y a\<bar> \<le> of_int B) as"

lemma sized_mono: "sized B as \<Longrightarrow> B \<le> C \<Longrightarrow> sized C as"
  unfolding sized_def list_all_iff by (meson of_int_le_iff order_trans)

lemma sized_nth: "sized B as \<Longrightarrow> i < length as \<Longrightarrow>
    dbl_actor (as ! i) \<and> \<bar>a_x (as ! i)\<bar> \<le> of_int B \<and> \<bar>a_y (as ! i)\<bar> \<le> of_int B"
  by (simp add: sized_def list_all_iff)

lemma sized_update:
  "sized B as \<Longrightarrow> dbl_actor a \<Longrightarrow> \<bar>a_x a\<bar> \<le> of_int B \<Longrightarrow> \<bar>a_y a\<bar> \<le> of_int B \<Longrightarrow> sized B (as[i := a])"
  using set_update_subset_insert [of as i a] unfolding sized_def list_all_iff by blast

lemma abs_round_add:
  assumes "\<bar>x\<bar> \<le> of_int B" "\<bar>p\<bar> \<le> of_int d" "B + d < 2 ^ 53" "0 \<le> B" "0 \<le> d"
  shows "\<bar>fadd x p\<bar> \<le> of_int (B + d)" "\<bar>fsub x p\<bar> \<le> of_int (B + d)"
proof -
  have "is_dbl (of_int (B + d))"
    using is_dbl_int [of "B + d"] assms by simp
  then have r: "is_dbl (of_int (B + d))" "is_dbl (- of_int (B + d))"
    by (simp_all only: is_dbl_minus)
  show "\<bar>fadd x p\<bar> \<le> of_int (B + d)" "\<bar>fsub x p\<bar> \<le> of_int (B + d)"
    unfolding fadd_def fsub_def using assms
    by (intro dbl.rd_abs_le r; simp add: abs_le_iff)+
qed

lemma push_size:
  assumes "h = 17 \<or> h = 9"
  shows "abs (fmul (fmul (if c then 1 else - 1) (fsub (fmul h 2) (abs d))) (1/2)) \<le> of_int 17
     \<or> fsub (fmul h 2) (abs d) \<le> 0"
proof (cases "fsub (fmul h 2) (abs d) \<le> 0")
  case False
  let ?o = "fsub (fmul h 2) (abs d)"
  have h: "fmul h 2 = h * 2" "h * 2 \<le> 34"
    using assms is_dbl_numeral [of "Num.Bit0 (num.Bit1 (num.Bit0 (num.Bit0 (num.Bit0 num.One))))"]
      is_dbl_numeral [of "Num.Bit0 (num.Bit1 (num.Bit0 (num.Bit0 num.One)))"]
    by (auto simp: fmul_def is_dbl_def)
  have 34: "is_dbl 34" "is_dbl (- 34)" and 17: "is_dbl (of_int 17)" "is_dbl (- of_int 17)"
    by (simp_all add: is_dbl_numeral)
  have o: "\<bar>?o\<bar> \<le> 34"
    using False h unfolding fsub_def by (auto intro!: dbl.rd_le 34)
  then have "\<bar>fmul (if c then 1 else - 1) ?o\<bar> \<le> 34"
    unfolding fmul_def [of "if c then 1 else - 1"] by (intro dbl.rd_abs_le 34) auto
  then have "\<bar>fmul (fmul (if c then 1 else - 1) ?o) (1/2)\<bar> \<le> of_int 17"
    unfolding fmul_def [of _ "1/2"] by (intro dbl.rd_abs_le 17) (simp add: abs_mult)
  then show ?thesis by simp
qed simp

text \<open>The three outcomes of a separation: nothing, or a push of at most 17 along one axis.\<close>

lemma separate_pair_cases:
  obtains (apart) "separate_pair a b = (a, b)"
  | (push_x) p where "\<bar>p\<bar> \<le> of_int 17"
      "separate_pair a b = (a\<lparr>a_x := fsub (a_x a) p\<rparr>, b\<lparr>a_x := fadd (a_x b) p\<rparr>)"
  | (push_y) p where "\<bar>p\<bar> \<le> of_int 17"
      "separate_pair a b = (a\<lparr>a_y := fsub (a_y a) p\<rparr>, b\<lparr>a_y := fadd (a_y b) p\<rparr>)"
proof -
  let ?dx = "fsub (a_x b) (a_x a)" and ?dy = "fsub (a_y b) (a_y a)"
  let ?ox = "fsub (fmul BODY_HALF_W 2) (abs ?dx)" and ?oy = "fsub (fmul BODY_HALF_D 2) (abs ?dy)"
  let ?px = "fmul (fmul (if 0 \<le> ?dx then 1 else - 1) ?ox) (1/2)"
  let ?py = "fmul (fmul (if 0 \<le> ?dy then 1 else - 1) ?oy) (1/2)"
  consider "?ox \<le> 0 \<or> ?oy \<le> 0" | "\<not> ?ox \<le> 0" "\<not> ?oy \<le> 0" "?ox < ?oy"
    | "\<not> ?ox \<le> 0" "\<not> ?oy \<le> 0" "\<not> ?ox < ?oy" by blast
  then show thesis
  proof cases
    case 1
    then show thesis by (intro apart) (simp add: separate_pair_def Let_def)
  next
    case 2
    have "abs ?px \<le> of_int 17"
      using push_size [of BODY_HALF_W "0 \<le> ?dx" ?dx] 2(1) by (auto simp: BODY_HALF_W_def)
    with 2 show thesis by (intro push_x [of ?px]) (simp_all add: separate_pair_def Let_def)
  next
    case 3
    have "abs ?py \<le> of_int 17"
      using push_size [of BODY_HALF_D "0 \<le> ?dy" ?dy] 3(2) by (auto simp: BODY_HALF_D_def)
    with 3 show thesis by (intro push_y [of ?py]) (simp_all add: separate_pair_def Let_def)
  qed
qed

lemma separate_at_sized:
  assumes "sized B as" "i < length as" "j < length as" "0 \<le> B" "B + 17 < 2 ^ 53"
  shows "sized (B + 17) (separate_at i j as)"
proof -
  have up: "sized (B + 17) as" using assms(1) by (rule sized_mono) simp
  note a = sized_nth [OF assms(1,2)] sized_nth [OF up assms(2)]
  note b = sized_nth [OF assms(1,3)] sized_nth [OF up assms(3)]
  note add = abs_round_add [where d = 17, OF _ _ assms(5,4), unfolded of_int_add, simplified]
  show ?thesis
  proof (cases "as ! i" "as ! j" rule: separate_pair_cases)
    case apart
    then show ?thesis using up by (simp add: separate_at_def)
  next
    case (push_x p)
    then show ?thesis unfolding separate_at_def Let_def push_x(2) fst_conv snd_conv
      using a b by (intro sized_update up) (auto simp: dbl_actor_def intro: add)
  next
    case (push_y p)
    then show ?thesis unfolding separate_at_def Let_def push_y(2) fst_conv snd_conv
      using a b by (intro sized_update up) (auto simp: dbl_actor_def intro: add)
  qed
qed

lemma separate_prefix_sized:
  assumes "sized B as" "length as = kSnapActors" "0 \<le> B" "B + 17 * int (length ps) < 2 ^ 53"
    "set ps \<subseteq> set actor_pairs"
  shows "sized (B + 17 * int (length ps)) (fold separate_if ps as)"
  using assms
proof (induction ps arbitrary: B as)
  case Nil
  then show ?case by simp
next
  case (Cons p ps)
  obtain i j where p: "p = (i, j)" by (cases p)
  with Cons.prems(5) have "i < kSnapActors" "j < kSnapActors"
    using actor_pairs_less [of i j] by auto
  then have "sized (B + 17) (separate_if p as)"
    using Cons.prems unfolding p separate_if_def
    by (auto intro!: separate_at_sized intro: sized_mono)
  from Cons.IH [OF this] Cons.prems show ?case by (simp add: algebra_simps)
qed

end
