(* ===== verification/Sim_Props.thy ===== *)
theory Sim_Props
  imports Sim
begin

text \<open>
  What one tick of the simulation guarantees: the stage bounds, the well-formedness of the
  world, the effect of a separation, the step length, the range of every intermediate
  coordinate, and the independence of the result from empty slots.
\<close>

section \<open>Frame lemmas\<close>

lemma stage_right: "fsub WORLD_W 20 = 1580"
proof -
  have "is_dbl 1580" by (rule is_dbl_numeral) simp
  then show ?thesis by (simp add: fsub_def WORLD_W_def is_dbl_def)
qed

lemma clampd_range: "lo \<le> hi \<Longrightarrow> lo \<le> clampd v lo hi \<and> clampd v lo hi \<le> hi"
  by (simp add: clampd_def)

lemma clampd_inside: "lo \<le> v \<Longrightarrow> v \<le> hi \<Longrightarrow> clampd v lo hi = v"
  by (simp add: clampd_def)

lemma on_stage_clamp: "on_stage (clamp_actor a)"
  using clampd_range [of 20 1580 "a_x a"] clampd_range [of 0 165 "a_y a"]
  by (simp add: on_stage_def clamp_actor_def stage_right DEPTH_MIN_def DEPTH_MAX_def)

lemma clamp_on_stage: "on_stage a \<Longrightarrow> clamp_actor a = a"
  by (simp add: on_stage_def clamp_actor_def stage_right DEPTH_MIN_def DEPTH_MAX_def clampd_inside)

lemma clamp_dbl: "dbl_actor a \<Longrightarrow> dbl_actor (clamp_actor a)"
  by (auto simp: dbl_actor_def clamp_actor_def clampd_def stage_right DEPTH_MIN_def DEPTH_MAX_def
      is_dbl_numeral)

text \<open>The fields of an actor that the tick never writes.\<close>

definition identity :: "SimActor \<Rightarrow> bool \<times> u8 \<times> i16" where
  "identity a = (a_present a, a_kind a, a_hp a)"

lemma identity_separate_pair [simp]:
  "identity (fst (separate_pair a b)) = identity a"
  "identity (snd (separate_pair a b)) = identity b"
  by (cases a b rule: separate_pair_cases; simp add: identity_def)+

lemma identity_move [simp]: "identity (move_player inp a) = identity a"
  by (simp add: identity_def move_player_def Let_def)

lemma identity_clamp [simp]: "identity (clamp_actor a) = identity a"
  by (simp add: identity_def clamp_actor_def)

lemma map_upd_same: "i < length xs \<Longrightarrow> f v = f (xs ! i) \<Longrightarrow> map f (xs[i := v]) = map f xs"
  by (metis list_update_id map_update)

lemma identity_separate_at:
  "i < length as \<Longrightarrow> j < length as \<Longrightarrow> i \<noteq> j \<Longrightarrow> map identity (separate_at i j as) = map identity as"
  by (simp add: separate_at_def Let_def map_upd_same)

lemma SimStep_length: "length (w_actors w) = kSnapActors \<Longrightarrow> length (w_actors (SimStep w ins)) = kSnapActors"
  using move_players_induct [of "w_actors w" "\<lambda>_. True" ins]
    separate_induct [of "move_players ins (w_actors w)" "\<lambda>_. True"]
  by (simp add: SimStep_def)

text \<open>What every movement, separation and clamp keeps, the tick keeps.\<close>

lemma SimStep_induct:
  assumes "length (w_actors w) = kSnapActors" and "P (w_actors w)"
    and "\<And>i as. i < kRoomMembers \<Longrightarrow> length as = kSnapActors \<Longrightarrow> P as \<Longrightarrow> a_present (as ! i) \<Longrightarrow>
           P (upd_at i (move_player (ins ! i)) as)"
    and "\<And>i j as. i < j \<Longrightarrow> j < kSnapActors \<Longrightarrow> length as = kSnapActors \<Longrightarrow> P as \<Longrightarrow>
           a_present (as ! i) \<Longrightarrow> a_present (as ! j) \<Longrightarrow> P (separate_at i j as)"
    and "\<And>as. length as = kSnapActors \<Longrightarrow> P as \<Longrightarrow> P (map clamp_actor as)"
  shows "P (w_actors (SimStep w ins))"
proof -
  have m: "length (move_players ins (w_actors w)) = kSnapActors \<and> P (move_players ins (w_actors w))"
    by (rule move_players_induct [where P = P, OF assms(1,2)]) (rule assms(3))
  then have "length (separate (move_players ins (w_actors w))) = kSnapActors
      \<and> P (separate (move_players ins (w_actors w)))"
    by (intro separate_induct) (auto intro: assms(4))
  then show ?thesis by (simp add: SimStep_def assms(5))
qed

section \<open>Stage bounds and well-formedness\<close>

lemma SimStep_on_stage: "list_all on_stage (w_actors (SimStep w inputs))"
  by (simp add: SimStep_def list.pred_map on_stage_clamp list_all_iff)

text \<open>C23. After a tick every one of the actors, whatever the world and the inputs were, stands
  inside the stage: x between 20 and 1580 and depth between 0 and 165.\<close>

theorem sim_step_on_stage: "list_all on_stage (w_actors (SimStep w inputs))"
  by (rule SimStep_on_stage)

lemma dbl_move: "dbl_actor a \<Longrightarrow> dbl_actor (move_player inp a)"
  by (simp add: dbl_actor_def move_player_def Let_def)

lemma dbl_separate_pair:
  "dbl_actor a \<Longrightarrow> dbl_actor b \<Longrightarrow> dbl_actor (fst (separate_pair a b)) \<and> dbl_actor (snd (separate_pair a b))"
  by (cases a b rule: separate_pair_cases) (simp_all add: dbl_actor_def)

lemma list_all_update: "list_all P xs \<Longrightarrow> P v \<Longrightarrow> list_all P (xs[i := v])"
  using set_update_subset_insert [of xs i v] by (auto simp: list_all_iff)

lemma list_all_nth: "list_all P xs \<Longrightarrow> i < length xs \<Longrightarrow> P (xs ! i)"
  by (simp add: list_all_iff)

lemma SimStep_dbl:
  assumes "length (w_actors w) = kSnapActors" and "list_all dbl_actor (w_actors w)"
  shows "list_all dbl_actor (w_actors (SimStep w ins))"
proof (rule SimStep_induct [where P = "list_all dbl_actor", OF assms])
  fix i as assume "i < kRoomMembers" "length as = kSnapActors" "list_all dbl_actor as"
  then show "list_all dbl_actor (upd_at i (move_player (ins ! i)) as)"
    unfolding upd_at_def
    by (auto intro!: list_all_update dbl_move list_all_nth [of dbl_actor])
next
  fix i j as assume "i < j" "j < kSnapActors" "length as = kSnapActors" "list_all dbl_actor as"
  then show "list_all dbl_actor (separate_at i j as)"
    using dbl_separate_pair [of "as ! i" "as ! j"] unfolding separate_at_def Let_def
    by (auto intro!: list_all_update simp: list_all_nth)
next
  fix as assume "list_all dbl_actor as"
  then show "list_all dbl_actor (map clamp_actor as)" by (simp add: list_all_iff clamp_dbl)
qed

text \<open>C22. A tick keeps the world well formed: it still has 14 slots, every coordinate is a
  binary64 value inside the stage, and the tick counter, the presence, the kind and the hit
  points of every slot are what they were.\<close>

theorem sim_step_world_ok:
  assumes "world_ok w"
  shows "world_ok (SimStep w inputs) \<and> w_tick (SimStep w inputs) = w_tick w
    \<and> map identity (w_actors (SimStep w inputs)) = map identity (w_actors w)"
proof (intro conjI)
  have len: "length (w_actors w) = kSnapActors" and d: "list_all dbl_actor (w_actors w)"
    using assms by (auto simp: world_ok_def list_all_iff)
  show "world_ok (SimStep w inputs)"
    using SimStep_on_stage [of w inputs] SimStep_dbl [OF len d, of inputs] SimStep_length [OF len, of inputs]
    unfolding world_ok_def list_all_iff by (fastforce simp: on_stage_def abs_le_iff)
  show "w_tick (SimStep w inputs) = w_tick w" by (simp add: SimStep_def)
  show "map identity (w_actors (SimStep w inputs)) = map identity (w_actors w)"
    by (rule SimStep_induct [OF len, where P = "\<lambda>as. map identity as = map identity (w_actors w)"])
      (auto simp: upd_at_def map_upd_same identity_separate_at comp_def)
qed

theorem sim_step_world_ok_witness:
  "world_ok (SimStep (ResetWorld \<lparr>w_tick = 5, w_actors = []\<rparr>) (replicate 4 neutral_input))"
  using sim_step_world_ok [OF world_ok_ResetWorld] by simp

section \<open>Separation\<close>

definition eps40 :: rat where "eps40 = 1 / 2 ^ 40"

lemma eps40_bounds: "0 < eps40" "eps40 \<le> 1"
  by (simp_all add: eps40_def)

lemma round_near:
  assumes "\<bar>z\<bar> \<le> 8192"
  shows "\<bar>rnd z - z\<bar> \<le> eps40"
proof (rule dbl.rd_err_le)
  show "- 1021 \<le> (14::int)" by simp
  show "\<bar>z\<bar> < 2 powi 14" using assms by (simp add: power_int_def)
  have "(2::rat) powi (14 - 54) = eps40"
    by (simp add: eps40_def power_int_def power_one_over inverse_eq_divide)
  then show "(2::rat) powi (14 - 54) \<le> eps40" by simp
qed

text \<open>Along one axis: the two bodies end up a full body apart, up to the rounding error.\<close>

lemma push_gap:
  fixes x y H d ov p :: rat
  assumes xy: "\<bar>x\<bar> \<le> 4000" "\<bar>y\<bar> \<le> 4000" and H: "0 \<le> H" "H \<le> 34"
    and d: "d = fsub y x" and ov: "ov = fsub H (abs d)" "0 < ov"
    and p: "p = fmul (fmul (if 0 \<le> d then 1 else - 1) ov) (1/2)" and p17: "\<bar>p\<bar> \<le> 17"
  shows "H - 8 * eps40 \<le> abs (fadd y p - fsub x p)"
proof -
  define s :: rat where "s = (if 0 \<le> d then 1 else - 1)"
  have e0: "\<bar>d - (y - x)\<bar> \<le> eps40" unfolding d fsub_def
    using xy by (intro round_near) (simp add: abs_le_iff)
  have "\<bar>y - x\<bar> \<le> 8000" using xy by (simp add: abs_le_iff)
  with e0 eps40_bounds(2) have d8: "\<bar>d\<bar> \<le> 8001" by linarith
  then have "abs (H - abs d) \<le> 8192"
    using H abs_ge_zero [of d] by (intro abs_leI) (simp_all del: abs_ge_zero)
  then have e1: "abs (ov - (H - abs d)) \<le> eps40" unfolding ov(1) fsub_def
    by (rule round_near)
  have so: "fmul s ov = s * ov"
    using is_dbl_ops(2) [of H "abs d"] unfolding ov(1) [symmetric]
    by (simp add: fmul_def s_def is_dbl_def rnd_minus)
  have ov8: "\<bar>ov\<bar> \<le> 8192"
    using e1 ov(2) H eps40_bounds(2) abs_ge_zero [of d] by (simp add: abs_le_iff del: abs_ge_zero)
  have ep: "\<bar>p - s * ov / 2\<bar> \<le> eps40"
    unfolding p s_def [symmetric] so unfolding fmul_def
    using ov8 round_near [of "s * ov * (1/2)"] by (simp add: s_def split: if_splits)
  have ey: "\<bar>fadd y p - (y + p)\<bar> \<le> eps40" and ex: "\<bar>fsub x p - (x - p)\<bar> \<le> eps40"
    unfolding fadd_def fsub_def using xy p17 by (intro round_near; simp add: abs_le_iff)+
  define Y X where "Y = fadd y p" and "X = fsub x p"
  have "s = 1 \<and> abs d = d \<or> s = - 1 \<and> abs d = - d" by (auto simp: s_def)
  then have "H - 8 * eps40 \<le> Y - X \<or> H - 8 * eps40 \<le> X - Y"
    using e0 e1 ep ey ex eps40_bounds(1) unfolding Y_def [symmetric] X_def [symmetric] abs_le_iff
    by (elim disjE conjE) (simp_all add: field_simps)
  then show ?thesis unfolding Y_def [symmetric] X_def [symmetric] by linarith
qed

text \<open>Separation works: whenever two bodies inside the arena overlap on both axes, the pair
  that comes out is a whole body width (34) apart across or a whole body depth (18) apart in
  depth, up to an accumulated rounding error of \<open>2^-37\<close> pixels; bodies that do not
  overlap are not moved. The other fields of both bodies are untouched.\<close>

theorem separation_clears_overlap:
  assumes "\<bar>a_x a\<bar> \<le> 4000" "\<bar>a_y a\<bar> \<le> 4000" "\<bar>a_x b\<bar> \<le> 4000" "\<bar>a_y b\<bar> \<le> 4000"
    and "separate_pair a b = (a', b')"
  shows "if 0 < fsub 34 (abs (fsub (a_x b) (a_x a))) \<and> 0 < fsub 18 (abs (fsub (a_y b) (a_y a)))
     then 34 - 8 * eps40 \<le> abs (a_x b' - a_x a') \<or> 18 - 8 * eps40 \<le> abs (a_y b' - a_y a')
     else a' = a \<and> b' = b"
proof -
  let ?dx = "fsub (a_x b) (a_x a)" and ?dy = "fsub (a_y b) (a_y a)"
  have w: "fmul BODY_HALF_W 2 = 34" "fmul BODY_HALF_D 2 = 18"
    using is_dbl_int [of 34] is_dbl_int [of 18]
    by (simp_all add: fmul_def BODY_HALF_W_def BODY_HALF_D_def is_dbl_def)
  let ?ox = "fsub 34 (abs ?dx)" and ?oy = "fsub 18 (abs ?dy)"
  have px: "abs (fmul (fmul (if 0 \<le> ?dx then 1 else - 1) ?ox) (1/2)) \<le> 17" if "0 < ?ox"
    using that push_size [of 17 "0 \<le> ?dx" ?dx] w(1) by (auto simp: BODY_HALF_W_def)
  have py: "abs (fmul (fmul (if 0 \<le> ?dy then 1 else - 1) ?oy) (1/2)) \<le> 17" if "0 < ?oy"
    using that push_size [of 9 "0 \<le> ?dy" ?dy] w(2) by (auto simp: BODY_HALF_D_def)
  consider "\<not> (0 < ?ox \<and> 0 < ?oy)" | "0 < ?ox" "0 < ?oy" "?ox < ?oy" | "0 < ?ox" "0 < ?oy" "\<not> ?ox < ?oy"
    by blast
  then show ?thesis
  proof cases
    case 1
    then show ?thesis using assms(5) by (auto simp: separate_pair_def Let_def w not_less)
  next
    case 2
    then have "34 - 8 * eps40 \<le> abs (a_x b' - a_x a')"
      using push_gap [OF assms(1,3) _ _ refl refl 2(1) refl px] assms(5)
      by (auto simp: separate_pair_def Let_def w)
    with 2 show ?thesis by simp
  next
    case 3
    then have "18 - 8 * eps40 \<le> abs (a_y b' - a_y a')"
      using push_gap [OF assms(2,4) _ _ refl refl 3(2) refl py] assms(5)
      by (auto simp: separate_pair_def Let_def w)
    with 3 show ?thesis by simp
  qed
qed

theorem separation_clears_overlap_witness:
  "(let a = default_actor\<lparr>a_x := 100, a_y := 60\<rparr>; b = default_actor\<lparr>a_x := 110, a_y := 60\<rparr>;
        a' = fst (separate_pair a b); b' = snd (separate_pair a b)
    in if 0 < fsub 34 (abs (fsub 110 100)) \<and> 0 < fsub 18 (abs (fsub 60 60))
       then 34 - 8 * eps40 \<le> abs (a_x b' - a_x a') \<or> 18 - 8 * eps40 \<le> abs (a_y b' - a_y a')
       else a' = a \<and> b' = b)"
  using separation_clears_overlap [of "default_actor\<lparr>a_x := 100, a_y := 60\<rparr>"
      "default_actor\<lparr>a_x := 110, a_y := 60\<rparr>", OF _ _ _ _ prod.collapse [symmetric]]
  by (simp add: Let_def)

section \<open>Rest\<close>

text \<open>Two bodies that touch on no axis.\<close>

definition apart :: "SimActor \<Rightarrow> SimActor \<Rightarrow> bool" where
  "apart a b \<longleftrightarrow> 34 \<le> \<bar>a_x b - a_x a\<bar> \<or> 18 \<le> \<bar>a_y b - a_y a\<bar>"

definition pos :: "SimActor \<Rightarrow> rat \<times> rat" where
  "pos a = (a_x a, a_y a)"

lemma rnd_abs_ge: "is_dbl l \<Longrightarrow> l \<le> \<bar>z\<bar> \<Longrightarrow> l \<le> \<bar>rnd z\<bar>"
  using dbl.rd_ge [of l z] dbl.rd_ge [of l "- z"] by (auto simp: abs_if rnd_minus split: if_splits)

lemma separate_pair_apart:
  assumes "apart a b"
  shows "separate_pair a b = (a, b)"
proof -
  have 34: "is_dbl 34" and 18: "is_dbl 18" by (simp_all add: is_dbl_numeral)
  have w: "fmul BODY_HALF_W 2 = 34" "fmul BODY_HALF_D 2 = 18"
    using 34 18 by (simp_all add: fmul_def BODY_HALF_W_def BODY_HALF_D_def is_dbl_def)
  have "fsub c (abs d) \<le> 0" if "c \<le> \<bar>d\<bar>" for c d
    using that unfolding fsub_def by (intro dbl.rd_le) simp_all
  moreover have "34 \<le> abs (fsub (a_x b) (a_x a)) \<or> 18 \<le> abs (fsub (a_y b) (a_y a))"
    using assms rnd_abs_ge [OF 34, of "a_x b - a_x a"] rnd_abs_ge [OF 18, of "a_y b - a_y a"]
    unfolding apart_def fsub_def by blast
  ultimately have "fsub 34 (abs (fsub (a_x b) (a_x a))) \<le> 0 \<or> fsub 18 (abs (fsub (a_y b) (a_y a))) \<le> 0"
    by blast
  then show ?thesis unfolding separate_pair_def Let_def w by (simp only: if_True)
qed

lemma sorted_wrt_filter_nth:
  "sorted_wrt P (filter Q xs) \<longleftrightarrow>
     (\<forall>j<length xs. \<forall>i<j. Q (xs ! i) \<longrightarrow> Q (xs ! j) \<longrightarrow> P (xs ! i) (xs ! j))"
proof (induction xs)
  case (Cons x xs)
  show ?case
  proof (cases "Q x")
    case True
    have "(\<forall>y. y \<in> set xs \<and> Q y \<longrightarrow> P x y) \<longleftrightarrow> (\<forall>j<length xs. Q (xs ! j) \<longrightarrow> P x (xs ! j))"
      by (auto simp: in_set_conv_nth)
    with True show ?thesis
      by (simp add: All_less_Suc2 Cons.IH all_conj_distrib imp_conjR)
  next
    case False
    then show ?thesis by (simp add: All_less_Suc2 Cons.IH)
  qed
qed simp

lemma map_filter_pointwise:
  "length xs = length ys \<Longrightarrow> (\<And>k. k < length xs \<Longrightarrow> Q (xs ! k) = Q (ys ! k)) \<Longrightarrow>
   (\<And>k. k < length xs \<Longrightarrow> Q (xs ! k) \<Longrightarrow> f (xs ! k) = f (ys ! k)) \<Longrightarrow>
   map f (filter Q xs) = map f (filter Q ys)"
proof (induction xs ys rule: list_induct2)
  case (Cons x xs y ys)
  have "map f (filter Q xs) = map f (filter Q ys)"
    using Cons.prems(1)[of "Suc k" for k] Cons.prems(2)[of "Suc k" for k] by (intro Cons.IH) auto
  then show ?case using Cons.prems(1)[of 0] Cons.prems(2)[of 0] by auto
qed simp

text \<open>A world at rest stays at rest: with all four inputs neutral, and no two present bodies
  overlapping, a tick leaves the position of every present actor exactly where it was.\<close>

theorem sim_step_rest:
  assumes "world_ok w" and "sorted_wrt apart (filter a_present (w_actors w))"
  shows "map pos (filter a_present (w_actors (SimStep w (replicate 4 neutral_input))))
       = map pos (filter a_present (w_actors w))"
proof -
  let ?ws = "w_actors w"
  define R where "R as \<longleftrightarrow> (\<forall>k<kSnapActors. a_present (as ! k) = a_present (?ws ! k) \<and>
     (a_present (?ws ! k) \<longrightarrow> pos (as ! k) = pos (?ws ! k)))" for as
  have len: "length ?ws = kSnapActors" using assms(1) by (simp add: world_ok_def)
  have st: "on_stage (?ws ! k)" if "k < kSnapActors" "a_present (?ws ! k)" for k
    using assms(1) that len by (auto simp: world_ok_def)
  have ap: "apart (?ws ! i) (?ws ! j)"
    if "i < j" "j < kSnapActors" "a_present (?ws ! i)" "a_present (?ws ! j)" for i j
    using assms(2) that unfolding sorted_wrt_filter_nth len by blast
  have "R (w_actors (SimStep w (replicate 4 neutral_input)))"
  proof (rule SimStep_induct [where P = R, OF len])
    show "R ?ws" by (simp add: R_def)
  next
    fix i as assume "i < kRoomMembers" "length as = kSnapActors" "R as"
    then show "R (upd_at i (move_player (replicate 4 neutral_input ! i)) as)"
      by (auto simp: R_def nth_upd_at move_player_def neutral_input_def pos_def kRoomMembers_def)
  next
    fix i j as assume a: "i < j" "j < kSnapActors" "length as = kSnapActors" "R as"
      "a_present (as ! i)" "a_present (as ! j)"
    then have "apart (as ! i) (as ! j)"
      using ap [of i j] less_trans [OF a(1,2)] by (auto simp: R_def apart_def pos_def)
    then show "R (separate_at i j as)" using a(4) by (simp add: separate_at_def separate_pair_apart)
  next
    fix as assume a: "length as = kSnapActors" "R as"
    have "clamp_actor (as ! k) = as ! k" if "k < kSnapActors" "a_present (as ! k)" for k
      using a(2) that st [of k] by (intro clamp_on_stage) (auto simp: R_def on_stage_def pos_def)
    with a show "R (map clamp_actor as)" by (auto simp: R_def clamp_actor_def)
  qed
  then show ?thesis
    using SimStep_length [OF len] len by (intro map_filter_pointwise) (auto simp: R_def)
qed

theorem sim_step_rest_witness:
  "map pos (filter a_present (w_actors (SimStep (ResetWorld \<lparr>w_tick = 0, w_actors = []\<rparr>)
     (replicate 4 neutral_input)))) = kOrcSpawn"
  using sim_step_rest [OF world_ok_ResetWorld, of "\<lparr>w_tick = 0, w_actors = []\<rparr>"]
  by (simp add: ResetWorld_actors spawn_orc_def default_actor_def upt_10 kOrcSpawn_def apart_def pos_def)

section \<open>Empty slots\<close>

text \<open>Two slots that a client cannot tell apart: both empty, or the same actor.\<close>

definition same_seen :: "SimActor \<Rightarrow> SimActor \<Rightarrow> bool" where
  "same_seen a b \<longleftrightarrow> a_present a = a_present b \<and> (a_present a \<longrightarrow> a = b)"

lemma same_seen_refl [simp]: "same_seen a a"
  by (simp add: same_seen_def)

lemma same_seen_cases:
  assumes "same_seen a b"
  obtains "\<not> a_present a" "\<not> a_present b" | "a_present a" "b = a"
  using assms unfolding same_seen_def by metis

lemma same_seen_emptyI: "\<not> a_present a \<Longrightarrow> \<not> a_present b \<Longrightarrow> same_seen a b"
  by (simp add: same_seen_def)

lemma same_seen_clamp: "same_seen a b \<Longrightarrow> same_seen (clamp_actor a) (clamp_actor b)"
  by (erule same_seen_cases) (simp_all add: same_seen_emptyI clamp_actor_def)

lemma list_all2_same_seen_refl [simp]: "list_all2 same_seen as as"
  by (rule list_all2_refl) simp

lemma move_players_same_seen:
  assumes "list_all2 same_seen as bs" "length as = kSnapActors"
  shows "list_all2 same_seen (move_players ins as) (move_players ins bs)"
proof -
  have "list_all2 same_seen
      (fold (\<lambda>i as. if a_present (as ! i) then upd_at i (move_player (ins ! i)) as else as) is as)
      (fold (\<lambda>i as. if a_present (as ! i) then upd_at i (move_player (ins ! i)) as else as) is bs)"
    if "\<forall>i\<in>set is. i < kSnapActors" for "is"
    using that assms
  proof (induction "is" arbitrary: as bs)
    case (Cons i "is")
    then have s: "same_seen (as ! i) (bs ! i)" by (auto simp: list_all2_conv_all_nth)
    then have "list_all2 same_seen
        (if a_present (as ! i) then upd_at i (move_player (ins ! i)) as else as)
        (if a_present (bs ! i) then upd_at i (move_player (ins ! i)) bs else bs)"
      using Cons.prems(2)
      by (cases rule: same_seen_cases) (simp_all add: upd_at_def list_all2_update_cong)
    then show ?case using Cons.IH Cons.prems(1,3) by simp
  qed simp
  then show ?thesis by (simp add: move_players_def)
qed

lemma separate_same_seen:
  assumes "list_all2 same_seen as bs" "length as = kSnapActors"
  shows "list_all2 same_seen (separate as) (separate bs)"
proof -
  have len: "length bs = kSnapActors" using list_all2_lengthD [OF assms(1)] assms(2) by simp
  have "list_all2 same_seen (fold separate_if ps as) (fold separate_if ps bs)"
    if "set ps \<subseteq> set actor_pairs" for ps
    using that assms
  proof (induction ps arbitrary: as bs)
    case (Cons p ps)
    obtain i j where p: "p = (i, j)" by (cases p)
    with Cons.prems(1) have ij: "i < kSnapActors" "j < kSnapActors"
      using actor_pairs_less [of i j] by auto
    have s: "same_seen (as ! i) (bs ! i)" "same_seen (as ! j) (bs ! j)"
      using Cons.prems ij by (auto simp: list_all2_conv_all_nth)
    have "list_all2 same_seen (separate_if p as) (separate_if p bs)"
    proof (cases "a_present (as ! i) \<and> a_present (as ! j)")
      case True
      with s have eq: "bs ! i = as ! i" "bs ! j = as ! j" unfolding same_seen_def by metis+
      show ?thesis using True Cons.prems(2)
        by (simp add: p separate_if_def separate_at_def Let_def eq list_all2_update_cong)
    next
      case False
      with s have "\<not> (a_present (bs ! i) \<and> a_present (bs ! j))" unfolding same_seen_def by metis
      then show ?thesis using Cons.prems(2) False by (simp add: p separate_if_def del: de_Morgan_conj)
    qed
    then show ?case using Cons by simp
  qed simp
  from this [of actor_pairs] show ?thesis
    using assms(2) len by (simp add: separate_fold)
qed

text \<open>What an empty slot holds never shows: two worlds whose slots are pairwise the same actor
  or both empty come out of a tick with slots that are pairwise the same actor or both empty, so
  no left-over coordinate of a departed player can push a present body.\<close>

theorem sim_step_empty_slots_inert:
  assumes "list_all2 same_seen (w_actors v) (w_actors w)" and "length (w_actors v) = kSnapActors"
  shows "list_all2 same_seen (w_actors (SimStep v inputs)) (w_actors (SimStep w inputs))"
proof -
  have l: "length (move_players inputs (w_actors v)) = kSnapActors"
    using move_players_induct [of "w_actors v" "\<lambda>_. True"] assms(2) by simp
  have "list_all2 same_seen (separate (move_players inputs (w_actors v)))
      (separate (move_players inputs (w_actors w)))"
    by (rule separate_same_seen [OF move_players_same_seen [OF assms] l])
  then show ?thesis
    unfolding SimStep_def by (simp add: list_all2_map1 list_all2_map2)
      (rule list_all2_mono, assumption, rule same_seen_clamp)
qed

theorem sim_step_empty_slots_inert_witness:
  "list_all2 same_seen
     (w_actors (SimStep (ResetWorld \<lparr>w_tick = 0, w_actors = []\<rparr>) (replicate 4 neutral_input)))
     (w_actors (SimStep ((ResetWorld \<lparr>w_tick = 0, w_actors = []\<rparr>)
        \<lparr>w_actors := default_actor\<lparr>a_x := 520, a_y := 40\<rparr> #
           tl (w_actors (ResetWorld \<lparr>w_tick = 0, w_actors = []\<rparr>))\<rparr>) (replicate 4 neutral_input)))"
proof (rule sim_step_empty_slots_inert)
  have L: "w_actors (ResetWorld w) = default_actor # tl (w_actors (ResetWorld w))" for w
    by (simp add: ResetWorld_actors numeral_eq_Suc)
  show "list_all2 same_seen (w_actors (ResetWorld \<lparr>w_tick = 0, w_actors = []\<rparr>))
     (w_actors ((ResetWorld \<lparr>w_tick = 0, w_actors = []\<rparr>)
        \<lparr>w_actors := default_actor\<lparr>a_x := 520, a_y := 40\<rparr> #
           tl (w_actors (ResetWorld \<lparr>w_tick = 0, w_actors = []\<rparr>))\<rparr>))"
    by (subst L) (simp add: same_seen_def default_actor_def)
  show "length (w_actors (ResetWorld \<lparr>w_tick = 0, w_actors = []\<rparr>)) = kSnapActors"
    using world_ok_ResetWorld [of "\<lparr>w_tick = 0, w_actors = []\<rparr>"] by (simp add: world_ok_def)
qed

section \<open>Sizes\<close>

lemma P_speed_step:
  assumes "\<bar>m\<bar> \<le> 128" "0 \<le> k" "k \<le> 1"
  shows "\<bar>step_len m P_SPEED_X k\<bar> \<le> of_int 459" "\<bar>step_len m P_SPEED_Y k\<bar> \<le> of_int 282"
proof -
  have m: "(of_int \<bar>m\<bar> :: rat) \<le> 128" using assms(1) by (simp only: of_int_le_numeral_iff)
  show "\<bar>step_len m P_SPEED_X k\<bar> \<le> of_int 459" "\<bar>step_len m P_SPEED_Y k\<bar> \<le> of_int 282"
    using step_len_abs [OF assms(1) _ _ assms(2,3), of 215] step_len_abs [OF assms(1) _ _ assms(2,3), of 132] m
    unfolding P_SPEED_of_int by simp_all
qed

lemma move_player_sized:
  assumes "dbl_actor p" "\<bar>a_x p\<bar> \<le> of_int B" "\<bar>a_y p\<bar> \<le> of_int B" "0 \<le> B" "B + 459 < 2 ^ 53"
    "\<bar>in_mx inp\<bar> \<le> 128" "\<bar>in_my inp\<bar> \<le> 128"
  shows "\<bar>a_x (move_player inp p)\<bar> \<le> of_int (B + 459)" "\<bar>a_y (move_player inp p)\<bar> \<le> of_int (B + 459)"
proof -
  have le: "(of_int B :: rat) \<le> of_int (B + 459)" "(of_int (B + 282) :: rat) \<le> of_int (B + 459)"
    by (simp_all only: of_int_le_iff)
  have x: "\<bar>fadd (a_x p) (step_len (in_mx inp) P_SPEED_X k)\<bar> \<le> of_int (B + 459)"
    and y: "\<bar>fadd (a_y p) (step_len (in_my inp) P_SPEED_Y k)\<bar> \<le> of_int (B + 459)"
    if "0 \<le> k" "k \<le> 1" for k
    using abs_round_add(1) [OF assms(2) P_speed_step(1) [OF assms(6) that] assms(5,4)]
      abs_round_add(1) [OF assms(3) P_speed_step(2) [OF assms(7) that] _ assms(4)] assms(5) le(2)
    by simp_all
  show "\<bar>a_x (move_player inp p)\<bar> \<le> of_int (B + 459)" "\<bar>a_y (move_player inp p)\<bar> \<le> of_int (B + 459)"
    using x [of 1] x [OF DIAG_bounds] y [of 1] y [OF DIAG_bounds] assms(2,3) le(1)
    by (auto simp: move_player_def Let_def)
qed

text \<open>No overflow and no loss of range inside a tick: from a well-formed world and inputs of
  a signed byte, after the movement phase and after any number of the 91 pair separations every
  coordinate is a binary64 value of magnitude at most 4000, far from the range limit, so the
  rational model of the arithmetic is exact about every finite operation.\<close>

theorem sim_intermediate_range:
  assumes "world_ok w" and "list_all (\<lambda>inp. \<bar>in_mx inp\<bar> \<le> 128 \<and> \<bar>in_my inp\<bar> \<le> 128) inputs"
    and "length inputs = kRoomMembers"
  shows "list_all (\<lambda>a. dbl_actor a \<and> \<bar>a_x a\<bar> \<le> 4000 \<and> \<bar>a_y a\<bar> \<le> 4000)
     (fold separate_if (take n actor_pairs) (move_players inputs (w_actors w)))"
proof -
  let ?ws = "w_actors w"
  have len: "length ?ws = kSnapActors" using assms(1) by (simp add: world_ok_def)
  have ws: "sized 1580 ?ws" using assms(1) by (fastforce simp: world_ok_def sized_def list_all_iff)
  have inp: "\<bar>in_mx (inputs ! i)\<bar> \<le> 128" "\<bar>in_my (inputs ! i)\<bar> \<le> 128" if "i < kRoomMembers" for i
    using assms(2,3) that by (auto simp: list_all_iff)
  have mp: "sized 2039 (move_players inputs ?ws)" "length (move_players inputs ?ws) = kSnapActors"
  proof -
    have "sized 2039 (fold (\<lambda>i as. if a_present (as ! i) then upd_at i (move_player (inputs ! i)) as else as)
        is as)"
      if "distinct is" "\<forall>i\<in>set is. i < kRoomMembers \<and> as ! i = ?ws ! i" "sized 2039 as"
        "length as = kSnapActors" for "is" as
      using that
    proof (induction "is" arbitrary: as)
      case (Cons i "is")
      have "sized 2039 (upd_at i (move_player (inputs ! i)) as)"
        using Cons.prems move_player_sized [of "?ws ! i" 1580 "inputs ! i"] sized_nth [OF ws, of i]
          inp [of i] len unfolding upd_at_def
        by (intro sized_update) (auto intro: dbl_move)
      moreover have "\<forall>k\<in>set is. k < kRoomMembers \<and> upd_at i (move_player (inputs ! i)) as ! k = ?ws ! k"
        using Cons.prems by (metis distinct.simps(2) list.set_intros(2) nth_upd_at_other)
      ultimately show ?case
        using Cons.prems Cons.IH [of as] Cons.IH [of "upd_at i (move_player (inputs ! i)) as"] by simp
    qed simp
    from this [of "[0..<kRoomMembers]" ?ws] show "sized 2039 (move_players inputs ?ws)"
      using ws len by (simp add: move_players_def sized_mono)
    show "length (move_players inputs ?ws) = kSnapActors"
      using move_players_induct [of ?ws "\<lambda>_. True"] len by simp
  qed
  have n: "length (take n actor_pairs) \<le> 91" by (simp add: length_actor_pairs)
  have "sized (2039 + 17 * int (length (take n actor_pairs)))
      (fold separate_if (take n actor_pairs) (move_players inputs ?ws))"
    using n by (intro separate_prefix_sized mp) (auto dest: in_set_takeD)
  then have "sized 4000 (fold separate_if (take n actor_pairs) (move_players inputs ?ws))"
    by (rule sized_mono) (use n in linarith)
  then show ?thesis by (simp add: sized_def)
qed

theorem sim_intermediate_range_witness:
  "list_all (\<lambda>a. dbl_actor a \<and> \<bar>a_x a\<bar> \<le> 4000 \<and> \<bar>a_y a\<bar> \<le> 4000)
     (fold separate_if (take 91 actor_pairs) (move_players (replicate 4 \<lparr>in_mx = 127, in_my = - 128\<rparr>)
        (w_actors (ResetWorld \<lparr>w_tick = 0, w_actors = []\<rparr>))))"
  by (rule sim_intermediate_range [OF world_ok_ResetWorld]) (simp_all add: kRoomMembers_def list_all_iff)

text \<open>With the inputs the protocol describes (each axis \<open>-1\<close>, 0 or 1) a player moves at most
  3.6 pixels across and 2.3 in depth before separation, also on the diagonal; only position,
  facing and state change, and the facing follows a horizontal input.\<close>

theorem move_player_speed_limit:
  assumes "\<bar>in_mx inp\<bar> \<le> 1" and "\<bar>in_my inp\<bar> \<le> 1" and "\<bar>a_x p\<bar> \<le> 1580" and "\<bar>a_y p\<bar> \<le> 165"
  shows "\<bar>a_x (move_player inp p) - a_x p\<bar> \<le> 18/5 \<and> \<bar>a_y (move_player inp p) - a_y p\<bar> \<le> 23/10
    \<and> identity (move_player inp p) = identity p
    \<and> a_face (move_player inp p) =
        (if in_mx inp = 1 then 1 else if in_mx inp = - 1 then - 1 else a_face p)"
proof -
  have s: "\<bar>step_len (in_mx inp) P_SPEED_X k\<bar> \<le> 359/100" "\<bar>step_len (in_my inp) P_SPEED_Y k\<bar> \<le> 221/100"
    if "0 \<le> k" "k \<le> 1" for k
  proof -
    have m: "(of_int \<bar>in_mx inp\<bar> :: rat) \<le> 1" "(of_int \<bar>in_my inp\<bar> :: rat) \<le> 1"
      using assms(1,2) by (simp_all only: of_int_le_1_iff)
    show "\<bar>step_len (in_mx inp) P_SPEED_X k\<bar> \<le> 359/100"
      using step_len_abs [of "in_mx inp" 215 k] assms(1) that m(1) unfolding P_SPEED_of_int by simp
    show "\<bar>step_len (in_my inp) P_SPEED_Y k\<bar> \<le> 221/100"
      using step_len_abs [of "in_my inp" 132 k] assms(2) that m(2) unfolding P_SPEED_of_int by simp
  qed
  have e: "\<bar>fadd x d - x\<bar> \<le> \<bar>d\<bar> + eps40" if "\<bar>x\<bar> \<le> 1580" "\<bar>d\<bar> \<le> 100" for x d
  proof -
    have "\<bar>fadd x d - (x + d)\<bar> \<le> eps40"
      unfolding fadd_def using that by (intro round_near) (simp add: abs_le_iff)
    then show ?thesis by (simp add: abs_le_iff) linarith
  qed
  have ep: "eps40 \<le> 1/1000" by (simp add: eps40_def)
  have x: "\<bar>fadd (a_x p) (step_len (in_mx inp) P_SPEED_X k) - a_x p\<bar> \<le> 18/5"
    and y: "\<bar>fadd (a_y p) (step_len (in_my inp) P_SPEED_Y k) - a_y p\<bar> \<le> 23/10"
    if "0 \<le> k" "k \<le> 1" for k
    using e [OF assms(3), of "step_len (in_mx inp) P_SPEED_X k"] s [OF that] ep assms(4)
      e [of "a_y p" "step_len (in_my inp) P_SPEED_Y k"] by simp_all
  have "in_mx inp = - 1 \<or> in_mx inp = 0 \<or> in_mx inp = 1" using assms(1) by auto
  then show ?thesis
    using x [of 1] x [OF DIAG_bounds] y [of 1] y [OF DIAG_bounds]
    by (auto simp: move_player_def Let_def identity_def)
qed

theorem move_player_speed_limit_witness:
  "\<bar>a_x (move_player \<lparr>in_mx = 1, in_my = - 1\<rparr> (spawn_player 0 default_actor)) - 180\<bar> \<le> 18/5"
  using move_player_speed_limit [of "\<lparr>in_mx = 1, in_my = - 1\<rparr>" "spawn_player 0 default_actor"]
  by (simp add: spawn_player_def kPlayerSpawn_def)

text \<open>The movement stage trusts the magnitude of the input: a horizontal input of 127 carries the
  player at least 454 pixels before separation and clamp.\<close>

lemma move_player_teleports:
  assumes "0 \<le> a_x p" and "a_x p \<le> 1580" and "in_mx inp = 127" and "in_my inp = 0"
  shows "454 \<le> a_x (move_player inp p) - a_x p"
proof -
  have s: "4549/10 \<le> step_len 127 P_SPEED_X 1" "step_len 127 P_SPEED_X 1 \<le> 459"
    using step_len_bounds [of 127 215 1] unfolding P_SPEED_of_int by simp_all
  have "\<bar>fadd (a_x p) (step_len 127 P_SPEED_X 1) - (a_x p + step_len 127 P_SPEED_X 1)\<bar> \<le> eps40"
    unfolding fadd_def using assms s by (intro round_near) (simp add: abs_le_iff)
  moreover have "eps40 \<le> 1/1000" by (simp add: eps40_def)
  ultimately show ?thesis
    using s assms by (simp add: move_player_def Let_def abs_le_iff)
qed

end
