(* ===== verification/Metrics.thy ===== *)
theory Metrics
  imports Prelude
begin

text \<open>
  The counters of Metrics.h and Metrics.cpp that the modelled operations write. A counter is a
  relaxed atomic \<open>int64_t\<close>: addition wraps, so it is a 64-bit word read with \<open>sint\<close>.
\<close>

type_synonym Counter = i64

definition Inc :: "Counter \<Rightarrow> Counter" where "Inc v = v + 1"
definition Add :: "i64 \<Rightarrow> Counter \<Rightarrow> Counter" where "Add d v = v + d"

text \<open>\<open>StoreMax\<close>: the compare-exchange loop ends with the larger of the two values.\<close>

definition StoreMax :: "i64 \<Rightarrow> Counter \<Rightarrow> Counter" where
  "StoreMax d v = (if sint v < sint d then d else v)"

definition kOversleepBucketUs :: "int list" where
  "kOversleepBucketUs = [50, 100, 200, 500, 1000, 2000, 5000, 10000]"
definition kOversleepBuckets :: nat where "kOversleepBuckets = 9"
definition kMaxGameWorkers :: nat where "kMaxGameWorkers = 16"

record GameWorkerStats =
  g_ticks :: Counter
  g_wakes :: Counter
  g_skippedTicks :: Counter
  g_rebases :: Counter
  g_oversleepMaxNs :: Counter
  g_oversleepBucket :: "Counter list"

definition zero_stats :: GameWorkerStats where
  "zero_stats = \<lparr>g_ticks = 0, g_wakes = 0, g_skippedTicks = 0, g_rebases = 0, g_oversleepMaxNs = 0,
     g_oversleepBucket = replicate kOversleepBuckets 0\<rparr>"

record Counters =
  mt_up :: Counter
  mt_accepts :: Counter
  mt_disconnects :: Counter
  mt_recvBytes :: Counter
  mt_sendBytes :: Counter
  mt_ringSplitRead :: Counter
  mt_ringSplitSend :: Counter
  mt_partialSend :: Counter
  mt_epolloutArm :: Counter
  mt_sendRingFull :: Counter
  mt_frameWait :: Counter
  mt_joins :: Counter
  mt_joinFails :: Counter
  mt_roomsCreated :: Counter
  mt_roomsActive :: Counter
  mt_roomMoves :: Counter
  mt_inputsQueued :: Counter
  mt_inputRingDrops :: Counter
  mt_inputRingOcc :: "Counter list"
  mt_inputNeutralized :: Counter
  mt_snapshotsSent :: Counter
  mt_snapshotsDropped :: Counter
  mt_gameWorkerCount :: Counter
  mt_game :: "GameWorkerStats list"

definition zero_counters :: Counters where
  "zero_counters = \<lparr>mt_up = 0, mt_accepts = 0, mt_disconnects = 0, mt_recvBytes = 0, mt_sendBytes = 0,
     mt_ringSplitRead = 0, mt_ringSplitSend = 0, mt_partialSend = 0, mt_epolloutArm = 0,
     mt_sendRingFull = 0, mt_frameWait = 0, mt_joins = 0, mt_joinFails = 0, mt_roomsCreated = 0,
     mt_roomsActive = 0, mt_roomMoves = 0, mt_inputsQueued = 0, mt_inputRingDrops = 0,
     mt_inputRingOcc = replicate 9 0, mt_inputNeutralized = 0, mt_snapshotsSent = 0,
     mt_snapshotsDropped = 0, mt_gameWorkerCount = 0,
     mt_game = replicate kMaxGameWorkers zero_stats\<rparr>"

end
