(* ===== verification/RingOps.thy ===== *)
theory RingOps
  imports Prelude
begin

text \<open>
  The ring buffers \<open>CRingBufferST\<close> and \<open>CRingBufferMT\<close> belong to the ServerCore submodule, whose
  source is not part of this repository. They are a parameter: a record of the operations the
  server calls, over an unspecified buffer type. What the server relies on is the predicate
  \<open>ring_contract\<close>, a hypothesis of the theorems that need it; it states what the self test
  of the server (SelfTest.cpp) checks: a capacity that keeps one byte free, all-or-nothing
  enqueue and dequeue, first in first out, a peek that consumes nothing.
\<close>

record 'r ring_ops =
  rb_IsValid :: "'r \<Rightarrow> bool"
  rb_Init :: "nat \<Rightarrow> 'r \<Rightarrow> bool \<times> 'r"
  rb_Clear :: "'r \<Rightarrow> 'r"
  rb_Enqueue :: "bytes \<Rightarrow> 'r \<Rightarrow> nat \<times> 'r"
  rb_Dequeue :: "nat \<Rightarrow> 'r \<Rightarrow> bytes \<times> 'r"
  rb_Peek :: "nat \<Rightarrow> 'r \<Rightarrow> bytes"
  rb_Consume :: "nat \<Rightarrow> 'r \<Rightarrow> 'r"
  rb_DataSize :: "'r \<Rightarrow> nat"
  rb_DirectRead :: "'r \<Rightarrow> bytes"     \<comment> \<open>the bytes from the read pointer up to the wrap\<close>
  rb_DirectWriteSize :: "'r \<Rightarrow> nat"
  rb_Received :: "bytes \<Rightarrow> 'r \<Rightarrow> 'r"  \<comment> \<open>bytes put at the write pointer, then \<open>MoveWritePtr\<close>\<close>

text \<open>
  \<open>ring_contract R ok cap buf\<close>: seen through \<open>buf\<close> (the stored bytes) the buffer is a bounded
  byte queue, \<open>ok\<close> is its internal invariant, and \<open>cap\<close> its capacity in bytes.
\<close>

definition ring_contract :: "'r ring_ops \<Rightarrow> ('r \<Rightarrow> bool) \<Rightarrow> ('r \<Rightarrow> nat) \<Rightarrow> ('r \<Rightarrow> bytes) \<Rightarrow> bool" where
  "ring_contract R ok cap buf \<longleftrightarrow>
     (\<forall>n q. fst (rb_Init R n q) \<longrightarrow> ok (snd (rb_Init R n q)) \<and> rb_IsValid R (snd (rb_Init R n q)) \<and>
        buf (snd (rb_Init R n q)) = [] \<and> cap (snd (rb_Init R n q)) = n - 1) \<and>
     (\<forall>q. ok q \<longrightarrow> length (buf q) \<le> cap q \<and> rb_DataSize R q = length (buf q) \<and>
        ok (rb_Clear R q) \<and> buf (rb_Clear R q) = [] \<and> cap (rb_Clear R q) = cap q) \<and>
     (\<forall>bs q. ok q \<longrightarrow>
        (if length (buf q) + length bs \<le> cap q
         then fst (rb_Enqueue R bs q) = length bs \<and> ok (snd (rb_Enqueue R bs q)) \<and>
           cap (snd (rb_Enqueue R bs q)) = cap q \<and> buf (snd (rb_Enqueue R bs q)) = buf q @ bs
         else rb_Enqueue R bs q = (0, q))) \<and>
     (\<forall>n q. ok q \<longrightarrow> n \<le> length (buf q) \<longrightarrow>
        rb_Peek R n q = take n (buf q) \<and> fst (rb_Dequeue R n q) = take n (buf q) \<and>
        ok (snd (rb_Dequeue R n q)) \<and> cap (snd (rb_Dequeue R n q)) = cap q \<and>
        buf (snd (rb_Dequeue R n q)) = drop n (buf q) \<and>
        ok (rb_Consume R n q) \<and> cap (rb_Consume R n q) = cap q \<and> buf (rb_Consume R n q) = drop n (buf q)) \<and>
     (\<forall>q. ok q \<longrightarrow> (\<exists>k. rb_DirectRead R q = take k (buf q)) \<and>
        (buf q \<noteq> [] \<longrightarrow> rb_DirectRead R q \<noteq> [])) \<and>
     (\<forall>bs q. ok q \<longrightarrow> length bs \<le> rb_DirectWriteSize R q \<longrightarrow>
        ok (rb_Received R bs q) \<and> cap (rb_Received R bs q) = cap q \<and> buf (rb_Received R bs q) = buf q @ bs)"

text \<open>A concrete bounded queue that meets the contract, used by the witnesses.\<close>

type_synonym list_ring = "nat \<times> bytes"   \<comment> \<open>capacity and content; capacity 0 before \<open>Init\<close>\<close>

definition list_ring_ops :: "list_ring ring_ops" where
  "list_ring_ops = \<lparr>
     rb_IsValid = (\<lambda>q. 0 < fst q),
     rb_Init = (\<lambda>n q. (1 < n, if 1 < n then (n - 1, []) else q)),
     rb_Clear = (\<lambda>q. (fst q, [])),
     rb_Enqueue = (\<lambda>bs q. if length (snd q) + length bs \<le> fst q then (length bs, (fst q, snd q @ bs)) else (0, q)),
     rb_Dequeue = (\<lambda>n q. if n \<le> length (snd q) then (take n (snd q), (fst q, drop n (snd q))) else ([], q)),
     rb_Peek = (\<lambda>n q. if n \<le> length (snd q) then take n (snd q) else []),
     rb_Consume = (\<lambda>n q. if n \<le> length (snd q) then (fst q, drop n (snd q)) else q),
     rb_DataSize = (\<lambda>q. length (snd q)),
     rb_DirectRead = snd,
     rb_DirectWriteSize = (\<lambda>q. fst q - length (snd q)),
     rb_Received = (\<lambda>bs q. (fst q, snd q @ bs))\<rparr>"

lemma list_ring_contract:
  "ring_contract list_ring_ops (\<lambda>q. length (snd q) \<le> fst q) fst snd"
proof -
  have "\<exists>k. b = take k b" for b :: bytes by (rule exI [of _ "length b"]) simp
  then show ?thesis by (auto simp: ring_contract_def list_ring_ops_def)
qed

end
