(* ===== verification/Session.thy ===== *)
theory Session
  imports Metrics RingOps
begin

text \<open>
  Sessions, the session pool and the dirty bitmap (Session.h). The pool is a fixed array of
  slots and a stack of free slot numbers; a session is identified by its slot number and its
  generation, which grows each time the slot is returned.
\<close>

section \<open>Sessions and the pool\<close>

definition kRecvRingSize :: nat where "kRecvRingSize = 8192"
definition kSendRingSize :: nat where "kSendRingSize = 16384"

record ('r, 's) Session =
  refs :: int
  dead :: bool
  gen :: u32
  idx :: nat
  fd :: int
  owner :: nat
  wantWrite :: bool
  recvQ :: 'r
  sendQ :: 's
  inRoom :: bool
  roomIdx :: nat
  actorId :: nat

record ('r, 's) SessionPool =
  slots :: "('r, 's) Session list"
  sfree :: "nat list"      \<comment> \<open>\<open>_free\<close>: the top of the stack is the last element\<close>

definition new_session :: "'r \<Rightarrow> 's \<Rightarrow> nat \<Rightarrow> ('r, 's) Session" where
  "new_session r s i = \<lparr>refs = 0, dead = False, gen = 0, idx = i, fd = - 1, owner = 0, wantWrite = False,
     recvQ = r, sendQ = s, inRoom = False, roomIdx = 0, actorId = 0\<rparr>"

definition SessionPool_Init :: "'r \<Rightarrow> 's \<Rightarrow> nat \<Rightarrow> ('r, 's) SessionPool" where
  "SessionPool_Init r s capacity =
     \<lparr>slots = map (new_session r s) [0..<capacity], sfree = rev [0..<capacity]\<rparr>"

definition upd_sess :: "nat \<Rightarrow> (('r, 's) Session \<Rightarrow> ('r, 's) Session) \<Rightarrow> ('r, 's) SessionPool \<Rightarrow> ('r, 's) SessionPool" where
  "upd_sess i f p = p\<lparr>slots := upd_at i f (slots p)\<rparr>"

text \<open>The fields \<open>Alloc\<close> sets on the slot it hands out.\<close>

definition claim_session :: "('r, 's) Session \<Rightarrow> ('r, 's) Session" where
  "claim_session s = s\<lparr>fd := - 1, wantWrite := False, inRoom := False, roomIdx := 0, actorId := 0,
     dead := False, refs := 1\<rparr>"

definition Alloc :: "'r ring_ops \<Rightarrow> 's ring_ops \<Rightarrow> ('r, 's) SessionPool \<Rightarrow> nat option \<times> ('r, 's) SessionPool" where
  "Alloc ST MT p =
     (if sfree p = [] then (None, p) else
      let i = last (sfree p); s = slots p ! i in
      if \<not> rb_IsValid ST (recvQ s) then
        (case rb_Init ST kRecvRingSize (recvQ s) of (ok1, rq) \<Rightarrow>
           if \<not> ok1 then (None, upd_sess i (\<lambda>s. s\<lparr>recvQ := rq\<rparr>) p) else
           (case rb_Init MT kSendRingSize (sendQ s) of (ok2, sq) \<Rightarrow>
              if \<not> ok2 then (None, upd_sess i (\<lambda>s. s\<lparr>recvQ := rq, sendQ := sq\<rparr>) p)
              else (Some i, upd_sess i (\<lambda>s. claim_session (s\<lparr>recvQ := rq, sendQ := sq\<rparr>))
                     (p\<lparr>sfree := butlast (sfree p)\<rparr>))))
      else
        (Some i, upd_sess i (\<lambda>s. claim_session (s\<lparr>recvQ := rb_Clear ST (recvQ s), sendQ := rb_Clear MT (sendQ s)\<rparr>))
           (p\<lparr>sfree := butlast (sfree p)\<rparr>)))"

definition AddRef :: "nat \<Rightarrow> ('r, 's) SessionPool \<Rightarrow> ('r, 's) SessionPool" where
  "AddRef i = upd_sess i (\<lambda>s. s\<lparr>refs := refs s + 1\<rparr>)"

definition Release :: "nat \<Rightarrow> ('r, 's) SessionPool \<Rightarrow> ('r, 's) SessionPool" where
  "Release i p =
     (let old = refs (slots p ! i); p' = upd_sess i (\<lambda>s. s\<lparr>refs := refs s - 1\<rparr>) p
      in if old = 1
         then (upd_sess i (\<lambda>s. s\<lparr>gen := gen s + 1\<rparr>) p')\<lparr>sfree := sfree p' @ [idx (slots p' ! i)]\<rparr>
         else p')"

section \<open>The dirty bitmap\<close>

record DirtyMap =
  d_words :: "u64 list"
  d_stride :: nat

definition DirtyMap_Init :: "nat \<Rightarrow> nat \<Rightarrow> DirtyMap" where
  "DirtyMap_Init maxSessions workerCount =
     (let st = (maxSessions + 63) div 64
      in \<lparr>d_words = replicate (st * workerCount) 0, d_stride = st\<rparr>)"

definition Mark :: "nat \<Rightarrow> nat \<Rightarrow> DirtyMap \<Rightarrow> DirtyMap" where
  "Mark worker sessIdx m =
     m\<lparr>d_words := upd_at (worker * d_stride m + sessIdx div 64)
         (\<lambda>v. v OR push_bit (sessIdx mod 64) 1) (d_words m)\<rparr>"

text \<open>\<open>__builtin_ctzll\<close> of a non-zero word.\<close>

definition ctz :: "u64 \<Rightarrow> nat" where
  "ctz v = length (takeWhile (\<lambda>n. \<not> bit v n) [0..<64])"

lemma and_minus_1_less: "v \<noteq> 0 \<Longrightarrow> v AND (v - 1) < (v :: u64)"
proof -
  assume v: "v \<noteq> 0"
  have "v AND (v - 1) \<le> v - 1" by (rule word_and_le1)
  also have "v - 1 < v"
    using v by (simp add: word_less_nat_alt unat_minus_one unat_gt_0)
  finally show ?thesis .
qed

function bits_asc :: "u64 \<Rightarrow> nat list" where
  "bits_asc v = (if v = 0 then [] else ctz v # bits_asc (v AND (v - 1)))"
  by pat_completeness auto
termination
  by (relation "measure unat") (use and_minus_1_less in \<open>auto simp: word_less_nat_alt\<close>)

declare bits_asc.simps [simp del]

text \<open>\<open>Drain\<close> visits the marked sessions of one worker in this order and clears its words.\<close>

definition drain_order :: "nat \<Rightarrow> DirtyMap \<Rightarrow> nat list" where
  "drain_order worker m =
     concat (map (\<lambda>w. map (\<lambda>b. w * 64 + b) (bits_asc (d_words m ! (worker * d_stride m + w)))) [0..<d_stride m])"

definition drain_clear :: "nat \<Rightarrow> DirtyMap \<Rightarrow> DirtyMap" where
  "drain_clear worker m =
     m\<lparr>d_words := fold (\<lambda>w ws. ws[worker * d_stride m + w := 0]) [0..<d_stride m] (d_words m)\<rparr>"

definition Drain :: "nat \<Rightarrow> DirtyMap \<Rightarrow> nat list \<times> DirtyMap" where
  "Drain worker m = (drain_order worker m, drain_clear worker m)"

section \<open>Bits of a word in ascending order\<close>

lemma ctz_props:
  assumes "v \<noteq> 0"
  shows "ctz v < 64" and "bit v (ctz v)" and "n < ctz v \<Longrightarrow> \<not> bit v n"
proof -
  let ?P = "\<lambda>n. \<not> bit v n"
  have "\<exists>n. bit v n" using assms by (auto simp: bit_eq_iff)
  then obtain n where n: "bit v n" "n < 64"
    using bit_imp_le_length by fastforce
  have tw: "takeWhile ?P [0..<64] = [0..<ctz v]"
    by (metis ctz_def length_takeWhile_le length_upt takeWhile_eq_take take_upt add_0 diff_zero)
  show lt: "ctz v < 64"
  proof (rule ccontr)
    assume "\<not> ctz v < 64"
    then have "n \<in> set (takeWhile ?P [0..<64])" using n by (simp add: tw)
    then show False using n(1) set_takeWhileD by fastforce
  qed
  show "bit v (ctz v)"
    using nth_length_takeWhile [of ?P "[0..<64]"] lt by (simp add: ctz_def [symmetric])
  show "\<not> bit v n" if "n < ctz v" for n
    using that tw set_takeWhileD [of n ?P "[0..<64]"] by simp
qed

lemma clear_lowest_bit:
  assumes "v \<noteq> 0"
  shows "bit (v AND (v - 1)) n \<longleftrightarrow> bit v n \<and> n \<noteq> ctz v"
proof -
  let ?k = "ctz v"
  define h where "h = v AND NOT (mask (Suc ?k))"
  note c = ctz_props [OF assms]
  have v: "v = h OR 2 ^ ?k"
    by (rule bit_word_eqI)
      (use c in \<open>auto simp: h_def bit_simps less_Suc_eq not_less le_less dest: bit_imp_le_length
         intro: linorder_neqE_nat\<close>)
  have d: "h AND 2 ^ ?k = 0" "h AND mask ?k = 0"
    by (rule bit_word_eqI; auto simp: h_def bit_simps)+
  have "v - 1 = h + (2 ^ ?k - 1)"
    by (subst v) (simp add: disjunctive_add_eq_or [symmetric] d)
  also have "\<dots> = h OR mask ?k"
    by (simp add: mask_eq_exp_minus_1 [symmetric] disjunctive_add_eq_or d)
  finally have m: "v - 1 = h OR mask ?k" .
  show ?thesis
    unfolding m using c by (cases n ?k rule: linorder_cases)
      (auto simp: bit_simps h_def dest: bit_imp_le_length)
qed

lemma bits_asc_correct: "sorted_wrt (<) (bits_asc v) \<and> set (bits_asc v) = {n. bit v n}"
proof (induction v rule: bits_asc.induct)
  case (1 v)
  show ?case
  proof (cases "v = 0")
    case True
    then show ?thesis by (simp add: bits_asc.simps)
  next
    case False
    note IH = "1.IH" [OF False]
    have s: "set (bits_asc (v AND (v - 1))) = {n. bit v n \<and> n \<noteq> ctz v}"
      using IH clear_lowest_bit [OF False] by simp
    have "\<forall>n\<in>set (bits_asc (v AND (v - 1))). ctz v < n"
      using s ctz_props(3) [OF False] by (auto simp: neq_iff)
    then show ?thesis
      using IH s ctz_props(2) [OF False] False by (auto simp: bits_asc.simps [of v])
  qed
qed

section \<open>The dirty bitmap as sets\<close>

text \<open>
  The contract between the game workers, which mark, and the epoll workers, which drain: a map
  of marked numbers per worker. The client lemmas say that every mark since the last drain is
  reported once, in ascending order, and to its own worker only.
\<close>

locale mark_sets =
  fixes mark :: "nat \<Rightarrow> nat \<Rightarrow> 'm \<Rightarrow> 'm" and drain :: "nat \<Rightarrow> 'm \<Rightarrow> nat list \<times> 'm"
    and marked :: "'m \<Rightarrow> nat \<Rightarrow> nat set" and valid :: "'m \<Rightarrow> nat \<Rightarrow> nat \<Rightarrow> bool" and good :: "'m \<Rightarrow> bool"
  assumes marked_mark: "good m \<Longrightarrow> valid m w i \<Longrightarrow>
      marked (mark w i m) = (marked m)(w := insert i (marked m w))"
    and good_mark: "good m \<Longrightarrow> valid m w i \<Longrightarrow> good (mark w i m)"
    and valid_mark: "good m \<Longrightarrow> valid m w i \<Longrightarrow> valid (mark w i m) w' i' = valid m w' i'"
    and drain_set: "good m \<Longrightarrow> valid m w i \<Longrightarrow> set (fst (drain w m)) = marked m w"
    and drain_sorted: "good m \<Longrightarrow> valid m w i \<Longrightarrow> sorted_wrt (<) (fst (drain w m))"
    and drain_marked: "good m \<Longrightarrow> valid m w i \<Longrightarrow> marked (snd (drain w m)) = (marked m)(w := {})"
begin

lemma marks_state:
  assumes "good m" "\<forall>(w, i)\<in>set ms. valid m w i"
  shows "good (fold (\<lambda>(w, i). mark w i) ms m) \<and>
    (\<forall>w i. valid (fold (\<lambda>(w, i). mark w i) ms m) w i = valid m w i) \<and>
    (\<forall>w. marked (fold (\<lambda>(w, i). mark w i) ms m) w = marked m w \<union> {i. (w, i) \<in> set ms})"
  using assms
proof (induction ms arbitrary: m)
  case (Cons x ms)
  obtain w i where x: "x = (w, i)" by (cases x)
  have v: "valid m w i" using Cons.prems(2) x by simp
  have "good (mark w i m)" "\<forall>(w', i')\<in>set ms. valid (mark w i m) w' i'"
    using Cons.prems v by (auto simp: good_mark valid_mark)
  from Cons.IH [OF this] show ?case
    using Cons.prems v x by (auto simp: valid_mark marked_mark)
qed simp

lemma drain_after_marks:
  assumes "good m" "marked m w = {}" "\<forall>(w, i)\<in>set ms. valid m w i" "valid m w i0"
  shows "set (fst (drain w (fold (\<lambda>(w, i). mark w i) ms m))) = {i. (w, i) \<in> set ms}
    \<and> sorted_wrt (<) (fst (drain w (fold (\<lambda>(w, i). mark w i) ms m)))
    \<and> marked (snd (drain w (fold (\<lambda>(w, i). mark w i) ms m))) w = {}"
  using marks_state [OF assms(1,3)] assms(2,4)
  by (simp add: drain_set [where i = i0] drain_sorted [where i = i0] drain_marked [where i = i0])

end

definition dirty_ok :: "nat \<Rightarrow> DirtyMap \<Rightarrow> bool" where
  "dirty_ok workers m \<longleftrightarrow> length (d_words m) = workers * d_stride m"

definition dirty_valid :: "nat \<Rightarrow> DirtyMap \<Rightarrow> nat \<Rightarrow> nat \<Rightarrow> bool" where
  "dirty_valid workers m w i \<longleftrightarrow> w < workers \<and> i < 64 * d_stride m"

definition marked :: "DirtyMap \<Rightarrow> nat \<Rightarrow> nat set" where
  "marked m w = {i. i < 64 * d_stride m \<and> w * d_stride m + i div 64 < length (d_words m) \<and>
     bit (d_words m ! (w * d_stride m + i div 64)) (i mod 64)}"

lemma word_index:
  assumes "w < workers" "j < s"
  shows "w * s + j < workers * (s :: nat)"
proof -
  have "w * s + j < (w + 1) * s" using assms(2) by simp
  also have "\<dots> \<le> workers * s" using assms(1) by (intro mult_le_mono1) simp
  finally show ?thesis .
qed

lemma word_index_eq:
  assumes "j < s" "j' < (s :: nat)"
  shows "w * s + j = w' * s + j' \<longleftrightarrow> w = w' \<and> j = j'"
proof -
  have "(w * s + j) div s = w" "(w' * s + j') div s = w'" using assms by auto
  then show ?thesis by auto
qed

lemma div64_less: "i < 64 * s \<Longrightarrow> i div 64 < (s :: nat)"
  by (simp add: div_less_iff_less_mult mult.commute)

lemma mod64_inj: "i div 64 = j div 64 \<Longrightarrow> i mod 64 = j mod 64 \<Longrightarrow> i = (j :: nat)"
  by (metis mult_div_mod_eq)

lemma marked_Mark:
  assumes "dirty_ok n m" "dirty_valid n m w i"
  shows "marked (Mark w i m) = (marked m)(w := insert i (marked m w))"
proof (rule ext)
  fix w'
  have i: "w < n" "i div 64 < d_stride m" using assms(2) by (auto simp: dirty_valid_def div64_less)
  then have l: "w * d_stride m + i div 64 < length (d_words m)"
    using assms(1) by (simp add: dirty_ok_def word_index)
  have "bit (d_words (Mark w i m) ! (w' * d_stride m + j div 64)) (j mod 64) \<longleftrightarrow>
      bit (d_words m ! (w' * d_stride m + j div 64)) (j mod 64) \<or> w' = w \<and> j = i"
    if j: "j < 64 * d_stride m" for j
    using word_index_eq [OF div64_less [OF j] i(2), of w' w] l
    by (auto simp: Mark_def nth_upd_at bit_simps dest: mod64_inj)
  then show "marked (Mark w i m) w' = ((marked m)(w := insert i (marked m w))) w'"
    using assms(2) l by (auto simp: marked_def Mark_def dirty_valid_def)
qed

lemma fold_clear_nth:
  "k < length ws \<Longrightarrow>
   fold (\<lambda>w ws. ws[b + w := 0]) js ws ! k = (if k \<in> (\<lambda>w. b + w) ` set js then 0 else ws ! k)"
  by (induction js arbitrary: ws) (auto simp: nth_list_update)

lemma length_fold_clear [simp]: "length (fold (\<lambda>w ws. ws[b + w := v]) js ws) = length ws"
  by (induction js arbitrary: ws) auto

lemma marked_drain_clear:
  assumes "dirty_ok n m" "w < n"
  shows "marked (drain_clear w m) = (marked m)(w := {})"
proof (rule ext)
  fix w'
  have "d_words (drain_clear w m) ! (w' * d_stride m + j div 64) =
      (if w' = w then 0 else d_words m ! (w' * d_stride m + j div 64))"
    if j: "j < 64 * d_stride m" "w' * d_stride m + j div 64 < length (d_words m)" for j
  proof -
    have "w' * d_stride m + j div 64 \<in> (\<lambda>v. w * d_stride m + v) ` set [0..<d_stride m] \<longleftrightarrow> w' = w"
    proof
      assume "w' * d_stride m + j div 64 \<in> (\<lambda>v. w * d_stride m + v) ` set [0..<d_stride m]"
      then obtain v where "v < d_stride m" "w' * d_stride m + j div 64 = w * d_stride m + v"
        by (auto simp only: image_iff set_upt atLeastLessThan_iff)
      then show "w' = w" using word_index_eq [OF div64_less [OF j(1)], of v w' w] by simp
    qed (use div64_less [OF j(1)] in \<open>auto intro: image_eqI [of _ _ "j div 64"]\<close>)
    then show ?thesis using j(2) by (simp add: drain_clear_def fold_clear_nth)
  qed
  then show "marked (drain_clear w m) w' = ((marked m)(w := {})) w'"
    by (auto simp: marked_def drain_clear_def)
qed

lemma drain_order_set:
  assumes "dirty_ok n m" "w < n"
  shows "set (drain_order w m) = marked m w"
proof -
  have "i \<in> set (drain_order w m) \<longleftrightarrow> i \<in> marked m w" for i
  proof
    assume "i \<in> set (drain_order w m)"
    then obtain a b where ab: "a < d_stride m" "bit (d_words m ! (w * d_stride m + a)) b" "i = a * 64 + b"
      using bits_asc_correct by (auto simp: drain_order_def)
    then have "b < 64" using bit_imp_le_length by fastforce
    with ab assms show "i \<in> marked m w" by (simp add: marked_def dirty_ok_def word_index)
  next
    assume "i \<in> marked m w"
    then have "i div 64 < d_stride m" "i mod 64 \<in> set (bits_asc (d_words m ! (w * d_stride m + i div 64)))"
      using bits_asc_correct by (auto simp: marked_def div64_less)
    then show "i \<in> set (drain_order w m)"
      unfolding drain_order_def by (auto intro!: bexI [of _ "i div 64"] image_eqI [of _ _ "i mod 64"])
  qed
  then show ?thesis by blast
qed

lemma drain_order_sorted: "sorted_wrt (<) (drain_order w m)"
proof -
  have lt: "b < 64" if "b \<in> set (bits_asc v)" for b v
    using that bits_asc_correct [of v] bit_imp_le_length [of v b] by simp
  have "sorted_wrt (<) (concat (map (\<lambda>a. map (\<lambda>b. a * 64 + b) (bits_asc (f a))) [0..<k]))" for f :: "nat \<Rightarrow> u64" and k
  proof (induction k)
    case (Suc k)
    have "a * 64 + b < k * 64 + b'" if "a < k" "b \<in> set (bits_asc (f a))" for a b b'
      using that lt [of b "f a"] by simp
    then show ?case using Suc bits_asc_correct [of "f k"]
      by (auto simp: sorted_wrt_append sorted_wrt_map)
  qed simp
  then show ?thesis by (simp add: drain_order_def)
qed

interpretation dm: mark_sets Mark Drain marked "dirty_valid n" "dirty_ok n" for n
proof unfold_locales
  fix m w i w' i'
  assume m: "dirty_ok n m" and v: "dirty_valid n m w i"
  show "marked (Mark w i m) = (marked m)(w := insert i (marked m w))" using m v by (rule marked_Mark)
  show "dirty_ok n (Mark w i m)" using m by (simp add: dirty_ok_def Mark_def)
  show "dirty_valid n (Mark w i m) w' i' = dirty_valid n m w' i'" by (simp add: dirty_valid_def Mark_def)
  show "set (fst (Drain w m)) = marked m w" 
    using m v by (simp add: Drain_def drain_order_set dirty_valid_def)
  show "sorted_wrt (<) (fst (Drain w m))" by (simp add: Drain_def drain_order_sorted)
  show "marked (snd (Drain w m)) = (marked m)(w := {})"
    using m v by (simp add: Drain_def marked_drain_clear dirty_valid_def)
qed

lemma dirty_ok_Init: "dirty_ok n (DirtyMap_Init cap n)"
  by (simp add: dirty_ok_def DirtyMap_Init_def Let_def)

lemma marked_Init: "marked (DirtyMap_Init cap n) w = {}"
  by (auto simp: marked_def DirtyMap_Init_def Let_def)

end
