(* ===== verification/Session_Props.thy ===== *)
theory Session_Props
  imports Session
begin

text \<open>
  The session pool: its invariant, the reference counting contract as a locale interpreted on
  \<open>AddRef\<close> and \<open>Release\<close>, what \<open>Alloc\<close> hands out, and the dirty bitmap properties.
\<close>

section \<open>Pool invariant\<close>

text \<open>
  A slot is on the free stack exactly when nobody holds a reference to it, the stack has no
  duplicates, and every slot knows its own number.
\<close>

definition pool_ok :: "('r, 's) SessionPool \<Rightarrow> bool" where
  "pool_ok p \<longleftrightarrow> distinct (sfree p) \<and> set (sfree p) \<subseteq> {..<length (slots p)} \<and>
     (\<forall>i<length (slots p). idx (slots p ! i) = i \<and> 0 \<le> refs (slots p ! i) \<and>
        (i \<in> set (sfree p) \<longleftrightarrow> refs (slots p ! i) = 0))"

lemma pool_okD:
  assumes "pool_ok p" "i < length (slots p)"
  shows "idx (slots p ! i) = i" "0 \<le> refs (slots p ! i)" "i \<in> set (sfree p) \<longleftrightarrow> refs (slots p ! i) = 0"
  using assms by (auto simp: pool_ok_def)

lemma length_upd_sess [simp]: "length (slots (upd_sess i f p)) = length (slots p)"
  by (simp add: upd_sess_def)

lemma sfree_upd_sess [simp]: "sfree (upd_sess i f p) = sfree p"
  by (simp add: upd_sess_def)

lemma slots_upd_sess: "i < length (slots p) \<Longrightarrow> slots (upd_sess i f p) ! j = (if j = i then f (slots p ! i) else slots p ! j)"
  by (simp add: upd_sess_def nth_upd_at)

lemma upd_sess_other [simp]: "j \<noteq> i \<Longrightarrow> slots (upd_sess i f p) ! j = slots p ! j"
  by (simp add: upd_sess_def)

lemma length_pool_ops [simp]:
  "length (slots (AddRef i p)) = length (slots p)"
  "length (slots (Release i p)) = length (slots p)"
  by (simp_all add: AddRef_def Release_def Let_def upd_sess_def)

lemma pool_ok_Init: "pool_ok (SessionPool_Init r s n)"
  by (auto simp: pool_ok_def SessionPool_Init_def new_session_def)

lemma sfree_AddRef [simp]: "sfree (AddRef i p) = sfree p"
  by (simp add: AddRef_def)

lemma slots_AddRef: "i < length (slots p) \<Longrightarrow>
    slots (AddRef i p) ! j = (if j = i then (slots p ! i)\<lparr>refs := refs (slots p ! i) + 1\<rparr> else slots p ! j)"
  by (simp add: AddRef_def slots_upd_sess)

lemma slots_Release: "i < length (slots p) \<Longrightarrow>
    slots (Release i p) ! j = (if j = i then (slots p ! i)\<lparr>refs := refs (slots p ! i) - 1,
       gen := (if refs (slots p ! i) = 1 then gen (slots p ! i) + 1 else gen (slots p ! i))\<rparr> else slots p ! j)"
  by (simp add: Release_def Let_def upd_sess_def nth_upd_at)

lemma sfree_Release: "i < length (slots p) \<Longrightarrow>
    sfree (Release i p) = (if refs (slots p ! i) = 1 then sfree p @ [idx (slots p ! i)] else sfree p)"
  by (simp add: Release_def Let_def upd_sess_def)

lemma pool_ok_AddRef: "pool_ok p \<Longrightarrow> i < length (slots p) \<Longrightarrow> 0 < refs (slots p ! i) \<Longrightarrow> pool_ok (AddRef i p)"
  by (auto simp: pool_ok_def slots_AddRef)

lemma pool_ok_Release: "pool_ok p \<Longrightarrow> i < length (slots p) \<Longrightarrow> 0 < refs (slots p ! i) \<Longrightarrow> pool_ok (Release i p)"
  by (auto simp: pool_ok_def slots_Release sfree_Release)

section \<open>Reference counting as an interface\<close>

locale counted_slots =
  fixes rf :: "'p \<Rightarrow> nat \<Rightarrow> int" and free :: "'p \<Rightarrow> nat set" and cap :: "'p \<Rightarrow> nat"
    and add :: "nat \<Rightarrow> 'p \<Rightarrow> 'p" and rel :: "nat \<Rightarrow> 'p \<Rightarrow> 'p" and good :: "'p \<Rightarrow> bool"
  assumes free_iff: "good p \<Longrightarrow> i < cap p \<Longrightarrow> i \<in> free p \<longleftrightarrow> rf p i = 0"
    and nonneg: "good p \<Longrightarrow> i < cap p \<Longrightarrow> 0 \<le> rf p i"
    and good_add: "good p \<Longrightarrow> i < cap p \<Longrightarrow> 0 < rf p i \<Longrightarrow> good (add i p)"
    and rf_add: "i < cap p \<Longrightarrow> rf (add i p) j = rf p j + (if j = i then 1 else 0)"
    and cap_add: "cap (add i p) = cap p"
    and good_rel: "good p \<Longrightarrow> i < cap p \<Longrightarrow> 0 < rf p i \<Longrightarrow> good (rel i p)"
    and rf_rel: "i < cap p \<Longrightarrow> rf (rel i p) j = rf p j - (if j = i then 1 else 0)"
    and cap_rel: "cap (rel i p) = cap p"
begin

text \<open>Returning a whole batch of references, as the queue processing does.\<close>

lemma release_all:
  assumes "good p" "\<forall>i\<in>set js. i < cap p" "\<forall>i < cap p. int (count_list js i) \<le> rf p i"
  shows "good (fold rel js p) \<and> cap (fold rel js p) = cap p \<and>
    (\<forall>i. rf (fold rel js p) i = rf p i - int (count_list js i))"
  using assms
proof (induction js arbitrary: p)
  case (Cons k js)
  have k: "k < cap p" using Cons.prems(2) by simp
  with Cons.prems(3) have "1 + int (count_list js k) \<le> rf p k" by (auto dest: spec [of _ k])
  then have pos: "0 < rf p k" by linarith
  have "\<forall>i < cap (rel k p). int (count_list js i) \<le> rf (rel k p) i"
    using Cons.prems(3) k by (auto simp: rf_rel cap_rel split: if_splits)
  with Cons.IH [of "rel k p"] Cons.prems k pos show ?case
    by (auto simp: good_rel cap_rel rf_rel)
qed simp

lemma freed_iff_all_returned:
  assumes "good p" "\<forall>i\<in>set js. i < cap p" "\<forall>i < cap p. int (count_list js i) \<le> rf p i" "i < cap p"
  shows "i \<in> free (fold rel js p) \<longleftrightarrow> rf p i = int (count_list js i)"
  using release_all [OF assms(1-3)] assms(4) by (simp add: free_iff)

lemma add_then_release: "i < cap p \<Longrightarrow> rf (rel i (add i p)) j = rf p j"
  by (simp add: rf_rel rf_add cap_add)

end

interpretation pool: counted_slots "\<lambda>p i. refs (slots p ! i)" "\<lambda>p. set (sfree p)" "\<lambda>p. length (slots p)"
    AddRef Release pool_ok
  by unfold_locales
    (auto simp: pool_okD pool_ok_AddRef pool_ok_Release slots_AddRef slots_Release)

text \<open>C12. A slot is recycled exactly when its last reference is returned: after any batch of
  releases that returns no reference twice, in any order and by any threads, a slot is on the
  free stack if and only if as many references came back as were held.\<close>

theorem slot_freed_iff_all_returned:
  assumes "pool_ok p" "\<forall>i\<in>set js. i < length (slots p)"
    and "\<forall>i<length (slots p). int (count_list js i) \<le> refs (slots p ! i)" "i < length (slots p)"
  shows "pool_ok (fold Release js p) \<and>
    (i \<in> set (sfree (fold Release js p)) \<longleftrightarrow> refs (slots p ! i) = int (count_list js i))"
  using pool.release_all [OF assms(1-3)] pool.freed_iff_all_returned [OF assms] by blast

text \<open>Two slots, the first handed out and held twice.\<close>

definition pool2 :: "(list_ring, list_ring) SessionPool" where
  "pool2 = AddRef 0 (snd (Alloc list_ring_ops list_ring_ops (SessionPool_Init (0, []) (0, []) 2)))"

lemma pool2_eq: "pool2 = \<lparr>slots = [(claim_session (new_session (8191, []) (16383, []) 0))\<lparr>refs := 2\<rparr>,
    new_session (0, []) (0, []) 1], sfree = [1]\<rparr>"
  by (simp add: pool2_def Alloc_def SessionPool_Init_def list_ring_ops_def new_session_def upd_sess_def
    upd_at_def AddRef_def claim_session_def kRecvRingSize_def kSendRingSize_def upt_rec Let_def)

lemma pool2_ok: "pool_ok pool2"
  by (auto simp: pool_ok_def pool2_eq less_2_cases_iff new_session_def claim_session_def
    numeral_2_eq_2 less_Suc_eq)

theorem slot_freed_iff_all_returned_witness:
  "(0::nat) \<in> set (sfree (fold Release [0, 0] pool2)) \<and> 0 \<notin> set (sfree (fold Release [0] pool2))"
  using slot_freed_iff_all_returned [OF pool2_ok, of "[0, 0]" 0]
    slot_freed_iff_all_returned [OF pool2_ok, of "[0]" 0]
  by (simp add: pool2_eq new_session_def claim_session_def numeral_2_eq_2 less_Suc_eq all_conj_distrib)

section \<open>Alloc\<close>

lemma Alloc_SomeE:
  assumes "Alloc ST MT p = (Some i, p')"
  obtains ys rq sq where "sfree p = ys @ [i]"
    and "p' = upd_sess i (\<lambda>s. claim_session (s\<lparr>recvQ := rq, sendQ := sq\<rparr>)) (p\<lparr>sfree := ys\<rparr>)"
proof -
  have ne: "sfree p \<noteq> []" and i: "i = last (sfree p)"
    using assms by (auto simp: Alloc_def Let_def split: if_splits prod.splits)
  have "\<exists>rq sq. p' = upd_sess i (\<lambda>s. claim_session (s\<lparr>recvQ := rq, sendQ := sq\<rparr>))
      (p\<lparr>sfree := butlast (sfree p)\<rparr>)"
  proof (cases "rb_IsValid ST (recvQ (slots p ! i))")
    case True
    let ?s = "slots p ! i"
    have "p' = upd_sess i (\<lambda>s. claim_session (s\<lparr>recvQ := rb_Clear ST (recvQ ?s), sendQ := rb_Clear MT (sendQ ?s)\<rparr>))
      (p\<lparr>sfree := butlast (sfree p)\<rparr>)"
      using True assms ne i by (auto simp: Alloc_def Let_def upd_sess_def upd_at_def)
    then show ?thesis by blast
  next
    case False
    then show ?thesis using assms ne i by (auto simp: Alloc_def Let_def split: if_splits prod.splits)
  qed
  moreover have "sfree p = butlast (sfree p) @ [i]" using ne i by simp
  ultimately show ?thesis using that by blast
qed

text \<open>What the books of a slot are: everything but its two buffers.\<close>

definition books :: "('r, 's) Session \<Rightarrow> int \<times> bool \<times> u32 \<times> nat \<times> int \<times> nat \<times> bool \<times> bool \<times> nat \<times> nat" where
  "books s = (refs s, dead s, gen s, idx s, fd s, owner s, wantWrite s, inRoom s, roomIdx s, actorId s)"

lemma Alloc_SomeD:
  assumes "pool_ok p" "Alloc ST MT p = (Some i, p')"
  shows "pool_ok p'" "i < length (slots p)" "i \<in> set (sfree p)" "refs (slots p ! i) = 0"
    "length (slots p') = length (slots p)" "set (sfree p') = set (sfree p) - {i}"
    "books (slots p' ! i) = books (claim_session (slots p ! i))"
    "\<And>j. j \<noteq> i \<Longrightarrow> slots p' ! j = slots p ! j"
proof -
  obtain ys rq sq where ys: "sfree p = ys @ [i]"
    and p': "p' = upd_sess i (\<lambda>s. claim_session (s\<lparr>recvQ := rq, sendQ := sq\<rparr>)) (p\<lparr>sfree := ys\<rparr>)"
    using assms(2) by (rule Alloc_SomeE)
  have i: "i < length (slots p)" "distinct ys" "i \<notin> set ys"
    using assms(1) ys by (auto simp: pool_ok_def)
  then show "i < length (slots p)" by blast
  show "i \<in> set (sfree p)" by (simp add: ys)
  then show "refs (slots p ! i) = 0" using pool_okD(3) [OF assms(1) i(1)] by simp
  have nth: "slots p' ! j = (if j = i then claim_session ((slots p ! i)\<lparr>recvQ := rq, sendQ := sq\<rparr>) else slots p ! j)" for j
    using i by (simp add: p' slots_upd_sess)
  show l: "length (slots p') = length (slots p)" by (simp add: p')
  show f: "set (sfree p') = set (sfree p) - {i}" using i ys by (simp add: p')
  show "pool_ok p'" unfolding pool_ok_def l f
    using assms(1) i ys by (auto simp: nth pool_ok_def) (auto simp: claim_session_def p')
  show "books (slots p' ! i) = books (claim_session (slots p ! i))"
    by (simp add: nth books_def claim_session_def)
  show "slots p' ! j = slots p ! j" if "j \<noteq> i" for j using that by (simp add: nth)
qed

lemma Alloc_NoneD:
  assumes "Alloc ST MT p = (None, p')"
  shows "sfree p' = sfree p" "length (slots p') = length (slots p)" "books (slots p' ! j) = books (slots p ! j)"
proof -
  show "sfree p' = sfree p" "length (slots p') = length (slots p)"
    using assms by (auto simp: Alloc_def Let_def split: if_splits prod.splits)
  have u: "books (upd_at i f xs ! j) = books (xs ! j)"
    if "\<And>s. books (f s) = books s" for i f and xs :: "('a, 'b) Session list"
    using that by (cases "i < length xs") (simp_all add: upd_at_def nth_list_update list_update_beyond)
  show "books (slots p' ! j) = books (slots p ! j)"
    using assms by (auto simp: Alloc_def Let_def upd_sess_def intro!: u split: if_splits prod.splits)
      (simp_all add: books_def)
qed

text \<open>A session handed out is fresh: it was free, it is now held by exactly one reference and
  no longer on the free stack, it is alive, in no room and without a socket, its generation is
  the one the slot had, every other slot is untouched, and the pool stays consistent.\<close>

theorem alloc_fresh:
  assumes "pool_ok p" and "Alloc ST MT p = (Some i, p')"
  shows "pool_ok p' \<and> i \<in> set (sfree p) \<and> set (sfree p') = set (sfree p) - {i}
    \<and> refs (slots p' ! i) = 1 \<and> \<not> dead (slots p' ! i) \<and> \<not> inRoom (slots p' ! i)
    \<and> fd (slots p' ! i) = - 1 \<and> gen (slots p' ! i) = gen (slots p ! i)
    \<and> length (slots p') = length (slots p) \<and> (j \<noteq> i \<longrightarrow> slots p' ! j = slots p ! j)"
  using Alloc_SomeD [OF assms] by (auto simp: books_def claim_session_def)

theorem alloc_fresh_witness:
  "refs (slots (snd (Alloc list_ring_ops list_ring_ops pool2)) ! 1) = 1"
proof -
  have "Alloc list_ring_ops list_ring_ops pool2 = (Some 1, snd (Alloc list_ring_ops list_ring_ops pool2))"
    by (simp add: pool2_eq Alloc_def new_session_def list_ring_ops_def kRecvRingSize_def kSendRingSize_def Let_def)
  from alloc_fresh [OF pool2_ok this] show ?thesis by blast
qed

text \<open>C16. A stale reference is always recognised: whoever kept the slot number and generation of a
  session that was freed in between never matches the next session in that slot, because the
  last release stepped the generation.\<close>

theorem stale_tag_never_matches:
  assumes "pool_ok p" and "i < length (slots p)" and "refs (slots p ! i) = 1"
    and "Alloc ST MT (Release i p) = (Some k, p')"
  shows "gen (slots p' ! i) = gen (slots p ! i) + 1 \<and> gen (slots p' ! i) \<noteq> gen (slots p ! i)
    \<and> i \<in> set (sfree (Release i p))"
proof -
  have ok: "pool_ok (Release i p)" using pool_ok_Release [OF assms(1,2)] assms(3) by simp
  have g: "gen (slots (Release i p) ! i) = gen (slots p ! i) + 1"
    using assms(2,3) by (simp add: slots_Release)
  have "gen (slots p' ! i) = gen (slots (Release i p) ! i)"
  proof (cases "k = i")
    case True
    then show ?thesis using Alloc_SomeD(7) [OF ok assms(4)] by (simp add: books_def claim_session_def)
  qed (use Alloc_SomeD(8) [OF ok assms(4), of i] in simp)
  then show ?thesis
    using g assms(1-3) pool_okD(1) [OF assms(1,2)] by (simp add: sfree_Release)
qed

theorem stale_tag_never_matches_witness:
  "gen (slots (snd (Alloc list_ring_ops list_ring_ops (Release 0 (Release 0 pool2)))) ! 0) = 1"
proof -
  let ?p = "Release 0 pool2"
  have p: "?p = \<lparr>slots = [claim_session (new_session (8191, []) (16383, []) 0), new_session (0, []) (0, []) 1],
      sfree = [1]\<rparr>"
    by (simp add: pool2_eq Release_def upd_sess_def upd_at_def claim_session_def new_session_def Let_def)
  then have fst_alloc: "fst (Alloc list_ring_ops list_ring_ops (Release 0 ?p)) = Some 0"
    by (simp only: p) (simp add: Release_def upd_sess_def upd_at_def Alloc_def claim_session_def
        new_session_def list_ring_ops_def Let_def)
  have ok: "pool_ok ?p"
    using pool_ok_Release [OF pool2_ok, of 0] by (simp add: pool2_eq)
  have "Alloc list_ring_ops list_ring_ops (Release 0 ?p)
      = (Some 0, snd (Alloc list_ring_ops list_ring_ops (Release 0 ?p)))"
    using fst_alloc by (metis prod.collapse)
  from stale_tag_never_matches [OF ok _ _ this] show ?thesis
    by (simp only: p) (simp add: claim_session_def new_session_def)
qed

section \<open>A half initialised session\<close>

text \<open>C26. When the first use of a slot initialises its receive buffer but the send buffer cannot be
  allocated, the call fails as it should, but the slot goes back half initialised: the next
  call only looks at the receive buffer, and hands out the session with its send buffer merely
  cleared, never initialised.\<close>

theorem half_initialised_session:
  assumes "sfree p = ys @ [i]" and "i < length (slots p)" and "\<not> rb_IsValid ST (recvQ (slots p ! i))"
    and "rb_Init ST kRecvRingSize (recvQ (slots p ! i)) = (True, rq)" and "rb_IsValid ST rq"
    and "rb_Init MT kSendRingSize (sendQ (slots p ! i)) = (False, sq)"
  shows "fst (Alloc ST MT p) = None
    \<and> fst (Alloc ST MT (snd (Alloc ST MT p))) = Some i
    \<and> sendQ (slots (snd (Alloc ST MT (snd (Alloc ST MT p)))) ! i) = rb_Clear MT sq"
  using assms by (simp add: Alloc_def Let_def slots_upd_sess claim_session_def)

text \<open>A send buffer whose allocation always fails.\<close>

theorem half_initialised_session_witness:
  "fst (Alloc list_ring_ops (list_ring_ops\<lparr>rb_Init := \<lambda>n q. (False, q)\<rparr>)
     (snd (Alloc list_ring_ops (list_ring_ops\<lparr>rb_Init := \<lambda>n q. (False, q)\<rparr>)
        (SessionPool_Init (0, []) (0, []) 1)))) = Some 0"
  using half_initialised_session [of "SessionPool_Init (0, []) (0, []) 1" "[]" 0 list_ring_ops
    "(8191, [])" "list_ring_ops\<lparr>rb_Init := \<lambda>n q. (False, q)\<rparr>" "(0, [])"]
  by (simp add: SessionPool_Init_def new_session_def list_ring_ops_def kRecvRingSize_def)

section \<open>The dirty bitmap\<close>

text \<open>C18. No wakeup is lost and none is invented: after any sequence of marks by the game workers
  on a drained bitmap, an epoll worker's drain visits exactly the sessions marked for it, each
  once, in ascending order, and leaves its part of the bitmap empty.\<close>

theorem dirty_drain_exact:
  assumes "dirty_ok n m" and "marked m w = {}" and "\<forall>(v, i)\<in>set ms. dirty_valid n m v i"
    and "dirty_valid n m w k"
  shows "set (fst (Drain w (fold (\<lambda>(v, i). Mark v i) ms m))) = {i. (w, i) \<in> set ms}
    \<and> sorted_wrt (<) (fst (Drain w (fold (\<lambda>(v, i). Mark v i) ms m)))
    \<and> marked (snd (Drain w (fold (\<lambda>(v, i). Mark v i) ms m))) w = {}"
  using dm.drain_after_marks [OF assms] by blast

theorem dirty_drain_exact_witness:
  "set (fst (Drain 1 (fold (\<lambda>(v, i). Mark v i) [(1, 70), (0, 3), (1, 5), (1, 70)] (DirtyMap_Init 100 2))))
     = {70, 5}"
proof -
  have v: "dirty_valid 2 (DirtyMap_Init 100 2) v i \<longleftrightarrow> v < 2 \<and> i < 128" for v i
    by (simp add: dirty_valid_def DirtyMap_Init_def Let_def)
  show ?thesis
    using dirty_drain_exact [of 2 "DirtyMap_Init 100 2" 1 "[(1, 70), (0, 3), (1, 5), (1, 70)]" 0]
    by (simp add: v dirty_ok_Init marked_Init) auto
qed

end
