(* ===== verification/Protocol.thy ===== *)
theory Protocol
  imports World
begin

text \<open>
  The wire protocol (Protocol.h): message types, little-endian packed structs, the position
  quantisation and the size limits. A packed struct is a record and its memory image is the
  list of its bytes. The source has no encoders and decoders, it copies these structs: \<open>enc_*\<close> is the
  image of a struct that is sent, \<open>dec_*\<close> the struct that received bytes are the image of.
\<close>

section \<open>Little-endian scalars\<close>

fun le :: "nat \<Rightarrow> 'a::len word \<Rightarrow> bytes" where
  "le 0 w = []"
| "le (Suc n) w = ucast w # le n (drop_bit 8 w)"

fun unle :: "bytes \<Rightarrow> 'a::len word" where
  "unle [] = 0"
| "unle (b # bs) = ucast b OR push_bit 8 (unle bs)"

text \<open>\<open>field off n bs\<close> reads the n bytes at an offset of a struct.\<close>

definition field :: "nat \<Rightarrow> nat \<Rightarrow> bytes \<Rightarrow> 'a::len word" where
  "field off n bs = unle (take n (drop off bs))"

lemma length_le [simp]: "length (le n w) = n"
  by (induction n arbitrary: w) auto

lemma unle_le: "unle (le n w) = take_bit (8 * n) w"
proof (induction n arbitrary: w)
  case (Suc n)
  have "ucast (ucast w :: u8) OR push_bit 8 (take_bit (8 * n) (drop_bit 8 w)) = take_bit (8 * Suc n) w"
    by (rule bit_word_eqI) (auto simp: bit_simps)
  with Suc show ?case by simp
qed simp

lemma unle_le_id [simp]: "LENGTH('a) \<le> 8 * n \<Longrightarrow> unle (le n (w :: 'a::len word)) = w"
  by (simp add: unle_le take_bit_word_eq_self)

lemma le_inject: "LENGTH('a) \<le> 8 * n \<Longrightarrow> le n (v :: 'a::len word) = le n w \<longleftrightarrow> v = w"
  by (metis unle_le_id)

lemma field_append_left: "off + n \<le> length xs \<Longrightarrow> field off n (xs @ ys) = field off n xs"
  by (simp add: field_def)

lemma field_append_right: "length xs \<le> off \<Longrightarrow> field off n (xs @ ys) = field (off - length xs) n ys"
  by (simp add: field_def)

lemma field_le: "LENGTH('a) \<le> 8 * n \<Longrightarrow> field 0 n (le n (w :: 'a::len word)) = w"
  by (simp add: field_def)

lemma field_le_append: "LENGTH('a) \<le> 8 * n \<Longrightarrow> field 0 n (le n (w :: 'a::len word) @ ys) = w"
  by (simp add: field_append_left field_le)

lemmas field_simps_le = field_append_right field_le_append field_le

section \<open>Message types and limits\<close>

datatype MsgType = ECHO | C2S_JOIN | C2S_INPUT | C2S_PING
  | S2C_JOIN_OK | S2C_JOIN_FAIL | S2C_SNAPSHOT | S2C_PONG | S2C_ROOM_EVENT

fun msg_code :: "MsgType \<Rightarrow> u16" where
  "msg_code ECHO = 1"
| "msg_code C2S_JOIN = 10"
| "msg_code C2S_INPUT = 11"
| "msg_code C2S_PING = 12"
| "msg_code S2C_JOIN_OK = 100"
| "msg_code S2C_JOIN_FAIL = 101"
| "msg_code S2C_SNAPSHOT = 102"
| "msg_code S2C_PONG = 103"
| "msg_code S2C_ROOM_EVENT = 104"

text \<open>\<open>static_cast<MsgType>(h->type)\<close> as the switch sees it: None falls into \<open>default\<close>.\<close>

definition all_msg_types :: "MsgType list" where
  "all_msg_types = [ECHO, C2S_JOIN, C2S_INPUT, C2S_PING, S2C_JOIN_OK, S2C_JOIN_FAIL, S2C_SNAPSHOT,
     S2C_PONG, S2C_ROOM_EVENT]"

definition msg_type_of :: "u16 \<Rightarrow> MsgType option" where
  "msg_type_of c = List.find (\<lambda>t. msg_code t = c) all_msg_types"

lemma msg_type_of_code [simp]: "msg_type_of (msg_code t) = Some t"
  by (cases t) (simp_all add: msg_type_of_def all_msg_types_def)

datatype JoinFailReason = VersionMismatch | NoCapacity | AlreadyJoined

fun reason_code :: "JoinFailReason \<Rightarrow> u8" where
  "reason_code VersionMismatch = 1"
| "reason_code NoCapacity = 2"
| "reason_code AlreadyJoined = 3"

datatype RoomEventKind = Enter | Leave | RoomMove

fun event_code :: "RoomEventKind \<Rightarrow> u8" where
  "event_code Enter = 1"
| "event_code Leave = 2"
| "event_code RoomMove = 3"

definition kProtocolVersion :: u16 where "kProtocolVersion = 1"
definition MAX_PACKET_SIZE :: nat where "MAX_PACKET_SIZE = 1024"
definition kHeaderSize :: nat where "kHeaderSize = 4"

section \<open>Position quantisation\<close>

definition kPosQuantScale :: rat where "kPosQuantScale = 32"

definition QuantPos :: "rat \<Rightarrow> u16" where
  "QuantPos v = (let v' = (if v < 0 then 0 else v)
     in word_of_int \<lfloor>fadd (fmul v' kPosQuantScale) (1/2)\<rfloor>)"

section \<open>Client messages\<close>

record MsgHeader =
  h_size :: u16
  h_type :: u16

definition enc_header :: "nat \<Rightarrow> MsgType \<Rightarrow> bytes" where
  "enc_header n t = le 2 (of_nat n :: u16) @ le 2 (msg_code t)"

definition dec_header :: "bytes \<Rightarrow> MsgHeader" where
  "dec_header bs = \<lparr>h_size = field 0 2 bs, h_type = field 2 2 bs\<rparr>"

definition kJoinSize :: nat where "kJoinSize = 6"
definition kInputSize :: nat where "kInputSize = 12"
definition kPingSize :: nat where "kPingSize = 12"

definition enc_join :: "u16 \<Rightarrow> bytes" where
  "enc_join ver = enc_header kJoinSize C2S_JOIN @ le 2 ver"

definition dec_join :: "bytes \<Rightarrow> u16" where
  "dec_join bs = field 4 2 bs"

record MSG_C2S_INPUT =
  i_seq :: u32
  i_mx :: i8
  i_my :: i8
  i_attack :: u8
  i_skill :: u8

definition enc_input :: "MSG_C2S_INPUT \<Rightarrow> bytes" where
  "enc_input m = enc_header kInputSize C2S_INPUT @ le 4 (i_seq m) @ le 1 (i_mx m) @ le 1 (i_my m)
     @ le 1 (i_attack m) @ le 1 (i_skill m)"

definition dec_input :: "bytes \<Rightarrow> MSG_C2S_INPUT" where
  "dec_input bs = \<lparr>i_seq = field 4 4 bs, i_mx = field 8 1 bs, i_my = field 9 1 bs,
     i_attack = field 10 1 bs, i_skill = field 11 1 bs\<rparr>"

definition enc_ping :: "i64 \<Rightarrow> bytes" where
  "enc_ping t = enc_header kPingSize C2S_PING @ le 8 t"

definition dec_ping :: "bytes \<Rightarrow> i64" where
  "dec_ping bs = field 4 8 bs"

section \<open>Server messages\<close>

definition enc_join_ok :: "u8 \<Rightarrow> u32 \<Rightarrow> u32 \<Rightarrow> bytes" where
  "enc_join_ok actorId roomId serverTick =
     enc_header 13 S2C_JOIN_OK @ le 1 actorId @ le 4 roomId @ le 4 serverTick"

definition enc_join_fail :: "JoinFailReason \<Rightarrow> bytes" where
  "enc_join_fail r = enc_header 5 S2C_JOIN_FAIL @ le 1 (reason_code r)"

definition enc_room_event :: "RoomEventKind \<Rightarrow> u8 \<Rightarrow> u32 \<Rightarrow> u16 \<Rightarrow> u16 \<Rightarrow> bytes" where
  "enc_room_event k actorId roomId qx qy =
     enc_header 14 S2C_ROOM_EVENT @ le 1 (event_code k) @ le 1 actorId @ le 4 roomId @ le 2 qx @ le 2 qy"

definition enc_pong :: "i64 \<Rightarrow> u32 \<Rightarrow> u32 \<Rightarrow> bytes" where
  "enc_pong clientTimeUs serverTick tickRemainUs =
     enc_header 20 S2C_PONG @ le 8 clientTimeUs @ le 4 serverTick @ le 4 tickRemainUs"

record SnapActor =
  sa_id :: u8
  sa_kind :: u8
  sa_state :: u8
  sa_face :: i8
  sa_qx :: u16
  sa_qy :: u16
  sa_hp :: i16

definition enc_snap_actor :: "SnapActor \<Rightarrow> bytes" where
  "enc_snap_actor a = le 1 (sa_id a) @ le 1 (sa_kind a) @ le 1 (sa_state a) @ le 1 (sa_face a)
     @ le 2 (sa_qx a) @ le 2 (sa_qy a) @ le 2 (sa_hp a)"

record MSG_S2C_SNAPSHOT =
  s_serverTick :: u32
  s_actorCount :: u8
  s_lastInputSeq :: "u32 list"
  s_actors :: "SnapActor list"

definition kSnapshotSize :: nat where "kSnapshotSize = 165"

definition enc_snapshot :: "MSG_S2C_SNAPSHOT \<Rightarrow> bytes" where
  "enc_snapshot m = enc_header kSnapshotSize S2C_SNAPSHOT @ le 4 (s_serverTick m) @ le 1 (s_actorCount m)
     @ concat (map (le 4) (s_lastInputSeq m)) @ concat (map enc_snap_actor (s_actors m))"

section \<open>Sizes and round trips\<close>

lemma length_enc_header [simp]: "length (enc_header n t) = 4"
  by (simp add: enc_header_def)

lemma length_enc [simp]:
  "length (enc_join v) = kJoinSize" "length (enc_input m) = kInputSize" "length (enc_ping t) = kPingSize"
  "length (enc_join_ok a r tk) = 13" "length (enc_join_fail f) = 5" "length (enc_pong t tk us) = 20"
  "length (enc_room_event k a r qx qy) = 14" "length (enc_snap_actor sa) = 10"
  by (simp_all add: enc_join_def enc_input_def enc_ping_def enc_join_ok_def enc_join_fail_def enc_pong_def
      enc_room_event_def enc_snap_actor_def kJoinSize_def kInputSize_def kPingSize_def)

lemma length_concat_const: "(\<And>x. x \<in> set xs \<Longrightarrow> length (f x) = k) \<Longrightarrow> length (concat (map f xs)) = k * length xs"
  by (induction xs) auto

lemma length_enc_snapshot:
  "length (s_lastInputSeq m) = kRoomMembers \<Longrightarrow> length (s_actors m) = kSnapActors \<Longrightarrow>
   length (enc_snapshot m) = kSnapshotSize"
  by (simp add: enc_snapshot_def length_concat_const [of _ _ 4] length_concat_const [of _ _ 10]
      kRoomMembers_def kSnapActors_def kSnapshotSize_def)

lemma dec_header_enc: "dec_header (enc_header n t @ bs) = \<lparr>h_size = of_nat n, h_type = msg_code t\<rparr>"
  by (simp add: dec_header_def enc_header_def field_simps_le)

text \<open>Every message a client sends is read back by the server exactly as it was written: the
  header gives the type and the size of the whole packet, the size is the one the handler
  requires and is inside the parser limits, and the payload decodes to the same values.\<close>

theorem client_message_roundtrip:
  "dec_header (enc_join v) = \<lparr>h_size = of_nat (length (enc_join v)), h_type = msg_code C2S_JOIN\<rparr>
   \<and> dec_join (enc_join v) = v
   \<and> dec_header (enc_input m) = \<lparr>h_size = of_nat (length (enc_input m)), h_type = msg_code C2S_INPUT\<rparr>
   \<and> dec_input (enc_input m) = m
   \<and> dec_header (enc_ping t) = \<lparr>h_size = of_nat (length (enc_ping t)), h_type = msg_code C2S_PING\<rparr>
   \<and> dec_ping (enc_ping t) = t
   \<and> (length (enc_join v), length (enc_input m), length (enc_ping t)) = (6, 12, 12)"
  by (simp add: enc_join_def enc_input_def enc_ping_def dec_header_enc dec_join_def dec_input_def
      dec_ping_def field_simps_le kJoinSize_def kInputSize_def kPingSize_def)
    (simp add: field_def numeral_eq_Suc)

lemma append_eq_len: "length xs = length ys \<Longrightarrow> xs @ us = ys @ vs \<longleftrightarrow> xs = ys \<and> us = vs"
  by simp

lemma enc_snap_actor_inject: "enc_snap_actor a = enc_snap_actor b \<longleftrightarrow> a = b"
  by (cases a; cases b) (simp add: enc_snap_actor_def append_eq_len le_inject)

lemma concat_map_inject:
  assumes "\<And>x y. f x = f y \<Longrightarrow> x = y" "\<And>x. length (f x) = k" "length xs = length ys"
    "concat (map f xs) = concat (map f ys)"
  shows "xs = ys"
  using assms(3,4)
proof (induction xs ys rule: list_induct2)
  case (Cons x xs y ys)
  then show ?case using assms(1,2) by (simp add: append_eq_len)
qed simp

text \<open>A snapshot is self-contained: two full snapshots with the same 165 bytes carry the same
  tick, the same acknowledged input numbers and the same state of all fourteen actors.\<close>

theorem snapshot_self_contained:
  assumes "length (s_lastInputSeq m) = kRoomMembers" "length (s_actors m) = kSnapActors"
    and "length (s_lastInputSeq n) = kRoomMembers" "length (s_actors n) = kSnapActors"
  shows "length (enc_snapshot m) = 165 \<and> 165 \<le> MAX_PACKET_SIZE \<and> (enc_snapshot m = enc_snapshot n \<longleftrightarrow> m = n)"
proof -
  have l: "length (concat (map (le 4) (s_lastInputSeq m))) = length (concat (map (le 4) (s_lastInputSeq n)))"
    using assms by (simp add: length_concat_const [of _ _ 4])
  have "m = n" if "enc_snapshot m = enc_snapshot n"
  proof -
    from that have e: "s_serverTick m = s_serverTick n" "s_actorCount m = s_actorCount n"
      "concat (map (le 4) (s_lastInputSeq m)) = concat (map (le 4) (s_lastInputSeq n))"
      "concat (map enc_snap_actor (s_actors m)) = concat (map enc_snap_actor (s_actors n))"
      using l by (simp_all add: enc_snapshot_def append_eq_len le_inject)
    have "s_lastInputSeq m = s_lastInputSeq n"
      by (rule concat_map_inject [OF _ _ _ e(3), where k = 4]) (use assms in \<open>simp_all add: le_inject\<close>)
    moreover have "s_actors m = s_actors n"
      by (rule concat_map_inject [OF _ _ _ e(4), where k = 10]) (use assms in \<open>simp_all add: enc_snap_actor_inject\<close>)
    ultimately show ?thesis using e by simp
  qed
  then show ?thesis
    using length_enc_snapshot [OF assms(1,2)] by (auto simp: kSnapshotSize_def MAX_PACKET_SIZE_def)
qed

theorem snapshot_self_contained_witness:
  "(let m = \<lparr>s_serverTick = 3, s_actorCount = 14, s_lastInputSeq = [7, 0, 0, 0],
        s_actors = replicate 14 \<lparr>sa_id = 0, sa_kind = 0, sa_state = 255, sa_face = 1, sa_qx = 0, sa_qy = 0, sa_hp = 0\<rparr>\<rparr>
    in length (enc_snapshot m) = 165 \<and> enc_snapshot m \<noteq> enc_snapshot (m\<lparr>s_lastInputSeq := [8, 0, 0, 0]\<rparr>))"
  using snapshot_self_contained
    [of "\<lparr>s_serverTick = 3, s_actorCount = 14, s_lastInputSeq = [7, 0, 0, 0],
        s_actors = replicate 14 \<lparr>sa_id = 0, sa_kind = 0, sa_state = 255, sa_face = 1, sa_qx = 0, sa_qy = 0, sa_hp = 0\<rparr>\<rparr>"
      "\<lparr>s_serverTick = 3, s_actorCount = 14, s_lastInputSeq = [8, 0, 0, 0],
        s_actors = replicate 14 \<lparr>sa_id = 0, sa_kind = 0, sa_state = 255, sa_face = 1, sa_qx = 0, sa_qy = 0, sa_hp = 0\<rparr>\<rparr>"]
  by (simp add: kRoomMembers_def kSnapActors_def Let_def)

section \<open>Quantisation\<close>

lemma quant_scaled:
  assumes "is_dbl v" "0 \<le> v"
  shows "QuantPos v = word_of_int \<lfloor>fadd (v * 32) (1/2)\<rfloor>"
proof -
  have "is_dbl (v * 32)" using is_dbl_scale [OF assms(1), of 5] by (simp add: power_int_def)
  then show ?thesis using assms(2)
    by (simp add: QuantPos_def Let_def kPosQuantScale_def fmul_def is_dbl_def)
qed

lemma fadd_half_err:
  assumes "0 \<le> z" "z \<le> 51200"
  shows "\<bar>fadd z (1/2) - (z + 1/2)\<bar> \<le> 1 / 2 ^ 38"
proof -
  have "(2::rat) powi (16 - 54) = 1 / 2 ^ 38"
    by (simp add: power_int_def power_one_over inverse_eq_divide)
  moreover have "\<bar>rnd (z + 1/2) - (z + 1/2)\<bar> \<le> 2 powi (16 - 54)"
    by (rule dbl.rd_err) (use assms in \<open>simp_all add: power_int_def\<close>)
  ultimately show ?thesis by (simp add: fadd_def)
qed

text \<open>Quantisation of a coordinate of the stage fits sixteen bits and its reconstruction by the
  client (division by 32) is within half a grain of the true position, up to the rounding error of
  the addition of one half: there is no drift to one side and no wrap-around.\<close>

theorem quant_error:
  assumes "is_dbl v" "0 \<le> v" "v \<le> 1600"
  shows "uint (QuantPos v) \<le> 51200
    \<and> \<bar>of_int (uint (QuantPos v)) / 32 - v\<bar> \<le> 1/64 + 1 / 2 ^ 43"
proof -
  let ?z = "fadd (v * 32) (1/2)"
  have err: "\<bar>?z - (v * 32 + 1/2)\<bar> \<le> 1 / 2 ^ 38"
    using assms by (intro fadd_half_err) auto
  have "0 \<le> ?z" unfolding fadd_def using assms by (intro rnd_nonneg) simp
  then have f0: "0 \<le> \<lfloor>?z\<rfloor>" by simp
  have e1: "(1::rat) / 2 ^ 38 < 1/4" by simp
  have err': "?z - (v * 32 + 1/2) \<le> 1 / 2 ^ 38" "- (?z - (v * 32 + 1/2)) \<le> 1 / 2 ^ 38"
    using err abs_le_D1 abs_le_D2 by blast+
  then have "?z < 51201" using e1 assms(3) by linarith
  then have f1: "\<lfloor>?z\<rfloor> \<le> 51200" by (simp add: floor_less_iff [symmetric] zle_add1_eq_le [symmetric])
  have u: "uint (QuantPos v) = \<lfloor>?z\<rfloor>"
    using f0 f1 by (simp add: quant_scaled [OF assms(1,2)] uint_word_of_int)
  define q where "q = (of_int \<lfloor>?z\<rfloor> :: rat)"
  have fl: "q \<le> ?z" "?z < q + 1" using floor_correct [of ?z] by (simp_all add: q_def)
  have "\<bar>q - v * 32\<bar> \<le> 1/2 + 1 / 2 ^ 38"
    using fl err' by (intro abs_leI) linarith+
  then have "\<bar>(q - v * 32) / 32\<bar> \<le> (1/2 + 1 / 2 ^ 38) / 32"
    by (simp only: abs_divide abs_numeral) (intro divide_right_mono; simp)
  then show ?thesis using f1 unfolding u q_def [symmetric]
    by (simp add: diff_divide_distrib)
qed

theorem quant_error_witness:
  "\<bar>of_int (uint (QuantPos 1580)) / 32 - 1580\<bar> \<le> (1/64 + 1 / 2 ^ 43 :: rat)"
  using quant_error [of 1580] by (simp add: is_dbl_numeral)

end
