(* ===== verification/Room.thy ===== *)
theory Room
  imports Session_Props Sim Protocol
begin

text \<open>
  Rooms (Room.h): the queue entries, the members with their input rings, and the room record;
  and the two operations on a member that \<open>RoomTick\<close> performs, the routing of an input into
  the ring and the consumption of one input per tick. The input ring is a bounded queue that
  drops its oldest entry, stated as a locale and interpreted on the ring of the code.
\<close>

section \<open>Data\<close>

definition kInputRingDepth :: nat where "kInputRingDepth = 8"

record InputCmd =
  c_sessIdx :: nat
  c_sessGen :: u32
  c_actorId :: nat
  c_seq :: u32
  c_mx :: i8
  c_my :: i8
  c_attack :: u8
  c_skill :: u8

definition zero_cmd :: InputCmd where
  "zero_cmd = \<lparr>c_sessIdx = 0, c_sessGen = 0, c_actorId = 0, c_seq = 0, c_mx = 0, c_my = 0,
     c_attack = 0, c_skill = 0\<rparr>"

record RoomJoinEntry =
  j_sessIdx :: nat
  j_sessGen :: u32
  j_actorId :: nat

record RoomLeaveEntry =
  l_sessIdx :: nat
  l_sessGen :: u32

record Member =
  m_used :: bool
  m_sessIdx :: nat
  m_sessGen :: u32
  m_sessOwner :: nat
  m_ring :: "InputCmd list"
  m_ringHead :: nat
  m_ringCount :: nat
  m_held :: InputCmd
  m_lastInputSeq :: u32
  m_emptyStreak :: int

definition default_member :: Member where
  "default_member = \<lparr>m_used = False, m_sessIdx = 0, m_sessGen = 0, m_sessOwner = 0,
     m_ring = replicate kInputRingDepth zero_cmd, m_ringHead = 0, m_ringCount = 0, m_held = zero_cmd,
     m_lastInputSeq = 0, m_emptyStreak = 0\<rparr>"

record Room =
  r_idx :: nat
  r_gen :: u32
  r_gameWorker :: nat
  r_dead :: bool
  r_everReserved :: bool
  r_seatUsed :: "bool list"
  r_reservedSeats :: int
  r_pendingJoin :: "RoomJoinEntry list"
  r_pendingLeave :: "RoomLeaveEntry list"
  r_inQ :: "InputCmd list"
  r_members :: "Member list"
  r_memberCount :: int
  r_world :: SimWorld
  r_tickAtomic :: u32

definition new_room :: "nat \<Rightarrow> Room" where
  "new_room i = \<lparr>r_idx = i, r_gen = 0, r_gameWorker = 0, r_dead = False, r_everReserved = False,
     r_seatUsed = replicate kRoomMembers False, r_reservedSeats = 0, r_pendingJoin = [], r_pendingLeave = [],
     r_inQ = [], r_members = replicate kRoomMembers default_member, r_memberCount = 0,
     r_world = \<lparr>w_tick = 0, w_actors = replicate kSnapActors default_actor\<rparr>, r_tickAtomic = 0\<rparr>"

section \<open>The input ring of a member\<close>

definition ring_push :: "InputCmd \<Rightarrow> Member \<Rightarrow> Member" where
  "ring_push c m =
     (let m1 = (if m_ringCount m = kInputRingDepth
                then m\<lparr>m_ringHead := (m_ringHead m + 1) mod kInputRingDepth, m_ringCount := m_ringCount m - 1\<rparr>
                else m)
      in m1\<lparr>m_ring := (m_ring m1)[(m_ringHead m1 + m_ringCount m1) mod kInputRingDepth := c],
            m_ringCount := m_ringCount m1 + 1\<rparr>)"

definition neutralize :: "InputCmd \<Rightarrow> InputCmd" where
  "neutralize c = c\<lparr>c_mx := 0, c_my := 0, c_attack := 0, c_skill := 0\<rparr>"

definition consume :: "Member \<Rightarrow> Member" where
  "consume m =
     (if 0 < m_ringCount m then
        (let h = m_ring m ! m_ringHead m
         in m\<lparr>m_held := h, m_ringHead := (m_ringHead m + 1) mod kInputRingDepth,
              m_ringCount := m_ringCount m - 1, m_lastInputSeq := c_seq h, m_emptyStreak := 0\<rparr>)
      else
        (let m1 = m\<lparr>m_emptyStreak := m_emptyStreak m + 1\<rparr>
         in if 10 < m_emptyStreak m1 then m1\<lparr>m_held := neutralize (m_held m1)\<rparr> else m1))"

text \<open>What the ring holds, oldest first.\<close>

definition queued :: "Member \<Rightarrow> InputCmd list" where
  "queued m = map (\<lambda>j. m_ring m ! ((m_ringHead m + j) mod kInputRingDepth)) [0..<m_ringCount m]"

definition member_ok :: "Member \<Rightarrow> bool" where
  "member_ok m \<longleftrightarrow> length (m_ring m) = kInputRingDepth \<and> m_ringHead m < kInputRingDepth
     \<and> m_ringCount m \<le> kInputRingDepth"

lemma length_queued [simp]: "length (queued m) = m_ringCount m"
  by (simp add: queued_def)

lemma member_ok_default [simp]: "member_ok default_member"
  by (simp add: member_ok_def default_member_def kInputRingDepth_def)

lemma queued_default [simp]: "queued default_member = []"
  by (simp add: queued_def default_member_def)

lemma queued_dequeue:
  assumes "0 < m_ringCount m"
  shows "queued (m\<lparr>m_ringHead := (m_ringHead m + 1) mod kInputRingDepth, m_ringCount := m_ringCount m - 1\<rparr>)
    = tl (queued m)"
    and "m_ringHead m < kInputRingDepth \<Longrightarrow> hd (queued m) = m_ring m ! m_ringHead m"
proof -
  have e: "(Suc h mod kInputRingDepth + j) mod kInputRingDepth = Suc (h + j) mod kInputRingDepth" for h j
    by (metis add_Suc mod_add_left_eq)
  have u: "[0..<m_ringCount m] = 0 # map Suc [0..<m_ringCount m - 1]"
    using assms by (cases "m_ringCount m") (simp_all add: upt_conv_Cons map_Suc_upt del: upt_Suc)
  show "queued (m\<lparr>m_ringHead := (m_ringHead m + 1) mod kInputRingDepth, m_ringCount := m_ringCount m - 1\<rparr>)
      = tl (queued m)"
    by (simp add: queued_def u comp_def e)
  show "m_ringHead m < kInputRingDepth \<Longrightarrow> hd (queued m) = m_ring m ! m_ringHead m"
    by (simp add: queued_def u)
qed

lemma queued_enqueue:
  assumes "member_ok m" "m_ringCount m < kInputRingDepth"
  shows "queued (m\<lparr>m_ring := (m_ring m)[(m_ringHead m + m_ringCount m) mod kInputRingDepth := c],
           m_ringCount := m_ringCount m + 1\<rparr>) = queued m @ [c]"
proof -
  let ?d = kInputRingDepth
  have l: "(m_ringHead m + m_ringCount m) mod ?d < length (m_ring m)"
    using assms by (simp add: member_ok_def kInputRingDepth_def)
  have ne: "(m_ringHead m + j) mod ?d \<noteq> (m_ringHead m + m_ringCount m) mod ?d" if "j < m_ringCount m" for j
  proof
    assume "(m_ringHead m + j) mod ?d = (m_ringHead m + m_ringCount m) mod ?d"
    then have "j mod ?d = m_ringCount m mod ?d"
      by (simp add: mod_add_cong nat_mod_eq_iff)
    then show False using that assms(2) by simp
  qed
  show ?thesis by (rule nth_equalityI)
    (use l in \<open>auto simp: queued_def nth_append less_Suc_eq nth_list_update ne ne [symmetric]\<close>)
qed

section \<open>Queues that drop their oldest entry\<close>

locale drop_oldest_queue =
  fixes push :: "'c \<Rightarrow> 'q \<Rightarrow> 'q" and pop :: "'q \<Rightarrow> 'q" and cont :: "'q \<Rightarrow> 'c list"
    and good :: "'q \<Rightarrow> bool" and depth :: nat
  assumes push_cont: "good q \<Longrightarrow> cont (push c q) = (if length (cont q) = depth then tl (cont q) else cont q) @ [c]"
    and push_good: "good q \<Longrightarrow> good (push c q)"
    and pop_cont: "good q \<Longrightarrow> cont (pop q) = tl (cont q)"
    and pop_good: "good q \<Longrightarrow> good (pop q)"
    and bounded: "good q \<Longrightarrow> length (cont q) \<le> depth"
    and depth_pos: "0 < depth"
begin

lemma pushes_keep_last:
  assumes "good q"
  shows "good (fold push cs q) \<and>
    cont (fold push cs q) = drop (length (cont q) + length cs - depth) (cont q @ cs)"
  using assms
proof (induction cs arbitrary: q)
  case Nil
  then show ?case using bounded [of q] by simp
next
  case (Cons c cs)
  note b = bounded [OF Cons.prems]
  show ?case
  proof (cases "length (cont q) = depth")
    case True
    then obtain x xs where "cont q = x # xs" using depth_pos by (cases "cont q") auto
    moreover have "length xs + length cs + 1 - depth = length cs" "length cs + 1 - depth = length cs - length xs"
      using True calculation by simp_all
    ultimately show ?thesis
      using Cons.IH [OF push_good, OF Cons.prems, of c] push_cont [OF Cons.prems, of c] True by simp
  next
    case False
    then show ?thesis
      using Cons.IH [OF push_good, OF Cons.prems, of c] push_cont [OF Cons.prems, of c] b by simp
  qed
qed

lemma pops_drop: "good q \<Longrightarrow> good ((pop ^^ n) q) \<and> cont ((pop ^^ n) q) = drop n (cont q)"
  by (induction n) (simp_all add: pop_good pop_cont drop_Suc tl_drop)

end

lemma ring_push_ok: "member_ok m \<Longrightarrow> member_ok (ring_push c m)"
  by (auto simp: member_ok_def ring_push_def Let_def kInputRingDepth_def)

lemma queued_ring_push:
  assumes "member_ok m"
  shows "queued (ring_push c m)
    = (if length (queued m) = kInputRingDepth then tl (queued m) else queued m) @ [c]"
proof (cases "m_ringCount m = kInputRingDepth")
  case True
  let ?m = "m\<lparr>m_ringHead := (m_ringHead m + 1) mod kInputRingDepth, m_ringCount := m_ringCount m - 1\<rparr>"
  have "0 < m_ringCount m" by (simp add: True kInputRingDepth_def)
  moreover have "member_ok ?m" "m_ringCount ?m < kInputRingDepth"
    using assms True by (simp_all add: member_ok_def kInputRingDepth_def)
  ultimately show ?thesis
    using queued_enqueue [of ?m c] queued_dequeue(1) [of m] True by (simp add: ring_push_def Let_def)
next
  case False
  then have "m_ringCount m < kInputRingDepth" using assms by (simp add: member_ok_def)
  then show ?thesis using queued_enqueue [OF assms, of c] False by (simp add: ring_push_def Let_def)
qed

lemma consume_ok: "member_ok m \<Longrightarrow> member_ok (consume m)"
  by (auto simp: member_ok_def consume_def Let_def kInputRingDepth_def)

lemma queued_cong:
  "m_ring m = m_ring n \<Longrightarrow> m_ringHead m = m_ringHead n \<Longrightarrow> m_ringCount m = m_ringCount n \<Longrightarrow> queued m = queued n"
  by (simp add: queued_def)

lemma queued_consume: "queued (consume m) = tl (queued m)"
proof (cases "0 < m_ringCount m")
  case True
  then have "queued (consume m) =
      queued (m\<lparr>m_ringHead := (m_ringHead m + 1) mod kInputRingDepth, m_ringCount := m_ringCount m - 1\<rparr>)"
    by (intro queued_cong) (simp_all add: consume_def Let_def)
  then show ?thesis using queued_dequeue(1) [OF True] by simp
next
  case False
  then show ?thesis by (simp add: consume_def Let_def queued_def)
qed

interpretation ring: drop_oldest_queue ring_push consume queued member_ok kInputRingDepth
  by unfold_locales
    (simp_all add: ring_push_ok queued_ring_push consume_ok queued_consume, simp_all add: member_ok_def kInputRingDepth_def)

section \<open>One input per tick\<close>

lemma consume_step:
  assumes "member_ok m"
  shows "queued m \<noteq> [] \<Longrightarrow> m_held (consume m) = hd (queued m) \<and> m_lastInputSeq (consume m) = c_seq (hd (queued m))
      \<and> m_emptyStreak (consume m) = 0"
    and "queued m = [] \<Longrightarrow> m_emptyStreak (consume m) = m_emptyStreak m + 1 \<and> m_lastInputSeq (consume m) = m_lastInputSeq m
      \<and> m_held (consume m) = (if m_emptyStreak m < 10 then m_held m else neutralize (m_held m))"
proof -
  assume "queued m \<noteq> []"
  then have "0 < m_ringCount m" by (simp flip: length_queued)
  then show "m_held (consume m) = hd (queued m) \<and> m_lastInputSeq (consume m) = c_seq (hd (queued m))
      \<and> m_emptyStreak (consume m) = 0"
    using queued_dequeue(2) [of m] assms by (simp add: consume_def Let_def member_ok_def)
next
  assume "queued m = []"
  then have "m_ringCount m = 0" by (simp flip: length_queued)
  then show "m_emptyStreak (consume m) = m_emptyStreak m + 1 \<and> m_lastInputSeq (consume m) = m_lastInputSeq m
      \<and> m_held (consume m) = (if m_emptyStreak m < 10 then m_held m else neutralize (m_held m))"
    by (auto simp: consume_def Let_def)
qed

lemma neutralize_idem [simp]: "neutralize (neutralize c) = neutralize c"
  by (simp add: neutralize_def)

lemma consume_empty_run:
  assumes "member_ok m" "queued m = []" "m_emptyStreak m = 0"
  shows "m_lastInputSeq ((consume ^^ n) m) = m_lastInputSeq m \<and> m_emptyStreak ((consume ^^ n) m) = int n
    \<and> m_held ((consume ^^ n) m) = (if n \<le> 10 then m_held m else neutralize (m_held m))"
proof (induction n)
  case (Suc n)
  have "member_ok ((consume ^^ n) m)" "queued ((consume ^^ n) m) = []"
    using ring.pops_drop [OF assms(1), of n] assms(2) by simp_all
  then show ?case using consume_step(2) [of "(consume ^^ n) m"] Suc by auto
qed (simp add: assms)

text \<open>C17. The server applies exactly one queued input per tick, in arrival order: of a ring that holds
  the inputs cs, the n-th tick applies the n-th of them and acknowledges its sequence number;
  and a burst of any length leaves precisely the last eight, in order.\<close>

theorem input_one_per_tick:
  assumes "member_ok m" and "n < length (queued (fold ring_push cs m))"
  shows "m_held ((consume ^^ Suc n) (fold ring_push cs m)) = queued (fold ring_push cs m) ! n
    \<and> m_lastInputSeq ((consume ^^ Suc n) (fold ring_push cs m)) = c_seq (queued (fold ring_push cs m) ! n)
    \<and> queued (fold ring_push cs m) = drop (length (queued m) + length cs - 8) (queued m @ cs)"
proof -
  let ?q = "fold ring_push cs m"
  note p = ring.pushes_keep_last [OF assms(1), of cs]
  then have q: "member_ok ?q" by blast
  note d = ring.pops_drop [OF q, of n]
  then have "queued ((consume ^^ n) ?q) \<noteq> []" "hd (queued ((consume ^^ n) ?q)) = queued ?q ! n"
    using assms(2) by (simp_all add: hd_drop_conv_nth)
  then show ?thesis using consume_step(1) [of "(consume ^^ n) ?q"] d p by (simp add: kInputRingDepth_def)
qed

definition cmd_of_seq :: "u32 \<Rightarrow> InputCmd" where
  "cmd_of_seq q = zero_cmd\<lparr>c_seq := q, c_mx := 1\<rparr>"

theorem input_one_per_tick_witness:
  "m_lastInputSeq ((consume ^^ 2) (fold ring_push (map cmd_of_seq [1, 2, 3, 4, 5, 6, 7, 8, 9, 10]) default_member)) = 4"
proof -
  define cs where "cs = map cmd_of_seq [1, 2, 3, 4, 5, 6, 7, 8, 9, 10]"
  have q: "queued (fold ring_push cs default_member) = drop 2 cs"
    using ring.pushes_keep_last [of default_member cs] by (simp add: kInputRingDepth_def cs_def)
  show ?thesis
    using input_one_per_tick [of default_member 1 cs] unfolding q cs_def [symmetric]
    by (simp add: cs_def cmd_of_seq_def numeral_2_eq_2 del: fold_simps(2))
qed

text \<open>C21. When the inputs stop, the last one is held for exactly ten further ticks and replaced by
  the neutral input from the eleventh on, whatever the length of the gap, and the acknowledged
  sequence number stays that of the last input received.\<close>

theorem input_hold_then_neutral:
  assumes "member_ok m" and "queued m \<noteq> []"
  shows "m_lastInputSeq ((consume ^^ (length (queued m) + n)) m) = c_seq (last (queued m))
    \<and> m_held ((consume ^^ (length (queued m) + n)) m) =
        (if n \<le> 10 then last (queued m) else neutralize (last (queued m)))"
proof -
  let ?k = "length (queued m)"
  have k: "?k = Suc (?k - 1)" using assms(2) by (cases "queued m") auto
  let ?m = "(consume ^^ (?k - 1)) m"
  note d = ring.pops_drop [OF assms(1), of "?k - 1"] ring.pops_drop [OF assms(1), of ?k]
  have q: "queued ?m = [last (queued m)]"
    using d(1) assms(2) by (cases "queued m" rule: rev_cases) simp_all
  have s: "(consume ^^ ?k) m = consume ?m" by (subst k) simp
  have "m_held ((consume ^^ ?k) m) = last (queued m)" "m_lastInputSeq ((consume ^^ ?k) m) = c_seq (last (queued m))"
    "m_emptyStreak ((consume ^^ ?k) m) = 0"
    unfolding s using consume_step(1) [of ?m] d(1) q by simp_all
  then show ?thesis
    using consume_empty_run [of "(consume ^^ ?k) m" n] d(2)
    by (simp add: add.commute [of _ n] funpow_add)
qed

theorem input_hold_then_neutral_witness:
  "m_held ((consume ^^ 11) (ring_push (cmd_of_seq 7) default_member)) = cmd_of_seq 7
   \<and> m_held ((consume ^^ 12) (ring_push (cmd_of_seq 7) default_member)) = zero_cmd\<lparr>c_seq := 7\<rparr>"
proof -
  define m where "m = ring_push (cmd_of_seq 7) default_member"
  have q: "queued m = [cmd_of_seq 7]" by (simp add: m_def queued_ring_push kInputRingDepth_def)
  have ok: "member_ok m" by (simp add: m_def ring_push_ok)
  have n: "neutralize (cmd_of_seq 7) = zero_cmd\<lparr>c_seq := 7\<rparr>"
    by (simp add: neutralize_def cmd_of_seq_def zero_cmd_def)
  show ?thesis
    using input_hold_then_neutral [OF ok, of 10] input_hold_then_neutral [OF ok, of 11]
    unfolding m_def [symmetric] q by (simp add: n)
qed

end
