(* ===== verification/RoomManager.thy ===== *)
theory RoomManager
  imports Room
begin

text \<open>
  The room manager (RoomManager.cpp): seats, joins and leaves, the queue processing at the tick
  boundary, the tick of a room, and the move of a room's members to a fresh room. The state is
  one record: what the manager owns, the session pool and the dirty bitmap it is given, and the
  lists of rooms and sessions that the game and epoll workers own, which its operations and
  their callers exchange. A \<open>Room*\<close> is a room number, a \<open>Session&\<close> a slot number.
\<close>

section \<open>State\<close>

text \<open>
  The kernel as the server sees it: the answers to its next system calls, consumed one by one
  (an empty list answers would-block, or success for \<open>epoll_ctl\<close>), the monotonic clock in
  nanoseconds, and the log of the calls with a visible effect.
\<close>

datatype accept_result = Accepted int | AcceptIntr | AcceptNone
datatype read_result = Got bytes | Eof | ReadAgain | ReadIntr | ReadErr
datatype write_result = Took nat | WriteAgain | WriteIntr | WriteErr
datatype os_event = Closed int | Wrote int bytes | Watch int bool

record Kernel =
  k_accepts :: "accept_result list"
  k_reads :: "read_result list"
  k_writes :: "write_result list"
  k_ctls :: "bool list"
  k_now :: int
  k_log :: "os_event list"

record ('r, 's) Server =
  pool :: "('r, 's) SessionPool"
  rooms :: "Room list"
  freeRooms :: "nat list"
  openRooms :: "nat list"
  workerCount :: nat
  roomsPerWorker :: "u32 list"
  mail :: "nat list list"
  dirty :: DirtyMap
  met :: Counters
  myRooms :: "nat list list"       \<comment> \<open>\<open>GameWorker::_myRooms\<close>, per game worker\<close>
  mySessions :: "nat list list"    \<comment> \<open>\<open>EpollWorker::_mySessions\<close>, per epoll worker\<close>
  nextTickAt :: "int list"         \<comment> \<open>\<open>g_nextTickAtNs\<close>, per game worker\<close>
  kern :: Kernel

definition Init :: "nat \<Rightarrow> nat \<Rightarrow> ('r, 's) Server \<Rightarrow> ('r, 's) Server" where
  "Init roomCapacity gameWorkerCount S =
     S\<lparr>workerCount := gameWorkerCount, rooms := map new_room [0..<roomCapacity],
       freeRooms := rev [0..<roomCapacity]\<rparr>"

definition upd_room :: "nat \<Rightarrow> (Room \<Rightarrow> Room) \<Rightarrow> ('r, 's) Server \<Rightarrow> ('r, 's) Server" where
  "upd_room r f S = S\<lparr>rooms := upd_at r f (rooms S)\<rparr>"

definition upd_session :: "nat \<Rightarrow> (('r, 's) Session \<Rightarrow> ('r, 's) Session) \<Rightarrow> ('r, 's) Server \<Rightarrow> ('r, 's) Server" where
  "upd_session i f S = S\<lparr>pool := upd_sess i f (pool S)\<rparr>"

definition count_up :: "(Counters \<Rightarrow> Counters) \<Rightarrow> ('r, 's) Server \<Rightarrow> ('r, 's) Server" where
  "count_up f S = S\<lparr>met := f (met S)\<rparr>"

abbreviation room_at :: "('r, 's) Server \<Rightarrow> nat \<Rightarrow> Room" where
  "room_at S r \<equiv> rooms S ! r"

abbreviation At :: "('r, 's) Server \<Rightarrow> nat \<Rightarrow> ('r, 's) Session" where
  "At S i \<equiv> slots (pool S) ! i"

section \<open>Rooms handed out and returned\<close>

text \<open>The fields \<open>AllocRoomSlotLocked\<close> resets before it knows the worker.\<close>

definition clear_room :: "Room \<Rightarrow> Room" where
  "clear_room r = r\<lparr>r_dead := False, r_everReserved := False, r_reservedSeats := 0,
     r_seatUsed := replicate kRoomMembers False, r_pendingJoin := [], r_pendingLeave := [],
     r_members := replicate kRoomMembers default_member, r_memberCount := 0, r_inQ := [],
     r_world := ResetWorld (r_world r), r_tickAtomic := 0\<rparr>"

text \<open>The least loaded worker, the first of several.\<close>

definition least_loaded :: "nat \<Rightarrow> u32 list \<Rightarrow> nat" where
  "least_loaded n loads = fold (\<lambda>w best. if loads ! w < loads ! best then w else best) [1..<n] 0"

definition AllocRoomSlotLocked :: "nat \<Rightarrow> bool \<Rightarrow> ('r, 's) Server \<Rightarrow> nat option \<times> ('r, 's) Server" where
  "AllocRoomSlotLocked forceWorker useMailbox S =
     (if freeRooms S = [] then (None, S) else
      let r = last (freeRooms S);
          best = (if useMailbox then least_loaded (workerCount S) (roomsPerWorker S) else forceWorker);
          S1 = upd_room r (\<lambda>x. (clear_room x)\<lparr>r_gameWorker := best\<rparr>) (S\<lparr>freeRooms := butlast (freeRooms S)\<rparr>);
          S2 = S1\<lparr>roomsPerWorker := upd_at best (\<lambda>n. n + 1) (roomsPerWorker S1)\<rparr>;
          S3 = (if useMailbox then S2\<lparr>mail := upd_at best (\<lambda>q. q @ [r]) (mail S2)\<rparr> else S2)
      in (Some r, count_up (\<lambda>m. m\<lparr>mt_roomsCreated := Inc (mt_roomsCreated m), mt_roomsActive := Inc (mt_roomsActive m)\<rparr>) S3))"

definition AllocRoom :: "('r, 's) Server \<Rightarrow> nat option \<times> ('r, 's) Server" where
  "AllocRoom = AllocRoomSlotLocked 0 True"

definition FreeRoomIfDrained :: "nat \<Rightarrow> ('r, 's) Server \<Rightarrow> ('r, 's) Server" where
  "FreeRoomIfDrained r S =
     (let S1 = upd_room r (\<lambda>x. x\<lparr>r_gen := r_gen x + 1\<rparr>) S
      in count_up (\<lambda>m. m\<lparr>mt_roomsActive := Add (- 1) (mt_roomsActive m)\<rparr>)
           (S1\<lparr>freeRooms := freeRooms S1 @ [r_idx (room_at S1 r)]\<rparr>))"

section \<open>Join and leave\<close>

definition reserve_seat :: "nat \<Rightarrow> Room \<Rightarrow> Room" where
  "reserve_seat seat x = x\<lparr>r_seatUsed := (r_seatUsed x)[seat := True], r_everReserved := True,
     r_reservedSeats := r_reservedSeats x + 1\<rparr>"

text \<open>
  The loop over the open rooms, from the back: take the first free seat of a live room, or drop
  the room from the list and look further.
\<close>

function find_open :: "('r, 's) Server \<Rightarrow> (nat \<times> nat) option \<times> ('r, 's) Server" where
  "find_open S =
     (if openRooms S = [] then (None, S) else
      let r = last (openRooms S); cand = room_at S r in
      case (if r_dead cand then None else first_index Not (r_seatUsed cand)) of
        Some seat \<Rightarrow>
          (let S1 = upd_room r (reserve_seat seat) S
           in (Some (r, seat),
               if r_reservedSeats (room_at S1 r) = int kRoomMembers
               then S1\<lparr>openRooms := butlast (openRooms S1)\<rparr> else S1))
      | None \<Rightarrow> find_open (S\<lparr>openRooms := butlast (openRooms S)\<rparr>))"
  by pat_completeness auto
termination
  by (relation "measure (\<lambda>S. length (openRooms S))") auto

declare find_open.simps [simp del]

text \<open>The part of \<open>Join\<close> after a seat has been found or made.\<close>

definition enter_seat :: "nat \<Rightarrow> nat \<Rightarrow> nat \<Rightarrow> ('r, 's) Server \<Rightarrow> ('r, 's) Server" where
  "enter_seat i r seat S =
     (let S1 = S\<lparr>pool := AddRef i (pool S)\<rparr>;
          e = \<lparr>j_sessIdx = idx (At S1 i), j_sessGen = gen (At S1 i), j_actorId = seat\<rparr>;
          S2 = upd_room r (\<lambda>x. x\<lparr>r_pendingJoin := r_pendingJoin x @ [e]\<rparr>) S1;
          S3 = upd_session i (\<lambda>s. s\<lparr>inRoom := True, roomIdx := r_idx (room_at S2 r), actorId := seat\<rparr>) S2
      in count_up (\<lambda>m. m\<lparr>mt_joins := Inc (mt_joins m)\<rparr>) S3)"

text \<open>Result: actor id and room id, or None when the call returns false.\<close>

definition Join :: "nat \<Rightarrow> ('r, 's) Server \<Rightarrow> (nat \<times> nat) option \<times> ('r, 's) Server" where
  "Join i S =
     (if workerCount S = 0 then (None, S) else
      case find_open S of
        (Some (r, seat), S1) \<Rightarrow> (Some (seat, r_idx (room_at S1 r)), enter_seat i r seat S1)
      | (None, S1) \<Rightarrow>
          (case AllocRoom S1 of
             (None, S2) \<Rightarrow> (None, S2)
           | (Some r, S2) \<Rightarrow>
               (let S3 = upd_room r (\<lambda>x. x\<lparr>r_seatUsed := (r_seatUsed x)[0 := True], r_everReserved := True,
                           r_reservedSeats := 1\<rparr>) S2;
                    S4 = S3\<lparr>openRooms := openRooms S3 @ [r_idx (room_at S3 r)]\<rparr>
                in (Some (0, r_idx (room_at S4 r)), enter_seat i r 0 S4))))"

definition OnSessionLeave :: "nat \<Rightarrow> ('r, 's) Server \<Rightarrow> ('r, 's) Server" where
  "OnSessionLeave i S =
     (let s = At S i; ridx = roomIdx s in
      if \<not> inRoom s \<or> length (rooms S) \<le> ridx then S
      else upd_room ridx (\<lambda>x. x\<lparr>r_pendingLeave := r_pendingLeave x @ [\<lparr>l_sessIdx = idx s, l_sessGen = gen s\<rparr>]\<rparr>)
             (upd_session i (\<lambda>s. s\<lparr>inRoom := False\<rparr>) S))"

definition DrainRoomAddQ :: "nat \<Rightarrow> ('r, 's) Server \<Rightarrow> ('r, 's) Server" where
  "DrainRoomAddQ w S =
     S\<lparr>myRooms := upd_at w (\<lambda>q. q @ mail S ! w) (myRooms S), mail := (mail S)[w := []]\<rparr>"

section \<open>The queues of a room at the tick boundary\<close>

definition free_seat :: "nat \<Rightarrow> Room \<Rightarrow> Room" where
  "free_seat k x = x\<lparr>r_seatUsed := (r_seatUsed x)[k := False], r_reservedSeats := r_reservedSeats x - 1\<rparr>"

definition seat_member :: "nat \<Rightarrow> nat \<Rightarrow> u32 \<Rightarrow> nat \<Rightarrow> Room \<Rightarrow> Room" where
  "seat_member k i g own x = x\<lparr>
     r_members := (r_members x)[k := default_member\<lparr>m_used := True, m_sessIdx := i, m_sessGen := g, m_sessOwner := own\<rparr>],
     r_memberCount := r_memberCount x + 1,
     r_world := (r_world x)\<lparr>w_actors := upd_at k (spawn_player k) (w_actors (r_world x))\<rparr>\<rparr>"

definition join_one :: "nat \<Rightarrow> RoomJoinEntry \<Rightarrow> ('r, 's) Server \<Rightarrow> ('r, 's) Server" where
  "join_one r e S =
     (let s = At S (j_sessIdx e) in
      if gen s \<noteq> j_sessGen e \<or> dead s
      then (let S1 = upd_room r (free_seat (j_actorId e)) S in S1\<lparr>pool := Release (j_sessIdx e) (pool S1)\<rparr>)
      else upd_room r (seat_member (j_actorId e) (j_sessIdx e) (j_sessGen e) (owner s)) S)"

definition unseat_member :: "nat \<Rightarrow> Room \<Rightarrow> Room" where
  "unseat_member k x = free_seat k (x\<lparr>
     r_members := upd_at k (\<lambda>m. m\<lparr>m_used := False\<rparr>) (r_members x),
     r_memberCount := r_memberCount x - 1,
     r_world := (r_world x)\<lparr>w_actors := upd_at k (\<lambda>a. a\<lparr>a_present := False\<rparr>) (w_actors (r_world x))\<rparr>\<rparr>)"

definition leave_one :: "nat \<Rightarrow> RoomLeaveEntry \<Rightarrow> ('r, 's) Server \<Rightarrow> ('r, 's) Server" where
  "leave_one r e S =
     (case first_index (\<lambda>m. m_used m \<and> m_sessIdx m = l_sessIdx e \<and> m_sessGen m = l_sessGen e) (r_members (room_at S r)) of
        None \<Rightarrow> S
      | Some k \<Rightarrow> (let S1 = upd_room r (unseat_member k) S in S1\<lparr>pool := Release (l_sessIdx e) (pool S1)\<rparr>))"

text \<open>The swap of the two queues, the joins, the leaves.\<close>

definition apply_queues :: "nat \<Rightarrow> ('r, 's) Server \<Rightarrow> ('r, 's) Server" where
  "apply_queues r S =
     (let joins = r_pendingJoin (room_at S r); leaves = r_pendingLeave (room_at S r);
          S1 = upd_room r (\<lambda>x. x\<lparr>r_pendingJoin := [], r_pendingLeave := []\<rparr>) S
      in fold (leave_one r) leaves (fold (join_one r) joins S1))"

definition room_empty :: "Room \<Rightarrow> bool" where
  "room_empty x \<longleftrightarrow> \<not> r_dead x \<and> r_everReserved x \<and> r_reservedSeats x = 0 \<and> r_pendingJoin x = []"

definition ProcessRoomQueues :: "nat \<Rightarrow> ('r, 's) Server \<Rightarrow> bool \<times> ('r, 's) Server" where
  "ProcessRoomQueues r S =
     (let S1 = apply_queues r S in
      if room_empty (room_at S1 r) then
        (let S2 = upd_room r (\<lambda>x. x\<lparr>r_dead := True\<rparr>) S1;
             S3 = S2\<lparr>roomsPerWorker := upd_at (r_gameWorker (room_at S2 r)) (\<lambda>n. n - 1) (roomsPerWorker S2),
                     openRooms := swap_remove (r_idx (room_at S2 r)) (openRooms S2)\<rparr>
         in (True, FreeRoomIfDrained r S3))
      else (False, S1))"

section \<open>Input and ping\<close>

definition PushInput :: "nat \<Rightarrow> u32 \<Rightarrow> i8 \<Rightarrow> i8 \<Rightarrow> u8 \<Rightarrow> u8 \<Rightarrow> ('r, 's) Server \<Rightarrow> ('r, 's) Server" where
  "PushInput i seq mx my attack skill S =
     (let s = At S i; ridx = roomIdx s in
      if \<not> inRoom s \<or> length (rooms S) \<le> ridx then S
      else count_up (\<lambda>m. m\<lparr>mt_inputsQueued := Inc (mt_inputsQueued m)\<rparr>)
        (upd_room ridx (\<lambda>x. x\<lparr>r_inQ := r_inQ x @ [\<lparr>c_sessIdx = idx s, c_sessGen = gen s, c_actorId = actorId s,
            c_seq = seq, c_mx = mx, c_my = my, c_attack = attack, c_skill = skill\<rparr>]\<rparr>) S))"

text \<open>The conversion of the remaining time to 32 bits wraps.\<close>

definition GetPingInfo :: "nat \<Rightarrow> ('r, 's) Server \<Rightarrow> u32 \<times> u32" where
  "GetPingInfo i S =
     (let s = At S i; ridx = roomIdx s in
      if \<not> inRoom s \<or> length (rooms S) \<le> ridx then (0, 0)
      else (let next = nextTickAt S ! r_gameWorker (room_at S ridx); now = k_now (kern S)
            in (r_tickAtomic (room_at S ridx), if now < next then word_of_int ((next - now) div 1000) else 0)))"

end
