(* ===== verification/RoomTick.thy ===== *)
theory RoomTick
  imports RoomManager
begin

text \<open>
  The tick of a room (RoomManager.cpp, \<open>RoomTick\<close>): routing of the queued inputs, one input per
  member, the simulation step, the snapshot every third tick; and the exit check with the move
  of all members to a fresh room (\<open>ExitCheckAndMaybeTransfer\<close>, \<open>TransferRoom\<close>). The send
  ring of the sessions is the parameter \<open>MT\<close>.
\<close>

section \<open>Inputs\<close>

definition upd_member :: "nat \<Rightarrow> (Member \<Rightarrow> Member) \<Rightarrow> Room \<Rightarrow> Room" where
  "upd_member k f x = x\<lparr>r_members := upd_at k f (r_members x)\<rparr>"

definition route_one :: "nat \<Rightarrow> InputCmd \<Rightarrow> ('r, 's) Server \<Rightarrow> ('r, 's) Server" where
  "route_one r c S =
     (if kRoomMembers \<le> c_actorId c then S else
      let m = r_members (room_at S r) ! c_actorId c in
      if \<not> m_used m \<or> m_sessIdx m \<noteq> c_sessIdx c \<or> m_sessGen m \<noteq> c_sessGen c then S
      else upd_room r (upd_member (c_actorId c) (ring_push c))
        (if m_ringCount m = kInputRingDepth
         then count_up (\<lambda>m. m\<lparr>mt_inputRingDrops := Inc (mt_inputRingDrops m)\<rparr>) S else S))"

definition route_inputs :: "nat \<Rightarrow> ('r, 's) Server \<Rightarrow> ('r, 's) Server" where
  "route_inputs r S =
     (let batch = r_inQ (room_at S r)
      in fold (route_one r) batch (upd_room r (\<lambda>x. x\<lparr>r_inQ := []\<rparr>) S))"

definition count_consume :: "Member \<Rightarrow> Counters \<Rightarrow> Counters" where
  "count_consume m g =
     (let g1 = g\<lparr>mt_inputRingOcc := upd_at (if m_ringCount m \<le> 8 then m_ringCount m else 8) Inc (mt_inputRingOcc g)\<rparr>
      in if m_ringCount m = 0 \<and> 10 < m_emptyStreak m + 1 \<and>
           (c_mx (m_held m) \<noteq> 0 \<or> c_my (m_held m) \<noteq> 0 \<or> c_attack (m_held m) \<noteq> 0 \<or> c_skill (m_held m) \<noteq> 0)
         then g1\<lparr>mt_inputNeutralized := Inc (mt_inputNeutralized g1)\<rparr> else g1)"

definition consume_one :: "nat \<Rightarrow> nat \<Rightarrow> ('r, 's) Server \<Rightarrow> ('r, 's) Server" where
  "consume_one r k S =
     (let m = r_members (room_at S r) ! k in
      if \<not> m_used m then S else upd_room r (upd_member k consume) (count_up (count_consume m) S))"

definition consume_inputs :: "nat \<Rightarrow> ('r, 's) Server \<Rightarrow> ('r, 's) Server" where
  "consume_inputs r S = fold (consume_one r) [0..<kRoomMembers] S"

definition member_input :: "Member \<Rightarrow> SimInput" where
  "member_input m = (if m_used m then \<lparr>in_mx = sint (c_mx (m_held m)), in_my = sint (c_my (m_held m))\<rparr>
     else neutral_input)"

section \<open>Step and snapshot\<close>

definition step_room :: "Room \<Rightarrow> Room" where
  "step_room x =
     (let inputs = map (\<lambda>i. member_input (r_members x ! i)) [0..<kRoomMembers];
          w = SimStep (r_world x) inputs; t = w_tick w + 1
      in x\<lparr>r_world := w\<lparr>w_tick := t\<rparr>, r_tickAtomic := t\<rparr>)"

definition snap_actor :: "nat \<Rightarrow> SimActor \<Rightarrow> SnapActor" where
  "snap_actor i a =
     (if \<not> a_present a
      then \<lparr>sa_id = of_nat i, sa_kind = a_kind a, sa_state = 255, sa_face = 0, sa_qx = 0, sa_qy = 0, sa_hp = 0\<rparr>
      else \<lparr>sa_id = of_nat i, sa_kind = a_kind a, sa_state = a_state a, sa_face = a_face a,
        sa_qx = QuantPos (a_x a), sa_qy = QuantPos (a_y a), sa_hp = a_hp a\<rparr>)"

definition room_snapshot :: "Room \<Rightarrow> MSG_S2C_SNAPSHOT" where
  "room_snapshot x = \<lparr>s_serverTick = w_tick (r_world x), s_actorCount = of_nat kSnapActors,
     s_lastInputSeq = map (\<lambda>i. if m_used (r_members x ! i) then m_lastInputSeq (r_members x ! i) else 0) [0..<kRoomMembers],
     s_actors = map (\<lambda>i. snap_actor i (w_actors (r_world x) ! i)) [0..<kSnapActors]\<rparr>"

text \<open>An all-or-nothing enqueue into the send ring of a session, with its result.\<close>

definition enqueue :: "'s ring_ops \<Rightarrow> nat \<Rightarrow> bytes \<Rightarrow> ('r, 's) Server \<Rightarrow> nat \<times> ('r, 's) Server" where
  "enqueue MT i bs S =
     (case rb_Enqueue MT bs (sendQ (At S i)) of (n, q) \<Rightarrow> (n, upd_session i (\<lambda>s. s\<lparr>sendQ := q\<rparr>) S))"

definition mark :: "Member \<Rightarrow> ('r, 's) Server \<Rightarrow> ('r, 's) Server" where
  "mark m S = S\<lparr>dirty := Mark (m_sessOwner m) (m_sessIdx m) (dirty S)\<rparr>"

definition send_snapshot :: "'s ring_ops \<Rightarrow> nat \<Rightarrow> bytes \<Rightarrow> nat \<Rightarrow> ('r, 's) Server \<Rightarrow> ('r, 's) Server" where
  "send_snapshot MT r bs k S =
     (let m = r_members (room_at S r) ! k in
      if \<not> m_used m then S else
      let s = At S (m_sessIdx m) in
      if gen s \<noteq> m_sessGen m \<or> dead s then S else
      case enqueue MT (m_sessIdx m) bs S of (n, S1) \<Rightarrow>
        if n = length bs
        then mark m (count_up (\<lambda>g. g\<lparr>mt_snapshotsSent := Inc (mt_snapshotsSent g)\<rparr>) S1)
        else count_up (\<lambda>g. g\<lparr>mt_snapshotsDropped := Inc (mt_snapshotsDropped g)\<rparr>) S1)"

definition broadcast_snapshot :: "'s ring_ops \<Rightarrow> nat \<Rightarrow> ('r, 's) Server \<Rightarrow> ('r, 's) Server" where
  "broadcast_snapshot MT r S =
     fold (send_snapshot MT r (enc_snapshot (room_snapshot (room_at S r)))) [0..<kRoomMembers] S"

section \<open>Moving a room\<close>

definition close_room :: "Room \<Rightarrow> Room" where
  "close_room x = x\<lparr>r_dead := True, r_pendingJoin := [], r_pendingLeave := [],
     r_seatUsed := replicate kRoomMembers False, r_reservedSeats := 0\<rparr>"

definition take_member :: "nat \<Rightarrow> Member \<Rightarrow> Room \<Rightarrow> Room" where
  "take_member k m x = x\<lparr>r_members := (r_members x)[k := m],
     r_world := (r_world x)\<lparr>w_actors := upd_at k (spawn_player k) (w_actors (r_world x))\<rparr>\<rparr>"

definition carry_member :: "nat \<Rightarrow> nat \<Rightarrow> nat \<Rightarrow> ('r, 's) Server \<Rightarrow> ('r, 's) Server" where
  "carry_member old nr k S =
     (let om = r_members (room_at S old) ! k in
      if \<not> m_used om then S else
      let S1 = upd_room nr (take_member k om) S;
          S2 = upd_room old (upd_member k (\<lambda>m. m\<lparr>m_used := False\<rparr>)) S1
      in if gen (At S2 (m_sessIdx om)) = m_sessGen om
         then upd_session (m_sessIdx om) (\<lambda>s. s\<lparr>roomIdx := r_idx (room_at S2 nr)\<rparr>) S2
         else S2)"

definition reserve_members :: "Room \<Rightarrow> Room" where
  "reserve_members x =
     fold (\<lambda>k x. if m_used (r_members x ! k)
                then x\<lparr>r_seatUsed := (r_seatUsed x)[k := True], r_reservedSeats := r_reservedSeats x + 1\<rparr> else x)
       [0..<kRoomMembers] (x\<lparr>r_everReserved := True\<rparr>)"

definition carry_join_entry :: "RoomJoinEntry \<Rightarrow> Room \<Rightarrow> Room" where
  "carry_join_entry e x =
     (let x1 = (if \<not> r_seatUsed x ! j_actorId e
                then x\<lparr>r_seatUsed := (r_seatUsed x)[j_actorId e := True], r_reservedSeats := r_reservedSeats x + 1\<rparr>
                else x)
      in x1\<lparr>r_pendingJoin := r_pendingJoin x1 @ [e]\<rparr>)"

definition carry_join :: "nat \<Rightarrow> RoomJoinEntry \<Rightarrow> ('r, 's) Server \<Rightarrow> ('r, 's) Server" where
  "carry_join nr e S =
     (let S1 = upd_room nr (carry_join_entry e) S in
      if gen (At S1 (j_sessIdx e)) = j_sessGen e
      then upd_session (j_sessIdx e) (\<lambda>s. s\<lparr>roomIdx := r_idx (room_at S1 nr)\<rparr>) S1
      else S1)"

definition send_room_event :: "'s ring_ops \<Rightarrow> nat \<Rightarrow> nat \<Rightarrow> ('r, 's) Server \<Rightarrow> ('r, 's) Server" where
  "send_room_event MT nr k S =
     (let m = r_members (room_at S nr) ! k in
      if \<not> m_used m then S else
      let s = At S (m_sessIdx m) in
      if gen s \<noteq> m_sessGen m \<or> dead s then S else
      let bs = enc_room_event RoomMove (of_nat k) (of_nat (r_idx (room_at S nr)))
                 (QuantPos (fst (kPlayerSpawn ! k))) (QuantPos (snd (kPlayerSpawn ! k)))
      in case enqueue MT (m_sessIdx m) bs S of (n, S1) \<Rightarrow> if n = length bs then mark m S1 else S1)"

text \<open>The part of \<open>TransferRoom\<close> under the manager lock, once the new room \<open>nr\<close> is there.\<close>

definition move_room :: "nat \<Rightarrow> nat \<Rightarrow> ('r, 's) Server \<Rightarrow> ('r, 's) Server" where
  "move_room old nr S =
     (let carryJoin = r_pendingJoin (room_at S old); carryLeave = r_pendingLeave (room_at S old);
          moved = length (filter m_used (r_members (room_at S old)));
          S1 = upd_room old close_room S;
          S2 = fold (carry_member old nr) [0..<kRoomMembers] S1;
          t = w_tick (r_world (room_at S2 old));
          S3 = upd_room nr (\<lambda>x. x\<lparr>r_world := (r_world x)\<lparr>w_tick := t\<rparr>, r_tickAtomic := t\<rparr>) S2;
          S4 = upd_room old (\<lambda>x. x\<lparr>r_memberCount := 0\<rparr>) S3;
          S5 = upd_room nr reserve_members S4;
          S6 = fold (carry_join nr) carryJoin S5;
          S7 = upd_room nr (\<lambda>x. x\<lparr>r_pendingLeave := r_pendingLeave x @ carryLeave\<rparr>) S6;
          S8 = upd_room nr (\<lambda>x. x\<lparr>r_memberCount := int moved\<rparr>) S7;
          S9 = S8\<lparr>openRooms := swap_remove (r_idx (room_at S8 old)) (openRooms S8)\<rparr>;
          S10 = (if r_reservedSeats (room_at S9 nr) < int kRoomMembers
                 then S9\<lparr>openRooms := openRooms S9 @ [r_idx (room_at S9 nr)]\<rparr> else S9);
          S11 = S10\<lparr>roomsPerWorker := upd_at (r_gameWorker (room_at S10 old)) (\<lambda>n. n - 1) (roomsPerWorker S10)\<rparr>
      in count_up (\<lambda>g. g\<lparr>mt_roomMoves := Inc (mt_roomMoves g)\<rparr>) (FreeRoomIfDrained old S11))"

definition TransferRoom :: "'s ring_ops \<Rightarrow> nat \<Rightarrow> ('r, 's) Server \<Rightarrow> nat option \<times> ('r, 's) Server" where
  "TransferRoom MT old S =
     (case AllocRoomSlotLocked (r_gameWorker (room_at S old)) False S of
        (None, S1) \<Rightarrow> (None, S1)
      | (Some nr, S1) \<Rightarrow> (Some nr, fold (send_room_event MT nr) [0..<kRoomMembers] (move_room old nr S1)))"

definition at_exit :: "Room \<Rightarrow> bool" where
  "at_exit x \<longleftrightarrow> r_memberCount x \<noteq> 0 \<and>
     list_all (\<lambda>i. m_used (r_members x ! i) \<longrightarrow>
        a_present (w_actors (r_world x) ! i) \<and> \<not> a_x (w_actors (r_world x) ! i) < EXIT_ZONE_X) [0..<kRoomMembers]"

definition ExitCheckAndMaybeTransfer :: "'s ring_ops \<Rightarrow> nat \<Rightarrow> ('r, 's) Server \<Rightarrow> nat option \<times> ('r, 's) Server" where
  "ExitCheckAndMaybeTransfer MT r S = (if at_exit (room_at S r) then TransferRoom MT r S else (None, S))"

section \<open>The tick\<close>

text \<open>Everything before the exit check.\<close>

definition tick_body :: "'s ring_ops \<Rightarrow> nat \<Rightarrow> ('r, 's) Server \<Rightarrow> ('r, 's) Server" where
  "tick_body MT r S =
     (let S1 = upd_room r step_room (consume_inputs r (route_inputs r S)); x = room_at S1 r in
      if w_tick (r_world x) mod 3 \<noteq> 0 \<or> r_memberCount x = 0 then S1 else broadcast_snapshot MT r S1)"

definition RoomTick :: "'s ring_ops \<Rightarrow> nat \<Rightarrow> ('r, 's) Server \<Rightarrow> nat option \<times> ('r, 's) Server" where
  "RoomTick MT r S = ExitCheckAndMaybeTransfer MT r (tick_body MT r S)"

end
