(* ===== verification/EpollWorker.thy ===== *)
theory EpollWorker
  imports RoomManager
begin

text \<open>
  The epoll worker (EpollWorker.cpp): accept, the event tag, reading and framing, dispatch of
  the client messages, the send path, and the disconnect sequence. \<open>ST\<close> and \<open>MT\<close> are the
  operations of the receive and send rings; \<open>w\<close> is the number of the worker that runs the
  operation. The system calls take their answers from the kernel script of the state.
\<close>

section \<open>Tags and system calls\<close>

definition PackTag :: "u32 \<Rightarrow> u32 \<Rightarrow> u64" where
  "PackTag sessIdx sessGen = push_bit 32 (ucast sessGen) OR ucast sessIdx"

definition kListenTag :: u32 where "kListenTag = 0xFFFFFFFF"
definition kMaxAcceptPerWake :: nat where "kMaxAcceptPerWake = 64"

definition tag_idx :: "u64 \<Rightarrow> u32" where "tag_idx tag = ucast (tag AND 0xFFFFFFFF)"
definition tag_gen :: "u64 \<Rightarrow> u32" where "tag_gen tag = ucast (drop_bit 32 tag)"

definition os_log :: "os_event \<Rightarrow> ('r, 's) Server \<Rightarrow> ('r, 's) Server" where
  "os_log e S = S\<lparr>kern := (kern S)\<lparr>k_log := k_log (kern S) @ [e]\<rparr>\<rparr>"

definition os_close :: "int \<Rightarrow> ('r, 's) Server \<Rightarrow> ('r, 's) Server" where
  "os_close f = os_log (Closed f)"

definition os_ctl :: "('r, 's) Server \<Rightarrow> bool \<times> ('r, 's) Server" where
  "os_ctl S = (case k_ctls (kern S) of [] \<Rightarrow> (True, S)
     | b # bs \<Rightarrow> (b, S\<lparr>kern := (kern S)\<lparr>k_ctls := bs\<rparr>\<rparr>))"

section \<open>Disconnect\<close>

definition Disconnect :: "nat \<Rightarrow> nat \<Rightarrow> ('r, 's) Server \<Rightarrow> ('r, 's) Server" where
  "Disconnect w i S =
     (if dead (At S i) then S else
      let S1 = upd_session i (\<lambda>s. s\<lparr>dead := True\<rparr>) S;
          S2 = (if 0 \<le> fd (At S1 i)
                then upd_session i (\<lambda>s. s\<lparr>fd := - 1\<rparr>) (os_close (fd (At S1 i)) S1) else S1);
          S3 = OnSessionLeave i S2;
          S4 = S3\<lparr>mySessions := upd_at w (swap_remove (idx (At S3 i))) (mySessions S3)\<rparr>;
          S5 = count_up (\<lambda>g. g\<lparr>mt_disconnects := Inc (mt_disconnects g)\<rparr>) S4
      in S5\<lparr>pool := Release i (pool S5)\<rparr>)"

section \<open>Accept\<close>

text \<open>One accepted socket.\<close>

definition accept_one :: "'r ring_ops \<Rightarrow> 's ring_ops \<Rightarrow> nat \<Rightarrow> int \<Rightarrow> ('r, 's) Server \<Rightarrow> ('r, 's) Server" where
  "accept_one ST MT w f S =
     (case Alloc ST MT (pool S) of
        (None, p) \<Rightarrow> os_close f (S\<lparr>pool := p\<rparr>)
      | (Some i, p) \<Rightarrow>
          (let S1 = upd_session i (\<lambda>s. s\<lparr>fd := f, owner := w\<rparr>) (S\<lparr>pool := p\<rparr>) in
           case os_ctl S1 of
             (False, S2) \<Rightarrow>
               (let S3 = upd_session i (\<lambda>s. s\<lparr>fd := - 1, dead := True\<rparr>) (os_close f S2)
                in S3\<lparr>pool := Release i (pool S3)\<rparr>)
           | (True, S2) \<Rightarrow>
               count_up (\<lambda>g. g\<lparr>mt_accepts := Inc (mt_accepts g)\<rparr>)
                 (S2\<lparr>mySessions := upd_at w (\<lambda>q. q @ [idx (At S2 i)]) (mySessions S2)\<rparr>)))"

fun accept_loop :: "'r ring_ops \<Rightarrow> 's ring_ops \<Rightarrow> nat \<Rightarrow> nat \<Rightarrow> ('r, 's) Server \<Rightarrow> ('r, 's) Server" where
  "accept_loop ST MT w 0 S = S"
| "accept_loop ST MT w (Suc n) S =
     (case k_accepts (kern S) of
        [] \<Rightarrow> S
      | a # as \<Rightarrow>
          (let S1 = S\<lparr>kern := (kern S)\<lparr>k_accepts := as\<rparr>\<rparr> in
           case a of
             AcceptNone \<Rightarrow> S1
           | AcceptIntr \<Rightarrow> accept_loop ST MT w n S1
           | Accepted f \<Rightarrow> accept_loop ST MT w n (accept_one ST MT w f S1)))"

definition HandleAccept :: "'r ring_ops \<Rightarrow> 's ring_ops \<Rightarrow> nat \<Rightarrow> ('r, 's) Server \<Rightarrow> ('r, 's) Server" where
  "HandleAccept ST MT w S = accept_loop ST MT w kMaxAcceptPerWake S"

section \<open>Sending\<close>

definition UpdateWriteInterest :: "nat \<Rightarrow> bool \<Rightarrow> ('r, 's) Server \<Rightarrow> ('r, 's) Server" where
  "UpdateWriteInterest i want S =
     (if wantWrite (At S i) = want then S else
      case os_ctl S of
        (False, S1) \<Rightarrow> S1
      | (True, S1) \<Rightarrow>
          (let S2 = upd_session i (\<lambda>s. s\<lparr>wantWrite := want\<rparr>) (os_log (Watch (fd (At S1 i)) want) S1)
           in if want then count_up (\<lambda>g. g\<lparr>mt_epolloutArm := Inc (mt_epolloutArm g)\<rparr>) S2 else S2))"

text \<open>
  The loop runs along the answers of \<open>write\<close>: \<open>Took k\<close> says that the kernel took k + 1 bytes, or
  all it was given when there were fewer.
\<close>

fun flush_loop :: "'s ring_ops \<Rightarrow> nat \<Rightarrow> nat \<Rightarrow> write_result list \<Rightarrow> ('r, 's) Server \<Rightarrow> ('r, 's) Server" where
  "flush_loop MT w i ws S =
     (let q = sendQ (At S i); direct = rb_DirectRead MT q in
      if rb_DataSize MT q = 0 then
        (if wantWrite (At S i) then UpdateWriteInterest i False S else S)
      else
        (let S1 = (if length direct < rb_DataSize MT q
                   then count_up (\<lambda>g. g\<lparr>mt_ringSplitSend := Inc (mt_ringSplitSend g)\<rparr>) S else S) in
         case ws of
           [] \<Rightarrow> UpdateWriteInterest i True S1
         | WriteAgain # ws' \<Rightarrow> UpdateWriteInterest i True (S1\<lparr>kern := (kern S1)\<lparr>k_writes := ws'\<rparr>\<rparr>)
         | WriteIntr # ws' \<Rightarrow> flush_loop MT w i ws' (S1\<lparr>kern := (kern S1)\<lparr>k_writes := ws'\<rparr>\<rparr>)
         | WriteErr # ws' \<Rightarrow> Disconnect w i (S1\<lparr>kern := (kern S1)\<lparr>k_writes := ws'\<rparr>\<rparr>)
         | Took k # ws' \<Rightarrow>
             (let S2 = S1\<lparr>kern := (kern S1)\<lparr>k_writes := ws'\<rparr>\<rparr>; n = min (Suc k) (length direct);
                  S3 = upd_session i (\<lambda>s. s\<lparr>sendQ := rb_Consume MT n (sendQ s)\<rparr>)
                         (os_log (Wrote (fd (At S2 i)) (take n direct)) S2);
                  S4 = count_up (\<lambda>g. g\<lparr>mt_sendBytes := Add (of_nat n) (mt_sendBytes g)\<rparr>) S3
              in if n < length direct
                 then UpdateWriteInterest i True
                        (count_up (\<lambda>g. g\<lparr>mt_partialSend := Inc (mt_partialSend g)\<rparr>) S4)
                 else flush_loop MT w i ws' S4)))"

declare flush_loop.simps [simp del]

definition FlushSend :: "'s ring_ops \<Rightarrow> nat \<Rightarrow> nat \<Rightarrow> ('r, 's) Server \<Rightarrow> ('r, 's) Server" where
  "FlushSend MT w i S = flush_loop MT w i (k_writes (kern S)) S"

definition SendBytes :: "'s ring_ops \<Rightarrow> nat \<Rightarrow> nat \<Rightarrow> bytes \<Rightarrow> ('r, 's) Server \<Rightarrow> ('r, 's) Server" where
  "SendBytes MT w i bs S =
     (case rb_Enqueue MT bs (sendQ (At S i)) of (n, q) \<Rightarrow>
        let S1 = upd_session i (\<lambda>s. s\<lparr>sendQ := q\<rparr>) S in
        if n = 0
        then Disconnect w i (count_up (\<lambda>g. g\<lparr>mt_sendRingFull := Inc (mt_sendRingFull g)\<rparr>) S1)
        else FlushSend MT w i S1)"

section \<open>Dispatch\<close>

definition join_fail :: "'s ring_ops \<Rightarrow> nat \<Rightarrow> nat \<Rightarrow> JoinFailReason \<Rightarrow> ('r, 's) Server \<Rightarrow> ('r, 's) Server" where
  "join_fail MT w i reason S =
     SendBytes MT w i (enc_join_fail reason) (count_up (\<lambda>g. g\<lparr>mt_joinFails := Inc (mt_joinFails g)\<rparr>) S)"

definition handle_join :: "'s ring_ops \<Rightarrow> nat \<Rightarrow> nat \<Rightarrow> bytes \<Rightarrow> ('r, 's) Server \<Rightarrow> ('r, 's) Server" where
  "handle_join MT w i msg S =
     (if length msg \<noteq> kJoinSize then Disconnect w i S
      else if dec_join msg \<noteq> kProtocolVersion then join_fail MT w i VersionMismatch S
      else if inRoom (At S i) then join_fail MT w i AlreadyJoined S
      else case Join i S of
        (None, S1) \<Rightarrow> join_fail MT w i NoCapacity S1
      | (Some (seat, room), S1) \<Rightarrow>
          SendBytes MT w i (enc_join_ok (of_nat seat) (of_nat room) 0) S1)"

definition handle_input :: "nat \<Rightarrow> nat \<Rightarrow> bytes \<Rightarrow> ('r, 's) Server \<Rightarrow> ('r, 's) Server" where
  "handle_input w i msg S =
     (if length msg \<noteq> kInputSize then Disconnect w i S
      else if \<not> inRoom (At S i) then S
      else (let m = dec_input msg in PushInput i (i_seq m) (i_mx m) (i_my m) (i_attack m) (i_skill m) S))"

definition handle_ping :: "'s ring_ops \<Rightarrow> nat \<Rightarrow> nat \<Rightarrow> bytes \<Rightarrow> ('r, 's) Server \<Rightarrow> ('r, 's) Server" where
  "handle_ping MT w i msg S =
     (if length msg \<noteq> kPingSize then Disconnect w i S
      else (let (tick, remain) = GetPingInfo i S in SendBytes MT w i (enc_pong (dec_ping msg) tick remain) S))"

definition Dispatch :: "'s ring_ops \<Rightarrow> nat \<Rightarrow> nat \<Rightarrow> bytes \<Rightarrow> ('r, 's) Server \<Rightarrow> ('r, 's) Server" where
  "Dispatch MT w i msg S =
     (case msg_type_of (h_type (dec_header msg)) of
        Some ECHO \<Rightarrow> SendBytes MT w i msg S
      | Some C2S_JOIN \<Rightarrow> handle_join MT w i msg S
      | Some C2S_INPUT \<Rightarrow> handle_input w i msg S
      | Some C2S_PING \<Rightarrow> handle_ping MT w i msg S
      | _ \<Rightarrow> Disconnect w i S)"

section \<open>Reading and framing\<close>

text \<open>
  The framing loop, with a bound on its iterations: every round takes a whole frame of at least
  four bytes from the ring, so \<open>ParseFrames\<close> starts it with one more than the bytes there are.
\<close>

fun parse_loop :: "'r ring_ops \<Rightarrow> 's ring_ops \<Rightarrow> nat \<Rightarrow> nat \<Rightarrow> nat \<Rightarrow> ('r, 's) Server \<Rightarrow> ('r, 's) Server" where
  "parse_loop ST MT w i 0 S = S"
| "parse_loop ST MT w i (Suc n) S =
     (let q = recvQ (At S i) in
      if rb_DataSize ST q < kHeaderSize then S else
      let h = dec_header (rb_Peek ST kHeaderSize q); sz = unat (h_size h) in
      if sz < kHeaderSize \<or> MAX_PACKET_SIZE < sz then Disconnect w i S
      else if rb_DataSize ST q < sz then count_up (\<lambda>g. g\<lparr>mt_frameWait := Inc (mt_frameWait g)\<rparr>) S
      else
        (let S1 = (if length (rb_DirectRead ST q) < sz
                   then count_up (\<lambda>g. g\<lparr>mt_ringSplitRead := Inc (mt_ringSplitRead g)\<rparr>) S else S) in
         case rb_Dequeue ST sz q of (buf, q') \<Rightarrow>
           (let S2 = Dispatch MT w i buf (upd_session i (\<lambda>s. s\<lparr>recvQ := q'\<rparr>) S1)
            in if dead (At S2 i) then S2 else parse_loop ST MT w i n S2)))"

definition ParseFrames :: "'r ring_ops \<Rightarrow> 's ring_ops \<Rightarrow> nat \<Rightarrow> nat \<Rightarrow> ('r, 's) Server \<Rightarrow> ('r, 's) Server" where
  "ParseFrames ST MT w i S = parse_loop ST MT w i (rb_DataSize ST (recvQ (At S i)) + 1) S"

fun read_loop :: "'r ring_ops \<Rightarrow> 's ring_ops \<Rightarrow> nat \<Rightarrow> nat \<Rightarrow> read_result list \<Rightarrow> ('r, 's) Server \<Rightarrow> ('r, 's) Server" where
  "read_loop ST MT w i rs S =
     (let direct = rb_DirectWriteSize ST (recvQ (At S i)) in
      if direct = 0 then Disconnect w i S else
      case rs of
        [] \<Rightarrow> S
      | x # rs' \<Rightarrow>
          (let S1 = S\<lparr>kern := (kern S)\<lparr>k_reads := rs'\<rparr>\<rparr> in
           case x of
             Got bs \<Rightarrow>
               (let n = min (length bs) direct in
                if n = 0 then Disconnect w i S1 else
                let S2 = upd_session i (\<lambda>s. s\<lparr>recvQ := rb_Received ST (take n bs) (recvQ s)\<rparr>) S1;
                    S3 = count_up (\<lambda>g. g\<lparr>mt_recvBytes := Add (of_nat n) (mt_recvBytes g)\<rparr>) S2;
                    S4 = ParseFrames ST MT w i S3
                in if dead (At S4 i) then S4 else read_loop ST MT w i rs' S4)
           | Eof \<Rightarrow> Disconnect w i S1
           | ReadAgain \<Rightarrow> S1
           | ReadIntr \<Rightarrow> read_loop ST MT w i rs' S1
           | ReadErr \<Rightarrow> Disconnect w i S1))"

declare read_loop.simps [simp del]

definition ReadSession :: "'r ring_ops \<Rightarrow> 's ring_ops \<Rightarrow> nat \<Rightarrow> nat \<Rightarrow> ('r, 's) Server \<Rightarrow> ('r, 's) Server" where
  "ReadSession ST MT w i S = read_loop ST MT w i (k_reads (kern S)) S"

section \<open>Events\<close>

definition EPOLLIN :: u32 where "EPOLLIN = 1"
definition EPOLLOUT :: u32 where "EPOLLOUT = 4"
definition EPOLL_GONE :: u32 where "EPOLL_GONE = 8 OR 16 OR 8192"   \<comment> \<open>ERR, HUP, RDHUP\<close>

definition HandleSession :: "'r ring_ops \<Rightarrow> 's ring_ops \<Rightarrow> nat \<Rightarrow> nat \<Rightarrow> u32 \<Rightarrow> u32 \<Rightarrow> ('r, 's) Server \<Rightarrow> ('r, 's) Server" where
  "HandleSession ST MT w i g events S =
     (if length (slots (pool S)) \<le> i then S
      else if gen (At S i) \<noteq> g \<or> dead (At S i) then S
      else if events AND EPOLL_GONE \<noteq> 0 then Disconnect w i S
      else
        (let S1 = (if events AND EPOLLIN \<noteq> 0 then ReadSession ST MT w i S else S) in
         if events AND EPOLLIN \<noteq> 0 \<and> dead (At S1 i) then S1
         else if events AND EPOLLOUT \<noteq> 0 then FlushSend MT w i S1 else S1))"

definition handle_event :: "'r ring_ops \<Rightarrow> 's ring_ops \<Rightarrow> nat \<Rightarrow> u64 \<times> u32 \<Rightarrow> ('r, 's) Server \<Rightarrow> ('r, 's) Server" where
  "handle_event ST MT w ev S =
     (if tag_idx (fst ev) = kListenTag then HandleAccept ST MT w S
      else HandleSession ST MT w (unat (tag_idx (fst ev))) (tag_gen (fst ev)) (snd ev) S)"

definition flush_dirty :: "'s ring_ops \<Rightarrow> nat \<Rightarrow> nat \<Rightarrow> ('r, 's) Server \<Rightarrow> ('r, 's) Server" where
  "flush_dirty MT w i S =
     (if length (slots (pool S)) \<le> i then S
      else if owner (At S i) = w \<and> \<not> dead (At S i) \<and> 0 \<le> fd (At S i) then FlushSend MT w i S else S)"

text \<open>One round of the loop: the batch of events, then the dirty sessions of this worker.\<close>

definition loop_round :: "'r ring_ops \<Rightarrow> 's ring_ops \<Rightarrow> nat \<Rightarrow> (u64 \<times> u32) list \<Rightarrow> ('r, 's) Server \<Rightarrow> ('r, 's) Server" where
  "loop_round ST MT w events S =
     (let S1 = fold (handle_event ST MT w) events S;
          (due, d) = Drain w (dirty S1)
      in fold (flush_dirty MT w) due (S1\<lparr>dirty := d\<rparr>))"

definition CleanupInThread :: "nat \<Rightarrow> ('r, 's) Server \<Rightarrow> ('r, 's) Server" where
  "CleanupInThread w S = fold (Disconnect w) (mySessions S ! w) S"

end
