(* ===== verification/Books.thy ===== *)
theory Books
  imports RoomTick EpollWorker
begin

text \<open>
  The books of the session pool against an abstract seat table: who holds which session. The
  table maps a room and a seat to the slot and generation of the session that sits there or
  waits to be seated; \<open>lv\<close> gives the pending leaves of a room and \<open>ms\<close> the sessions each epoll
  worker owns. \<open>books_ok\<close> relates the three to the pool; one lemma per kind of transition shows
  how an operation may change them together.
\<close>

type_synonym tag = "nat \<times> u32"
type_synonym seats = "nat \<Rightarrow> nat \<Rightarrow> tag option"

text \<open>The seats of a room: a pending join or a member.\<close>

definition pend :: "RoomJoinEntry list \<Rightarrow> nat \<Rightarrow> tag option" where
  "pend js = map_of (map (\<lambda>e. (j_actorId e, (j_sessIdx e, j_sessGen e))) js)"

definition memb :: "Member list \<Rightarrow> nat \<Rightarrow> tag option" where
  "memb ms k = (if k < length ms \<and> m_used (ms ! k) then Some (m_sessIdx (ms ! k), m_sessGen (ms ! k)) else None)"

definition seat :: "Room \<Rightarrow> nat \<Rightarrow> tag option" where
  "seat x = pend (r_pendingJoin x) ++ memb (r_members x)"

definition leave_tag :: "RoomLeaveEntry \<Rightarrow> tag" where
  "leave_tag e = (l_sessIdx e, l_sessGen e)"

section \<open>Books\<close>

text \<open>
  A session that is held has one reference for its owner while it is alive and one for its
  seat; one that is in a room sits at the seat it says; a dead one on a seat has its leave
  pending.
\<close>

definition sess_ok :: "seats \<Rightarrow> nat \<Rightarrow> ('r, 's) Session \<Rightarrow> bool" where
  "sess_ok h i s \<longleftrightarrow> refs s \<noteq> 0 \<longrightarrow>
     refs s = of_bool (\<not> dead s) + of_bool (h (roomIdx s) (actorId s) = Some (i, gen s)) \<and>
     (inRoom s \<longrightarrow> \<not> dead s \<and> h (roomIdx s) (actorId s) = Some (i, gen s))"

definition seat_ok :: "('r, 's) SessionPool \<Rightarrow> (nat \<Rightarrow> tag set) \<Rightarrow> nat \<Rightarrow> nat \<Rightarrow> tag \<Rightarrow> bool" where
  "seat_ok p lv r k t \<longleftrightarrow> (let i = fst t; s = slots p ! i in
     i < length (slots p) \<and> gen s = snd t \<and> roomIdx s = r \<and> actorId s = k \<and> refs s \<noteq> 0 \<and>
     (if dead s then \<not> inRoom s \<and> t \<in> lv r else inRoom s))"

definition mine_ok :: "('r, 's) SessionPool \<Rightarrow> nat list list \<Rightarrow> bool" where
  "mine_ok p ms \<longleftrightarrow> (\<forall>w<length ms. distinct (ms ! w) \<and>
     set (ms ! w) = {i. i < length (slots p) \<and> owner (slots p ! i) = w \<and> \<not> dead (slots p ! i) \<and> refs (slots p ! i) \<noteq> 0})
   \<and> (\<forall>i<length (slots p). if refs (slots p ! i) \<noteq> 0 then owner (slots p ! i) < length ms
        else dead (slots p ! i) \<or> fd (slots p ! i) = - 1)"

definition books_ok :: "('r, 's) SessionPool \<Rightarrow> seats \<Rightarrow> (nat \<Rightarrow> tag set) \<Rightarrow> bool" where
  "books_ok p h lv \<longleftrightarrow> pool_ok p \<and>
     (\<forall>i<length (slots p). sess_ok h i (slots p ! i)) \<and>
     (\<forall>r k t. h r k = Some t \<longrightarrow> seat_ok p lv r k t) \<and>
     (\<forall>r t. t \<in> lv r \<longrightarrow> fst t < length (slots p) \<and> dead (slots p ! fst t) \<and> (\<exists>k. h r k = Some t))"

lemma books_okD:
  assumes "books_ok p h lv"
  shows "pool_ok p" "i < length (slots p) \<Longrightarrow> sess_ok h i (slots p ! i)"
    "h r k = Some t \<Longrightarrow> seat_ok p lv r k t"
    "t \<in> lv r \<Longrightarrow> fst t < length (slots p) \<and> dead (slots p ! fst t) \<and> (\<exists>k. h r k = Some t)"
  using assms unfolding books_ok_def by blast+

lemma seat_okD:
  assumes "seat_ok p lv r k (i, g)"
  shows "i < length (slots p)" "gen (slots p ! i) = g" "roomIdx (slots p ! i) = r" "actorId (slots p ! i) = k"
    "refs (slots p ! i) \<noteq> 0" "dead (slots p ! i) \<Longrightarrow> \<not> inRoom (slots p ! i) \<and> (i, g) \<in> lv r"
    "\<not> dead (slots p ! i) \<Longrightarrow> inRoom (slots p ! i)"
  using assms by (auto simp: seat_ok_def Let_def split: if_splits)

text \<open>A session sits on one seat only.\<close>

lemma one_seat:
  assumes "books_ok p h lv" "h r k = Some (i, g)" "h r' k' = Some (i, g')"
  shows "r' = r" "k' = k" "g' = g"
  using seat_okD(2-4) [OF books_okD(3) [OF assms(1,2)]] seat_okD(2-4) [OF books_okD(3) [OF assms(1,3)]] by auto

lemma books_eqD:
  assumes "books s = books s'"
  shows "refs s = refs s'" "dead s = dead s'" "gen s = gen s'" "idx s = idx s'" "fd s = fd s'" "owner s = owner s'"
    "inRoom s = inRoom s'" "roomIdx s = roomIdx s'" "actorId s = actorId s'"
  using assms by (simp_all add: books_def)

lemma sess_ok_books: "books s = books s' \<Longrightarrow> sess_ok h i s \<longleftrightarrow> sess_ok h i s'"
  by (simp add: sess_ok_def books_def)

lemma pool_ok_cong:
  assumes "length (slots p') = length (slots p)" "sfree p' = sfree p"
    "\<And>i. i < length (slots p) \<Longrightarrow> refs (slots p' ! i) = refs (slots p ! i) \<and> idx (slots p' ! i) = idx (slots p ! i)"
  shows "pool_ok p' \<longleftrightarrow> pool_ok p"
  unfolding pool_ok_def using assms by auto

text \<open>
  The general transition: only session i changes. What remains to be shown is local to it, and
  to the seats and leaves that appear or disappear.
\<close>

lemma books_ok_step:
  assumes ok: "books_ok p h lv" and p': "pool_ok p'" "length (slots p') = length (slots p)"
    and other: "\<And>j. j < length (slots p) \<Longrightarrow> j \<noteq> i \<Longrightarrow> books (slots p' ! j) = books (slots p ! j)"
    and me: "i < length (slots p) \<Longrightarrow> sess_ok h' i (slots p' ! i)"
    and h: "\<And>r k j g. j \<noteq> i \<Longrightarrow> h' r k = Some (j, g) \<longleftrightarrow> h r k = Some (j, g)"
    and mine: "\<And>r k g. h' r k = Some (i, g) \<Longrightarrow> seat_ok p' lv' r k (i, g)"
    and lv: "\<And>r j g. j \<noteq> i \<Longrightarrow> (j, g) \<in> lv' r \<longleftrightarrow> (j, g) \<in> lv r"
    and lvi: "\<And>r g. (i, g) \<in> lv' r \<Longrightarrow> i < length (slots p) \<and> dead (slots p' ! i) \<and> (\<exists>k. h' r k = Some (i, g))"
  shows "books_ok p' h' lv'"
proof -
  have eq: "sess_ok h' j (slots p' ! j)" if "j < length (slots p)" for j
  proof (cases "j = i")
    case False
    then have "sess_ok h j (slots p' ! j)"
      using books_okD(2) [OF ok that] sess_ok_books [OF other [OF that False]] by blast
    then show ?thesis using h [OF False] by (simp add: sess_ok_def)
  qed (use me that in simp)
  moreover have "seat_ok p' lv' r k t" if t: "h' r k = Some t" for r k t
  proof (cases "fst t = i")
    case True
    then show ?thesis using mine t by (cases t) auto
  next
    case False
    obtain j g where jg: "t = (j, g)" by (cases t)
    with t False h have "seat_ok p lv r k (j, g)" using books_okD(3) [OF ok] by auto
    moreover from this have "j < length (slots p)" by (rule seat_okD)
    ultimately show ?thesis
      using books_eqD [OF other] lv False p'(2) jg by (simp add: seat_ok_def Let_def)
  qed
  moreover have "fst t < length (slots p') \<and> dead (slots p' ! fst t) \<and> (\<exists>k. h' r k = Some t)" if "t \<in> lv' r" for r t
  proof (cases "fst t = i")
    case True
    then show ?thesis using lvi that p'(2) by (cases t) auto
  next
    case False
    obtain j g where jg: "t = (j, g)" by (cases t)
    with that False have "(j, g) \<in> lv r" using lv by auto
    from books_okD(4) [OF ok this] show ?thesis
      using h False jg p'(2) books_eqD(2) [OF other] by auto
  qed
  ultimately show ?thesis using p' by (simp add: books_ok_def)
qed

text \<open>Nothing but the buffers and the event interest of the sessions changed.\<close>

lemma books_ok_cong:
  assumes "length (slots p') = length (slots p)" "sfree p' = sfree p"
    and b: "\<And>j. j < length (slots p) \<Longrightarrow>
      (refs (slots p' ! j), dead (slots p' ! j), gen (slots p' ! j), idx (slots p' ! j), inRoom (slots p' ! j), roomIdx (slots p' ! j), actorId (slots p' ! j))
      = (refs (slots p ! j), dead (slots p ! j), gen (slots p ! j), idx (slots p ! j), inRoom (slots p ! j), roomIdx (slots p ! j), actorId (slots p ! j))"
  shows "books_ok p' h lv \<longleftrightarrow> books_ok p h lv"
proof -
  have "pool_ok p' \<longleftrightarrow> pool_ok p" by (rule pool_ok_cong) (use assms in auto)
  moreover have "sess_ok h j (slots p' ! j) \<longleftrightarrow> sess_ok h j (slots p ! j)" if "j < length (slots p)" for j
    using b [OF that] by (simp add: sess_ok_def)
  moreover have "seat_ok p' lv r k t \<longleftrightarrow> seat_ok p lv r k t" for r k t
    using b [of "fst t"] assms(1) by (auto simp: seat_ok_def Let_def)
  moreover have "fst t < length (slots p) \<Longrightarrow> dead (slots p' ! fst t) = dead (slots p ! fst t)" for t :: tag
    using b [of "fst t"] by simp
  ultimately show ?thesis
    by (simp add: books_ok_def assms(1) cong: conj_cong imp_cong del: split_paired_All)
qed

section \<open>Transitions\<close>

lemma held_refs:
  assumes "books_ok p h lv" "h r k = Some (i, g)"
  shows "refs (slots p ! i) = (if dead (slots p ! i) then 1 else 2)" "gen (slots p ! i) = g"
    "i < length (slots p)"
proof -
  note s = seat_okD [OF books_okD(3) [OF assms]]
  show "gen (slots p ! i) = g" "i < length (slots p)" using s by simp_all
  have "sess_ok h i (slots p ! i)" using books_okD(2) [OF assms(1)] s(1) by simp
  then have "refs (slots p ! i) = of_bool (\<not> dead (slots p ! i)) + of_bool (h r k = Some (i, g))"
    using s(5) unfolding sess_ok_def s(2-4) by blast
  then show "refs (slots p ! i) = (if dead (slots p ! i) then 1 else 2)"
    using assms(2) by simp
qed

text \<open>A session takes a free seat.\<close>

lemma books_join:
  assumes ok: "books_ok p h lv" and i: "i < length (slots p)" "refs (slots p ! i) \<noteq> 0"
    and alive: "\<not> dead (slots p ! i)" "\<not> inRoom (slots p ! i)" and free: "h r k = None"
  shows "books_ok (upd_sess i (\<lambda>s. s\<lparr>inRoom := True, roomIdx := r, actorId := k\<rparr>) (AddRef i p))
           (h(r := (h r)(k \<mapsto> (i, gen (slots p ! i))))) lv"
    (is "books_ok ?p ?h lv")
proof -
  have none: "h r' k' \<noteq> Some (i, g)" for r' k' g
    using seat_okD(7) [OF books_okD(3) [OF ok], of r' k' i g] alive by auto
  then have r1: "refs (slots p ! i) = 1"
    using books_okD(2) [OF ok i(1)] i alive by (simp add: sess_ok_def)
  have q: "slots ?p ! j = (if j = i then (slots p ! i)\<lparr>refs := 2, inRoom := True, roomIdx := r, actorId := k\<rparr> else slots p ! j)" for j
    using i by (simp add: slots_upd_sess slots_AddRef r1)
  have h: "?h r' k' = Some (j, g) \<longleftrightarrow> h r' k' = Some (j, g) \<or> r' = r \<and> k' = k \<and> j = i \<and> g = gen (slots p ! i)" for r' k' j g
    using free by auto
  show ?thesis
  proof (rule books_ok_step [OF ok])
    have "pool_ok (AddRef i p)" using pool_ok_AddRef [OF books_okD(1) [OF ok] i(1)] r1 by simp
    then show "pool_ok ?p"
      by (subst pool_ok_cong [of _ "AddRef i p"]) (use i in \<open>auto simp: slots_upd_sess\<close>)
    show "sess_ok ?h i (slots ?p ! i)" if "i < length (slots p)"
      using alive by (simp add: q sess_ok_def)
    show "seat_ok ?p lv r' k' (i, g)" if "?h r' k' = Some (i, g)" for r' k' g
      using that i alive unfolding h by (auto simp: none seat_ok_def q)
    show "i < length (slots p) \<and> dead (slots ?p ! i) \<and> (\<exists>k. ?h r' k = Some (i, g))" if "(i, g) \<in> lv r'" for r' g
      using books_okD(4) [OF ok that] none by auto
    show "?h r' k' = Some (j, g) \<longleftrightarrow> h r' k' = Some (j, g)" if "j \<noteq> i" for r' k' j g
      using that unfolding h by blast
  qed (simp_all add: q)
qed

text \<open>The owner hangs up: the session dies, its leave is filed if it is in a room, and the
  owner's reference is returned.\<close>

lemma books_hangup:
  assumes ok: "books_ok p h lv" and i: "i < length (slots p)" "refs (slots p ! i) \<noteq> 0"
    and alive: "\<not> dead (slots p ! i)"
    and q: "length (slots q) = length (slots p)" "sfree q = sfree p"
      "\<And>j. j \<noteq> i \<Longrightarrow> books (slots q ! j) = books (slots p ! j)"
    and qi: "dead (slots q ! i)" "\<not> inRoom (slots q ! i)" "refs (slots q ! i) = refs (slots p ! i)"
      "gen (slots q ! i) = gen (slots p ! i)" "idx (slots q ! i) = idx (slots p ! i)"
      "roomIdx (slots q ! i) = roomIdx (slots p ! i)" "actorId (slots q ! i) = actorId (slots p ! i)"
    and lv': "lv' = (if inRoom (slots p ! i)
        then lv(roomIdx (slots p ! i) := insert (i, gen (slots p ! i)) (lv (roomIdx (slots p ! i)))) else lv)"
  shows "books_ok (Release i q) h lv'"
proof -
  let ?s = "slots p ! i"
  note so = books_okD(2) [OF ok i(1)]
  have held: "h r k = Some (i, g) \<Longrightarrow> inRoom ?s \<and> r = roomIdx ?s \<and> k = actorId ?s \<and> g = gen ?s" for r k g
    using seat_okD [OF books_okD(3) [OF ok], of r k i g] alive by auto
  have room: "inRoom ?s \<Longrightarrow> h (roomIdx ?s) (actorId ?s) = Some (i, gen ?s)"
    using so i by (simp add: sess_ok_def)
  have r: "refs ?s = (if inRoom ?s then 2 else 1)"
    using so i alive room held by (auto simp: sess_ok_def)
  have i': "i < length (slots q)" using i q by simp
  have "refs (slots q ! j) = refs (slots p ! j) \<and> idx (slots q ! j) = idx (slots p ! j)" for j
    by (cases "j = i") (use q(3) qi in \<open>simp_all add: books_def\<close>)
  then have okq: "pool_ok q"
    using pool_ok_cong [of q p] q(1,2) books_okD(1) [OF ok] by simp
  show ?thesis
  proof (rule books_ok_step [OF ok])
    show "pool_ok (Release i q)" using pool_ok_Release [OF okq i'] qi r by simp
    show "sess_ok h i (slots (Release i q) ! i)" if "i < length (slots p)"
      using r room i' qi by (auto simp: sess_ok_def slots_Release)
    show "seat_ok (Release i q) lv' r' k' (i, g)" if "h r' k' = Some (i, g)" for r' k' g
      using held [OF that] r i' i qi by (auto simp: seat_ok_def slots_Release lv' q)
    show "(j, g) \<in> lv' r' \<longleftrightarrow> (j, g) \<in> lv r'" if "j \<noteq> i" for r' j g
      using that by (auto simp: lv')
    show "i < length (slots p) \<and> dead (slots (Release i q) ! i) \<and> (\<exists>k. h r' k = Some (i, g))"
      if "(i, g) \<in> lv' r'" for r' g
    proof -
      have "(i, g) \<notin> lv r'" using books_okD(4) [OF ok, of "(i, g)" r'] alive by auto
      then have "inRoom ?s" "r' = roomIdx ?s" "g = gen ?s" using that by (auto simp: lv' split: if_splits)
      then show ?thesis using room i i' qi by (auto simp: slots_Release)
    qed
  qed (use q i' in \<open>auto simp: slots_Release\<close>)
qed

text \<open>The seat of a dead session is given up, and its reference with it.\<close>

lemma books_unseat:
  assumes ok: "books_ok p h lv" and h: "h r k = Some (i, g)" and d: "dead (slots p ! i)"
  shows "books_ok (Release i p) (h(r := (h r)(k := None))) (lv(r := lv r - {(i, g)}))"
    (is "books_ok ?p ?h ?lv")
proof -
  note s = seat_okD [OF books_okD(3) [OF ok h]] and r = held_refs [OF ok h]
  have gone: "?h r' k' \<noteq> Some (i, g')" for r' k' g'
    using one_seat [OF ok h, of r' k' g'] by auto
  show ?thesis
  proof (rule books_ok_step [OF ok])
    show "pool_ok ?p" using pool_ok_Release [OF books_okD(1) [OF ok] s(1)] r d by simp
    show "sess_ok ?h i (slots ?p ! i)" if "i < length (slots p)"
      using r d s(1) by (simp add: sess_ok_def slots_Release)
    show "?h r' k' = Some (j, g') \<longleftrightarrow> h r' k' = Some (j, g')" if "j \<noteq> i" for r' k' j g'
      using that h by auto
    show "seat_ok ?p ?lv r' k' (i, g')" if "?h r' k' = Some (i, g')" for r' k' g'
      using that gone by blast
    show "i < length (slots p) \<and> dead (slots ?p ! i) \<and> (\<exists>k. ?h r' k = Some (i, g'))"
      if "(i, g') \<in> ?lv r'" for r' g'
    proof -
      from that have lv: "(i, g') \<in> lv r'" by (auto split: if_splits)
      then obtain k' where k': "h r' k' = Some (i, g')" using books_okD(4) [OF ok] by blast
      with one_seat [OF ok h k'] that show ?thesis by simp
    qed
  qed (use s in \<open>auto simp: slots_Release\<close>)
qed

text \<open>A free slot is handed out and given to an owner.\<close>

lemma books_alloc:
  assumes ok: "books_ok p h lv" and a: "Alloc ST MT p = (Some i, q)"
  shows "books_ok (upd_sess i (\<lambda>s. s\<lparr>fd := f, owner := w\<rparr>) q) h lv" (is "books_ok ?p h lv")
proof -
  note A = Alloc_SomeD [OF books_okD(1) [OF ok] a]
  have none: "h r k \<noteq> Some (i, g)" for r k g
    using seat_okD(5) [OF books_okD(3) [OF ok], of r k i g] A(4) by auto
  have q: "slots ?p ! j = (if j = i then (slots q ! i)\<lparr>fd := f, owner := w\<rparr> else slots p ! j)" for j
    using A(2,5,8) by (simp add: slots_upd_sess)
  show ?thesis
  proof (rule books_ok_step [OF ok])
    show "pool_ok ?p"
      by (subst pool_ok_cong [of _ q]) (use A in \<open>auto simp: slots_upd_sess\<close>)
    show "sess_ok h i (slots ?p ! i)" if "i < length (slots p)"
      using A(7) none by (simp add: q sess_ok_def books_def claim_session_def)
    show "i < length (slots p) \<and> dead (slots ?p ! i) \<and> (\<exists>k. h r k = Some (i, g))" if "(i, g) \<in> lv r" for r g
      using books_okD(4) [OF ok that] none by auto
  qed (use A none in \<open>auto simp: q\<close>)
qed

text \<open>All the seats of a room move to another, empty one.\<close>

lemma books_move:
  assumes ok: "books_ok p h lv" and ne: "r' \<noteq> r" and empty: "\<And>k. h r' k = None" "lv r' = {}"
    and q: "length (slots q) = length (slots p)" "sfree q = sfree p"
    and b: "\<And>j. j < length (slots p) \<Longrightarrow> slots q ! j =
      (if \<exists>k. h r k = Some (j, gen (slots p ! j)) then (slots p ! j)\<lparr>roomIdx := r'\<rparr> else slots p ! j)"
  shows "books_ok q (h(r' := h r, r := Map.empty)) (lv(r' := lv r, r := {}))"
    (is "books_ok q ?h ?lv")
proof -
  have held: "\<exists>k. h r k = Some (j, gen (slots p ! j))" if "h r k = Some (j, g)" for k j g
    using seat_okD(2) [OF books_okD(3) [OF ok that]] that by auto
  have sess: "sess_ok ?h i (slots q ! i)" if i: "i < length (slots p)" for i
  proof (cases "\<exists>k. h r k = Some (i, gen (slots p ! i))")
    case True
    then obtain k where k: "h r k = Some (i, gen (slots p ! i))" by blast
    note s = seat_okD [OF books_okD(3) [OF ok k]]
    have q: "slots q ! i = (slots p ! i)\<lparr>roomIdx := r'\<rparr>" using b [OF i] True by simp
    have "?h r' (actorId (slots p ! i)) = Some (i, gen (slots p ! i))"
      using k ne s(4) by simp
    then show ?thesis
      using held_refs(1) [OF ok k] s(6) by (auto simp: q sess_ok_def)
  next
    case False
    then have "h r k \<noteq> Some (i, gen (slots p ! i))" for k by blast
    then show ?thesis using books_okD(2) [OF ok i] empty(1) ne by (auto simp: b [OF i] sess_ok_def)
  qed
  have seat: "seat_ok q ?lv r0 k t" if t: "?h r0 k = Some t" for r0 k t
  proof -
    obtain i g where ig: "t = (i, g)" by (cases t)
    show ?thesis
    proof (cases "r0 = r'")
      case True
      then have hr: "h r k = Some (i, g)" using t ne ig by simp
      note s = seat_okD [OF books_okD(3) [OF ok hr]]
      show ?thesis using s held [OF hr] True ne q by (auto simp: seat_ok_def ig b [OF s(1)])
    next
      case False
      then have hr: "h r0 k = Some (i, g)" "r0 \<noteq> r" using t ig by (auto split: if_splits)
      note s = seat_okD [OF books_okD(3) [OF ok hr(1)]]
      have "\<not> (\<exists>k. h r k = Some (i, gen (slots p ! i)))" using one_seat(1) [OF ok hr(1)] hr(2) by blast
      then show ?thesis using s False hr(2) q by (auto simp: seat_ok_def ig b [OF s(1)])
    qed
  qed
  have leave: "fst t < length (slots q) \<and> dead (slots q ! fst t) \<and> (\<exists>k. ?h r0 k = Some t)" if t: "t \<in> ?lv r0" for r0 t
  proof -
    obtain r1 where r1: "t \<in> lv r1" "?h r0 = h r1"
      using t ne by (cases "r0 = r'"; cases "r0 = r") auto
    note l = books_okD(4) [OF ok r1(1)]
    then have "dead (slots q ! fst t)" using b [of "fst t"] by simp
    then show ?thesis using l r1(2) q(1) by simp
  qed
  have "pool_ok q"
    by (subst pool_ok_cong [of _ p]) (use q b books_okD(1) [OF ok] in auto)
  then show ?thesis unfolding books_ok_def using sess seat leave q(1) by simp
qed

end
