(* ===== verification/Seats.thy ===== *)
theory Seats
  imports Books
begin

text \<open>
  The seat accounts of one room: which seats are used, how many are reserved, and how many
  members there are, against the abstract seats of the room. One lemma per room operation
  says how the seats change and that the accounts stay right.
\<close>

section \<open>Accounts\<close>

definition seats_ok :: "RoomJoinEntry list \<Rightarrow> Member list \<Rightarrow> bool list \<Rightarrow> int \<Rightarrow> int \<Rightarrow> bool" where
  "seats_ok js ms su rs mc \<longleftrightarrow> length ms = kRoomMembers \<and> length su = kRoomMembers \<and>
     distinct (map j_actorId js) \<and>
     (\<forall>e\<in>set js. j_actorId e < kRoomMembers \<and> \<not> m_used (ms ! j_actorId e)) \<and>
     (\<forall>k<kRoomMembers. su ! k \<longleftrightarrow> (pend js ++ memb ms) k \<noteq> None) \<and>
     rs = int (card (dom (pend js ++ memb ms))) \<and> mc = int (card (dom (memb ms)))"

definition room_ok :: "Room \<Rightarrow> bool" where
  "room_ok x \<longleftrightarrow> seats_ok (r_pendingJoin x) (r_members x) (r_seatUsed x) (r_reservedSeats x) (r_memberCount x)
     \<and> r_everReserved x \<and> \<not> r_dead x"

text \<open>The room with the join entries that the queue processing holds in its hands put back.\<close>

definition with_joins :: "RoomJoinEntry list \<Rightarrow> Room \<Rightarrow> Room" where
  "with_joins js x = x\<lparr>r_pendingJoin := js\<rparr>"

lemma pend_Nil [simp]: "pend [] = Map.empty"
  by (simp add: pend_def)

lemma pend_Cons: "pend (e # js) = (pend js)(j_actorId e \<mapsto> (j_sessIdx e, j_sessGen e))"
  by (simp add: pend_def)

lemma dom_pend: "dom (pend js) = j_actorId ` set js"
  by (simp add: pend_def dom_map_of_conv_image_fst image_image)

lemma pend_None: "pend js k = None \<longleftrightarrow> k \<notin> j_actorId ` set js"
  by (metis domIff dom_pend)

lemma flag_set: "length su = n \<Longrightarrow> k' < n \<Longrightarrow> su ! k' \<longleftrightarrow> f k' \<noteq> None \<Longrightarrow> su[k := True] ! k' \<longleftrightarrow> (f(k \<mapsto> v)) k' \<noteq> None"
  by (simp add: nth_list_update)

lemma flag_clear: "length su = n \<Longrightarrow> k' < n \<Longrightarrow> su ! k' \<longleftrightarrow> f k' \<noteq> None \<Longrightarrow> su[k := False] ! k' \<longleftrightarrow> (f(k := None)) k' \<noteq> None"
  by (simp add: nth_list_update)

lemma pend_snoc:
  assumes "j_actorId e \<notin> j_actorId ` set js"
  shows "pend (js @ [e]) = (pend js)(j_actorId e \<mapsto> (j_sessIdx e, j_sessGen e))"
proof -
  have "pend js (j_actorId e) = None" using assms dom_pend [of js] by (auto simp: domIff)
  then have "[j_actorId e \<mapsto> (j_sessIdx e, j_sessGen e)] ++ pend js = (pend js)(j_actorId e \<mapsto> (j_sessIdx e, j_sessGen e))"
    by (auto simp: map_add_def fun_eq_iff split: option.splits)
  then show ?thesis by (simp add: pend_def)
qed

lemma memb_dom: "dom (memb ms) \<subseteq> {..<length ms}"
  by (auto simp: memb_def split: if_splits)

lemma memb_update: "k < length ms \<Longrightarrow> memb (ms[k := m]) =
    (memb ms)(k := (if m_used m then Some (m_sessIdx m, m_sessGen m) else None))"
  by (auto simp: memb_def fun_eq_iff nth_list_update)

lemma memb_default [simp]: "memb (replicate n default_member) = Map.empty"
  by (auto simp: memb_def default_member_def)

lemma memb_eqI:
  assumes "length ms = length ns"
    "\<And>k. k < length ns \<Longrightarrow> m_used (ms ! k) = m_used (ns ! k) \<and> m_sessIdx (ms ! k) = m_sessIdx (ns ! k) \<and> m_sessGen (ms ! k) = m_sessGen (ns ! k)"
  shows "memb ms = memb ns"
  using assms by (auto simp: memb_def fun_eq_iff)

lemma seats_okD:
  assumes "seats_ok js ms su rs mc"
  shows "length ms = kRoomMembers" "length su = kRoomMembers" "distinct (map j_actorId js)"
    "e \<in> set js \<Longrightarrow> j_actorId e < kRoomMembers \<and> \<not> m_used (ms ! j_actorId e)"
    "k < kRoomMembers \<Longrightarrow> su ! k \<longleftrightarrow> (pend js ++ memb ms) k \<noteq> None"
    "rs = int (card (dom (pend js ++ memb ms)))" "mc = int (card (dom (memb ms)))"
  using assms by (auto simp: seats_ok_def)

lemma seats_dom:
  assumes "seats_ok js ms su rs mc"
  shows "dom (pend js ++ memb ms) \<subseteq> {..<kRoomMembers}" "finite (dom (pend js ++ memb ms))" "finite (dom (memb ms))"
proof -
  show d: "dom (pend js ++ memb ms) \<subseteq> {..<kRoomMembers}"
    using memb_dom [of ms] seats_okD(1) [OF assms] seats_okD(4) [OF assms] by (auto simp only: dom_map_add dom_pend)
  then show "finite (dom (pend js ++ memb ms))" by (rule finite_subset) simp
  show "finite (dom (memb ms))" using memb_dom [of ms] by (rule finite_subset) simp
qed

text \<open>A seat that a pending join waits for is not a member's.\<close>

lemma pend_memb_disjoint:
  assumes "seats_ok js ms su rs mc" "e \<in> set js"
  shows "memb ms (j_actorId e) = None"
  using seats_okD(4) [OF assms] by (simp add: memb_def)

lemma card_dom_upd: "finite (dom f) \<Longrightarrow> f k = None \<Longrightarrow> card (dom (f(k \<mapsto> v))) = Suc (card (dom f))"
  by (simp add: domIff)

lemma card_dom_del: "finite (dom f) \<Longrightarrow> f k \<noteq> None \<Longrightarrow> int (card (dom (f(k := None)))) = int (card (dom f)) - 1"
  using card_Diff_singleton [of k "dom f"] card_gt_0_iff [of "dom f"] by (auto simp: domIff of_nat_diff)

section \<open>Accounts of the operations\<close>

text \<open>A pending join on a free seat.\<close>

lemma seats_enter:
  assumes ok: "seats_ok js ms su rs mc" and k: "k < kRoomMembers" "(pend js ++ memb ms) k = None" "j_actorId e = k"
  shows "seats_ok (js @ [e]) ms (su[k := True]) (rs + 1) mc"
    and "pend (js @ [e]) ++ memb ms = (pend js ++ memb ms)(k \<mapsto> (j_sessIdx e, j_sessGen e))"
proof -
  have n: "pend js k = None" "memb ms k = None" using k(2) by auto
  then have fresh: "j_actorId e \<notin> j_actorId ` set js" using k(3) dom_pend [of js] by (auto simp: domIff)
  show eq: "pend (js @ [e]) ++ memb ms = (pend js ++ memb ms)(k \<mapsto> (j_sessIdx e, j_sessGen e))"
    using n k(3) by (auto simp: pend_snoc [OF fresh] map_add_def fun_eq_iff split: option.splits)
  have "\<not> m_used (ms ! k)" using n(2) k(1) seats_okD(1) [OF ok] by (simp add: memb_def split: if_splits)
  moreover have "int (card (dom (pend (js @ [e]) ++ memb ms))) = rs + 1"
    unfolding eq using card_dom_upd [OF seats_dom(2) [OF ok] k(2)] seats_okD(6) [OF ok] by simp
  moreover have "su[k := True] ! k' \<longleftrightarrow> (pend (js @ [e]) ++ memb ms) k' \<noteq> None" if "k' < kRoomMembers" for k'
    unfolding eq by (rule flag_set) (rule seats_okD(2) [OF ok] that seats_okD(5) [OF ok that])+
  ultimately show "seats_ok (js @ [e]) ms (su[k := True]) (rs + 1) mc"
    unfolding seats_ok_def
    using seats_okD(1-4,7) [OF ok] fresh k(1,3) by auto
qed

text \<open>The first pending join becomes a member.\<close>

lemma seats_seat:
  assumes ok: "seats_ok (e # js) ms su rs mc" and m: "m_used m" "m_sessIdx m = j_sessIdx e" "m_sessGen m = j_sessGen e"
  shows "seats_ok js (ms[j_actorId e := m]) su rs (mc + 1)"
    and "pend js ++ memb (ms[j_actorId e := m]) = pend (e # js) ++ memb ms"
proof -
  let ?k = "j_actorId e"
  have k: "?k < length ms" "memb ms ?k = None" "?k \<notin> j_actorId ` set js"
    using seats_okD(1,3) [OF ok] seats_okD(4) [OF ok, of e] pend_memb_disjoint [OF ok, of e] by auto
  show eq: "pend js ++ memb (ms[?k := m]) = pend (e # js) ++ memb ms"
    using k m by (auto simp: memb_update pend_Cons map_add_def fun_eq_iff split: option.splits)
  have "int (card (dom (memb (ms[?k := m])))) = mc + 1"
    using card_dom_upd [OF seats_dom(3) [OF ok] k(2)] seats_okD(7) [OF ok] k m by (simp add: memb_update)
  moreover have "j_actorId e' < kRoomMembers \<and> \<not> m_used (ms[?k := m] ! j_actorId e')" if "e' \<in> set js" for e'
    using seats_okD(4) [OF ok, of e'] that k(3) by (metis image_eqI list.set_intros(2) nth_list_update_neq)
  moreover have "\<forall>k<kRoomMembers. su ! k \<longleftrightarrow> (pend (e # js) ++ memb ms) k \<noteq> None"
    "rs = int (card (dom (pend (e # js) ++ memb ms)))" using seats_okD(5,6) [OF ok] by auto
  ultimately show "seats_ok js (ms[?k := m]) su rs (mc + 1)"
    unfolding seats_ok_def eq using seats_okD(1-3) [OF ok] by simp
qed

text \<open>The first pending join is dropped.\<close>

lemma seats_skip:
  assumes ok: "seats_ok (e # js) ms su rs mc"
  shows "seats_ok js ms (su[j_actorId e := False]) (rs - 1) mc"
    and "pend js ++ memb ms = (pend (e # js) ++ memb ms)(j_actorId e := None)"
proof -
  let ?k = "j_actorId e"
  have k: "?k < kRoomMembers" "memb ms ?k = None" "?k \<notin> j_actorId ` set js"
    using seats_okD(3) [OF ok] seats_okD(4) [OF ok, of e] pend_memb_disjoint [OF ok, of e] by auto
  then have p: "pend js ?k = None" using dom_pend [of js] by (auto simp: domIff)
  show eq: "pend js ++ memb ms = (pend (e # js) ++ memb ms)(?k := None)"
    using k(2) p by (auto simp: pend_Cons map_add_def fun_eq_iff split: option.splits)
  have "(pend (e # js) ++ memb ms) ?k \<noteq> None" using k(2) by (simp add: pend_Cons map_add_def)
  then have "int (card (dom (pend js ++ memb ms))) = rs - 1"
    unfolding eq using card_dom_del [OF seats_dom(2) [OF ok]] seats_okD(6) [OF ok] by simp
  moreover have "su[?k := False] ! k' \<longleftrightarrow> (pend js ++ memb ms) k' \<noteq> None" if "k' < kRoomMembers" for k'
    unfolding eq by (rule flag_clear) (rule seats_okD(2) [OF ok] that seats_okD(5) [OF ok that])+
  ultimately show "seats_ok js ms (su[?k := False]) (rs - 1) mc"
    unfolding seats_ok_def using seats_okD(1-4,7) [OF ok] by auto
qed

text \<open>A member leaves.\<close>

lemma seats_leave:
  assumes ok: "seats_ok js ms su rs mc" and k: "k < kRoomMembers" "m_used (ms ! k)"
  shows "seats_ok js (upd_at k (\<lambda>m. m\<lparr>m_used := False\<rparr>) ms) (su[k := False]) (rs - 1) (mc - 1)"
    and "pend js ++ memb (upd_at k (\<lambda>m. m\<lparr>m_used := False\<rparr>) ms) = (pend js ++ memb ms)(k := None)"
proof -
  let ?ms = "upd_at k (\<lambda>m. m\<lparr>m_used := False\<rparr>) ms"
  have len: "k < length ms" using k(1) seats_okD(1) [OF ok] by simp
  then have mm: "memb ?ms = (memb ms)(k := None)" "memb ms k \<noteq> None"
    using k(2) by (simp_all add: upd_at_def memb_update memb_def [of ms])
  have p: "pend js k = None" using seats_okD(4) [OF ok] k(2) by (auto simp: pend_None)
  show eq: "pend js ++ memb ?ms = (pend js ++ memb ms)(k := None)"
    using p by (auto simp: mm(1) map_add_def fun_eq_iff split: option.splits)
  have "(pend js ++ memb ms) k \<noteq> None" using mm(2) by (auto simp: map_add_def)
  then have "int (card (dom (pend js ++ memb ?ms))) = rs - 1"
    unfolding eq using card_dom_del [OF seats_dom(2) [OF ok]] seats_okD(6) [OF ok] by simp
  moreover have "int (card (dom (memb ?ms))) = mc - 1"
    unfolding mm(1) using card_dom_del [OF seats_dom(3) [OF ok] mm(2)] seats_okD(7) [OF ok] by simp
  moreover have "su[k := False] ! k' \<longleftrightarrow> (pend js ++ memb ?ms) k' \<noteq> None" if "k' < kRoomMembers" for k'
    unfolding eq by (rule flag_clear) (rule seats_okD(2) [OF ok] that seats_okD(5) [OF ok that])+
  moreover have "j_actorId e < kRoomMembers \<and> \<not> m_used (?ms ! j_actorId e)" if "e \<in> set js" for e
    using seats_okD(4) [OF ok that] len by (cases "j_actorId e = k") auto
  ultimately show "seats_ok js ?ms (su[k := False]) (rs - 1) (mc - 1)"
    unfolding seats_ok_def using seats_okD(1-3) [OF ok] by auto
qed

lemma seats_empty: "seats_ok [] (replicate kRoomMembers default_member) (replicate kRoomMembers False) 0 0"
  by (simp add: seats_ok_def)

end
