(* ===== verification/GameWorker.thy ===== *)
theory GameWorker
  imports RoomTick
begin

text \<open>
  The game worker (GameWorker.cpp): the tick of the rooms it owns, the pacing of one wake-up
  of its loop with catch-up and rebase, and the oversleep histogram. The clock is read once per
  wake-up and is an argument.
\<close>

definition kTickHz :: int where "kTickHz = 60"
definition kTickPeriodNs :: int where "kTickPeriodNs = 1000000000 div kTickHz"
definition kMaxCatchupSteps :: nat where "kMaxCatchupSteps = 3"

section \<open>The rooms of a worker\<close>

text \<open>
  One turn of the loop over \<open>_myRooms\<close>, at position \<open>pos\<close>, in its two halves: the queues (True
  when the room died and was removed from the list), and the tick (the room is replaced when it
  moved).
\<close>

definition queues_turn :: "nat \<Rightarrow> nat \<Rightarrow> ('r, 's) Server \<Rightarrow> bool \<times> ('r, 's) Server" where
  "queues_turn w pos S =
     (case ProcessRoomQueues (myRooms S ! w ! pos) S of
        (True, S1) \<Rightarrow> (True, S1\<lparr>myRooms := upd_at w (swap_pop pos) (myRooms S1)\<rparr>)
      | (False, S1) \<Rightarrow> (False, S1))"

definition tick_turn :: "'s ring_ops \<Rightarrow> nat \<Rightarrow> nat \<Rightarrow> ('r, 's) Server \<Rightarrow> ('r, 's) Server" where
  "tick_turn MT w pos S =
     (case RoomTick MT (myRooms S ! w ! pos) S of
        (None, S1) \<Rightarrow> S1
      | (Some nr, S1) \<Rightarrow> S1\<lparr>myRooms := upd_at w (\<lambda>q. q[pos := nr]) (myRooms S1)\<rparr>)"

definition room_turn :: "'s ring_ops \<Rightarrow> nat \<Rightarrow> nat \<Rightarrow> ('r, 's) Server \<Rightarrow> bool \<times> ('r, 's) Server" where
  "room_turn MT w pos S =
     (case queues_turn w pos S of
        (True, S1) \<Rightarrow> (True, S1)
      | (False, S1) \<Rightarrow> (False, tick_turn MT w pos S1))"

text \<open>
  The loop, with a bound on its turns: each turn either moves on or shortens the list, so the
  length of the list is enough.
\<close>

fun rooms_loop :: "'s ring_ops \<Rightarrow> nat \<Rightarrow> nat \<Rightarrow> nat \<Rightarrow> ('r, 's) Server \<Rightarrow> ('r, 's) Server" where
  "rooms_loop MT w 0 pos S = S"
| "rooms_loop MT w (Suc n) pos S =
     (if length (myRooms S ! w) \<le> pos then S
      else case room_turn MT w pos S of
        (removed, S1) \<Rightarrow> rooms_loop MT w n (if removed then pos else pos + 1) S1)"

definition TickOnce :: "'s ring_ops \<Rightarrow> nat \<Rightarrow> ('r, 's) Server \<Rightarrow> ('r, 's) Server" where
  "TickOnce MT w S = (let S1 = DrainRoomAddQ w S in rooms_loop MT w (length (myRooms S1 ! w)) 0 S1)"

section \<open>Pacing\<close>

text \<open>The bucket of an oversleep, and the counters of a wake-up.\<close>

fun bucket_from :: "int list \<Rightarrow> int \<Rightarrow> nat" where
  "bucket_from [] us = 0"
| "bucket_from (b # bs) us = (if b < us then Suc (bucket_from bs us) else 0)"

definition RecordOversleep :: "int \<Rightarrow> GameWorkerStats \<Rightarrow> GameWorkerStats" where
  "RecordOversleep oversleepNs g =
     g\<lparr>g_wakes := Inc (g_wakes g), g_oversleepMaxNs := StoreMax (word_of_int oversleepNs) (g_oversleepMaxNs g),
       g_oversleepBucket := upd_at (bucket_from kOversleepBucketUs (oversleepNs div 1000)) Inc (g_oversleepBucket g)\<rparr>"

definition upd_stats :: "nat \<Rightarrow> (GameWorkerStats \<Rightarrow> GameWorkerStats) \<Rightarrow> ('r, 's) Server \<Rightarrow> ('r, 's) Server" where
  "upd_stats w f = count_up (\<lambda>m. m\<lparr>mt_game := upd_at w f (mt_game m)\<rparr>)"

text \<open>
  The catch-up loop: at least one tick, at most \<open>kMaxCatchupSteps\<close> (the bound it is started
  with), until the schedule is ahead of now; the number of ticks, the new schedule, the state.
\<close>

fun catch_up :: "'s ring_ops \<Rightarrow> nat \<Rightarrow> int \<Rightarrow> nat \<Rightarrow> int \<Rightarrow> ('r, 's) Server \<Rightarrow> nat \<times> int \<times> ('r, 's) Server" where
  "catch_up MT w now 0 next S = (0, next, S)"
| "catch_up MT w now (Suc n) next S =
     (let S1 = upd_stats w (\<lambda>g. g\<lparr>g_ticks := Inc (g_ticks g)\<rparr>) (TickOnce MT w S);
          next1 = next + kTickPeriodNs
      in if next1 \<le> now \<and> 0 < n
         then (case catch_up MT w now n next1 S1 of (steps, next2, S2) \<Rightarrow> (Suc steps, next2, S2))
         else (1, next1, S1))"

definition rebase :: "int \<Rightarrow> int \<Rightarrow> GameWorkerStats \<Rightarrow> int \<times> GameWorkerStats" where
  "rebase now next g =
     (if next \<le> now
      then (now + kTickPeriodNs,
            g\<lparr>g_skippedTicks := Add (word_of_int ((now - next) div kTickPeriodNs + 1)) (g_skippedTicks g),
              g_rebases := Inc (g_rebases g)\<rparr>)
      else (next, g))"

text \<open>One wake-up at time \<open>now\<close> for the tick scheduled at \<open>next\<close>: the next schedule and the state.\<close>

definition wake :: "'s ring_ops \<Rightarrow> nat \<Rightarrow> int \<Rightarrow> int \<Rightarrow> ('r, 's) Server \<Rightarrow> int \<times> ('r, 's) Server" where
  "wake MT w now next S =
     (let S1 = S\<lparr>nextTickAt := (nextTickAt S)[w := next]\<rparr>;
          S2 = upd_stats w (RecordOversleep (if next < now then now - next else 0)) S1
      in case catch_up MT w now kMaxCatchupSteps next S2 of (steps, next1, S3) \<Rightarrow>
           (fst (rebase now next1 (mt_game (met S3) ! w)),
            upd_stats w (\<lambda>g. snd (rebase now next1 g)) S3))"

definition first_tick :: "int \<Rightarrow> nat \<Rightarrow> nat \<Rightarrow> int" where
  "first_tick t0 w workers = t0 + int w * (kTickPeriodNs div int (if workers = 0 then 1 else workers))"

end
