(* ===== verification/Invariant.thy ===== *)
theory Invariant
  imports Seats GameWorker
begin

text \<open>
  The invariant of the whole server: the seat accounts of every live room, the books of the
  session pool against the table of all seats, the lists of free and open rooms, and the
  placement of every live room with exactly one game worker. Operations that touch none of this
  (simulation, input rings, buffers, counters) preserve it by one congruence lemma.
\<close>

section \<open>The invariant\<close>

definition live :: "('r, 's) Server \<Rightarrow> nat \<Rightarrow> bool" where
  "live S r \<longleftrightarrow> r < length (rooms S) \<and> r \<notin> set (freeRooms S)"

text \<open>The table of all seats and the pending leaves.\<close>

definition tab :: "('r, 's) Server \<Rightarrow> seats" where
  "tab S r = (if live S r then seat (room_at S r) else Map.empty)"

definition leaves :: "('r, 's) Server \<Rightarrow> nat \<Rightarrow> tag set" where
  "leaves S r = (if live S r then leave_tag ` set (r_pendingLeave (room_at S r)) else {})"

definition rooms_ok :: "('r, 's) Server \<Rightarrow> bool" where
  "rooms_ok S \<longleftrightarrow> (\<forall>r<length (rooms S). r_idx (room_at S r) = r) \<and>
     (\<forall>r. live S r \<longrightarrow> room_ok (room_at S r) \<and> dom (seat (room_at S r)) \<noteq> {})"

definition lists_ok :: "('r, 's) Server \<Rightarrow> bool" where
  "lists_ok S \<longleftrightarrow> distinct (freeRooms S) \<and> set (freeRooms S) \<subseteq> {..<length (rooms S)} \<and>
     distinct (openRooms S) \<and>
     (\<forall>r\<in>set (openRooms S). live S r \<and> r_reservedSeats (room_at S r) < int kRoomMembers)"

text \<open>Every live room is with its worker, in the mailbox or in the list, once.\<close>

definition placed :: "('r, 's) Server \<Rightarrow> nat \<Rightarrow> nat list" where
  "placed S w = myRooms S ! w @ mail S ! w"

definition work_ok :: "('r, 's) Server \<Rightarrow> bool" where
  "work_ok S \<longleftrightarrow> workerCount S \<le> kMaxGameWorkers \<and> length (mail S) = kMaxGameWorkers \<and>
     length (myRooms S) = kMaxGameWorkers \<and> length (roomsPerWorker S) = kMaxGameWorkers \<and>
     (\<forall>w<kMaxGameWorkers. distinct (placed S w) \<and>
        set (placed S w) = {r. live S r \<and> r_gameWorker (room_at S r) = w} \<and>
        roomsPerWorker S ! w = of_nat (length (placed S w))) \<and>
     (\<forall>r. live S r \<longrightarrow> r_gameWorker (room_at S r) < workerCount S)"

definition Inv :: "('r, 's) Server \<Rightarrow> bool" where
  "Inv S \<longleftrightarrow> rooms_ok S \<and> books_ok (pool S) (tab S) (leaves S) \<and> mine_ok (pool S) (mySessions S) \<and>
     lists_ok S \<and> work_ok S"

section \<open>What the invariant reads\<close>

definition acct :: "('r, 's) Session \<Rightarrow> int \<times> bool \<times> u32 \<times> nat \<times> int \<times> nat \<times> bool \<times> nat \<times> nat" where
  "acct s = (refs s, dead s, gen s, idx s, fd s, owner s, inRoom s, roomIdx s, actorId s)"

definition member_key :: "Member \<Rightarrow> bool \<times> nat \<times> u32" where
  "member_key m = (m_used m, m_sessIdx m, m_sessGen m)"

definition room_acct where
  "room_acct x = (r_idx x, r_gameWorker x, r_dead x, r_everReserved x, r_seatUsed x, r_reservedSeats x,
     r_pendingJoin x, r_pendingLeave x, map member_key (r_members x), r_memberCount x)"

definition same_acct :: "('r, 's) Server \<Rightarrow> ('r, 's) Server \<Rightarrow> bool" where
  "same_acct S S' \<longleftrightarrow> map acct (slots (pool S')) = map acct (slots (pool S)) \<and> sfree (pool S') = sfree (pool S) \<and>
     map room_acct (rooms S') = map room_acct (rooms S) \<and> freeRooms S' = freeRooms S \<and> openRooms S' = openRooms S \<and>
     workerCount S' = workerCount S \<and> roomsPerWorker S' = roomsPerWorker S \<and> mail S' = mail S \<and>
     myRooms S' = myRooms S \<and> mySessions S' = mySessions S"

lemma same_acct_refl [simp]: "same_acct S S"
  by (simp add: same_acct_def)

lemma same_acct_trans [trans]: "same_acct S S' \<Longrightarrow> same_acct S' S'' \<Longrightarrow> same_acct S S''"
  by (simp add: same_acct_def)

lemma map_eq_nth: "map f xs = map f ys \<Longrightarrow> i < length xs \<Longrightarrow> f (xs ! i) = f (ys ! i)"
  by (metis length_map nth_map)

lemma same_acctD:
  assumes "same_acct S S'"
  shows "length (slots (pool S')) = length (slots (pool S))" "length (rooms S') = length (rooms S)"
    "i < length (slots (pool S)) \<Longrightarrow> acct (At S' i) = acct (At S i)"
    "r < length (rooms S) \<Longrightarrow> room_acct (room_at S' r) = room_acct (room_at S r)"
proof -
  have m: "map acct (slots (pool S')) = map acct (slots (pool S))" "map room_acct (rooms S') = map room_acct (rooms S)"
    using assms by (simp_all add: same_acct_def)
  show l: "length (slots (pool S')) = length (slots (pool S))" "length (rooms S') = length (rooms S)"
    using m by (auto dest: map_eq_imp_length_eq)
  show "i < length (slots (pool S)) \<Longrightarrow> acct (At S' i) = acct (At S i)"
    "r < length (rooms S) \<Longrightarrow> room_acct (room_at S' r) = room_acct (room_at S r)"
    using map_eq_nth [OF m(1)] map_eq_nth [OF m(2)] l by simp_all
qed

lemma room_acctD:
  assumes "room_acct x = room_acct y"
  shows "r_idx x = r_idx y" "r_gameWorker x = r_gameWorker y" "r_dead x = r_dead y" "r_everReserved x = r_everReserved y"
    "r_seatUsed x = r_seatUsed y" "r_reservedSeats x = r_reservedSeats y" "r_pendingJoin x = r_pendingJoin y"
    "r_pendingLeave x = r_pendingLeave y" "r_memberCount x = r_memberCount y"
    "map member_key (r_members x) = map member_key (r_members y)"
  using assms by (simp_all add: room_acct_def)

lemma members_acct:
  assumes "map member_key ms = map member_key ns"
  shows "length ms = length ns" "k < length ns \<Longrightarrow> m_used (ms ! k) = m_used (ns ! k)" "memb ms = memb ns"
proof -
  show l: "length ms = length ns" using assms by (rule map_eq_imp_length_eq)
  have e: "k < length ns \<Longrightarrow> m_used (ms ! k) = m_used (ns ! k) \<and> m_sessIdx (ms ! k) = m_sessIdx (ns ! k)
      \<and> m_sessGen (ms ! k) = m_sessGen (ns ! k)" for k
    using map_eq_nth [OF assms, of k] l by (simp add: member_key_def)
  then show "k < length ns \<Longrightarrow> m_used (ms ! k) = m_used (ns ! k)" by blast
  show "memb ms = memb ns" by (rule memb_eqI [OF l]) (use e in blast)
qed

lemma room_acct_ok:
  assumes "room_acct x = room_acct y"
  shows "seat x = seat y" "room_ok x \<longleftrightarrow> room_ok y"
proof -
  note a = room_acctD [OF assms] and m = members_acct [OF room_acctD(10) [OF assms]]
  show "seat x = seat y" by (simp add: seat_def a(7) m(3))
  have "seats_ok js (r_members x) su rs mc \<longleftrightarrow> seats_ok js (r_members y) su rs mc" for js su rs mc
    unfolding seats_ok_def m(1,3) using m(2) by (auto cong: conj_cong)
  then show "room_ok x \<longleftrightarrow> room_ok y" by (simp add: room_ok_def a)
qed

lemma same_acct_tab:
  assumes "same_acct S S'"
  shows "live S' r = live S r" "tab S' = tab S" "leaves S' = leaves S"
proof -
  note d = same_acctD [OF assms]
  show lv: "live S' r = live S r" for r using assms by (simp add: live_def d(2) same_acct_def)
  have ra: "room_acct (room_at S' r) = room_acct (room_at S r)" if "live S r" for r
    using that d(4) by (simp add: live_def)
  show "tab S' = tab S" using room_acct_ok(1) [OF ra] by (auto simp: tab_def lv fun_eq_iff)
  show "leaves S' = leaves S" using room_acctD(8) [OF ra] by (auto simp: leaves_def lv fun_eq_iff)
qed

lemma Inv_same:
  assumes "same_acct S S'" "Inv S"
  shows "Inv S'"
proof -
  have e: "freeRooms S' = freeRooms S" "openRooms S' = openRooms S" "workerCount S' = workerCount S"
    "roomsPerWorker S' = roomsPerWorker S" "mail S' = mail S" "myRooms S' = myRooms S" "mySessions S' = mySessions S"
    "sfree (pool S') = sfree (pool S)"
    using assms(1) by (simp_all add: same_acct_def)
  note d = same_acctD [OF assms(1)]
  note lv = same_acct_tab(1) [OF assms(1)] and tab = same_acct_tab(2) [OF assms(1)] and leaves = same_acct_tab(3) [OF assms(1)]
  have ra: "room_acct (room_at S' r) = room_acct (room_at S r)" if "live S r" for r
    using that d(4) by (simp add: live_def)
  have I: "rooms_ok S" "books_ok (pool S) (tab S) (leaves S)" "mine_ok (pool S) (mySessions S)" "lists_ok S" "work_ok S"
    using assms(2) by (simp_all add: Inv_def)
  have "rooms_ok S'"
    using I(1) room_acct_ok [OF ra] room_acctD(1) [OF d(4)] by (simp add: rooms_ok_def lv d(2))
  moreover have "books_ok (pool S') (tab S) (leaves S)"
    using I(2) d(3) by (subst books_ok_cong [of _ "pool S"]) (simp_all add: d(1) e acct_def)
  moreover have "mine_ok (pool S') (mySessions S)"
  proof -
    have a: "owner (At S' i) = owner (At S i) \<and> dead (At S' i) = dead (At S i) \<and> refs (At S' i) = refs (At S i) \<and> fd (At S' i) = fd (At S i)"
      if "i < length (slots (pool S))" for i using d(3) [OF that] by (simp add: acct_def)
    then have "{i. i < length (slots (pool S)) \<and> owner (At S' i) = w \<and> \<not> dead (At S' i) \<and> refs (At S' i) \<noteq> 0} =
        {i. i < length (slots (pool S)) \<and> owner (At S i) = w \<and> \<not> dead (At S i) \<and> refs (At S i) \<noteq> 0}" for w
      by auto
    then show ?thesis using I(3) a by (simp add: mine_ok_def d(1))
  qed
  moreover have "lists_ok S'"
    using I(4) room_acctD(6) [OF ra] by (simp add: lists_ok_def lv d(2) e)
  moreover have "work_ok S'"
  proof -
    have "{r. live S r \<and> r_gameWorker (room_at S' r) = w} = {r. live S r \<and> r_gameWorker (room_at S r) = w}" for w
      using room_acctD(2) [OF ra] by auto
    then show ?thesis using I(5) room_acctD(2) [OF ra] by (simp add: work_ok_def placed_def lv e)
  qed
  ultimately show ?thesis by (simp add: Inv_def tab leaves e)
qed

section \<open>Frames\<close>

lemma rooms_upd_room [simp]: "rooms (upd_room r f S) = upd_at r f (rooms S)"
  by (simp add: upd_room_def)

lemma upd_room_frame [simp]:
  "pool (upd_room r f S) = pool S" "freeRooms (upd_room r f S) = freeRooms S" "openRooms (upd_room r f S) = openRooms S"
  "workerCount (upd_room r f S) = workerCount S" "roomsPerWorker (upd_room r f S) = roomsPerWorker S"
  "mail (upd_room r f S) = mail S" "dirty (upd_room r f S) = dirty S" "met (upd_room r f S) = met S"
  "myRooms (upd_room r f S) = myRooms S" "mySessions (upd_room r f S) = mySessions S"
  "nextTickAt (upd_room r f S) = nextTickAt S" "kern (upd_room r f S) = kern S"
  by (simp_all add: upd_room_def)

lemma upd_session_frame [simp]:
  "pool (upd_session i g S) = upd_sess i g (pool S)" "rooms (upd_session i g S) = rooms S"
  "freeRooms (upd_session i g S) = freeRooms S" "openRooms (upd_session i g S) = openRooms S"
  "workerCount (upd_session i g S) = workerCount S" "roomsPerWorker (upd_session i g S) = roomsPerWorker S"
  "mail (upd_session i g S) = mail S" "dirty (upd_session i g S) = dirty S" "met (upd_session i g S) = met S"
  "myRooms (upd_session i g S) = myRooms S" "mySessions (upd_session i g S) = mySessions S"
  "nextTickAt (upd_session i g S) = nextTickAt S" "kern (upd_session i g S) = kern S"
  by (simp_all add: upd_session_def)

lemma count_up_frame [simp]:
  "pool (count_up f S) = pool S" "rooms (count_up f S) = rooms S" "freeRooms (count_up f S) = freeRooms S"
  "openRooms (count_up f S) = openRooms S" "workerCount (count_up f S) = workerCount S"
  "roomsPerWorker (count_up f S) = roomsPerWorker S" "mail (count_up f S) = mail S" "dirty (count_up f S) = dirty S"
  "myRooms (count_up f S) = myRooms S" "mySessions (count_up f S) = mySessions S"
  "nextTickAt (count_up f S) = nextTickAt S" "kern (count_up f S) = kern S"
  by (simp_all add: count_up_def)

lemma same_acct_count_up [simp]: "same_acct S (count_up f S)"
  by (simp add: same_acct_def)

lemma same_acct_session:
  assumes "\<And>s. acct (f s) = acct s"
  shows "same_acct S (upd_session i f S)"
  using assms by (simp add: same_acct_def upd_sess_def map_upd_at_id)

lemma same_acct_room:
  assumes "\<And>x. room_acct (f x) = room_acct x"
  shows "same_acct S (upd_room r f S)"
  using assms by (simp add: same_acct_def map_upd_at_id)

lemma same_acct_fold:
  assumes "\<And>x S. same_acct S (f x S)"
  shows "same_acct S (fold f xs S)"
  by (induction xs arbitrary: S) (auto intro: assms same_acct_trans)

end
