(* ===== verification/Preserve_Tick.thy ===== *)
theory Preserve_Tick
  imports Invariant
begin

text \<open>
  What the body of a room tick, the send path and the ping leave alone: none of the books. Only
  the exit check, which may move the room, and a disconnect do more.
\<close>

section \<open>The body of the tick\<close>

lemma member_key_ring_push [simp]: "member_key (ring_push c m) = member_key m"
  by (simp add: member_key_def ring_push_def Let_def)

lemma member_key_consume [simp]: "member_key (consume m) = member_key m"
  by (simp add: member_key_def consume_def Let_def)

lemma room_acct_upd_member:
  "(\<And>m. member_key (f m) = member_key m) \<Longrightarrow> room_acct (upd_member k f x) = room_acct x"
  by (simp add: room_acct_def upd_member_def map_upd_at_id)

lemma same_acct_upd_member:
  "(\<And>m. member_key (f m) = member_key m) \<Longrightarrow> same_acct S (upd_room r (upd_member k f) S)"
  by (rule same_acct_room) (rule room_acct_upd_member)

lemma same_acct_route_one: "same_acct S (route_one r c S)"
  by (auto simp: route_one_def Let_def intro: same_acct_upd_member same_acct_trans [OF same_acct_count_up same_acct_upd_member])

lemma same_acct_route_inputs: "same_acct S (route_inputs r S)"
  unfolding route_inputs_def Let_def
  by (rule same_acct_trans [OF same_acct_room same_acct_fold]) (simp_all add: room_acct_def same_acct_route_one)

lemma same_acct_consume_inputs: "same_acct S (consume_inputs r S)"
  unfolding consume_inputs_def
  by (rule same_acct_fold)
    (auto simp: consume_one_def Let_def intro: same_acct_trans [OF same_acct_count_up same_acct_upd_member])

lemma same_acct_enqueue: "same_acct S (snd (enqueue MT i bs S))"
  by (auto simp: enqueue_def acct_def split: prod.splits intro: same_acct_session)

lemma same_acct_mark: "same_acct S (mark m S)"
  by (simp add: mark_def same_acct_def)

lemma same_acct_enqueueD: "enqueue MT i bs S = (n, S') \<Longrightarrow> same_acct S S'"
  using same_acct_enqueue [of S MT i bs] by simp

lemma same_acct_then:
  assumes "same_acct S S'"
  shows "same_acct S (mark m S')" "same_acct S (count_up f S')"
  using same_acct_trans [OF assms] same_acct_mark same_acct_count_up by blast+

lemma same_acct_send_snapshot: "same_acct S (send_snapshot MT r bs k S)"
  by (auto simp: send_snapshot_def Let_def split: prod.splits intro!: same_acct_then dest: same_acct_enqueueD)

lemma same_acct_send_room_event: "same_acct S (send_room_event MT r k S)"
  by (auto simp: send_room_event_def Let_def split: prod.splits intro!: same_acct_then dest: same_acct_enqueueD)

lemma same_acct_tick_body: "same_acct S (tick_body MT r S)"
proof -
  let ?S1 = "upd_room r step_room (consume_inputs r (route_inputs r S))"
  have s: "same_acct S ?S1"
    by (rule same_acct_trans [OF same_acct_route_inputs same_acct_trans [OF same_acct_consume_inputs same_acct_room]])
      (simp add: step_room_def Let_def room_acct_def)
  moreover have "same_acct ?S1 (broadcast_snapshot MT r ?S1)"
    unfolding broadcast_snapshot_def by (rule same_acct_fold) (rule same_acct_send_snapshot)
  ultimately show ?thesis by (auto simp: tick_body_def Let_def intro: same_acct_trans)
qed

section \<open>The send path\<close>

lemma same_acct_kern: "same_acct S (S\<lparr>kern := k\<rparr>)"
  by (simp add: same_acct_def)

lemma same_acct_dirty: "same_acct S (S\<lparr>dirty := d\<rparr>)"
  by (simp add: same_acct_def)

lemma same_acct_os_ctl: "os_ctl S = (b, S') \<Longrightarrow> same_acct S S'"
  by (auto simp: os_ctl_def same_acct_kern split: list.splits)

lemma same_acct_os_log: "same_acct S (os_log e S)"
  by (simp add: os_log_def same_acct_kern)

lemma same_acct_write_interest: "same_acct S (UpdateWriteInterest i want S)"
proof (cases "os_ctl S")
  case (Pair b S1)
  have "same_acct S1 (upd_session i (\<lambda>s. s\<lparr>wantWrite := want\<rparr>) (os_log e S1))" for e
    by (rule same_acct_trans [OF same_acct_os_log same_acct_session]) (simp add: acct_def)
  then have "same_acct S (upd_session i (\<lambda>s. s\<lparr>wantWrite := want\<rparr>) (os_log e S1))" for e
    by (rule same_acct_trans [OF same_acct_os_ctl [OF Pair]])
  with same_acct_os_ctl [OF Pair] show ?thesis
    by (auto simp: UpdateWriteInterest_def Let_def Pair split: bool.splits intro: same_acct_then(2))
qed

text \<open>
  A flush changes no books except by a disconnect: any property that the books determine and
  that a disconnect keeps, it keeps.
\<close>

lemma flush_loop_keeps:
  assumes "P S" and same: "\<And>S S'. P S \<Longrightarrow> same_acct S S' \<Longrightarrow> P S'"
    and hang: "\<And>S. P S \<Longrightarrow> P (Disconnect w i S)"
  shows "P (flush_loop MT w i ws S)"
  using assms(1)
proof (induction ws arbitrary: S)
  case Nil
  then show ?case
    by (subst flush_loop.simps)
      (auto simp: Let_def intro: same [OF _ same_acct_write_interest] same [OF same [OF _ same_acct_count_up] same_acct_write_interest])
next
  case (Cons x ws)
  let ?c = "count_up (\<lambda>g. g\<lparr>mt_ringSplitSend := Inc (mt_ringSplitSend g)\<rparr>) S"
  have k: "P (S\<lparr>kern := k\<rparr>)" "P (?c\<lparr>kern := k\<rparr>)" for k
    using Cons.prems by (auto intro: same same_acct_kern same_acct_count_up)
  have took: "P (count_up f (upd_session i (\<lambda>s. s\<lparr>sendQ := g s\<rparr>) (os_log e S')))" if "P S'" for f g e S'
    by (rule same [OF that], rule same_acct_trans [OF same_acct_os_log same_acct_trans [OF same_acct_session same_acct_count_up]])
      (simp add: acct_def)
  have wi: "P (UpdateWriteInterest i b S')" if "P S'" for b S'
    using that same_acct_write_interest by (rule same)
  have cu: "P (count_up f S')" if "P S'" for f S'
    using that same_acct_count_up by (rule same)
  show ?case
    using Cons.prems k
    by (subst flush_loop.simps) (simp add: Let_def wi took cu hang Cons.IH split: write_result.split)
qed

lemma FlushSend_keeps:
  assumes "P S" and "\<And>S S'. P S \<Longrightarrow> same_acct S S' \<Longrightarrow> P S'"
    and "\<And>S. P S \<Longrightarrow> P (Disconnect w i S)"
  shows "P (FlushSend MT w i S)"
  unfolding FlushSend_def by (rule flush_loop_keeps [where P = P]) (use assms in auto)

lemma SendBytes_keeps:
  assumes "P S" and same: "\<And>S S'. P S \<Longrightarrow> same_acct S S' \<Longrightarrow> P S'"
    and hang: "\<And>S. P S \<Longrightarrow> P (Disconnect w i S)"
  shows "P (SendBytes MT w i bs S)"
proof -
  have "P (upd_session i (\<lambda>s. s\<lparr>sendQ := q\<rparr>) S)" for q
    by (rule same [OF assms(1) same_acct_session]) (simp add: acct_def)
  then show ?thesis
    by (auto simp: SendBytes_def Let_def split: prod.splits
        intro: hang FlushSend_keeps [where P = P, OF _ same hang] same [OF _ same_acct_count_up])
qed

end
