(* ===== verification/Preserve_Session.thy ===== *)
theory Preserve_Session
  imports Preserve_Tick
begin

text \<open>
  The invariant under what the epoll workers do to sessions: accept, disconnect and join.
\<close>

section \<open>One room changes\<close>

lemma tab_cong: "rooms S' = rooms S \<Longrightarrow> freeRooms S' = freeRooms S \<Longrightarrow>
    live S' = live S \<and> tab S' = tab S \<and> leaves S' = leaves S"
  by (simp add: live_def tab_def leaves_def fun_eq_iff)

lemma tab_upd:
  assumes "r < length (rooms S)" "rooms S' = upd_at r f (rooms S)" "set (freeRooms S') = set (freeRooms S) - F" "r \<notin> set (freeRooms S')" "F \<subseteq> {r}"
  shows "live S' r' \<longleftrightarrow> r' = r \<or> live S r'"
    and "tab S' = (tab S)(r := seat (f (room_at S r)))"
    and "leaves S' = (leaves S)(r := leave_tag ` set (r_pendingLeave (f (room_at S r))))"
proof -
  show l: "live S' r' \<longleftrightarrow> r' = r \<or> live S r'" for r' using assms by (auto simp: live_def)
  show "tab S' = (tab S)(r := seat (f (room_at S r)))"
    "leaves S' = (leaves S)(r := leave_tag ` set (r_pendingLeave (f (room_at S r))))"
    using assms(1,2) by (auto simp: tab_def leaves_def l fun_eq_iff)
qed

lemma rooms_ok_upd:
  assumes "rooms_ok S" "r < length (rooms S)" "rooms S' = upd_at r f (rooms S)"
    "\<And>r'. live S' r' \<Longrightarrow> r' = r \<or> live S r'"
    "r_idx (f (room_at S r)) = r" "room_ok (f (room_at S r))" "dom (seat (f (room_at S r))) \<noteq> {}"
  shows "rooms_ok S'"
  unfolding rooms_ok_def
proof (intro conjI allI impI)
  fix r' assume "r' < length (rooms S')"
  then show "r_idx (room_at S' r') = r'"
    using assms(1-3,5) by (cases "r' = r") (auto simp: rooms_ok_def)
next
  fix r' assume "live S' r'"
  then show "room_ok (room_at S' r')" "dom (seat (room_at S' r')) \<noteq> {}"
    using assms by (cases "r' = r"; force simp: rooms_ok_def)+
qed

lemma InvD:
  assumes "Inv S"
  shows "rooms_ok S" "books_ok (pool S) (tab S) (leaves S)" "mine_ok (pool S) (mySessions S)" "lists_ok S" "work_ok S"
    "pool_ok (pool S)"
  using assms books_okD(1) by (auto simp: Inv_def)

lemma room_liveD:
  assumes "Inv S" "live S r"
  shows "room_ok (room_at S r)" "dom (seat (room_at S r)) \<noteq> {}" "r_idx (room_at S r) = r" "r < length (rooms S)"
    "seats_ok (r_pendingJoin (room_at S r)) (r_members (room_at S r)) (r_seatUsed (room_at S r))
       (r_reservedSeats (room_at S r)) (r_memberCount (room_at S r))" "\<not> r_dead (room_at S r)"
  using InvD(1) [OF assms(1)] assms(2) by (auto simp: rooms_ok_def live_def room_ok_def)

lemma in_room_live:
  assumes "Inv S" "i < length (slots (pool S))" "refs (At S i) \<noteq> 0" "inRoom (At S i)"
  shows "live S (roomIdx (At S i))" "tab S (roomIdx (At S i)) (actorId (At S i)) = Some (i, gen (At S i))"
proof -
  show "tab S (roomIdx (At S i)) (actorId (At S i)) = Some (i, gen (At S i))"
    using books_okD(2) [OF InvD(2) [OF assms(1)] assms(2)] assms(3,4) by (simp add: sess_ok_def)
  then show "live S (roomIdx (At S i))" by (auto simp: tab_def split: if_splits)
qed

section \<open>Disconnect\<close>

definition hung_up :: "('r, 's) Session \<Rightarrow> ('r, 's) Session" where
  "hung_up s = s\<lparr>dead := True, fd := (if 0 \<le> fd s then - 1 else fd s), inRoom := False\<rparr>"

definition file_leave :: "nat \<Rightarrow> u32 \<Rightarrow> Room \<Rightarrow> Room" where
  "file_leave i g x = x\<lparr>r_pendingLeave := r_pendingLeave x @ [\<lparr>l_sessIdx = i, l_sessGen = g\<rparr>]\<rparr>"

lemma upd_sess_twice: "upd_sess i f (upd_sess i g p) = upd_sess i (\<lambda>s. f (g s)) p"
  by (cases "i < length (slots p)") (simp_all add: upd_sess_def upd_at_def list_update_beyond)

lemma clear_inRoom: "\<not> inRoom s \<Longrightarrow> s\<lparr>inRoom := False\<rparr> = s"
  by (cases s) simp

lemma upd_sess_id: "(\<And>s. s = slots p ! i \<Longrightarrow> f s = s) \<Longrightarrow> upd_sess i f p = p"
  by (simp add: upd_sess_def upd_at_def)

lemma upd_sess_same: "f (slots p ! i) = g (slots p ! i) \<Longrightarrow> upd_sess i f p = upd_sess i g p"
  by (simp add: upd_sess_def upd_at_def)

lemma os_close_frame [simp]:
  "pool (os_close f S) = pool S" "rooms (os_close f S) = rooms S" "freeRooms (os_close f S) = freeRooms S"
  "openRooms (os_close f S) = openRooms S" "workerCount (os_close f S) = workerCount S"
  "roomsPerWorker (os_close f S) = roomsPerWorker S" "mail (os_close f S) = mail S" "dirty (os_close f S) = dirty S"
  "myRooms (os_close f S) = myRooms S" "mySessions (os_close f S) = mySessions S"
  by (simp_all add: os_close_def os_log_def)

text \<open>The state after the disconnect of a live session, field by field.\<close>

lemma Disconnect_eqs:
  assumes i: "i < length (slots (pool S))" and d: "\<not> dead (At S i)" and ix: "idx (At S i) = i"
    and room: "inRoom (At S i) \<longrightarrow> roomIdx (At S i) < length (rooms S)"
  shows "pool (Disconnect w i S) = Release i (upd_sess i hung_up (pool S))"
    and "rooms (Disconnect w i S) = (if inRoom (At S i)
      then upd_at (roomIdx (At S i)) (file_leave i (gen (At S i))) (rooms S) else rooms S)"
    and "mySessions (Disconnect w i S) = upd_at w (swap_remove i) (mySessions S)"
    and "freeRooms (Disconnect w i S) = freeRooms S" "openRooms (Disconnect w i S) = openRooms S"
      "workerCount (Disconnect w i S) = workerCount S" "roomsPerWorker (Disconnect w i S) = roomsPerWorker S"
      "mail (Disconnect w i S) = mail S" "myRooms (Disconnect w i S) = myRooms S"
proof -
  let ?S1 = "upd_session i (\<lambda>s. s\<lparr>dead := True\<rparr>) S"
  define S2 where "S2 = (if 0 \<le> fd (At ?S1 i)
                then upd_session i (\<lambda>s. s\<lparr>fd := - 1\<rparr>) (os_close (fd (At ?S1 i)) ?S1) else ?S1)"
  have p2: "pool S2 = upd_sess i (\<lambda>s. s\<lparr>dead := True, fd := (if 0 \<le> fd s then - 1 else fd s)\<rparr>) (pool S)"
    using i by (auto simp: S2_def slots_upd_sess upd_sess_twice intro: upd_sess_same)
  have f2: "rooms S2 = rooms S" "freeRooms S2 = freeRooms S" "openRooms S2 = openRooms S"
    "workerCount S2 = workerCount S" "roomsPerWorker S2 = roomsPerWorker S" "mail S2 = mail S" "myRooms S2 = myRooms S"
    "mySessions S2 = mySessions S"
    by (simp_all add: S2_def)
  have s2: "At S2 i = (At S i)\<lparr>dead := True, fd := (if 0 \<le> fd (At S i) then - 1 else fd (At S i))\<rparr>"
    using i by (simp add: p2 slots_upd_sess)
  define S3 where "S3 = OnSessionLeave i S2"
  have S3: "S3 = (if inRoom (At S i)
      then upd_room (roomIdx (At S i)) (file_leave i (gen (At S i))) (upd_session i (\<lambda>s. s\<lparr>inRoom := False\<rparr>) S2) else S2)"
    unfolding S3_def OnSessionLeave_def Let_def s2 f2(1) using room ix by (auto simp: file_leave_def [abs_def])
  have p3: "pool S3 = upd_sess i hung_up (pool S)"
    by (auto simp: S3 p2 upd_sess_twice hung_up_def clear_inRoom intro!: upd_sess_same)
  have r3: "rooms S3 = (if inRoom (At S i)
      then upd_at (roomIdx (At S i)) (file_leave i (gen (At S i))) (rooms S) else rooms S)"
    by (simp add: S3 f2)
  have f3: "freeRooms S3 = freeRooms S" "openRooms S3 = openRooms S"
    "workerCount S3 = workerCount S" "roomsPerWorker S3 = roomsPerWorker S" "mail S3 = mail S" "myRooms S3 = myRooms S"
    "mySessions S3 = mySessions S"
    by (simp_all add: S3 f2)
  have ix3: "idx (At S3 i) = i" using i ix by (simp add: p3 slots_upd_sess hung_up_def)
  have D: "Disconnect w i S = (let S4 = S3\<lparr>mySessions := upd_at w (swap_remove i) (mySessions S3)\<rparr>;
      S5 = count_up (\<lambda>g. g\<lparr>mt_disconnects := Inc (mt_disconnects g)\<rparr>) S4 in S5\<lparr>pool := Release i (pool S5)\<rparr>)"
    using d ix3 unfolding Disconnect_def S3_def S2_def Let_def by simp
  show "pool (Disconnect w i S) = Release i (upd_sess i hung_up (pool S))"
    "rooms (Disconnect w i S) = (if inRoom (At S i)
      then upd_at (roomIdx (At S i)) (file_leave i (gen (At S i))) (rooms S) else rooms S)"
    "mySessions (Disconnect w i S) = upd_at w (swap_remove i) (mySessions S)"
    "freeRooms (Disconnect w i S) = freeRooms S" "openRooms (Disconnect w i S) = openRooms S"
    "workerCount (Disconnect w i S) = workerCount S" "roomsPerWorker (Disconnect w i S) = roomsPerWorker S"
    "mail (Disconnect w i S) = mail S" "myRooms (Disconnect w i S) = myRooms S"
    by (simp_all add: D Let_def p3 r3 f3)
qed

lemma file_leave_acct [simp]:
  "seat (file_leave i g x) = seat x" "room_ok (file_leave i g x) = room_ok x" "r_idx (file_leave i g x) = r_idx x"
  "r_reservedSeats (file_leave i g x) = r_reservedSeats x" "r_gameWorker (file_leave i g x) = r_gameWorker x"
  "leave_tag ` set (r_pendingLeave (file_leave i g x)) = insert (i, g) (leave_tag ` set (r_pendingLeave x))"
  by (simp_all add: file_leave_def seat_def room_ok_def leave_tag_def)

lemma mine_hangup:
  assumes "mine_ok p ms" and i: "i < length (slots p)" "\<not> dead (slots p ! i)" "refs (slots p ! i) \<noteq> 0"
    and q: "length (slots q) = length (slots p)" "\<And>j. j \<noteq> i \<Longrightarrow> slots q ! j = slots p ! j"
    "dead (slots q ! i)" "owner (slots q ! i) = owner (slots p ! i)"
    and w: "w = owner (slots p ! i)"
  shows "mine_ok q (upd_at w (swap_remove i) ms)"
proof -
  have len: "w < length ms" using assms(1) i w by (simp add: mine_ok_def)
  have oq: "owner (slots q ! j) = owner (slots p ! j)" for j using q(2,4) by (cases "j = i") simp_all
  let ?M = "\<lambda>p w'. {i. i < length (slots p) \<and> owner (slots p ! i) = w' \<and> \<not> dead (slots p ! i) \<and> refs (slots p ! i) \<noteq> 0}"
  have M: "?M q w' = ?M p w' - {i}" for w'
  proof (rule set_eqI)
    fix j show "j \<in> ?M q w' \<longleftrightarrow> j \<in> ?M p w' - {i}"
      using q(1,3) q(2) [of j] by (cases "j = i") simp_all
  qed
  have "distinct (upd_at w (swap_remove i) ms ! w') \<and> set (upd_at w (swap_remove i) ms ! w') = ?M q w'"
    if w': "w' < length ms" for w'
  proof -
    have d: "distinct (ms ! w')" "set (ms ! w') = ?M p w'" using assms(1) w' by (simp_all add: mine_ok_def)
    show ?thesis
    proof (cases "w' = w")
      case True
      then show ?thesis using d len by (simp add: M set_swap_remove distinct_swap_remove)
    next
      case False
      moreover have "i \<notin> ?M p w'" using False w by simp
      ultimately show ?thesis using d by (simp add: M)
    qed
  qed
  moreover have "if refs (slots q ! j) \<noteq> 0 then owner (slots q ! j) < length ms else dead (slots q ! j) \<or> fd (slots q ! j) = - 1"
    if "j < length (slots q)" for j
    using assms(1) i(1,3) that q(1,3) q(2) [of j] by (cases "j = i") (simp_all add: mine_ok_def oq)
  ultimately show ?thesis by (simp add: mine_ok_def)
qed

lemma Inv_Disconnect:
  assumes inv: "Inv S" and i: "i < length (slots (pool S))" "refs (At S i) \<noteq> 0" and w: "w = owner (At S i)"
  shows "Inv (Disconnect w i S)"
proof (cases "dead (At S i)")
  case True
  then show ?thesis using inv by (simp add: Disconnect_def)
next
  case alive: False
  let ?s = "At S i" and ?r = "roomIdx (At S i)"
  note I = InvD [OF inv]
  have ix: "idx ?s = i" using pool_okD(1) [OF I(6) i(1)] .
  have lr: "inRoom ?s \<Longrightarrow> live S ?r" using in_room_live(1) [OF inv i] .
  then have rl: "inRoom ?s \<longrightarrow> ?r < length (rooms S)" by (simp add: live_def)
  note E = Disconnect_eqs [OF i(1) alive ix rl, of w]
  let ?S = "Disconnect w i S" and ?q = "upd_sess i hung_up (pool S)"
  have live: "live ?S = live S" by (auto simp: live_def E fun_eq_iff)
  have tab: "tab ?S = tab S"
  proof -
    have "seat (room_at ?S r) = seat (room_at S r)" for r
      using rl by (cases "inRoom ?s"; cases "r = ?r") (simp_all add: E)
    then show ?thesis by (simp add: tab_def live fun_eq_iff)
  qed
  have leaves: "leaves ?S = (if inRoom ?s then (leaves S)(?r := insert (i, gen ?s) (leaves S ?r)) else leaves S)"
    using lr rl by (auto simp: leaves_def live E fun_eq_iff nth_upd_at)
  have s: "slots ?q ! j = (if j = i then hung_up ?s else At S j)" for j
    using i(1) by (simp add: slots_upd_sess)
  have "rooms_ok ?S"
    using I(1) lr rl by (auto simp: rooms_ok_def live E nth_upd_at)
  moreover have "books_ok (pool ?S) (tab S) (leaves ?S)"
    unfolding E(1) leaves
    by (rule books_hangup [OF I(2) i alive]) (simp_all add: s hung_up_def)
  moreover have "mine_ok (pool ?S) (mySessions ?S)"
    unfolding E(1,3)
    by (rule mine_hangup [OF I(3) i(1) alive i(2)]) (use i w in \<open>simp_all add: slots_Release s hung_up_def\<close>)
  moreover have "lists_ok ?S"
    using I(4) rl by (auto simp: lists_ok_def live E nth_upd_at)
  moreover have "work_ok ?S"
  proof -
    have "r_gameWorker (room_at ?S r) = r_gameWorker (room_at S r)" for r
      using rl by (auto simp: E nth_upd_at)
    then show ?thesis using I(5) by (simp add: work_ok_def placed_def live E)
  qed
  ultimately show ?thesis by (simp add: Inv_def tab)
qed

section \<open>Accept\<close>

lemma Inv_pool:
  assumes "Inv S" "books_ok (pool S') (tab S) (leaves S)" "mine_ok (pool S') (mySessions S')"
    "rooms S' = rooms S" "freeRooms S' = freeRooms S" "openRooms S' = openRooms S" "workerCount S' = workerCount S"
    "roomsPerWorker S' = roomsPerWorker S" "mail S' = mail S" "myRooms S' = myRooms S"
  shows "Inv S'"
  using assms tab_cong [OF assms(4,5)]
  by (simp add: Inv_def rooms_ok_def lists_ok_def work_ok_def placed_def)

lemma acct_books: "books s = books s' \<Longrightarrow> acct s = acct s'"
  by (simp add: books_def acct_def)

lemma mine_add:
  assumes "mine_ok p ms" "w < length ms" "i < length (slots p)" "refs (slots p ! i) = 0"
    and q: "length (slots q) = length (slots p)" "\<And>j. j \<noteq> i \<Longrightarrow> slots q ! j = slots p ! j"
    "\<not> dead (slots q ! i)" "owner (slots q ! i) = w" "refs (slots q ! i) \<noteq> 0"
  shows "mine_ok q (upd_at w (\<lambda>l. l @ [i]) ms)"
proof -
  let ?M = "\<lambda>p w'. {i. i < length (slots p) \<and> owner (slots p ! i) = w' \<and> \<not> dead (slots p ! i) \<and> refs (slots p ! i) \<noteq> 0}"
  have M: "?M q w' = (if w' = w then insert i (?M p w') else ?M p w')" for w'
  proof (rule set_eqI)
    fix j show "j \<in> ?M q w' \<longleftrightarrow> j \<in> (if w' = w then insert i (?M p w') else ?M p w')"
      using q(1,3-5) q(2) [of j] assms(3,4) by (cases "j = i") simp_all
  qed
  have "distinct (upd_at w (\<lambda>l. l @ [i]) ms ! w') \<and> set (upd_at w (\<lambda>l. l @ [i]) ms ! w') = ?M q w'"
    if w': "w' < length ms" for w'
  proof -
    have d: "distinct (ms ! w')" "set (ms ! w') = ?M p w'" using assms(1) w' by (simp_all add: mine_ok_def)
    moreover have "i \<notin> ?M p w'" using assms(4) by simp
    ultimately show ?thesis using assms(2) unfolding M by (cases "w' = w") simp_all
  qed
  moreover have "if refs (slots q ! j) \<noteq> 0 then owner (slots q ! j) < length ms else dead (slots q ! j) \<or> fd (slots q ! j) = - 1"
    if "j < length (slots q)" for j
    using assms(1,2) that q(1,4,5) q(2) [of j] by (cases "j = i") (simp_all add: mine_ok_def)
  ultimately show ?thesis by (simp add: mine_ok_def)
qed

lemma mine_same:
  assumes "mine_ok p ms" "refs (slots p ! i) = 0" "refs (slots q ! i) = 0" "dead (slots q ! i)"
    and q: "length (slots q) = length (slots p)" "\<And>j. j \<noteq> i \<Longrightarrow> slots q ! j = slots p ! j"
  shows "mine_ok q ms"
proof -
  let ?M = "\<lambda>p w'. {i. i < length (slots p) \<and> owner (slots p ! i) = w' \<and> \<not> dead (slots p ! i) \<and> refs (slots p ! i) \<noteq> 0}"
  have "?M q w' = ?M p w'" for w'
  proof (rule set_eqI)
    fix j show "j \<in> ?M q w' \<longleftrightarrow> j \<in> ?M p w'"
      using q(1) q(2) [of j] assms(2,3) by (cases "j = i") simp_all
  qed
  moreover have "if refs (slots q ! j) \<noteq> 0 then owner (slots q ! j) < length ms else dead (slots q ! j) \<or> fd (slots q ! j) = - 1"
    if "j < length (slots q)" for j
    using assms(1,3,4) that q(1) q(2) [of j] by (cases "j = i") (simp_all add: mine_ok_def)
  ultimately show ?thesis using assms(1) by (simp add: mine_ok_def)
qed

lemma os_ctl_frame:
  assumes "os_ctl S = (b, S')"
  shows "pool S' = pool S" "rooms S' = rooms S" "freeRooms S' = freeRooms S" "openRooms S' = openRooms S"
    "workerCount S' = workerCount S" "roomsPerWorker S' = roomsPerWorker S" "mail S' = mail S"
    "myRooms S' = myRooms S" "mySessions S' = mySessions S"
  using assms by (auto simp: os_ctl_def split: list.splits)

lemma Inv_accept_one:
  assumes inv: "Inv S" and w: "w < length (mySessions S)"
  shows "Inv (accept_one ST MT w f S)"
proof (cases "Alloc ST MT (pool S)")
  case (Pair o_i p)
  note I = InvD [OF inv]
  show ?thesis
  proof (cases o_i)
    case None
    note A = Alloc_NoneD [OF Pair [unfolded None]]
    have "same_acct S (os_close f (S\<lparr>pool := p\<rparr>))"
      using A(1,2) acct_books [OF A(3)] by (auto simp: same_acct_def intro!: nth_equalityI)
    then show ?thesis using Inv_same inv by (simp add: accept_one_def Pair None)
  next
    case (Some i)
    let ?S1 = "upd_session i (\<lambda>s. s\<lparr>fd := f, owner := w\<rparr>) (S\<lparr>pool := p\<rparr>)"
    note A = Alloc_SomeD [OF I(6) Pair [unfolded Some]]
    have B: "books_ok (pool ?S1) (tab S) (leaves S)"
      using books_alloc [OF I(2) Pair [unfolded Some]] by simp
    obtain b S2 where S2: "os_ctl ?S1 = (b, S2)" by (cases "os_ctl ?S1")
    note F = os_ctl_frame [OF S2]
    have i: "i < length (slots p)" using A(2,5) by simp
    have s1: "At ?S1 j = (if j = i then (slots p ! i)\<lparr>fd := f, owner := w\<rparr> else At S j)" for j
      using i A(8) by (simp add: slots_upd_sess)
    have pi: "refs (slots p ! i) = 1" "\<not> dead (slots p ! i)" "\<not> inRoom (slots p ! i)"
      using A(7) by (simp_all add: books_def claim_session_def)
    have ix: "idx (slots p ! i) = i" using pool_okD(1) [OF A(1) i] .
    show ?thesis
    proof (cases b)
      case True
      let ?S3 = "S2\<lparr>mySessions := upd_at w (\<lambda>q. q @ [i]) (mySessions S2)\<rparr>"
      have "mine_ok (pool ?S1) (upd_at w (\<lambda>q. q @ [i]) (mySessions S))"
        by (rule mine_add [OF I(3) w A(2,4)]) (simp_all add: A(2,5,8) pi slots_upd_sess)
      then have "Inv ?S3" by (intro Inv_pool [OF inv]) (use B in \<open>simp_all add: F\<close>)
      moreover have "accept_one ST MT w f S = count_up (\<lambda>g. g\<lparr>mt_accepts := Inc (mt_accepts g)\<rparr>) ?S3"
        using True ix by (simp add: accept_one_def Pair Some Let_def S2 F s1 slots_upd_sess i)
      ultimately show ?thesis using Inv_same [OF same_acct_count_up] by simp
    next
      case False
      let ?q = "upd_sess i (\<lambda>s. s\<lparr>fd := - 1, dead := True\<rparr>) (pool ?S1)"
      have i1: "i < length (slots (pool ?S1))" using i by simp
      have "books_ok (Release i ?q) (tab S) (leaves S)"
        by (rule books_hangup [OF B i1]) (simp_all add: pi slots_upd_sess i)
      moreover have "mine_ok (Release i ?q) (mySessions S)"
        by (rule mine_same [OF I(3) A(4)]) (simp_all add: A(2,5,8) pi slots_upd_sess slots_Release)
      moreover have "accept_one ST MT w f S = (upd_session i (\<lambda>s. s\<lparr>fd := - 1, dead := True\<rparr>) (os_close f S2))
          \<lparr>pool := Release i ?q\<rparr>"
        using False by (simp add: accept_one_def Pair Some Let_def S2 F)
      ultimately show ?thesis by (simp add: F Inv_pool [OF inv])
    qed
  qed
qed

lemma mySessions_length:
  "length (mySessions (Disconnect w i S)) = length (mySessions S)"
  "length (mySessions (accept_one ST MT w f S)) = length (mySessions S)"
  by (auto simp: Disconnect_def accept_one_def OnSessionLeave_def Let_def os_ctl_def
      split: prod.splits option.splits bool.splits list.splits)

lemma Inv_accept_loop:
  "Inv S \<Longrightarrow> w < length (mySessions S) \<Longrightarrow> Inv (accept_loop ST MT w n S)"
proof (induction n arbitrary: S)
  case (Suc n)
  have "Inv (S\<lparr>kern := k\<rparr>)" for k using Inv_same [OF same_acct_kern Suc.prems(1)] .
  then show ?case
    using Suc by (auto simp: Let_def Inv_accept_one mySessions_length split: list.splits accept_result.splits)
qed simp

end
