(* ===== verification/Preserve_Join.thy ===== *)
theory Preserve_Join
  imports Preserve_Session
begin

text \<open>
  The invariant under \<open>Join\<close>: the search of an open room, the allocation of a room, and the seat
  that is entered.
\<close>

section \<open>A seat is entered\<close>

lemma Inv_enter:
  assumes inv: "Inv S" and i: "i < length (slots (pool S))" "refs (At S i) \<noteq> 0" "\<not> dead (At S i)" "\<not> inRoom (At S i)"
    and r: "r < length (rooms S)" "tab S r k = None"
    and S': "pool S' = upd_sess i (\<lambda>s. s\<lparr>inRoom := True, roomIdx := r, actorId := k\<rparr>) (AddRef i (pool S))"
      "rooms S' = (rooms S)[r := y]" "mySessions S' = mySessions S"
    and live: "\<And>r'. live S' r' \<longleftrightarrow> r' = r \<or> live S r'"
    and y: "seat y = (tab S r)(k \<mapsto> (i, gen (At S i)))" "leave_tag ` set (r_pendingLeave y) = leaves S r" "r_idx y = r" "room_ok y"
    and rest: "lists_ok S'" "work_ok S'"
  shows "Inv S'" "tab S' = (tab S)(r := (tab S r)(k \<mapsto> (i, gen (At S i))))"
proof -
  note I = InvD [OF inv]
  show tab: "tab S' = (tab S)(r := (tab S r)(k \<mapsto> (i, gen (At S i))))"
    using r(1) by (auto simp: tab_def [of S'] live S'(2) y(1) fun_eq_iff) (auto simp: tab_def)
  have leaves: "leaves S' = leaves S"
  proof
    fix r' show "leaves S' r' = leaves S r'"
    proof (cases "r' = r")
      case True
      then show ?thesis using r(1) y(2) by (simp add: leaves_def [of S'] live S'(2))
    qed (simp add: leaves_def live S'(2))
  qed
  have "rooms_ok S'"
    using I(1) r(1) y by (auto simp: rooms_ok_def live S'(2) nth_list_update)
  moreover have "books_ok (pool S') (tab S') (leaves S')"
    unfolding S'(1) tab leaves by (rule books_join [OF I(2) i r(2)])
  moreover have "mine_ok (pool S') (mySessions S')"
  proof -
    have "owner (At S' j) = owner (At S j) \<and> dead (At S' j) = dead (At S j) \<and> fd (At S' j) = fd (At S j)
        \<and> (refs (At S' j) = 0 \<longleftrightarrow> refs (At S j) = 0)" for j
      using i pool_okD(2) [OF I(6) i(1)] by (cases "j = i") (auto simp: S'(1) slots_upd_sess slots_AddRef)
    then show ?thesis using I(3) by (simp add: mine_ok_def S'(1,3))
  qed
  ultimately show "Inv S'" using rest by (simp add: Inv_def)
qed

text \<open>What a successful join does to the table of seats and to the pool.\<close>

definition takes_seat :: "nat \<Rightarrow> nat \<Rightarrow> nat \<Rightarrow> ('r, 's) Server \<Rightarrow> ('r, 's) Server \<Rightarrow> bool" where
  "takes_seat i r k S S' \<longleftrightarrow> k < kRoomMembers \<and> r < length (rooms S) \<and> tab S r k = None \<and>
     tab S' = (tab S)(r := (tab S r)(k \<mapsto> (i, gen (At S i)))) \<and>
     pool S' = upd_sess i (\<lambda>s. s\<lparr>inRoom := True, roomIdx := r, actorId := k\<rparr>) (AddRef i (pool S))"

section \<open>An open room\<close>

lemma reserve_enter_room:
  assumes ok: "room_ok x" and k: "k < kRoomMembers" "seat x k = None" "j_actorId e = k"
  shows "room_ok ((reserve_seat k x)\<lparr>r_pendingJoin := r_pendingJoin x @ [e]\<rparr>)"
    and "seat ((reserve_seat k x)\<lparr>r_pendingJoin := r_pendingJoin x @ [e]\<rparr>) = (seat x)(k \<mapsto> (j_sessIdx e, j_sessGen e))"
proof -
  have s: "seats_ok (r_pendingJoin x) (r_members x) (r_seatUsed x) (r_reservedSeats x) (r_memberCount x)"
    "r_everReserved x" "\<not> r_dead x" "(pend (r_pendingJoin x) ++ memb (r_members x)) k = None"
    using ok k(2) unfolding room_ok_def seat_def by blast+
  note e = seats_enter [OF s(1) k(1) s(4) k(3)]
  show "room_ok ((reserve_seat k x)\<lparr>r_pendingJoin := r_pendingJoin x @ [e]\<rparr>)"
    using e(1) s(3) unfolding room_ok_def reserve_seat_def by simp
  show "seat ((reserve_seat k x)\<lparr>r_pendingJoin := r_pendingJoin x @ [e]\<rparr>) = (seat x)(k \<mapsto> (j_sessIdx e, j_sessGen e))"
    using e(2) unfolding seat_def reserve_seat_def by simp
qed

lemma first_free:
  assumes "seats_ok js ms su rs mc" "rs < int kRoomMembers"
  obtains k where "first_index Not su = Some k" "k < kRoomMembers" "(pend js ++ memb ms) k = None"
proof (cases "first_index Not su")
  case None
  then have all: "\<forall>b\<in>set su. b" by simp
  have "{..<kRoomMembers} \<subseteq> dom (pend js ++ memb ms)"
  proof
    fix k assume "k \<in> {..<kRoomMembers}"
    then have k: "k < kRoomMembers" by simp
    then have "su ! k" using all seats_okD(2) [OF assms(1)] by (metis nth_mem)
    then show "k \<in> dom (pend js ++ memb ms)" using seats_okD(5) [OF assms(1) k] by (metis domIff)
  qed
  then have "card {..<kRoomMembers} \<le> card (dom (pend js ++ memb ms))"
    by (rule card_mono [OF seats_dom(2) [OF assms(1)]])
  then show ?thesis using assms(2) seats_okD(6) [OF assms(1)] by simp
next
  case (Some k)
  have "k < length su \<and> \<not> su ! k" using first_index_SomeD [OF Some] by simp
  then have k: "k < kRoomMembers" "\<not> su ! k" using seats_okD(2) [OF assms(1)] by simp_all
  then have "(pend js ++ memb ms) k = None" using seats_okD(5) [OF assms(1) k(1)] by metis
  then show ?thesis by (rule that [OF Some k(1)])
qed

lemma find_open_empty: "openRooms S = [] \<Longrightarrow> find_open S = (None, S)"
  by (subst find_open.simps) simp

lemma find_open_found:
  assumes inv: "Inv S" and ne: "openRooms S \<noteq> []" and r: "r = last (openRooms S)"
  obtains k where "k < kRoomMembers" "live S r" "tab S r k = None" "seat (room_at S r) k = None"
    "first_index Not (r_seatUsed (room_at S r)) = Some k"
    "find_open S = (Some (r, k), (upd_room r (reserve_seat k) S)
       \<lparr>openRooms := (if r_reservedSeats (room_at S r) + 1 = int kRoomMembers then butlast (openRooms S) else openRooms S)\<rparr>)"
proof -
  have in_open: "r \<in> set (openRooms S)" using ne r by simp
  then have l: "live S r" "r_reservedSeats (room_at S r) < int kRoomMembers"
    using InvD(4) [OF inv] by (auto simp: lists_ok_def)
  note R = room_liveD [OF inv l(1)]
  obtain k where k: "first_index Not (r_seatUsed (room_at S r)) = Some k" "k < kRoomMembers" "seat (room_at S r) k = None"
    using first_free [OF R(5) l(2)] unfolding seat_def by blast
  have "find_open S = (Some (r, k), (upd_room r (reserve_seat k) S)
       \<lparr>openRooms := (if r_reservedSeats (room_at S r) + 1 = int kRoomMembers then butlast (openRooms S) else openRooms S)\<rparr>)"
    using ne R(4,6) k(1) by (subst find_open.simps) (simp add: r [symmetric] Let_def reserve_seat_def upd_room_def)
  then show ?thesis using that k l(1) by (simp add: tab_def)
qed

lemma find_open_idx: "find_open S = (res, S') \<Longrightarrow> r_idx (room_at S' r) = r_idx (room_at S r)"
proof (induction S arbitrary: res S' rule: find_open.induct)
  case (1 S)
  have u: "r_idx (room_at (upd_room c (reserve_seat k) S) r) = r_idx (room_at S r)" for c k
    by (cases "c < length (rooms S)") (auto simp: reserve_seat_def nth_upd_at not_less)
  from 1(2) u show ?case
    by (subst (asm) find_open.simps) (auto simp: Let_def split: if_splits option.splits dest!: 1(1) [OF _ refl refl])
qed

text \<open>The fields after a seat has been entered.\<close>

lemma enter_seat_eqs:
  assumes "i < length (slots (pool S))" "idx (At S i) = i" "r < length (rooms S)" "r_idx (room_at S r) = r"
  shows "pool (enter_seat i r k S) = upd_sess i (\<lambda>s. s\<lparr>inRoom := True, roomIdx := r, actorId := k\<rparr>) (AddRef i (pool S))"
    and "rooms (enter_seat i r k S) = (rooms S)[r := (room_at S r)\<lparr>r_pendingJoin := r_pendingJoin (room_at S r) @
           [\<lparr>j_sessIdx = i, j_sessGen = gen (At S i), j_actorId = k\<rparr>]\<rparr>]"
    and "freeRooms (enter_seat i r k S) = freeRooms S" "openRooms (enter_seat i r k S) = openRooms S"
      "workerCount (enter_seat i r k S) = workerCount S" "roomsPerWorker (enter_seat i r k S) = roomsPerWorker S"
      "mail (enter_seat i r k S) = mail S" "myRooms (enter_seat i r k S) = myRooms S" "mySessions (enter_seat i r k S) = mySessions S"
  using assms by (simp_all add: enter_seat_def Let_def slots_AddRef upd_at_def)

lemma Inv_Join_open:
  assumes inv: "Inv S" and i: "i < length (slots (pool S))" "refs (At S i) \<noteq> 0" "\<not> dead (At S i)" "\<not> inRoom (At S i)"
    and f: "find_open S = (Some (r, k), S1)" and ne: "openRooms S \<noteq> []"
  shows "Inv (enter_seat i r k S1)" "takes_seat i r k S (enter_seat i r k S1)"
proof -
  note I = InvD [OF inv]
  define full where "full \<longleftrightarrow> r_reservedSeats (room_at S r) + 1 = int kRoomMembers"
  obtain k' where K: "k' < kRoomMembers" "live S (last (openRooms S))" "tab S (last (openRooms S)) k' = None"
    "seat (room_at S (last (openRooms S))) k' = None"
    and fo: "find_open S = (Some (last (openRooms S), k'), (upd_room (last (openRooms S)) (reserve_seat k') S)
       \<lparr>openRooms := (if r_reservedSeats (room_at S (last (openRooms S))) + 1 = int kRoomMembers
          then butlast (openRooms S) else openRooms S)\<rparr>)"
    using find_open_found [OF inv ne refl] .
  have r: "r = last (openRooms S)" and kk: "k' = k" using f fo by simp_all
  note k = K [folded r, unfolded kk]
  have S1: "S1 = (upd_room r (reserve_seat k) S)\<lparr>openRooms := (if full then butlast (openRooms S) else openRooms S)\<rparr>"
    using f unfolding fo full_def r [symmetric] kk by simp
  note R = room_liveD [OF inv k(2)]
  let ?e = "\<lparr>j_sessIdx = i, j_sessGen = gen (At S i), j_actorId = k\<rparr>"
  let ?x = "room_at S r"
  let ?y = "(reserve_seat k ?x)\<lparr>r_pendingJoin := r_pendingJoin ?x @ [?e]\<rparr>"
  have ix: "idx (At S i) = i" using pool_okD(1) [OF I(6) i(1)] .
  have E: "pool (enter_seat i r k S1) = upd_sess i (\<lambda>s. s\<lparr>inRoom := True, roomIdx := r, actorId := k\<rparr>) (AddRef i (pool S))"
    "rooms (enter_seat i r k S1) = (rooms S)[r := ?y]" "freeRooms (enter_seat i r k S1) = freeRooms S"
    "openRooms (enter_seat i r k S1) = (if full then butlast (openRooms S) else openRooms S)"
    "workerCount (enter_seat i r k S1) = workerCount S" "roomsPerWorker (enter_seat i r k S1) = roomsPerWorker S"
    "mail (enter_seat i r k S1) = mail S" "myRooms (enter_seat i r k S1) = myRooms S" "mySessions (enter_seat i r k S1) = mySessions S"
    using enter_seat_eqs [of i S1 r k] i(1) ix R(3,4)
    by (simp_all add: S1 reserve_seat_def upd_at_def)
  have y: "room_ok ?y" "seat ?y = (seat ?x)(k \<mapsto> (i, gen (At S i)))"
    using reserve_enter_room [OF R(1) k(1,4), of ?e] by simp_all
  have live: "live (enter_seat i r k S1) r' \<longleftrightarrow> r' = r \<or> live S r'" for r'
    using k(2) by (auto simp: live_def E)
  have bl: "set (butlast (openRooms S)) = set (openRooms S) - {r}" "distinct (butlast (openRooms S))"
    using I(4) r ne by (cases "openRooms S" rule: rev_cases; auto simp: lists_ok_def)+
  have rs: "r_reservedSeats ?y = r_reservedSeats ?x + 1" "r_gameWorker ?y = r_gameWorker ?x" "r_idx ?y = r"
    "r_pendingLeave ?y = r_pendingLeave ?x"
    using R(3) by (simp_all add: reserve_seat_def)
  have "lists_ok (enter_seat i r k S1)"
  proof -
    have "r \<in> set (openRooms S)" using ne r by simp
    then have "r_reservedSeats ?x < int kRoomMembers" using I(4) by (auto simp: lists_ok_def)
    then show ?thesis
      using I(4) R(4) bl rs(1) unfolding lists_ok_def live by (auto simp: E nth_list_update full_def)
  qed
  moreover have "work_ok (enter_seat i r k S1)"
  proof -
    have "r_gameWorker (room_at (enter_seat i r k S1) r') = r_gameWorker (room_at S r')" for r'
      using rs(2) R(4) by (auto simp: E nth_list_update)
    then show ?thesis using I(5) live k(2) by (auto simp: work_ok_def placed_def E)
  qed
  moreover have "seat ?y = (tab S r)(k \<mapsto> (i, gen (At S i)))" "leave_tag ` set (r_pendingLeave ?y) = leaves S r"
    using k(2) y(2) rs(4) by (simp_all add: tab_def leaves_def)
  ultimately have "Inv (enter_seat i r k S1) \<and> tab (enter_seat i r k S1) = (tab S)(r := (tab S r)(k \<mapsto> (i, gen (At S i))))"
    using Inv_enter [OF inv i R(4) k(3) E(1,2,9) live] rs(3) y(1) by blast
  then show "Inv (enter_seat i r k S1)" "takes_seat i r k S (enter_seat i r k S1)"
    using k E(1) R(4) by (simp_all add: takes_seat_def)
qed

section \<open>A new room\<close>

lemma least_loaded_less: "0 < n \<Longrightarrow> least_loaded n loads < n"
proof -
  have "best < n \<Longrightarrow> fold (\<lambda>w best. if loads ! w < loads ! best then w else best) ws best < n"
    if "set ws \<subseteq> {..<n}" for ws best
    using that by (induction ws arbitrary: best) auto
  then show "0 < n \<Longrightarrow> least_loaded n loads < n" by (force simp: least_loaded_def)
qed

lemma AllocRoom_eqs:
  assumes "freeRooms S \<noteq> []" and best: "best = (if mb then least_loaded (workerCount S) (roomsPerWorker S) else fw)"
    and r: "r = last (freeRooms S)"
  shows "fst (AllocRoomSlotLocked fw mb S) = Some r"
    and "rooms (snd (AllocRoomSlotLocked fw mb S)) = upd_at r (\<lambda>x. (clear_room x)\<lparr>r_gameWorker := best\<rparr>) (rooms S)"
    and "freeRooms (snd (AllocRoomSlotLocked fw mb S)) = butlast (freeRooms S)"
    and "roomsPerWorker (snd (AllocRoomSlotLocked fw mb S)) = upd_at best (\<lambda>n. n + 1) (roomsPerWorker S)"
    and "mail (snd (AllocRoomSlotLocked fw mb S)) = (if mb then upd_at best (\<lambda>q. q @ [r]) (mail S) else mail S)"
    and "pool (snd (AllocRoomSlotLocked fw mb S)) = pool S" "openRooms (snd (AllocRoomSlotLocked fw mb S)) = openRooms S"
      "workerCount (snd (AllocRoomSlotLocked fw mb S)) = workerCount S" "myRooms (snd (AllocRoomSlotLocked fw mb S)) = myRooms S"
      "mySessions (snd (AllocRoomSlotLocked fw mb S)) = mySessions S"
  using assms(1) by (simp_all add: AllocRoomSlotLocked_def Let_def best r)

lemma AllocRoom_none: "freeRooms S = [] \<Longrightarrow> AllocRoomSlotLocked fw mb S = (None, S)"
  by (simp add: AllocRoomSlotLocked_def)

text \<open>Work placement when a room that was not live joins a worker.\<close>

lemma work_ok_place:
  assumes work: "work_ok S" and nl: "\<not> live S r" and w: "w < workerCount S"
    and live: "\<And>r'. live S' r' \<longleftrightarrow> r' = r \<or> live S r'"
    and gw: "r_gameWorker (room_at S' r) = w" "\<And>r'. r' \<noteq> r \<Longrightarrow> r_gameWorker (room_at S' r') = r_gameWorker (room_at S r')"
    and S': "workerCount S' = workerCount S" "length (mail S') = length (mail S)" "length (myRooms S') = length (myRooms S)"
      "roomsPerWorker S' = upd_at w (\<lambda>n. n + 1) (roomsPerWorker S)"
    and placed: "\<And>w'. w' \<noteq> w \<Longrightarrow> placed S' w' = placed S w'" "mset (placed S' w) = add_mset r (mset (placed S w))"
  shows "work_ok S'"
proof -
  have wl: "w < kMaxGameWorkers" using work w by (simp add: work_ok_def)
  have nr: "r \<notin> set (placed S w')" if "w' < kMaxGameWorkers" for w' using work nl that by (simp add: work_ok_def)
  have set_w: "set (placed S' w) = insert r (set (placed S w))" using placed(2) by (metis set_mset_add_mset_insert set_mset_mset)
  have len_w: "length (placed S' w) = Suc (length (placed S w))" using placed(2) by (metis size_add_mset size_mset)
  have dist_w: "distinct (placed S' w)"
    using work nr [OF wl] wl len_w set_w unfolding work_ok_def by (metis card_distinct distinct_card card_insert_disjoint List.finite_set)
  have "distinct (placed S' w') \<and> set (placed S' w') = {r'. live S' r' \<and> r_gameWorker (room_at S' r') = w'}
      \<and> roomsPerWorker S' ! w' = of_nat (length (placed S' w'))" if w': "w' < kMaxGameWorkers" for w'
  proof -
    have old: "distinct (placed S w')" "set (placed S w') = {r'. live S r' \<and> r_gameWorker (room_at S r') = w'}"
      "roomsPerWorker S ! w' = of_nat (length (placed S w'))" "length (roomsPerWorker S) = kMaxGameWorkers"
      using work w' by (simp_all add: work_ok_def)
    have s: "{r'. live S' r' \<and> r_gameWorker (room_at S' r') = w'} = (if w' = w then insert r (set (placed S w')) else set (placed S w'))"
      unfolding old(2) using gw nl by (auto simp: live; metis)
    show ?thesis
    proof (cases "w' = w")
      case True
      then show ?thesis using dist_w set_w len_w s old(3,4) wl by (simp add: S'(4))
    next
      case False
      then show ?thesis using placed(1) s old by (simp add: S'(4))
    qed
  qed
  moreover have "r_gameWorker (room_at S' r') < workerCount S'" if "live S' r'" for r'
    using that work w gw by (cases "r' = r") (simp_all add: work_ok_def live S'(1))
  ultimately show ?thesis using work by (simp add: work_ok_def S')
qed

lemma clear_room_books:
  "seats_ok (r_pendingJoin (clear_room x)) (r_members (clear_room x)) (r_seatUsed (clear_room x))
     (r_reservedSeats (clear_room x)) (r_memberCount (clear_room x))"
  "r_idx (clear_room x) = r_idx x" "r_pendingLeave (clear_room x) = []" "\<not> r_dead (clear_room x)"
  using seats_empty by (simp_all add: clear_room_def)

lemma last_free:
  assumes "lists_ok S" "freeRooms S \<noteq> []" "r = last (freeRooms S)"
  shows "r < length (rooms S)" "\<not> live S r" "distinct (butlast (freeRooms S))"
    "set (butlast (freeRooms S)) = set (freeRooms S) - {r}"
proof -
  obtain ys where ys: "freeRooms S = ys @ [r]" using assms(2,3) by (metis append_butlast_last_id)
  then show "r < length (rooms S)" "\<not> live S r" "distinct (butlast (freeRooms S))"
    "set (butlast (freeRooms S)) = set (freeRooms S) - {r}"
    using assms(1) by (auto simp: lists_ok_def live_def)
qed

lemma Inv_Join_new:
  assumes inv: "Inv S" and i: "i < length (slots (pool S))" "refs (At S i) \<noteq> 0" "\<not> dead (At S i)" "\<not> inRoom (At S i)"
    and wc: "workerCount S \<noteq> 0" and fr: "freeRooms S \<noteq> []" and op: "openRooms S = []" and r: "r = last (freeRooms S)"
    and S3: "S3 = upd_room r (\<lambda>x. x\<lparr>r_seatUsed := (r_seatUsed x)[0 := True], r_everReserved := True, r_reservedSeats := 1\<rparr>)
        (snd (AllocRoom S))"
  shows "Inv (enter_seat i r 0 (S3\<lparr>openRooms := openRooms S3 @ [r_idx (room_at S3 r)]\<rparr>))"
    "takes_seat i r 0 S (enter_seat i r 0 (S3\<lparr>openRooms := openRooms S3 @ [r_idx (room_at S3 r)]\<rparr>))" "r_idx (room_at S3 r) = r"
proof -
  note I = InvD [OF inv]
  note L = last_free [OF I(4) fr r]
  define best where "best = least_loaded (workerCount S) (roomsPerWorker S)"
  have bw: "best < workerCount S" using wc by (simp add: best_def least_loaded_less)
  have A: "rooms (snd (AllocRoom S)) = upd_at r (\<lambda>x. (clear_room x)\<lparr>r_gameWorker := best\<rparr>) (rooms S)"
    "freeRooms (snd (AllocRoom S)) = butlast (freeRooms S)"
    "roomsPerWorker (snd (AllocRoom S)) = upd_at best (\<lambda>n. n + 1) (roomsPerWorker S)"
    "mail (snd (AllocRoom S)) = upd_at best (\<lambda>q. q @ [r]) (mail S)"
    "pool (snd (AllocRoom S)) = pool S" "openRooms (snd (AllocRoom S)) = openRooms S"
    "workerCount (snd (AllocRoom S)) = workerCount S" "myRooms (snd (AllocRoom S)) = myRooms S"
    "mySessions (snd (AllocRoom S)) = mySessions S"
    using AllocRoom_eqs [OF fr _ r, of best True 0] by (simp_all add: AllocRoom_def best_def)
  let ?c = "clear_room (room_at S r)"
  let ?e = "\<lparr>j_sessIdx = i, j_sessGen = gen (At S i), j_actorId = 0\<rparr>"
  let ?y = "?c\<lparr>r_gameWorker := best, r_seatUsed := (r_seatUsed ?c)[0 := True], r_everReserved := True,
     r_reservedSeats := 1, r_pendingJoin := [?e]\<rparr>"
  let ?S4 = "S3\<lparr>openRooms := openRooms S3 @ [r_idx (room_at S3 r)]\<rparr>" and ?S5 = "enter_seat i r 0 (S3\<lparr>openRooms := openRooms S3 @ [r_idx (room_at S3 r)]\<rparr>)"
  have c: "r_idx ?c = r" "r_pendingJoin ?c = []" "r_reservedSeats ?c = 0"
    using I(1) L(1) clear_room_books(2) by (simp_all add: rooms_ok_def clear_room_def)
  have ix: "idx (At S i) = i" using pool_okD(1) [OF I(6) i(1)] .
  have E: "pool ?S5 = upd_sess i (\<lambda>s. s\<lparr>inRoom := True, roomIdx := r, actorId := 0\<rparr>) (AddRef i (pool S))"
    "rooms ?S5 = (rooms S)[r := ?y]" "freeRooms ?S5 = butlast (freeRooms S)" "openRooms ?S5 = [r]"
    "workerCount ?S5 = workerCount S" "roomsPerWorker ?S5 = upd_at best (\<lambda>n. n + 1) (roomsPerWorker S)"
    "mail ?S5 = upd_at best (\<lambda>q. q @ [r]) (mail S)" "myRooms ?S5 = myRooms S" "mySessions ?S5 = mySessions S"
    using enter_seat_eqs [of i ?S4 r 0] i(1) ix L(1) c op by (simp_all add: S3 A upd_at_def)
  have live: "live ?S5 r' \<longleftrightarrow> r' = r \<or> live S r'" for r'
    using L by (auto simp: live_def E)
  have tr: "tab S r = Map.empty" "leaves S r = {}" using L(2) by (simp_all add: tab_def leaves_def)
  have k0: "0 < kRoomMembers" by (simp add: kRoomMembers_def)
  note e = seats_enter [OF clear_room_books(1) [of "room_at S r"] k0, of ?e]
  have cm: "memb (r_members ?c) = Map.empty" by (simp add: clear_room_def)
  have y: "room_ok ?y" "seat ?y = [0 \<mapsto> (i, gen (At S i))]"
    using e clear_room_books(4) [of "room_at S r"] by (simp_all add: room_ok_def seat_def c cm)
  have yy: "r_pendingLeave ?y = []" "r_idx ?y = r" "r_gameWorker ?y = best" "r_reservedSeats ?y = 1"
    using clear_room_books(3) c by simp_all
  have "lists_ok ?S5"
    unfolding lists_ok_def live using I(4) L yy(4) by (auto simp: E lists_ok_def kRoomMembers_def)
  moreover have "work_ok ?S5"
  proof (rule work_ok_place [OF I(5) L(2) bw live])
    have bl: "best < length (mail S)" "best < length (myRooms S)" using I(5) bw by (simp_all add: work_ok_def)
    show "mset (placed ?S5 best) = add_mset r (mset (placed S best))" using bl by (simp add: placed_def E)
    show "\<And>w'. w' \<noteq> best \<Longrightarrow> placed ?S5 w' = placed S w'" by (simp add: placed_def E)
    show "r_gameWorker (room_at ?S5 r) = best" using L(1) yy(3) unfolding E(2) by simp
  qed (simp_all add: E)
  moreover have "tab S r 0 = None" "seat ?y = (tab S r)(0 \<mapsto> (i, gen (At S i)))" "leave_tag ` set (r_pendingLeave ?y) = leaves S r"
    using y yy tr by simp_all
  ultimately have "Inv ?S5 \<and> tab ?S5 = (tab S)(r := (tab S r)(0 \<mapsto> (i, gen (At S i))))"
    using Inv_enter [OF inv i L(1) _ E(1,2,9) live] yy(2) y(1) by blast
  then show "Inv ?S5" "takes_seat i r 0 S ?S5"
    using E(1) k0 L(1) tr by (simp_all add: takes_seat_def)
  show "r_idx (room_at S3 r) = r" using L(1) c by (simp add: S3 A)
qed

text \<open>
  The two outcomes: no seat, when there is no worker or neither an open nor a free room, and
  then nothing changes; or a free seat, which the session takes.
\<close>

lemma Join_result:
  assumes inv: "Inv S" and i: "i < length (slots (pool S))" "refs (At S i) \<noteq> 0" "\<not> dead (At S i)" "\<not> inRoom (At S i)"
  shows "if workerCount S = 0 \<or> openRooms S = [] \<and> freeRooms S = [] then Join i S = (None, S)
    else \<exists>r k S'. Join i S = (Some (k, r), S') \<and> Inv S' \<and> takes_seat i r k S S'"
proof (cases "workerCount S = 0")
  case True
  then show ?thesis by (simp add: Join_def)
next
  case wc: False
  show ?thesis
  proof (cases "openRooms S = []")
    case True
    then have f: "find_open S = (None, S)" by (rule find_open_empty)
    show ?thesis
    proof (cases "freeRooms S = []")
      case True
      then show ?thesis using wc f \<open>openRooms S = []\<close> by (simp add: Join_def AllocRoom_def AllocRoom_none)
    next
      case False
      let ?r = "last (freeRooms S)"
      obtain S2 where A: "AllocRoom S = (Some ?r, S2)"
        using AllocRoom_eqs(1) [OF False refl refl, where mb = True and fw = 0] unfolding AllocRoom_def
        by (metis prod.collapse)
      define S3 where "S3 = upd_room ?r (\<lambda>x. x\<lparr>r_seatUsed := (r_seatUsed x)[0 := True], r_everReserved := True, r_reservedSeats := 1\<rparr>) S2"
      note N = Inv_Join_new [OF inv i wc False True refl, unfolded A snd_conv, OF S3_def]
      have "Join i S = (Some (0, r_idx (room_at S3 ?r)), enter_seat i ?r 0 (S3\<lparr>openRooms := openRooms S3 @ [r_idx (room_at S3 ?r)]\<rparr>))"
        using wc f A by (simp add: Join_def Let_def S3_def)
      then have "Join i S = (Some (0, ?r), enter_seat i ?r 0 (S3\<lparr>openRooms := openRooms S3 @ [r_idx (room_at S3 ?r)]\<rparr>))"
        using N(3) by simp
      then show ?thesis using N(1,2) wc False by auto
    qed
  next
    case False
    then obtain k S1 where f: "find_open S = (Some (last (openRooms S), k), S1)" "live S (last (openRooms S))"
      using find_open_found [OF inv False refl] by metis
    note N = Inv_Join_open [OF inv i f(1) False]
    have "r_idx (room_at S1 (last (openRooms S))) = last (openRooms S)"
      using find_open_idx [OF f(1)] room_liveD(3) [OF inv f(2)] by simp
    then have "Join i S = (Some (k, last (openRooms S)), enter_seat i (last (openRooms S)) k S1)"
      using f wc by (simp add: Join_def)
    then show ?thesis using N wc False by auto
  qed
qed

lemma Inv_Join:
  assumes inv: "Inv S" and i: "i < length (slots (pool S))" "refs (At S i) \<noteq> 0" "\<not> dead (At S i)" "\<not> inRoom (At S i)"
  shows "Inv (snd (Join i S))"
  using Join_result [OF assms] inv by (auto split: if_splits)

lemma Inv_PushInput: "Inv S \<Longrightarrow> Inv (PushInput i seq mx my a k S)"
proof -
  assume "Inv S"
  moreover have "same_acct S (PushInput i seq mx my a k S)"
    unfolding PushInput_def Let_def by (auto intro!: same_acct_then(2) same_acct_room simp: room_acct_def)
  ultimately show ?thesis using Inv_same by blast
qed

end
