(* ===== verification/Preserve_Queues.thy ===== *)
theory Preserve_Queues
  imports Preserve_Join
begin

text \<open>
  The invariant under \<open>ProcessRoomQueues\<close>. While the two queues are in the hands of the worker the
  invariant is stated with them put back (\<open>mid\<close>): the joins still to come count as seats, and of
  the leaves still to come those that still name a seat count as pending.
\<close>

section \<open>The invariant in the middle\<close>

definition named :: "(nat \<Rightarrow> tag option) \<Rightarrow> RoomLeaveEntry list \<Rightarrow> tag set" where
  "named f ls = {t \<in> leave_tag ` set ls. \<exists>k. f k = Some t}"

definition mid :: "nat \<Rightarrow> RoomJoinEntry list \<Rightarrow> RoomLeaveEntry list \<Rightarrow> ('r, 's) Server \<Rightarrow> bool" where
  "mid r js ls S \<longleftrightarrow> live S r \<and> (\<forall>r'<length (rooms S). r_idx (room_at S r') = r') \<and>
     (\<forall>r'. r' \<noteq> r \<longrightarrow> live S r' \<longrightarrow> room_ok (room_at S r') \<and> dom (seat (room_at S r')) \<noteq> {}) \<and>
     r_pendingJoin (room_at S r) = [] \<and> r_pendingLeave (room_at S r) = [] \<and>
     room_ok (with_joins js (room_at S r)) \<and>
     books_ok (pool S) ((tab S)(r := seat (with_joins js (room_at S r))))
       ((leaves S)(r := named (seat (with_joins js (room_at S r))) ls)) \<and>
     mine_ok (pool S) (mySessions S) \<and> lists_ok S \<and> work_ok S"

lemma seat_with_joins: "seat (with_joins js x) = pend js ++ memb (r_members x)"
  by (simp add: seat_def with_joins_def)

lemma room_ok_with_joins: "room_ok (with_joins js x) \<longleftrightarrow>
    seats_ok js (r_members x) (r_seatUsed x) (r_reservedSeats x) (r_memberCount x) \<and> r_everReserved x \<and> \<not> r_dead x"
  by (simp add: room_ok_def with_joins_def)

lemma with_joins_none: "r_pendingJoin x = [] \<Longrightarrow> with_joins [] x = x"
  by (simp add: with_joins_def)

lemma midD:
  assumes "mid r js ls S"
  shows "live S r" "r < length (rooms S)" "r_idx (room_at S r) = r"
    "seats_ok js (r_members (room_at S r)) (r_seatUsed (room_at S r)) (r_reservedSeats (room_at S r)) (r_memberCount (room_at S r))"
    "r_everReserved (room_at S r)" "\<not> r_dead (room_at S r)"
    "books_ok (pool S) ((tab S)(r := pend js ++ memb (r_members (room_at S r))))
       ((leaves S)(r := named (pend js ++ memb (r_members (room_at S r))) ls))"
    "mine_ok (pool S) (mySessions S)" "lists_ok S" "work_ok S" "pool_ok (pool S)"
  using assms books_okD(1) by (auto simp: mid_def room_ok_with_joins seat_with_joins live_def)

text \<open>A step of the processing: the room is updated in place, and the pool with it.\<close>

lemma mid_step:
  assumes m: "mid r js ls S" and S': "S' = (upd_room r f S)\<lparr>pool := p\<rparr>"
    and f: "r_idx (f (room_at S r)) = r_idx (room_at S r)" "r_gameWorker (f (room_at S r)) = r_gameWorker (room_at S r)"
      "r_pendingJoin (f (room_at S r)) = []" "r_pendingLeave (f (room_at S r)) = []"
      "r_reservedSeats (f (room_at S r)) \<le> r_reservedSeats (room_at S r)"
      "r_everReserved (f (room_at S r)) = r_everReserved (room_at S r)" "r_dead (f (room_at S r)) = r_dead (room_at S r)"
    and ok: "seats_ok js' (r_members (f (room_at S r))) (r_seatUsed (f (room_at S r))) (r_reservedSeats (f (room_at S r))) (r_memberCount (f (room_at S r)))"
    and books: "books_ok p ((tab S)(r := pend js' ++ memb (r_members (f (room_at S r)))))
       ((leaves S)(r := named (pend js' ++ memb (r_members (f (room_at S r)))) ls'))"
    and mine: "mine_ok p (mySessions S)"
  shows "mid r js' ls' S'"
proof -
  note D = midD [OF m]
  have room: "room_at S' r = f (room_at S r)" "\<And>r'. r' \<noteq> r \<Longrightarrow> room_at S' r' = room_at S r'" "length (rooms S') = length (rooms S)"
    using D(2) by (simp_all add: S')
  have fr: "freeRooms S' = freeRooms S" "openRooms S' = openRooms S" "mySessions S' = mySessions S" "pool S' = p"
    "workerCount S' = workerCount S" "roomsPerWorker S' = roomsPerWorker S" "mail S' = mail S" "myRooms S' = myRooms S"
    by (simp_all add: S')
  have live: "live S' = live S" by (simp add: live_def fun_eq_iff room(3) fr)
  have tab: "(tab S')(r := X) = (tab S)(r := X)" for X
    by (rule ext) (simp add: tab_def live room(2))
  have leaves: "(leaves S')(r := X) = (leaves S)(r := X)" for X
    by (rule ext) (simp add: leaves_def live room(2))
  have "lists_ok S'"
    using D(9) f(5) unfolding lists_ok_def live fr room(3)
    by (metis (no_types, lifting) dual_order.strict_trans2 le_less_trans room(1,2))
  moreover have "work_ok S'"
  proof -
    have "r_gameWorker (room_at S' r') = r_gameWorker (room_at S r')" for r'
      using f(2) room by (cases "r' = r") simp_all
    then show ?thesis using D(10) by (simp add: work_ok_def placed_def live fr)
  qed
  moreover have "r_idx (room_at S' r') = r'" if "r' < length (rooms S)" for r'
    using m f(1) room that by (cases "r' = r") (auto simp: mid_def)
  moreover have "\<forall>r'. r' \<noteq> r \<longrightarrow> live S' r' \<longrightarrow> room_ok (room_at S' r') \<and> dom (seat (room_at S' r')) \<noteq> {}"
    using m room(2) by (simp add: mid_def live)
  ultimately show ?thesis
    unfolding mid_def room_ok_with_joins seat_with_joins tab leaves live fr room(1,3)
    using D(1,5,6) f(3,4,6,7) ok books mine by simp
qed

lemma mine_dead:
  assumes "mine_ok p ms" "dead (slots p ! i)"
    and q: "length (slots q) = length (slots p)" "\<And>j. j \<noteq> i \<Longrightarrow> slots q ! j = slots p ! j"
    "dead (slots q ! i)" "owner (slots q ! i) = owner (slots p ! i)" "refs (slots p ! i) \<noteq> 0"
  shows "mine_ok q ms"
proof -
  let ?M = "\<lambda>p w'. {i. i < length (slots p) \<and> owner (slots p ! i) = w' \<and> \<not> dead (slots p ! i) \<and> refs (slots p ! i) \<noteq> 0}"
  have "?M q w' = ?M p w'" for w'
  proof (rule set_eqI)
    fix j show "j \<in> ?M q w' \<longleftrightarrow> j \<in> ?M p w'"
      using q(1,3) q(2) [of j] assms(2) by (cases "j = i") simp_all
  qed
  moreover have "if refs (slots q ! j) \<noteq> 0 then owner (slots q ! j) < length ms else dead (slots q ! j) \<or> fd (slots q ! j) = - 1"
    if "j < length (slots q)" for j
    using assms(1) that q(1,3,4,5) q(2) [of j] by (cases "j = i") (simp_all add: mine_ok_def)
  ultimately show ?thesis using assms(1) by (simp add: mine_ok_def)
qed

lemma mine_Release:
  assumes "mine_ok p ms" "i < length (slots p)" "dead (slots p ! i)" "refs (slots p ! i) \<noteq> 0"
  shows "mine_ok (Release i p) ms"
  by (rule mine_dead [OF assms(1,3)]) (use assms in \<open>simp_all add: slots_Release\<close>)

text \<open>Giving up the seat k of a dead session, in the tables.\<close>

lemma books_unseat_named:
  assumes ok: "books_ok p (T(r := f)) (L(r := named f ls))" and k: "f k = Some (i, g)" and d: "dead (slots p ! i)"
    and ls: "set ls' \<subseteq> set ls" "leave_tag ` set ls - {(i, g)} \<subseteq> leave_tag ` set ls'"
  shows "books_ok (Release i p) (T(r := f(k := None))) (L(r := named (f(k := None)) ls'))"
proof -
  have k': "(T(r := f)) r k = Some (i, g)" using k by simp
  have u: "k' = k" if "f k' = Some (i, g)" for k'
    using one_seat(2) [OF ok k', of r k' g] that by simp
  have "named (f(k := None)) ls' = named f ls - {(i, g)}"
  proof (rule set_eqI)
    fix t show "t \<in> named (f(k := None)) ls' \<longleftrightarrow> t \<in> named f ls - {(i, g)}"
    proof (cases "t = (i, g)")
      case True
      have "(f(k := None)) k' \<noteq> Some (i, g)" for k' using u [of k'] by auto
      then show ?thesis by (simp add: named_def True)
    next
      case False
      then have "(f(k := None)) k' = Some t \<longleftrightarrow> f k' = Some t" for k' using k by auto
      moreover have "t \<in> leave_tag ` set ls' \<longleftrightarrow> t \<in> leave_tag ` set ls" using ls False by blast
      ultimately show ?thesis using False by (simp add: named_def)
    qed
  qed
  then show ?thesis using books_unseat [OF ok k' d] by (simp only: fun_upd_upd fun_upd_same)
qed

section \<open>Joins\<close>

lemma mid_join:
  assumes m: "mid r (e # js) ls S"
  shows "mid r js ls (join_one r e S)"
proof -
  note D = midD [OF m]
  let ?x = "room_at S r" and ?k = "j_actorId e" and ?i = "j_sessIdx e" and ?g = "j_sessGen e"
  let ?f = "pend (e # js) ++ memb (r_members ?x)"
  have mk: "memb (r_members ?x) ?k = None" by (rule pend_memb_disjoint [OF D(4)]) simp
  have k: "?f ?k = Some (?i, ?g)" using mk by (simp add: map_add_def pend_Cons)
  have so: "seat_ok (pool S) ((leaves S)(r := named ?f ls)) r ?k (?i, ?g)"
    by (rule books_okD(3) [OF D(7)]) (use k in simp)
  note s = seat_okD [OF so]
  have pj: "r_pendingJoin ?x = []" "r_pendingLeave ?x = []" using m by (simp_all add: mid_def)
  show ?thesis
  proof (cases "dead (At S ?i)")
    case True
    note sk = seats_skip [OF D(4)]
    have J: "join_one r e S = (upd_room r (free_seat ?k) S)\<lparr>pool := Release ?i (pool S)\<rparr>"
      using True by (simp add: join_one_def Let_def)
    have fs: "r_members (free_seat ?k ?x) = r_members ?x" "r_seatUsed (free_seat ?k ?x) = (r_seatUsed ?x)[?k := False]"
      "r_reservedSeats (free_seat ?k ?x) = r_reservedSeats ?x - 1" "r_memberCount (free_seat ?k ?x) = r_memberCount ?x"
      by (simp_all add: free_seat_def)
    show ?thesis
    proof (rule mid_step [OF m J])
      show "seats_ok js (r_members (free_seat ?k ?x)) (r_seatUsed (free_seat ?k ?x)) (r_reservedSeats (free_seat ?k ?x)) (r_memberCount (free_seat ?k ?x))"
        unfolding fs by (rule sk(1))
      show "books_ok (Release ?i (pool S)) ((tab S)(r := pend js ++ memb (r_members (free_seat ?k ?x))))
         ((leaves S)(r := named (pend js ++ memb (r_members (free_seat ?k ?x))) ls))"
        unfolding fs sk(2) by (rule books_unseat_named [OF D(7) k True]) auto
      show "mine_ok (Release ?i (pool S)) (mySessions S)"
        by (rule mine_Release [OF D(8) s(1) True s(5)])
    qed (use pj in \<open>simp_all add: free_seat_def\<close>)
  next
    case False
    let ?m = "default_member\<lparr>m_used := True, m_sessIdx := ?i, m_sessGen := ?g, m_sessOwner := owner (At S ?i)\<rparr>"
    let ?F = "seat_member ?k ?i ?g (owner (At S ?i))"
    have J: "join_one r e S = (upd_room r ?F S)\<lparr>pool := pool S\<rparr>"
      using False s(2) by (simp add: join_one_def Let_def upd_room_def)
    note st = seats_seat [OF D(4), of ?m]
    have fs: "r_members (?F ?x) = (r_members ?x)[?k := ?m]" "r_seatUsed (?F ?x) = r_seatUsed ?x"
      "r_reservedSeats (?F ?x) = r_reservedSeats ?x" "r_memberCount (?F ?x) = r_memberCount ?x + 1"
      by (simp_all add: seat_member_def)
    show ?thesis
    proof (rule mid_step [OF m J])
      show "seats_ok js (r_members (?F ?x)) (r_seatUsed (?F ?x)) (r_reservedSeats (?F ?x)) (r_memberCount (?F ?x))"
        unfolding fs by (rule st(1)) simp_all
      have e: "pend js ++ memb (r_members (?F ?x)) = ?f" unfolding fs by (rule st(2)) simp_all
      show "books_ok (pool S) ((tab S)(r := pend js ++ memb (r_members (?F ?x))))
         ((leaves S)(r := named (pend js ++ memb (r_members (?F ?x))) ls))"
        unfolding e by (rule D(7))
    qed (use pj D(8) in \<open>simp_all add: seat_member_def\<close>)
  qed
qed

lemma mid_joins: "mid r (js @ js') ls S \<Longrightarrow> mid r js' ls (fold (join_one r) js S)"
  by (induction js arbitrary: S) (auto intro: mid_join)

section \<open>Leaves\<close>

lemma mid_leave:
  assumes m: "mid r [] (e # ls) S"
  shows "mid r [] ls (leave_one r e S)"
proof -
  note D = midD [OF m]
  let ?x = "room_at S r" and ?i = "l_sessIdx e" and ?g = "l_sessGen e"
  let ?P = "\<lambda>m. m_used m \<and> m_sessIdx m = l_sessIdx e \<and> m_sessGen m = l_sessGen e"
  let ?f = "pend [] ++ memb (r_members ?x)"
  have pj: "r_pendingJoin ?x = []" "r_pendingLeave ?x = []" using m by (simp_all add: mid_def)
  show ?thesis
  proof (cases "first_index ?P (r_members ?x)")
    case None
    then have none: "\<forall>m\<in>set (r_members ?x). \<not> ?P m" by (simp only: first_index_None)
    have "?f k \<noteq> Some (leave_tag e)" for k
      using none by (auto simp: memb_def leave_tag_def split: if_splits)
    then have "named ?f (e # ls) = named ?f ls" by (auto simp: named_def)
    then have "mid r [] ls S" using m by (simp add: mid_def seat_with_joins)
    then show ?thesis unfolding leave_one_def None by simp
  next
    case (Some k)
    from first_index_SomeD [OF Some] have k: "k < length (r_members ?x)" "?P (r_members ?x ! k)" by auto
    have kr: "k < kRoomMembers" using k(1) seats_okD(1) [OF D(4)] by simp
    have fk: "?f k = Some (?i, ?g)" using k by (simp add: memb_def)
    then have "(?i, ?g) \<in> named ?f (e # ls)" by (auto simp: named_def leave_tag_def)
    then have dead: "dead (At S ?i)" using books_okD(4) [OF D(7), of "(?i, ?g)" r] by simp
    have "seat_ok (pool S) ((leaves S)(r := named ?f (e # ls))) r k (?i, ?g)"
      by (rule books_okD(3) [OF D(7)]) (use fk in simp)
    note s = seat_okD [OF this]
    note lv = seats_leave [OF D(4) kr, of]
    have L: "leave_one r e S = (upd_room r (unseat_member k) S)\<lparr>pool := Release ?i (pool S)\<rparr>"
      using Some by (simp add: leave_one_def Let_def)
    have fs: "r_members (unseat_member k ?x) = upd_at k (\<lambda>m. m\<lparr>m_used := False\<rparr>) (r_members ?x)"
      "r_seatUsed (unseat_member k ?x) = (r_seatUsed ?x)[k := False]"
      "r_reservedSeats (unseat_member k ?x) = r_reservedSeats ?x - 1" "r_memberCount (unseat_member k ?x) = r_memberCount ?x - 1"
      by (simp_all add: unseat_member_def free_seat_def)
    show ?thesis
    proof (rule mid_step [OF m L])
      show "seats_ok [] (r_members (unseat_member k ?x)) (r_seatUsed (unseat_member k ?x))
          (r_reservedSeats (unseat_member k ?x)) (r_memberCount (unseat_member k ?x))"
        unfolding fs by (rule lv(1)) (use k in simp)
      have e: "pend [] ++ memb (r_members (unseat_member k ?x)) = ?f(k := None)"
        unfolding fs by (rule lv(2)) (use k in simp)
      show "books_ok (Release ?i (pool S)) ((tab S)(r := pend [] ++ memb (r_members (unseat_member k ?x))))
         ((leaves S)(r := named (pend [] ++ memb (r_members (unseat_member k ?x))) ls))"
        unfolding e by (rule books_unseat_named [OF D(7) fk dead]) (auto simp: leave_tag_def)
      show "mine_ok (Release ?i (pool S)) (mySessions S)"
        by (rule mine_Release [OF D(8) s(1) dead s(5)])
    qed (use pj in \<open>simp_all add: unseat_member_def free_seat_def\<close>)
  qed
qed

lemma mid_leaves: "mid r [] (ls @ ls') S \<Longrightarrow> mid r [] ls' (fold (leave_one r) ls S)"
  by (induction ls arbitrary: S) (auto intro: mid_leave)

section \<open>The queues as a whole\<close>

lemma mid_start:
  assumes inv: "Inv S" and r: "live S r"
  shows "mid r (r_pendingJoin (room_at S r)) (r_pendingLeave (room_at S r))
    (upd_room r (\<lambda>x. x\<lparr>r_pendingJoin := [], r_pendingLeave := []\<rparr>) S)"
proof -
  note I = InvD [OF inv] and R = room_liveD [OF inv r]
  let ?S = "upd_room r (\<lambda>x. x\<lparr>r_pendingJoin := [], r_pendingLeave := []\<rparr>) S" and ?x = "room_at S r"
  let ?js = "r_pendingJoin ?x" and ?ls = "r_pendingLeave ?x"
  have room: "room_at ?S r = ?x\<lparr>r_pendingJoin := [], r_pendingLeave := []\<rparr>" "\<And>r'. r' \<noteq> r \<Longrightarrow> room_at ?S r' = room_at S r'"
    using R(4) by simp_all
  have live: "live ?S = live S" by (simp add: live_def fun_eq_iff)
  have sw: "seat (with_joins ?js (room_at ?S r)) = tab S r"
    unfolding room(1) seat_with_joins using r by (simp add: tab_def seat_def)
  have tab: "(tab ?S)(r := tab S r) = tab S"
    by (rule ext) (simp add: tab_def live room(2))
  have nm: "named (tab S r) ?ls = leaves S r"
  proof -
    have "leaves S r = leave_tag ` set ?ls" using r by (simp add: leaves_def)
    moreover have "\<exists>k. tab S r k = Some t" if "t \<in> leaves S r" for t
      using books_okD(4) [OF I(2) that] by blast
    ultimately show ?thesis unfolding named_def by blast
  qed
  have leaves: "(leaves ?S)(r := leaves S r) = leaves S"
    by (rule ext) (simp add: leaves_def live room(2))
  have gw: "r_gameWorker (room_at ?S r') = r_gameWorker (room_at S r')" for r'
    using room by (cases "r' = r") simp_all
  have "work_ok ?S" using I(5) gw by (simp add: work_ok_def placed_def live)
  moreover have rs: "r_reservedSeats (room_at ?S r') = r_reservedSeats (room_at S r')" for r'
    using room by (cases "r' = r") simp_all
  then have "lists_ok ?S" using I(4) by (simp add: lists_ok_def live del: rooms_upd_room) simp
  moreover have "r_idx (room_at ?S r') = r'" if "r' < length (rooms S)" for r'
    using I(1) room that by (cases "r' = r") (auto simp: rooms_ok_def)
  moreover have "\<forall>r'. r' \<noteq> r \<longrightarrow> live S r' \<longrightarrow> room_ok (room_at ?S r') \<and> dom (seat (room_at ?S r')) \<noteq> {}"
    using I(1) room(2) by (simp add: rooms_ok_def)
  moreover have "room_ok (with_joins ?js (room_at ?S r))"
    unfolding room_ok_with_joins room(1) using R(1,5) by (simp add: room_ok_def)
  ultimately show ?thesis
    unfolding mid_def sw tab nm leaves live using r room(1) I(2,3) by simp
qed

lemma apply_queues_mid:
  assumes "Inv S" "live S r"
  shows "mid r [] [] (apply_queues r S)"
proof -
  have "mid r (r_pendingJoin (room_at S r) @ []) (r_pendingLeave (room_at S r))
    (upd_room r (\<lambda>x. x\<lparr>r_pendingJoin := [], r_pendingLeave := []\<rparr>) S)"
    using mid_start [OF assms] by simp
  from mid_joins [OF this] have "mid r [] (r_pendingLeave (room_at S r) @ []) (fold (join_one r) (r_pendingJoin (room_at S r))
      (upd_room r (\<lambda>x. x\<lparr>r_pendingJoin := [], r_pendingLeave := []\<rparr>) S))" by simp
  from mid_leaves [OF this] show ?thesis by (simp add: apply_queues_def Let_def)
qed

lemma mid_endD:
  assumes "mid r [] [] S"
  shows "tab S r = seat (room_at S r)" "leaves S r = {}" "books_ok (pool S) (tab S) (leaves S)"
    "room_ok (room_at S r)" "r_pendingJoin (room_at S r) = []" "r_pendingLeave (room_at S r) = []"
    "seat (room_at S r) = memb (r_members (room_at S r))"
proof -
  have pj: "r_pendingJoin (room_at S r) = []" "r_pendingLeave (room_at S r) = []" and l: "live S r"
    using assms by (simp_all add: mid_def)
  then show "r_pendingJoin (room_at S r) = []" "r_pendingLeave (room_at S r) = []" by simp_all
  show t: "tab S r = seat (room_at S r)" using l by (simp add: tab_def)
  show lv: "leaves S r = {}" using l pj by (simp add: leaves_def)
  have w: "with_joins [] (room_at S r) = room_at S r" using pj(1) by (rule with_joins_none)
  have "(tab S)(r := seat (room_at S r)) = tab S" "(leaves S)(r := named (seat (room_at S r)) []) = leaves S"
    using t lv by (auto simp: fun_eq_iff named_def)
  then show "books_ok (pool S) (tab S) (leaves S)" using assms w by (simp add: mid_def)
  show "room_ok (room_at S r)" using assms w by (simp add: mid_def)
  show "seat (room_at S r) = memb (r_members (room_at S r))" by (simp add: seat_def pj)
qed

lemma Process_stays:
  assumes inv: "Inv S" and r: "live S r" and p: "ProcessRoomQueues r S = (False, S1)"
  shows "Inv S1" "live S1 r" "leaves S1 r = {}" "r_pendingJoin (room_at S1 r) = []"
    "S1 = apply_queues r S"
proof -
  have S1: "S1 = apply_queues r S" "\<not> room_empty (room_at S1 r)"
    using p by (auto simp: ProcessRoomQueues_def Let_def split: if_splits)
  then show "S1 = apply_queues r S" by simp
  have m: "mid r [] [] S1" using apply_queues_mid [OF inv r] S1(1) by simp
  note E = mid_endD [OF m] and D = midD [OF m]
  show "live S1 r" "leaves S1 r = {}" "r_pendingJoin (room_at S1 r) = []" using D(1) E by simp_all
  have "dom (seat (room_at S1 r)) \<noteq> {}"
  proof
    assume "dom (seat (room_at S1 r)) = {}"
    then have "r_reservedSeats (room_at S1 r) = 0" using E(4) by (simp add: room_ok_def seats_ok_def seat_def)
    then have "room_empty (room_at S1 r)" using E(4,5) by (simp add: room_empty_def room_ok_def)
    then show False using S1(2) by blast
  qed
  then have "rooms_ok S1" using m E(4) by (auto simp: rooms_ok_def mid_def)
  then show "Inv S1" using E(3) D(8-10) by (simp add: Inv_def)
qed

text \<open>The processing leaves the lists of rooms and the workers of the rooms alone.\<close>

lemma apply_queues_lists:
  fixes S S0 :: "('r, 's) Server"
  assumes S0: "S0 = apply_queues r S"
  shows "freeRooms S0 = freeRooms S" "workerCount S0 = workerCount S" "mail S0 = mail S" "myRooms S0 = myRooms S"
    "length (rooms S0) = length (rooms S)" "roomsPerWorker S0 = roomsPerWorker S" "mySessions S0 = mySessions S"
    "r' < length (rooms S) \<Longrightarrow> r_gameWorker (room_at S0 r') = r_gameWorker (room_at S r')"
proof -
  define same where "same S' \<longleftrightarrow> freeRooms S' = freeRooms S \<and> workerCount S' = workerCount S \<and> mail S' = mail S \<and> myRooms S' = myRooms S
    \<and> map r_gameWorker (rooms S') = map r_gameWorker (rooms S) \<and> roomsPerWorker S' = roomsPerWorker S \<and> mySessions S' = mySessions S"
    for S' :: "('r, 's) Server"
  have room: "same S' \<Longrightarrow> (\<And>x. r_gameWorker (f x) = r_gameWorker x) \<Longrightarrow> same ((upd_room r f S')\<lparr>pool := p\<rparr>)" for S' f p
    by (simp add: same_def map_upd_at_id)
  have room': "same S' \<Longrightarrow> (\<And>x. r_gameWorker (f x) = r_gameWorker x) \<Longrightarrow> same (upd_room r f S')" for S' f
    by (simp add: same_def map_upd_at_id)
  have "same S' \<Longrightarrow> same (join_one r e S')" for S' e
    by (simp add: join_one_def Let_def room room' free_seat_def seat_member_def)
  then have j: "same S' \<Longrightarrow> same (fold (join_one r) js S')" for S' js
    by (induction js arbitrary: S') simp_all
  have "same S' \<Longrightarrow> same (leave_one r e S')" for S' e
    by (simp add: leave_one_def Let_def room free_seat_def unseat_member_def split: option.splits)
  then have l: "same S' \<Longrightarrow> same (fold (leave_one r) ls S')" for S' ls
    by (induction ls arbitrary: S') simp_all
  have "same S0" unfolding S0 apply_queues_def Let_def by (intro l j room') (simp_all add: same_def)
  then have s: "freeRooms S0 = freeRooms S" "workerCount S0 = workerCount S" "mail S0 = mail S" "myRooms S0 = myRooms S"
    "map r_gameWorker (rooms S0) = map r_gameWorker (rooms S)" "roomsPerWorker S0 = roomsPerWorker S" "mySessions S0 = mySessions S"
    by (simp_all add: same_def)
  show "length (rooms S0) = length (rooms S)" using s(5) by (rule map_eq_imp_length_eq)
  then show "r' < length (rooms S) \<Longrightarrow> r_gameWorker (room_at S0 r') = r_gameWorker (room_at S r')"
    using map_eq_nth [OF s(5), of r'] by simp
  show "freeRooms S0 = freeRooms S" "workerCount S0 = workerCount S" "mail S0 = mail S" "myRooms S0 = myRooms S"
    "roomsPerWorker S0 = roomsPerWorker S" "mySessions S0 = mySessions S" using s by simp_all
qed

text \<open>
  A room that dies: it is off the open list and back on the free stack; only the worker's own
  list still has it, which the caller repairs.
\<close>

lemma Process_dies:
  assumes inv: "Inv S" and r: "live S r" and p: "ProcessRoomQueues r S = (True, S1)"
  shows "rooms_ok S1" "books_ok (pool S1) (tab S1) (leaves S1)" "mine_ok (pool S1) (mySessions S1)" "lists_ok S1"
    "live S1 r' \<longleftrightarrow> live S r' \<and> r' \<noteq> r"
    "r' < length (rooms S) \<Longrightarrow> r_gameWorker (room_at S1 r') = r_gameWorker (room_at S r')"
    "workerCount S1 = workerCount S" "mail S1 = mail S" "myRooms S1 = myRooms S" "length (rooms S1) = length (rooms S)"
    "roomsPerWorker S1 = upd_at (r_gameWorker (room_at S r)) (\<lambda>n. n - 1) (roomsPerWorker S)"
    "freeRooms S1 = freeRooms S @ [r]" "mySessions S1 = mySessions S"
proof -
  define S0 where "S0 = apply_queues r S"
  have m: "mid r [] [] S0" using apply_queues_mid [OF inv r] by (simp add: S0_def)
  note E = mid_endD [OF m] and D = midD [OF m]
  let ?x = "room_at S0 r"
  have emp: "room_empty ?x" and S1: "S1 = FreeRoomIfDrained r
      ((upd_room r (\<lambda>x. x\<lparr>r_dead := True\<rparr>) S0)\<lparr>roomsPerWorker := upd_at (r_gameWorker ?x) (\<lambda>n. n - 1) (roomsPerWorker S0),
         openRooms := swap_remove r (openRooms S0)\<rparr>)"
    using p D(2,3) by (auto simp: ProcessRoomQueues_def Let_def S0_def [symmetric] split: if_splits)
  have F: "rooms S1 = (rooms S0)[r := ?x\<lparr>r_dead := True, r_gen := r_gen ?x + 1\<rparr>]" "freeRooms S1 = freeRooms S0 @ [r]"
    "openRooms S1 = swap_remove r (openRooms S0)" "pool S1 = pool S0" "workerCount S1 = workerCount S0"
    "roomsPerWorker S1 = upd_at (r_gameWorker ?x) (\<lambda>n. n - 1) (roomsPerWorker S0)" "mail S1 = mail S0"
    "myRooms S1 = myRooms S0" "mySessions S1 = mySessions S0"
    using D(2,3) by (simp_all add: S1 FreeRoomIfDrained_def Let_def upd_at_def)
  have frame: "freeRooms S0 = freeRooms S" "workerCount S0 = workerCount S" "mail S0 = mail S" "myRooms S0 = myRooms S"
    "length (rooms S0) = length (rooms S)" "roomsPerWorker S0 = roomsPerWorker S" "mySessions S0 = mySessions S"
    "r' < length (rooms S) \<Longrightarrow> r_gameWorker (room_at S0 r') = r_gameWorker (room_at S r')" for r'
    by (rule apply_queues_lists [OF S0_def], assumption?)+
  show live1: "live S1 r' \<longleftrightarrow> live S r' \<and> r' \<noteq> r" for r'
    by (auto simp: live_def F frame)
  have seat0: "seat ?x = Map.empty"
  proof -
    have "r_reservedSeats ?x = 0" using emp by (simp add: room_empty_def)
    then have "card (dom (seat ?x)) = 0" using E(4) by (simp add: room_ok_def seats_ok_def seat_def)
    then show ?thesis using seats_dom(2) [OF D(4)] E(5) by (simp add: seat_def)
  qed
  have live0: "live S0 = live S" by (simp add: live_def fun_eq_iff frame)
  have tab: "tab S1 = tab S0"
    by (rule ext) (simp add: tab_def live1 live0 F(1) r seat0)
  have leaves: "leaves S1 = leaves S0"
    by (rule ext) (use E(6) in \<open>simp add: leaves_def live1 live0 F(1) r\<close>)
  show "rooms_ok S1"
    using m D(2) by (auto simp: rooms_ok_def mid_def live1 live0 F(1) nth_list_update)
  show "books_ok (pool S1) (tab S1) (leaves S1)" unfolding tab leaves F(4) by (rule E(3))
  show "mine_ok (pool S1) (mySessions S1)" using D(8) by (simp add: F)
  have od: "distinct (openRooms S0)" using D(9) by (simp add: lists_ok_def)
  show "lists_ok S1"
    using D(1,2,9) unfolding lists_ok_def live1 F(3)
    by (auto simp: F(1,2) set_swap_remove [OF od] live0 live_def [of S] frame(1,5))
  show "r' < length (rooms S) \<Longrightarrow> r_gameWorker (room_at S1 r') = r_gameWorker (room_at S r')"
    using D(2) frame(8) [of r'] by (cases "r' = r") (simp_all add: F(1))
  show "workerCount S1 = workerCount S" "mail S1 = mail S" "myRooms S1 = myRooms S" "length (rooms S1) = length (rooms S)"
    "roomsPerWorker S1 = upd_at (r_gameWorker (room_at S r)) (\<lambda>n. n - 1) (roomsPerWorker S)"
    "freeRooms S1 = freeRooms S @ [r]" "mySessions S1 = mySessions S"
    using D(2) frame(5,8) by (simp_all add: F frame(1-7))
qed

end
