(* ===== verification/Preserve_Move.thy ===== *)
theory Preserve_Move
  imports Preserve_Queues
begin

text \<open>
  The invariant under a room move (\<open>TransferRoom\<close>): the members, the pending joins and the pending
  leaves of the old room arrive at the new one, the sessions follow, and the old room is free.
\<close>

section \<open>The members\<close>

definition same_lists :: "('r, 's) Server \<Rightarrow> ('r, 's) Server \<Rightarrow> bool" where
  "same_lists S S' \<longleftrightarrow> freeRooms S' = freeRooms S \<and> openRooms S' = openRooms S \<and> workerCount S' = workerCount S \<and>
     roomsPerWorker S' = roomsPerWorker S \<and> mail S' = mail S \<and> myRooms S' = myRooms S \<and> mySessions S' = mySessions S"

text \<open>Sessions whose tag f names are redirected to room nr.\<close>

definition redirected :: "nat \<Rightarrow> (nat \<Rightarrow> tag option) \<Rightarrow> ('r, 's) SessionPool \<Rightarrow> ('r, 's) SessionPool \<Rightarrow> bool" where
  "redirected nr f p q \<longleftrightarrow> length (slots q) = length (slots p) \<and> sfree q = sfree p \<and>
     (\<forall>j<length (slots p). slots q ! j = (if \<exists>k. f k = Some (j, gen (slots p ! j))
        then (slots p ! j)\<lparr>roomIdx := nr\<rparr> else slots p ! j))"

lemma redirected_none: "redirected nr Map.empty p p"
  by (simp add: redirected_def)

lemma redirected_add:
  assumes "redirected nr f p q" "k \<notin> dom f" "i < length (slots p)" "gen (slots p ! i) = g"
  shows "redirected nr (f(k \<mapsto> (i, g))) p (upd_sess i (\<lambda>s. s\<lparr>roomIdx := nr\<rparr>) q)"
  unfolding redirected_def
proof (intro conjI allI impI)
  show "length (slots (upd_sess i (\<lambda>s. s\<lparr>roomIdx := nr\<rparr>) q)) = length (slots p)"
    "sfree (upd_sess i (\<lambda>s. s\<lparr>roomIdx := nr\<rparr>) q) = sfree p"
    using assms(1) by (simp_all add: redirected_def)
  fix j assume j: "j < length (slots p)"
  have fk: "f k = None" using assms(2) by (metis domIff)
  have q: "slots q ! j = (if \<exists>k. f k = Some (j, gen (slots p ! j)) then (slots p ! j)\<lparr>roomIdx := nr\<rparr> else slots p ! j)"
    and l: "length (slots q) = length (slots p)"
    using assms(1) j by (simp_all add: redirected_def)
  show "slots (upd_sess i (\<lambda>s. s\<lparr>roomIdx := nr\<rparr>) q) ! j =
      (if \<exists>k'. (f(k \<mapsto> (i, g))) k' = Some (j, gen (slots p ! j)) then (slots p ! j)\<lparr>roomIdx := nr\<rparr> else slots p ! j)"
  proof (cases "j = i")
    case True
    have "\<exists>k'. (f(k \<mapsto> (i, g))) k' = Some (j, gen (slots p ! j))"
      by (rule exI [of _ k]) (simp add: True assms(4))
    then show ?thesis using q l assms(3) True by (simp add: slots_upd_sess)
  next
    case False
    have "(\<exists>k'. (f(k \<mapsto> (i, g))) k' = Some (j, gen (slots p ! j))) \<longleftrightarrow> (\<exists>k'. f k' = Some (j, gen (slots p ! j)))"
      using False fk by (metis fun_upd_apply option.distinct(1) option.inject prod.inject)
    then show ?thesis using q False by simp
  qed
qed

lemma redirected_gen: "redirected nr f p q \<Longrightarrow> i < length (slots p) \<Longrightarrow> gen (slots q ! i) = gen (slots p ! i)"
  by (simp add: redirected_def)

text \<open>The state after the first n members have been carried over.\<close>

definition carried :: "nat \<Rightarrow> nat \<Rightarrow> nat \<Rightarrow> ('r, 's) Server \<Rightarrow> ('r, 's) Server \<Rightarrow> bool" where
  "carried old nr n S S' \<longleftrightarrow> same_lists S S' \<and> length (rooms S') = length (rooms S) \<and>
     (\<forall>r. r \<noteq> old \<longrightarrow> r \<noteq> nr \<longrightarrow> room_at S' r = room_at S r) \<and>
     (\<exists>ms w. room_at S' nr = (room_at S nr)\<lparr>r_members := ms, r_world := w\<rparr> \<and> length ms = kRoomMembers \<and>
        (\<forall>k<kRoomMembers. ms ! k = (if k < n \<and> m_used (r_members (room_at S old) ! k)
            then r_members (room_at S old) ! k else r_members (room_at S nr) ! k))) \<and>
     (\<exists>ms. room_at S' old = (room_at S old)\<lparr>r_members := ms\<rparr> \<and> length ms = kRoomMembers \<and>
        (\<forall>k<kRoomMembers. n \<le> k \<longrightarrow> ms ! k = r_members (room_at S old) ! k)) \<and>
     redirected nr (memb (take n (r_members (room_at S old)))) (pool S) (pool S')"

lemma memb_take_Suc:
  assumes "n < length ms"
  shows "memb (take (Suc n) ms) = (if m_used (ms ! n) then (memb (take n ms))(n \<mapsto> (m_sessIdx (ms ! n), m_sessGen (ms ! n)))
    else memb (take n ms))"
  using assms by (auto simp: memb_def fun_eq_iff less_Suc_eq)

lemma carried_step:
  assumes c: "carried old nr n S S'" and n: "n < kRoomMembers"
    and ne: "nr \<noteq> old" and len: "old < length (rooms S)" "nr < length (rooms S)" "length (r_members (room_at S old)) = kRoomMembers"
    and ix: "r_idx (room_at S nr) = nr"
    and tags: "\<And>k i g. memb (r_members (room_at S old)) k = Some (i, g) \<Longrightarrow> i < length (slots (pool S)) \<and> gen (At S i) = g"
  shows "carried old nr (Suc n) S (carry_member old nr n S')"
proof -
  let ?om = "r_members (room_at S old) ! n"
  obtain ms w where nrm: "room_at S' nr = (room_at S nr)\<lparr>r_members := ms, r_world := w\<rparr>" "length ms = kRoomMembers"
    "\<And>k. k < kRoomMembers \<Longrightarrow> ms ! k = (if k < n \<and> m_used (r_members (room_at S old) ! k)
            then r_members (room_at S old) ! k else r_members (room_at S nr) ! k)"
    using c by (auto simp: carried_def)
  obtain os where oldm: "room_at S' old = (room_at S old)\<lparr>r_members := os\<rparr>" "length os = kRoomMembers"
    "\<And>k. k < kRoomMembers \<Longrightarrow> n \<le> k \<Longrightarrow> os ! k = r_members (room_at S old) ! k"
    using c by (auto simp: carried_def)
  have rest: "same_lists S S'" "length (rooms S') = length (rooms S)"
    "\<And>r. r \<noteq> old \<Longrightarrow> r \<noteq> nr \<Longrightarrow> room_at S' r = room_at S r"
    and red: "redirected nr (memb (take n (r_members (room_at S old)))) (pool S) (pool S')"
    using c by (simp_all add: carried_def)
  have om: "r_members (room_at S' old) ! n = ?om" using oldm(3) [OF n] by (simp add: oldm(1))
  show ?thesis
  proof (cases "m_used ?om")
    case False
    have "(if k < Suc n \<and> m_used (r_members (room_at S old) ! k) then a else b) =
        (if k < n \<and> m_used (r_members (room_at S old) ! k) then a else b)" for k and a b :: Member
      using False by (auto simp: less_Suc_eq)
    then have "carried old nr (Suc n) S S'"
      using c False len(3) n by (auto simp: carried_def memb_take_Suc)
    then show ?thesis using False om by (simp add: carry_member_def)
  next
    case True
    let ?i = "m_sessIdx ?om"
    have tag: "?i < length (slots (pool S))" "gen (At S ?i) = m_sessGen ?om"
      using tags [of n] True n len(3) by (simp_all add: memb_def)
    let ?S2 = "upd_room old (upd_member n (\<lambda>m. m\<lparr>m_used := False\<rparr>)) (upd_room nr (take_member n ?om) S')"
    have g: "gen (At ?S2 ?i) = m_sessGen ?om" using redirected_gen [OF red tag(1)] tag(2) by simp
    have ix2: "r_idx (room_at ?S2 nr) = nr"
      using ne len rest(2) ix by (simp add: nrm(1) take_member_def)
    have C: "carry_member old nr n S' = upd_session ?i (\<lambda>s. s\<lparr>roomIdx := nr\<rparr>) ?S2"
      using True om g ix2 by (simp add: carry_member_def Let_def)
    have nr2: "room_at (carry_member old nr n S') nr = take_member n ?om (room_at S' nr)"
      and old2: "room_at (carry_member old nr n S') old = upd_member n (\<lambda>m. m\<lparr>m_used := False\<rparr>) (room_at S' old)"
      and oth: "\<And>r. r \<noteq> old \<Longrightarrow> r \<noteq> nr \<Longrightarrow> room_at (carry_member old nr n S') r = room_at S' r"
      using ne len rest(2) by (simp_all add: C)
    have "\<exists>ms w. room_at (carry_member old nr n S') nr = (room_at S nr)\<lparr>r_members := ms, r_world := w\<rparr> \<and> length ms = kRoomMembers \<and>
        (\<forall>k<kRoomMembers. ms ! k = (if k < Suc n \<and> m_used (r_members (room_at S old) ! k)
            then r_members (room_at S old) ! k else r_members (room_at S nr) ! k))"
      using nrm(2,3) n True
      by (intro exI [of _ "ms[n := ?om]"] exI [of _ "w\<lparr>w_actors := upd_at n (spawn_player n) (w_actors w)\<rparr>"])
        (auto simp: nr2 nrm(1) take_member_def nth_list_update less_Suc_eq)
    moreover have "\<exists>ms. room_at (carry_member old nr n S') old = (room_at S old)\<lparr>r_members := ms\<rparr> \<and> length ms = kRoomMembers \<and>
        (\<forall>k<kRoomMembers. Suc n \<le> k \<longrightarrow> ms ! k = r_members (room_at S old) ! k)"
      using oldm(2,3)
      by (intro exI [of _ "upd_at n (\<lambda>m. m\<lparr>m_used := False\<rparr>) os"]) (auto simp: old2 oldm(1) upd_member_def)
    moreover have "redirected nr (memb (take (Suc n) (r_members (room_at S old)))) (pool S) (pool (carry_member old nr n S'))"
    proof -
      have "redirected nr ((memb (take n (r_members (room_at S old))))(n \<mapsto> (?i, m_sessGen ?om))) (pool S)
          (upd_sess ?i (\<lambda>s. s\<lparr>roomIdx := nr\<rparr>) (pool S'))"
        by (rule redirected_add [OF red _ tag]) (auto simp: memb_def split: if_splits)
      then show ?thesis using True n len(3) by (simp add: memb_take_Suc C)
    qed
    moreover have "same_lists S (carry_member old nr n S')" using rest(1) by (simp add: same_lists_def C)
    ultimately show ?thesis using rest(2,3) oth by (simp add: carried_def) (simp add: C)
  qed
qed

lemma carried_all:
  assumes ne: "nr \<noteq> old" and len: "old < length (rooms S)" "nr < length (rooms S)" "length (r_members (room_at S old)) = kRoomMembers"
    "length (r_members (room_at S nr)) = kRoomMembers"
    and ix: "r_idx (room_at S nr) = nr"
    and tags: "\<And>k i g. memb (r_members (room_at S old)) k = Some (i, g) \<Longrightarrow> i < length (slots (pool S)) \<and> gen (At S i) = g"
    and n: "n \<le> kRoomMembers"
  shows "carried old nr n S (fold (carry_member old nr) [0..<n] S)"
  using n
proof (induction n)
  case 0
  have "memb [] = Map.empty" by (auto simp: memb_def)
  then have "redirected nr (memb (take 0 (r_members (room_at S old)))) (pool S) (pool S)" by (simp add: redirected_none)
  moreover have "\<exists>ms w. room_at S nr = (room_at S nr)\<lparr>r_members := ms, r_world := w\<rparr> \<and> length ms = kRoomMembers \<and>
        (\<forall>k<kRoomMembers. ms ! k = r_members (room_at S nr) ! k)"
    using len by (intro exI [of _ "r_members (room_at S nr)"] exI [of _ "r_world (room_at S nr)"]) simp
  moreover have "\<exists>ms. room_at S old = (room_at S old)\<lparr>r_members := ms\<rparr> \<and> length ms = kRoomMembers \<and>
        (\<forall>k<kRoomMembers. ms ! k = r_members (room_at S old) ! k)"
    using len by (intro exI [of _ "r_members (room_at S old)"]) simp
  ultimately show ?case by (simp add: carried_def same_lists_def)
next
  case (Suc n)
  then show ?case using carried_step [OF _ _ ne len(1-3) ix tags, of n] by simp
qed

section \<open>The seats of the members\<close>

lemma reserve_members_seats:
  assumes "length (r_members x) = kRoomMembers" "r_seatUsed x = replicate kRoomMembers False" "r_reservedSeats x = 0"
  shows "\<exists>su rs. reserve_members x = x\<lparr>r_everReserved := True, r_seatUsed := su, r_reservedSeats := rs\<rparr> \<and>
    seats_ok [] (r_members x) su rs (int (card (dom (memb (r_members x)))))"
proof -
  let ?ms = "r_members x"
  let ?f = "\<lambda>k x. if m_used (r_members x ! k)
                then x\<lparr>r_seatUsed := (r_seatUsed x)[k := True], r_reservedSeats := r_reservedSeats x + 1\<rparr> else x"
  have "\<exists>su rs. fold ?f [0..<n] (x\<lparr>r_everReserved := True\<rparr>) = x\<lparr>r_everReserved := True, r_seatUsed := su, r_reservedSeats := rs\<rparr> \<and>
      length su = kRoomMembers \<and> (\<forall>k<kRoomMembers. su ! k \<longleftrightarrow> k < n \<and> m_used (?ms ! k)) \<and>
      rs = int (card {k. k < n \<and> m_used (?ms ! k)})" if "n \<le> kRoomMembers" for n
    using that
  proof (induction n)
    case 0
    then show ?case using assms
      by (intro exI [of _ "replicate kRoomMembers False"] exI [of _ 0]) simp
  next
    case (Suc n)
    then obtain su rs where IH: "fold ?f [0..<n] (x\<lparr>r_everReserved := True\<rparr>) = x\<lparr>r_everReserved := True, r_seatUsed := su, r_reservedSeats := rs\<rparr>"
      "length su = kRoomMembers" "\<forall>k<kRoomMembers. su ! k \<longleftrightarrow> k < n \<and> m_used (?ms ! k)"
      "rs = int (card {k. k < n \<and> m_used (?ms ! k)})" by auto
    have c: "{k. k < Suc n \<and> m_used (?ms ! k)} = (if m_used (?ms ! n) then insert n {k. k < n \<and> m_used (?ms ! k)} else {k. k < n \<and> m_used (?ms ! k)})"
      by (auto simp: less_Suc_eq)
    show ?case
    proof (cases "m_used (?ms ! n)")
      case True
      have "(\<forall>k<kRoomMembers. su[n := True] ! k \<longleftrightarrow> k < Suc n \<and> m_used (?ms ! k))"
        using IH(2,3) Suc.prems True by (auto simp: nth_list_update less_Suc_eq)
      then show ?thesis using IH c True
        by (intro exI [of _ "su[n := True]"] exI [of _ "rs + 1"]) simp
    next
      case False
      have "(\<forall>k<kRoomMembers. su ! k \<longleftrightarrow> k < Suc n \<and> m_used (?ms ! k))"
        using IH(3) False by (auto simp: less_Suc_eq)
      then show ?thesis using IH c False by (intro exI [of _ su] exI [of _ rs]) simp
    qed
  qed
  from this [OF order_refl] obtain su rs where R: "reserve_members x = x\<lparr>r_everReserved := True, r_seatUsed := su, r_reservedSeats := rs\<rparr>"
      "length su = kRoomMembers" "\<forall>k<kRoomMembers. su ! k \<longleftrightarrow> k < kRoomMembers \<and> m_used (?ms ! k)"
      "rs = int (card {k. k < kRoomMembers \<and> m_used (?ms ! k)})"
    unfolding reserve_members_def by auto
  have d: "dom (memb ?ms) = {k. k < kRoomMembers \<and> m_used (?ms ! k)}"
    using assms(1) by (auto simp: memb_def split: if_splits)
  have m: "memb ?ms k \<noteq> None \<longleftrightarrow> m_used (?ms ! k)" if "k < kRoomMembers" for k
    using assms(1) that by (simp add: memb_def)
  have "seats_ok [] ?ms su rs (int (card (dom (memb ?ms))))"
    unfolding seats_ok_def using R(2,3,4) assms(1) m by (simp add: d)
  then show ?thesis using R(1) by blast
qed

section \<open>The pending joins\<close>

lemma put_back: "r_pendingJoin x = [] \<Longrightarrow>
    x\<lparr>r_pendingJoin := [], r_seatUsed := r_seatUsed x, r_reservedSeats := r_reservedSeats x\<rparr> = x"
  by (cases x) simp

lemma carry_joins:
  assumes ok: "seats_ok js0 (r_members x) su0 rs0 mc0"
    and nr: "nr < length (rooms S)" "room_at S nr = x" "r_idx x = nr" "r_pendingJoin x = []"
    and base: "seats_ok [] (r_members x) (r_seatUsed x) (r_reservedSeats x) mc"
    and tags: "\<forall>e\<in>set js0. j_sessIdx e < length (slots p) \<and> gen (slots p ! j_sessIdx e) = j_sessGen e"
    and red: "redirected nr (memb (r_members x)) p (pool S)"
    and js: "js0 = js @ js'"
  shows "\<exists>su rs. same_lists S (fold (carry_join nr) js S) \<and>
    rooms (fold (carry_join nr) js S) = (rooms S)[nr := x\<lparr>r_pendingJoin := js, r_seatUsed := su, r_reservedSeats := rs\<rparr>] \<and>
    seats_ok js (r_members x) su rs mc \<and>
    redirected nr (pend js ++ memb (r_members x)) p (pool (fold (carry_join nr) js S))"
  using js
proof (induction js arbitrary: js' rule: rev_induct)
  case Nil
  have "(rooms S)[nr := x\<lparr>r_pendingJoin := [], r_seatUsed := r_seatUsed x, r_reservedSeats := r_reservedSeats x\<rparr>] = rooms S"
    unfolding put_back [OF nr(4)] using nr(2) by (metis list_update_id)
  then show ?case using base red
    by (intro exI [of _ "r_seatUsed x"] exI [of _ "r_reservedSeats x"]) (simp add: same_lists_def)
next
  case (snoc e js)
  let ?T = "fold (carry_join nr) js S" and ?k = "j_actorId e" and ?i = "j_sessIdx e"
  obtain su rs where IH: "same_lists S ?T" "rooms ?T = (rooms S)[nr := x\<lparr>r_pendingJoin := js, r_seatUsed := su, r_reservedSeats := rs\<rparr>]"
    "seats_ok js (r_members x) su rs mc" "redirected nr (pend js ++ memb (r_members x)) p (pool ?T)"
    using snoc.IH [of "e # js'"] snoc.prems by auto
  have e0: "e \<in> set js0" using snoc.prems by simp
  have k: "?k < kRoomMembers" using seats_okD(4) [OF ok e0] by simp
  have fresh: "?k \<notin> j_actorId ` set js" using seats_okD(3) [OF ok] snoc.prems by auto
  have none: "(pend js ++ memb (r_members x)) ?k = None"
    using pend_memb_disjoint [OF ok e0] fresh by (simp add: map_add_def pend_None)
  then have su: "\<not> su ! ?k" using seats_okD(5) [OF IH(3) k] by metis
  note en = seats_enter [OF IH(3) k none refl]
  let ?y = "x\<lparr>r_pendingJoin := js @ [e], r_seatUsed := su[?k := True], r_reservedSeats := rs + 1\<rparr>"
  have y: "carry_join_entry e (room_at ?T nr) = ?y"
    using su nr(1) by (simp add: carry_join_entry_def IH(2))
  have len: "nr < length (rooms ?T)" using nr(1) by (simp add: IH(2))
  have tag: "?i < length (slots p)" "gen (slots p ! ?i) = j_sessGen e" using tags e0 by auto
  have C: "carry_join nr e ?T = upd_session ?i (\<lambda>s. s\<lparr>roomIdx := nr\<rparr>) (upd_room nr (carry_join_entry e) ?T)"
    using len y nr(3) redirected_gen [OF IH(4) tag(1)] tag(2) by (simp add: carry_join_def Let_def)
  have "rooms (carry_join nr e ?T) = (rooms S)[nr := ?y]"
    using y by (simp add: C upd_at_def) (simp add: IH(2))
  moreover have "redirected nr (pend (js @ [e]) ++ memb (r_members x)) p (pool (carry_join nr e ?T))"
    unfolding en(2) C using redirected_add [OF IH(4) _ tag, of ?k] none by (simp add: domIff)
  moreover have "same_lists S (carry_join nr e ?T)" using IH(1) by (simp add: C same_lists_def)
  ultimately show ?case using en(1) by (intro exI [of _ "su[?k := True]"] exI [of _ "rs + 1"]) simp
qed

section \<open>The move\<close>

lemma card_memb: "length ms = n \<Longrightarrow> card (dom (memb ms)) = length (filter m_used ms)"
proof -
  assume l: "length ms = n"
  have "dom (memb ms) = {k. k < length ms \<and> m_used (ms ! k)}" by (auto simp: memb_def split: if_splits)
  then show ?thesis by (simp add: length_filter_conv_card)
qed

lemma member_tags:
  assumes "Inv S" "live S r" "seat (room_at S r) k = Some (i, g)"
  shows "i < length (slots (pool S))" "gen (At S i) = g"
  using seat_okD(1,2) [OF books_okD(3) [OF InvD(2) [OF assms(1)]], of r k i g] assms(2,3) by (simp_all add: tab_def)

text \<open>The first stages of the move: the members change rooms, then the pending joins.\<close>

definition moved_members :: "nat \<Rightarrow> nat \<Rightarrow> ('r, 's) Server \<Rightarrow> ('r, 's) Server" where
  "moved_members old nr S =
     (let S2 = fold (carry_member old nr) [0..<kRoomMembers] (upd_room old close_room S); t = w_tick (r_world (room_at S2 old))
      in upd_room nr reserve_members (upd_room old (\<lambda>x. x\<lparr>r_memberCount := 0\<rparr>)
           (upd_room nr (\<lambda>x. x\<lparr>r_world := (r_world x)\<lparr>w_tick := t\<rparr>, r_tickAtomic := t\<rparr>) S2)))"

text \<open>What the new room y is after the members have moved, and after the joins have.\<close>

definition fresh_room :: "nat \<Rightarrow> nat \<Rightarrow> Room \<Rightarrow> bool" where
  "fresh_room nr gw y \<longleftrightarrow> r_idx y = nr \<and> r_gameWorker y = gw \<and> r_pendingLeave y = [] \<and> \<not> r_dead y \<and> r_everReserved y"

lemma new_room_alloc:
  assumes "freeRooms S \<noteq> []" "nr = last (freeRooms S)" "S1 = snd (AllocRoomSlotLocked gw False S)"
  shows "rooms S1 = (rooms S)[nr := (clear_room (room_at S nr))\<lparr>r_gameWorker := gw\<rparr>]" "freeRooms S1 = butlast (freeRooms S)"
    "roomsPerWorker S1 = upd_at gw (\<lambda>n. n + 1) (roomsPerWorker S)" "mail S1 = mail S" "pool S1 = pool S"
    "openRooms S1 = openRooms S" "workerCount S1 = workerCount S" "myRooms S1 = myRooms S" "mySessions S1 = mySessions S"
  using AllocRoom_eqs [OF assms(1) _ assms(2), of gw False gw] by (simp_all add: assms(3) upd_at_def)

lemma move_members:
  fixes S :: "('r, 's) Server"
  assumes inv: "Inv S" and old: "live S old" and fr: "freeRooms S \<noteq> []" and nr: "nr = last (freeRooms S)"
    and S1: "S1 = snd (AllocRoomSlotLocked gw False S)"
  defines "x \<equiv> room_at S old" and "S5 \<equiv> moved_members old nr S1"
  obtains y os where "rooms S5 = (rooms S)[nr := y, old := (close_room x)\<lparr>r_members := os, r_memberCount := 0\<rparr>]"
    "same_lists S1 S5" "fresh_room nr gw y" "r_pendingJoin y = []" "length (r_members y) = kRoomMembers"
    "\<forall>k<kRoomMembers. r_members y ! k = (if m_used (r_members x ! k) then r_members x ! k else default_member)"
    "memb (r_members y) = memb (r_members x)"
    "seats_ok [] (r_members y) (r_seatUsed y) (r_reservedSeats y) (int (card (dom (memb (r_members x)))))"
    "redirected nr (memb (r_members x)) (pool S) (pool S5)" "w_tick (r_world y) = w_tick (r_world x)"
proof -
  note I = InvD [OF inv] and R = room_liveD [OF inv old, folded x_def] and L = last_free [OF InvD(4) [OF inv] fr nr]
  note A = new_room_alloc [OF fr nr S1]
  let ?c = "(clear_room (room_at S nr))\<lparr>r_gameWorker := gw\<rparr>"
  have ne: "nr \<noteq> old" using L(2) old by auto
  have len: "old < length (rooms S)" "nr < length (rooms S)" using R(4) L(1) by simp_all
  define S2 where "S2 = upd_room old close_room S1"
  have r2: "room_at S2 old = close_room x" "room_at S2 nr = ?c" "length (rooms S2) = length (rooms S)"
    "\<And>r. r \<noteq> old \<Longrightarrow> r \<noteq> nr \<Longrightarrow> room_at S2 r = room_at S r"
    using ne len by (simp_all add: S2_def A(1) x_def)
  have cm: "r_members ?c = replicate kRoomMembers default_member" "r_idx ?c = nr" "r_seatUsed ?c = replicate kRoomMembers False"
    "r_reservedSeats ?c = 0" "r_pendingJoin ?c = []" "fresh_room nr gw (?c\<lparr>r_everReserved := True\<rparr>)"
    using I(1) L(1) by (simp_all add: clear_room_def rooms_ok_def fresh_room_def)
  have xm: "r_members (close_room x) = r_members x" by (simp add: close_room_def)
  have lenm: "length (r_members x) = kRoomMembers" using seats_okD(1) [OF R(5)] .
  have tags: "i < length (slots (pool S2)) \<and> gen (At S2 i) = g" if "memb (r_members (room_at S2 old)) k = Some (i, g)" for k i g
  proof -
    have "seat x k = Some (i, g)" using that by (simp add: r2(1) xm seat_def map_add_def)
    then show ?thesis using member_tags [OF inv old] by (simp add: S2_def A x_def)
  qed
  define S3 where "S3 = fold (carry_member old nr) [0..<kRoomMembers] S2"
  have C: "carried old nr kRoomMembers S2 S3"
    unfolding S3_def by (rule carried_all) (use ne len r2 cm lenm tags in \<open>auto simp: xm\<close>)
  obtain ms w where m3: "room_at S3 nr = ?c\<lparr>r_members := ms, r_world := w\<rparr>" "length ms = kRoomMembers"
    "\<And>k. k < kRoomMembers \<Longrightarrow> ms ! k = (if m_used (r_members x ! k) then r_members x ! k else default_member)"
    using C by (auto simp: carried_def r2 xm cm)
  obtain os where o3: "room_at S3 old = (close_room x)\<lparr>r_members := os\<rparr>" using C by (auto simp: carried_def r2)
  have C': "same_lists S2 S3" "length (rooms S3) = length (rooms S)" "redirected nr (memb (r_members x)) (pool S) (pool S3)"
    "\<And>r. r \<noteq> old \<Longrightarrow> r \<noteq> nr \<Longrightarrow> room_at S3 r = room_at S r"
    using C r2 lenm by (simp_all add: carried_def xm S2_def A)
  have mm: "memb ms = memb (r_members x)"
  proof
    fix k show "memb ms k = memb (r_members x) k"
      using m3(2) m3(3) [of k] lenm by (cases "m_used (r_members x ! k)") (auto simp: memb_def default_member_def)
  qed
  define t where "t = w_tick (r_world (room_at S3 old))"
  have tx: "t = w_tick (r_world x)" by (simp add: t_def o3 close_room_def)
  let ?y = "?c\<lparr>r_members := ms, r_world := w\<lparr>w_tick := t\<rparr>, r_tickAtomic := t\<rparr>"
  obtain su rs where y: "reserve_members ?y = ?y\<lparr>r_everReserved := True, r_seatUsed := su, r_reservedSeats := rs\<rparr>"
    "seats_ok [] ms su rs (int (card (dom (memb ms))))"
    using reserve_members_seats [of ?y] m3(2) cm(3,4) by auto
  have S5: "S5 = upd_room nr reserve_members (upd_room old (\<lambda>x. x\<lparr>r_memberCount := 0\<rparr>)
      (upd_room nr (\<lambda>x. x\<lparr>r_world := (r_world x)\<lparr>w_tick := t\<rparr>, r_tickAtomic := t\<rparr>) S3))"
    by (simp add: S5_def moved_members_def Let_def S3_def S2_def t_def)
  have r5: "room_at S5 nr = ?y\<lparr>r_everReserved := True, r_seatUsed := su, r_reservedSeats := rs\<rparr>"
    "room_at S5 old = (close_room x)\<lparr>r_members := os, r_memberCount := 0\<rparr>" "length (rooms S5) = length (rooms S)"
    "\<And>r. r \<noteq> old \<Longrightarrow> r \<noteq> nr \<Longrightarrow> room_at S5 r = room_at S r" "pool S5 = pool S3" "same_lists S1 S5"
    using ne len C'(1,2,4) y(1) m3(1) o3 by (simp_all add: S5 same_lists_def S2_def)
  show thesis
  proof (rule that [of "?y\<lparr>r_everReserved := True, r_seatUsed := su, r_reservedSeats := rs\<rparr>" os])
    show "rooms S5 = (rooms S)[nr := ?y\<lparr>r_everReserved := True, r_seatUsed := su, r_reservedSeats := rs\<rparr>,
        old := (close_room x)\<lparr>r_members := os, r_memberCount := 0\<rparr>]"
      using r5(1-4) ne len by (intro nth_equalityI) (auto simp: nth_list_update)
  qed (use r5(5,6) cm y(2) mm m3(2,3) C'(3) tx in \<open>simp_all add: fresh_room_def\<close>)
qed

lemma pending_tags:
  assumes "Inv S" "live S r" "e \<in> set (r_pendingJoin (room_at S r))"
  shows "j_sessIdx e < length (slots (pool S)) \<and> gen (At S (j_sessIdx e)) = j_sessGen e"
proof -
  note R = room_liveD(5) [OF assms(1,2)]
  have "pend (r_pendingJoin (room_at S r)) (j_actorId e) = Some (j_sessIdx e, j_sessGen e)"
    using seats_okD(3) [OF R] assms(3) by (simp add: pend_def map_of_eq_Some_iff distinct_map comp_def rev_image_eqI)
  then have "seat (room_at S r) (j_actorId e) = Some (j_sessIdx e, j_sessGen e)"
    using pend_memb_disjoint [OF R assms(3)] by (simp add: seat_def map_add_def)
  then show ?thesis using member_tags [OF assms(1,2)] by blast
qed

lemma move_joins:
  fixes S :: "('r, 's) Server"
  assumes inv: "Inv S" and old: "live S old" and fr: "freeRooms S \<noteq> []" and nr: "nr = last (freeRooms S)"
    and S1: "S1 = snd (AllocRoomSlotLocked gw False S)"
  defines "x \<equiv> room_at S old"
  defines "S6 \<equiv> fold (carry_join nr) (r_pendingJoin x) (moved_members old nr S1)"
  obtains y os where "rooms S6 = (rooms S)[nr := y, old := (close_room x)\<lparr>r_members := os, r_memberCount := 0\<rparr>]"
    "same_lists S1 S6" "fresh_room nr gw y" "r_pendingJoin y = r_pendingJoin x" "memb (r_members y) = memb (r_members x)"
    "seats_ok (r_pendingJoin x) (r_members y) (r_seatUsed y) (r_reservedSeats y) (int (card (dom (memb (r_members x)))))"
    "redirected nr (seat x) (pool S) (pool S6)" "w_tick (r_world y) = w_tick (r_world x)"
proof -
  note L = last_free [OF InvD(4) [OF inv] fr nr] and R = room_liveD [OF inv old, folded x_def]
  define S5 where "S5 = moved_members old nr S1"
  have ne: "nr \<noteq> old" using L(2) old by auto
  obtain y os where y: "rooms S5 = (rooms S)[nr := y, old := (close_room x)\<lparr>r_members := os, r_memberCount := 0\<rparr>]"
    "same_lists S1 S5" "fresh_room nr gw y" "r_pendingJoin y = []" "length (r_members y) = kRoomMembers"
    "\<forall>k<kRoomMembers. r_members y ! k = (if m_used (r_members x ! k) then r_members x ! k else default_member)"
    "memb (r_members y) = memb (r_members x)"
    "seats_ok [] (r_members y) (r_seatUsed y) (r_reservedSeats y) (int (card (dom (memb (r_members x)))))"
    "redirected nr (memb (r_members x)) (pool S) (pool S5)" "w_tick (r_world y) = w_tick (r_world x)"
    by (rule move_members [OF inv old fr nr S1, folded x_def S5_def]) (rule that; assumption)
  have r5: "room_at S5 nr = y" "nr < length (rooms S5)" "r_idx y = nr" using ne L(1) R(4) y(1,3) by (simp_all add: fresh_room_def)
  let ?js = "r_pendingJoin x"
  have ok: "seats_ok ?js (r_members y) (r_seatUsed x) (r_reservedSeats x) (r_memberCount x)"
    unfolding seats_ok_def y(7) using R(5) y(5,6) by (auto simp: seats_ok_def default_member_def)
  have jt: "\<forall>e\<in>set ?js. j_sessIdx e < length (slots (pool S)) \<and> gen (At S (j_sessIdx e)) = j_sessGen e"
    using pending_tags [OF inv old] by (simp add: x_def)
  have "\<exists>su rs. same_lists S5 S6 \<and> rooms S6 = (rooms S5)[nr := y\<lparr>r_pendingJoin := ?js, r_seatUsed := su, r_reservedSeats := rs\<rparr>] \<and>
    seats_ok ?js (r_members y) su rs (int (card (dom (memb (r_members x))))) \<and>
    redirected nr (pend ?js ++ memb (r_members y)) (pool S) (pool S6)"
    unfolding S6_def S5_def [symmetric]
    by (rule carry_joins [OF ok _ r5(1,3) y(4) _ jt, where js' = "[]"]) (use r5(2) y(7-9) in simp_all)
  then obtain su rs where J: "same_lists S5 S6" "rooms S6 = (rooms S5)[nr := y\<lparr>r_pendingJoin := ?js, r_seatUsed := su, r_reservedSeats := rs\<rparr>]"
    "seats_ok ?js (r_members y) su rs (int (card (dom (memb (r_members x)))))"
    "redirected nr (pend ?js ++ memb (r_members y)) (pool S) (pool S6)" by blast
  show thesis
    by (rule that [of "y\<lparr>r_pendingJoin := ?js, r_seatUsed := su, r_reservedSeats := rs\<rparr>" os])
      (use J y(1-3,7,10) ne in \<open>simp_all add: same_lists_def fresh_room_def seat_def list_update_swap [OF ne]\<close>)
qed

text \<open>The new room and the old one after the move, and the lists.\<close>

lemma move_room_result:
  fixes S :: "('r, 's) Server"
  assumes inv: "Inv S" and old: "live S old" and fr: "freeRooms S \<noteq> []" and nr: "nr = last (freeRooms S)"
    and gw: "gw = r_gameWorker (room_at S old)" and S1: "S1 = snd (AllocRoomSlotLocked gw False S)"
    and S': "S' = move_room old nr S1"
  obtains y z where
    "rooms S' = (rooms S)[nr := y, old := z]" "nr \<noteq> old" "nr < length (rooms S)" "\<not> live S nr"
    "room_ok y" "seat y = seat (room_at S old)" "r_pendingLeave y = r_pendingLeave (room_at S old)" "r_idx y = nr" "r_gameWorker y = gw"
    "r_idx z = old" "redirected nr (seat (room_at S old)) (pool S) (pool S')"
    "freeRooms S' = butlast (freeRooms S) @ [old]"
    "openRooms S' = (let os = swap_remove old (openRooms S) in if r_reservedSeats y < int kRoomMembers then os @ [nr] else os)"
    "workerCount S' = workerCount S" "roomsPerWorker S' = roomsPerWorker S" "mail S' = mail S" "myRooms S' = myRooms S"
    "mySessions S' = mySessions S"
    "memb (r_members y) = memb (r_members (room_at S old))" "r_pendingJoin y = r_pendingJoin (room_at S old)"
    "w_tick (r_world y) = w_tick (r_world (room_at S old))"
proof -
  note I = InvD [OF inv] and R = room_liveD [OF inv old] and L = last_free [OF InvD(4) [OF inv] fr nr]
  note A = new_room_alloc [OF fr nr S1]
  let ?x = "room_at S old"
  have ne: "nr \<noteq> old" using L(2) old by auto
  have len: "old < length (rooms S)" "nr < length (rooms S)" using R(4) L(1) by simp_all
  have x1: "room_at S1 old = ?x" using ne len by (simp add: A(1))
  define S6 where "S6 = fold (carry_join nr) (r_pendingJoin ?x) (moved_members old nr S1)"
  obtain y6 os where J: "rooms S6 = (rooms S)[nr := y6, old := (close_room ?x)\<lparr>r_members := os, r_memberCount := 0\<rparr>]"
    "same_lists S1 S6" "fresh_room nr gw y6" "r_pendingJoin y6 = r_pendingJoin ?x" "memb (r_members y6) = memb (r_members ?x)"
    "seats_ok (r_pendingJoin ?x) (r_members y6) (r_seatUsed y6) (r_reservedSeats y6) (int (card (dom (memb (r_members ?x)))))"
    "redirected nr (seat ?x) (pool S) (pool S6)" "w_tick (r_world y6) = w_tick (r_world ?x)"
    by (rule move_joins [OF inv old fr nr S1, folded S6_def]) (rule that; assumption)
  define y where "y = y6\<lparr>r_pendingLeave := r_pendingLeave ?x, r_memberCount := int (length (filter m_used (r_members ?x)))\<rparr>"
  define z where "z = (close_room ?x)\<lparr>r_members := os, r_memberCount := 0, r_gen := r_gen ?x + 1\<rparr>"
  define S8 where "S8 = upd_room nr (\<lambda>x. x\<lparr>r_memberCount := int (length (filter m_used (r_members ?x)))\<rparr>)
      (upd_room nr (\<lambda>x. x\<lparr>r_pendingLeave := r_pendingLeave x @ r_pendingLeave ?x\<rparr>) S6)"
  have r8: "rooms S8 = (rooms S)[nr := y, old := (close_room ?x)\<lparr>r_members := os, r_memberCount := 0\<rparr>]"
  proof -
    have "room_at S6 nr = y6" "nr < length (rooms S6)" using len ne by (simp_all add: J(1))
    then have "rooms S8 = (rooms S6)[nr := y]" using J(3) by (simp add: S8_def upd_at_def y_def fresh_room_def)
    then show ?thesis by (simp add: J(1) list_update_swap [OF ne])
  qed
  have l8: "freeRooms S8 = butlast (freeRooms S)" "openRooms S8 = openRooms S" "workerCount S8 = workerCount S"
    "roomsPerWorker S8 = upd_at gw (\<lambda>n. n + 1) (roomsPerWorker S)" "mail S8 = mail S" "myRooms S8 = myRooms S"
    "mySessions S8 = mySessions S" "pool S8 = pool S6"
    using J(2) A by (simp_all add: S8_def same_lists_def)
  have zx: "r_idx (close_room ?x) = old" "r_gameWorker (close_room ?x) = gw" "r_gen (close_room ?x) = r_gen ?x"
    using R(3) gw by (simp_all add: close_room_def)
  have yf: "r_idx y = nr" "r_reservedSeats y = r_reservedSeats y6" using J(3) by (simp_all add: y_def fresh_room_def)
  have o8: "room_at S8 old = (close_room ?x)\<lparr>r_members := os, r_memberCount := 0\<rparr>" "room_at S8 nr = y" "length (rooms S8) = length (rooms S)"
    using ne len by (simp_all add: r8)
  have M: "S' = count_up (\<lambda>g. g\<lparr>mt_roomMoves := Inc (mt_roomMoves g)\<rparr>) (FreeRoomIfDrained old
     (S8\<lparr>openRooms := (let os = swap_remove old (openRooms S) in if r_reservedSeats y < int kRoomMembers then os @ [nr] else os),
         roomsPerWorker := upd_at gw (\<lambda>n. n - 1) (roomsPerWorker S8)\<rparr>))"
    unfolding S' move_room_def Let_def x1 S6_def [unfolded moved_members_def Let_def, symmetric] S8_def [symmetric]
    using o8 zx yf by (simp add: l8)
  have "gw < length (roomsPerWorker S)" using I(5) old gw by (auto simp: work_ok_def)
  then have rw: "upd_at gw (\<lambda>n. n - 1) (upd_at gw (\<lambda>n. n + 1) (roomsPerWorker S)) = roomsPerWorker S"
    by (simp add: upd_at_def)
  have "r_memberCount y = int (card (dom (memb (r_members ?x))))"
    using card_memb [OF seats_okD(1) [OF R(5)]] by (simp add: y_def)
  then have ok: "room_ok y" using J(3,4,6) by (simp add: y_def room_ok_def fresh_room_def)
  note F = FreeRoomIfDrained_def Let_def
  show thesis
  proof (rule that [of y z])
    show "rooms S' = (rooms S)[nr := y, old := z]" using o8 zx ne len by (simp add: M F upd_at_def r8 z_def)
    show "redirected nr (seat ?x) (pool S) (pool S')" using J(7) by (simp add: M F l8)
    show "freeRooms S' = butlast (freeRooms S) @ [old]" using o8 zx len by (simp add: M F l8)
    show "openRooms S' = (let os = swap_remove old (openRooms S) in if r_reservedSeats y < int kRoomMembers then os @ [nr] else os)"
      by (simp add: M F)
    show "workerCount S' = workerCount S" "roomsPerWorker S' = roomsPerWorker S" "mail S' = mail S" "myRooms S' = myRooms S"
      "mySessions S' = mySessions S" using rw by (simp_all add: M F l8)
  qed (use ne len(2) L(2) ok J(3-5,8) zx in \<open>simp_all add: y_def z_def seat_def fresh_room_def\<close>)
qed

end
