(* ===== verification/Preserve_Turn.thy ===== *)
theory Preserve_Turn
  imports Preserve_Move
begin

text \<open>
  The invariant under the turns of a game worker: the mailbox, the queues of a room, the tick of
  a room. The worker's own list is repaired after a room died or moved.
\<close>

section \<open>Placement as multisets\<close>

definition placed_ok :: "('r, 's) Server \<Rightarrow> nat \<Rightarrow> bool" where
  "placed_ok S w \<longleftrightarrow> mset (placed S w) = mset_set {r. live S r \<and> r_gameWorker (room_at S r) = w} \<and>
     roomsPerWorker S ! w = of_nat (length (placed S w))"

lemma finite_live: "finite {r. live S r \<and> P r}"
  by (rule finite_subset [of _ "{..<length (rooms S)}"]) (auto simp: live_def)

lemma placed_ok_iff:
  "placed_ok S w \<longleftrightarrow> distinct (placed S w) \<and> set (placed S w) = {r. live S r \<and> r_gameWorker (room_at S r) = w} \<and>
     roomsPerWorker S ! w = of_nat (length (placed S w))"
proof -
  have "mset (placed S w) = mset_set {r. live S r \<and> r_gameWorker (room_at S r) = w} \<longleftrightarrow>
      distinct (placed S w) \<and> set (placed S w) = {r. live S r \<and> r_gameWorker (room_at S r) = w}"
  proof
    assume "distinct (placed S w) \<and> set (placed S w) = {r. live S r \<and> r_gameWorker (room_at S r) = w}"
    then show "mset (placed S w) = mset_set {r. live S r \<and> r_gameWorker (room_at S r) = w}"
      using mset_set_set [of "placed S w"] by simp
  qed (rule mset_eq_mset_setD [OF _ finite_live])
  then show ?thesis by (auto simp: placed_ok_def)
qed

lemma work_ok_iff:
  "work_ok S \<longleftrightarrow> workerCount S \<le> kMaxGameWorkers \<and> length (mail S) = kMaxGameWorkers \<and>
     length (myRooms S) = kMaxGameWorkers \<and> length (roomsPerWorker S) = kMaxGameWorkers \<and>
     (\<forall>w<kMaxGameWorkers. placed_ok S w) \<and> (\<forall>r. live S r \<longrightarrow> r_gameWorker (room_at S r) < workerCount S)"
  by (simp add: work_ok_def placed_ok_iff)

lemma Inv_drain_mail:
  assumes "Inv S"
  shows "Inv (DrainRoomAddQ w S)"
proof -
  let ?S = "DrainRoomAddQ w S"
  note I = InvD [OF assms]
  have t: "live ?S = live S \<and> tab ?S = tab S \<and> leaves ?S = leaves S"
    by (rule tab_cong) (simp_all add: DrainRoomAddQ_def)
  have l: "length (mail S) = length (myRooms S)" using I(5) by (simp add: work_ok_def)
  have "placed ?S w' = placed S w'" for w'
    using l by (cases "w' = w"; cases "w < length (mail S)")
      (simp_all add: placed_def DrainRoomAddQ_def list_update_beyond)
  then have "work_ok ?S" using I(5) t by (simp add: work_ok_def) (simp add: DrainRoomAddQ_def)
  moreover have "rooms_ok ?S" "lists_ok ?S"
    using I(1,4) t by (simp_all add: rooms_ok_def lists_ok_def) (simp_all add: DrainRoomAddQ_def)
  ultimately show ?thesis using I(2,3) t by (simp add: Inv_def) (simp add: DrainRoomAddQ_def)
qed

lemma mset_set_swap:
  "finite A \<Longrightarrow> a \<in> A \<Longrightarrow> b \<notin> A \<Longrightarrow> mset_set (insert b (A - {a})) = add_mset b (mset_set A - {#a#})"
  by (simp add: mset_set_Diff)

text \<open>A room of the worker's list is live and belongs to the worker.\<close>

lemma my_room:
  assumes "Inv S" "w < kMaxGameWorkers" "pos < length (myRooms S ! w)"
  shows "live S (myRooms S ! w ! pos)" "r_gameWorker (room_at S (myRooms S ! w ! pos)) = w" "w < length (myRooms S)"
proof -
  have "myRooms S ! w ! pos \<in> set (placed S w)" using assms(3) by (simp add: placed_def)
  then show "live S (myRooms S ! w ! pos)" "r_gameWorker (room_at S (myRooms S ! w ! pos)) = w"
    using InvD(5) [OF assms(1)] assms(2) by (auto simp: work_ok_def)
  show "w < length (myRooms S)" using InvD(5) [OF assms(1)] assms(2) by (simp add: work_ok_def)
qed

section \<open>The queues\<close>

lemma Inv_queues_turn:
  assumes inv: "Inv S" and w: "w < kMaxGameWorkers" "pos < length (myRooms S ! w)"
  shows "Inv (snd (queues_turn w pos S))"
proof -
  let ?r = "myRooms S ! w ! pos"
  note M = my_room [OF inv w]
  obtain b S1 where p: "ProcessRoomQueues ?r S = (b, S1)" by (cases "ProcessRoomQueues ?r S")
  show ?thesis
  proof (cases b)
    case False
    then show ?thesis using Process_stays(1) [OF inv M(1)] p by (simp add: queues_turn_def)
  next
    case True
    have "ProcessRoomQueues ?r S = (True, S1)" using p True by simp
    note D = Process_dies [OF inv M(1) this]
    let ?S = "S1\<lparr>myRooms := upd_at w (swap_pop pos) (myRooms S1)\<rparr>"
    have t: "live ?S = live S1 \<and> tab ?S = tab S1 \<and> leaves ?S = leaves S1" by (rule tab_cong) simp_all
    have W: "work_ok S" using InvD(5) [OF inv] .
    have gw: "r_gameWorker (room_at S1 r') = r_gameWorker (room_at S r')" if "live S r'" for r'
      using D(6) [of r'] that by (simp add: live_def)
    have ps: "mset (placed ?S w) = mset (placed S w) - {#?r#}"
      using w M(3) by (simp add: placed_def D(8,9) mset_swap_pop)
    have "placed_ok ?S w'" if w': "w' < kMaxGameWorkers" for w'
    proof -
      have old: "placed_ok S w'" using W w' by (simp add: work_ok_iff)
      let ?A = "{r. live S r \<and> r_gameWorker (room_at S r) = w'}"
      have A: "{r. live ?S r \<and> r_gameWorker (room_at ?S r) = w'} = (if w' = w then ?A - {?r} else ?A)"
        using M(1,2) gw by (auto simp: t D(5))
      show ?thesis
      proof (cases "w' = w")
        case True
        have "?r \<in> ?A" using M(1,2) True by simp
        then have ne: "placed S w \<noteq> []" using old True by (auto simp: placed_ok_iff)
        have "length (placed ?S w) = length (placed S w) - 1"
          using w M(3) by (simp add: placed_def D(8,9))
        then have "roomsPerWorker ?S ! w = of_nat (length (placed ?S w))"
          using old True ne W w M(2) by (simp add: placed_ok_iff D(11) work_ok_def of_nat_diff Suc_leI)
        then show ?thesis using ps old A True finite_live [of S]
            mset_set_Diff [OF finite_live, of "{?r}" S "\<lambda>r. r_gameWorker (room_at S r) = w'"] \<open>?r \<in> ?A\<close>
          by (simp add: placed_ok_def)
      next
        case False
        have "placed ?S w' = placed S w'" "roomsPerWorker ?S ! w' = roomsPerWorker S ! w'"
          using False M(2) by (simp_all add: placed_def D(8,9,11))
        then show ?thesis using old A False unfolding placed_ok_def by simp
      qed
    qed
    moreover have "r_gameWorker (room_at ?S r) < workerCount ?S" if "live ?S r" for r
      using that gw [of r] W by (simp add: t D(5,7) work_ok_def)
    ultimately have "work_ok ?S"
      using W unfolding work_ok_iff by (simp add: D(7-9,11))
    moreover have "rooms_ok ?S" "lists_ok ?S" using D(1,4) t by (simp_all add: rooms_ok_def lists_ok_def)
    ultimately have "Inv ?S" using D(2,3) t by (simp add: Inv_def)
    then show ?thesis using True p by (simp add: queues_turn_def)
  qed
qed

section \<open>The tick\<close>

lemma move_tables:
  assumes "rooms S' = (rooms S)[nr := y, old := z]" "nr \<noteq> old" "nr < length (rooms S)" "old < length (rooms S)"
    and "\<not> live S nr" "live S old" "freeRooms S \<noteq> []" "nr = last (freeRooms S)" "lists_ok S"
    and "freeRooms S' = butlast (freeRooms S) @ [old]"
    and "seat y = seat (room_at S old)" "r_pendingLeave y = r_pendingLeave (room_at S old)"
  shows "live S' r \<longleftrightarrow> r = nr \<or> live S r \<and> r \<noteq> old"
    "tab S' = (tab S)(nr := tab S old, old := Map.empty)"
    "leaves S' = (leaves S)(nr := leaves S old, old := {})"
proof -
  note L = last_free [OF assms(9,7,8)]
  show live: "live S' r \<longleftrightarrow> r = nr \<or> live S r \<and> r \<noteq> old" for r
    using assms(1-6,10) L(4) by (auto simp: live_def)
  show "tab S' = (tab S)(nr := tab S old, old := Map.empty)"
    using assms(1-6,11) by (auto simp: fun_eq_iff tab_def live)
  show "leaves S' = (leaves S)(nr := leaves S old, old := {})"
    using assms(1-6,12) by (auto simp: fun_eq_iff leaves_def live)
qed

lemma mine_redirect:
  assumes "mine_ok p ms" "redirected nr f p q"
  shows "mine_ok q ms"
proof -
  have s: "owner (slots q ! j) = owner (slots p ! j) \<and> dead (slots q ! j) = dead (slots p ! j) \<and>
      refs (slots q ! j) = refs (slots p ! j) \<and> fd (slots q ! j) = fd (slots p ! j)" if "j < length (slots p)" for j
    using assms(2) that by (simp add: redirected_def)
  have l: "length (slots q) = length (slots p)" using assms(2) by (simp add: redirected_def)
  have "{i. i < length (slots p) \<and> owner (slots q ! i) = w \<and> \<not> dead (slots q ! i) \<and> refs (slots q ! i) \<noteq> 0} =
      {i. i < length (slots p) \<and> owner (slots p ! i) = w \<and> \<not> dead (slots p ! i) \<and> refs (slots p ! i) \<noteq> 0}" for w
    using s by auto
  then show ?thesis using assms(1) s by (simp add: mine_ok_def l)
qed

text \<open>A successful move, up to the worker's own list.\<close>

lemma move_lists:
  fixes S T :: "('r, 's) Server"
  assumes li: "lists_ok S" and old: "live S old" and fr: "freeRooms S \<noteq> []" and nr: "nr = last (freeRooms S)" "\<not> live S nr" "nr \<noteq> old"
    and rm: "rooms T = (rooms S)[nr := y, old := z]" and live: "\<And>r. live T r \<longleftrightarrow> r = nr \<or> live S r \<and> r \<noteq> old"
    and fT: "freeRooms T = butlast (freeRooms S) @ [old]"
    and oT: "openRooms T = (let os = swap_remove old (openRooms S) in if r_reservedSeats y < int kRoomMembers then os @ [nr] else os)"
  shows "lists_ok T"
proof -
  note L = last_free [OF li fr nr(1)]
  have od: "distinct (openRooms S)" and ol: "\<And>r. r \<in> set (openRooms S) \<Longrightarrow> live S r \<and> r_reservedSeats (room_at S r) < int kRoomMembers"
    and ff: "set (freeRooms S) \<subseteq> {..<length (rooms S)}"
    using li by (auto simp: lists_ok_def)
  have len: "old < length (rooms S)" using old by (simp add: live_def)
  have ns: "nr \<notin> set (swap_remove old (openRooms S))" using ol nr(2) set_swap_remove [OF od] by auto
  have "old \<notin> set (freeRooms S)" using old by (simp add: live_def)
  then have "distinct (freeRooms T)" "set (freeRooms T) \<subseteq> {..<length (rooms T)}"
    using L(3,4) ff len by (auto simp: fT rm)
  moreover have "distinct (openRooms T)"
    using distinct_swap_remove [OF od, of old] ns by (simp add: oT Let_def)
  moreover have "live T r \<and> r_reservedSeats (room_at T r) < int kRoomMembers" if "r \<in> set (openRooms T)" for r
  proof (cases "r = nr")
    case True
    then have "r_reservedSeats y < int kRoomMembers" using that ns by (auto simp: oT Let_def split: if_splits)
    then show ?thesis using True nr(3) L(1) by (simp add: live rm)
  next
    case False
    then have "r \<in> set (openRooms S)" "r \<noteq> old"
      using that set_swap_remove [OF od] by (auto simp: oT Let_def split: if_splits)
    then show ?thesis using ol False by (simp add: live rm)
  qed
  ultimately show ?thesis by (simp add: lists_ok_def)
qed

lemma Inv_Transfer:
  fixes S :: "('r, 's) Server"
  assumes inv: "Inv S" and old: "live S old" and t: "TransferRoom MT old S = (Some nr, S')"
  obtains T where "same_acct T S'" "rooms_ok T" "books_ok (pool T) (tab T) (leaves T)" "mine_ok (pool T) (mySessions T)" "lists_ok T"
    "\<And>r. live T r \<longleftrightarrow> r = nr \<or> live S r \<and> r \<noteq> old" "\<not> live S nr" "r_gameWorker (room_at T nr) = r_gameWorker (room_at S old)"
    "\<And>r. live S r \<Longrightarrow> r \<noteq> old \<Longrightarrow> r_gameWorker (room_at T r) = r_gameWorker (room_at S r)"
    "workerCount T = workerCount S" "mail T = mail S" "myRooms T = myRooms S" "roomsPerWorker T = roomsPerWorker S"
    "tab T = (tab S)(nr := tab S old, old := Map.empty)" "leaves T = (leaves S)(nr := leaves S old, old := {})"
proof -
  note I = InvD [OF inv] and R = room_liveD [OF inv old]
  let ?gw = "r_gameWorker (room_at S old)"
  define S1 where "S1 = snd (AllocRoomSlotLocked ?gw False S)"
  have fr: "freeRooms S \<noteq> []" using t by (cases "freeRooms S = []") (simp_all add: TransferRoom_def AllocRoom_none)
  have "AllocRoomSlotLocked ?gw False S = (Some (last (freeRooms S)), S1)"
    using AllocRoom_eqs(1) [OF fr refl refl, where mb = False and fw = ?gw] unfolding S1_def by (metis prod.collapse)
  then have nr: "nr = last (freeRooms S)"
    and S': "S' = fold (send_room_event MT nr) [0..<kRoomMembers] (move_room old nr S1)"
    using t by (auto simp add: TransferRoom_def)
  define T where "T = move_room old nr S1"
  obtain y z where
    rm: "rooms T = (rooms S)[nr := y, old := z]" and nn: "nr \<noteq> old" "nr < length (rooms S)" "\<not> live S nr"
    and y: "room_ok y" "seat y = seat (room_at S old)" "r_pendingLeave y = r_pendingLeave (room_at S old)" "r_idx y = nr" "r_gameWorker y = ?gw"
    and z: "r_idx z = old" and red: "redirected nr (seat (room_at S old)) (pool S) (pool T)"
    and fT: "freeRooms T = butlast (freeRooms S) @ [old]"
    and oT: "openRooms T = (let os = swap_remove old (openRooms S) in if r_reservedSeats y < int kRoomMembers then os @ [nr] else os)"
    and lT: "workerCount T = workerCount S" "roomsPerWorker T = roomsPerWorker S" "mail T = mail S" "myRooms T = myRooms S"
    "mySessions T = mySessions S"
    by (rule move_room_result [OF inv old fr nr refl S1_def T_def])
  note tabs = move_tables [OF rm nn(1,2) R(4) nn(3) old fr nr I(4) fT y(2,3)]
  have "same_acct T S'" unfolding S' T_def [symmetric] by (rule same_acct_fold) (rule same_acct_send_room_event)
  note sa = this
  have ro: "rooms_ok T"
    using I(1) y R(2,4) z nn by (auto simp: rooms_ok_def tabs(1) rm nth_list_update)
  have bo: "books_ok (pool T) (tab T) (leaves T)"
    unfolding tabs(2,3)
    by (rule books_move [OF I(2) nn(1)]) (use nn(3) red old in \<open>simp_all add: tab_def leaves_def redirected_def\<close>)
  have mi: "mine_ok (pool T) (mySessions T)" unfolding lT by (rule mine_redirect [OF I(3) red])
  have li: "lists_ok T"
    by (rule move_lists [OF I(4) old fr nr nn(3,1) rm tabs(1) fT oT])
  show thesis
  proof (rule that [of T])
    show "r_gameWorker (room_at T nr) = r_gameWorker (room_at S old)" using nn y(5) by (simp add: rm)
    show "r_gameWorker (room_at T r) = r_gameWorker (room_at S r)" if "live S r" "r \<noteq> old" for r
    proof -
      have "r \<noteq> nr" using that(1) nn(3) by auto
      then show ?thesis using that(2) by (simp add: rm)
    qed
  qed (use sa ro bo mi li nn(3) lT in \<open>simp_all add: tabs\<close>)
qed

text \<open>The rooms after a move: the new one carries the members, the joins and the clock of the old one.\<close>

lemma Transfer_rooms:
  fixes S :: "('r, 's) Server"
  assumes inv: "Inv S" and old: "live S old" and t: "TransferRoom MT old S = (Some nr, S')"
  obtains "memb (r_members (room_at S' nr)) = memb (r_members (room_at S old))"
    "r_pendingJoin (room_at S' nr) = r_pendingJoin (room_at S old)" "w_tick (r_world (room_at S' nr)) = w_tick (r_world (room_at S old))"
    "\<And>r. r \<noteq> nr \<Longrightarrow> r \<noteq> old \<Longrightarrow> room_at S' r = room_at S r" "freeRooms S' = butlast (freeRooms S) @ [old]"
    "nr = last (freeRooms S)" "freeRooms S \<noteq> []"
proof -
  let ?gw = "r_gameWorker (room_at S old)"
  define S1 where "S1 = snd (AllocRoomSlotLocked ?gw False S)"
  have fr: "freeRooms S \<noteq> []" using t by (cases "freeRooms S = []") (simp_all add: TransferRoom_def AllocRoom_none)
  have "AllocRoomSlotLocked ?gw False S = (Some (last (freeRooms S)), S1)"
    using AllocRoom_eqs(1) [OF fr refl refl, where mb = False and fw = ?gw] unfolding S1_def by (metis prod.collapse)
  then have nr: "nr = last (freeRooms S)"
    and S': "S' = fold (send_room_event MT nr) [0..<kRoomMembers] (move_room old nr S1)"
    using t by (auto simp add: TransferRoom_def)
  define T where "T = move_room old nr S1"
  have "rooms (send_room_event MT nr k U) = rooms U \<and> freeRooms (send_room_event MT nr k U) = freeRooms U" for k and U :: "('r, 's) Server"
    by (auto simp: send_room_event_def enqueue_def mark_def Let_def split: prod.split)
  then have "rooms (fold (send_room_event MT nr) ks U) = rooms U \<and> freeRooms (fold (send_room_event MT nr) ks U) = freeRooms U"
    for ks and U :: "('r, 's) Server"
    by (induction ks arbitrary: U) simp_all
  then have r: "rooms S' = rooms T" "freeRooms S' = freeRooms T" by (simp_all add: S' T_def)
  show thesis
    by (rule move_room_result [OF inv old fr nr refl S1_def T_def], rule that) (simp_all add: r fr nr)
qed

lemma placed_after_move:
  fixes S T :: "('r, 's) Server"
  assumes old: "placed_ok S w'" and r: "live S r" "r_gameWorker (room_at S r) = w" and nl: "\<not> live S nr"
    and live: "\<And>x. live T x \<longleftrightarrow> x = nr \<or> live S x \<and> x \<noteq> r"
    and gw: "\<And>x. live S x \<Longrightarrow> x \<noteq> r \<Longrightarrow> r_gameWorker (room_at T x) = r_gameWorker (room_at S x)"
      "r_gameWorker (room_at T nr) = r_gameWorker (room_at S r)"
    and pos: "w < length (myRooms S)" "pos < length (myRooms S ! w)" "myRooms S ! w ! pos = r"
    and fr: "myRooms T = myRooms S" "roomsPerWorker T = roomsPerWorker S" "mail T = mail S"
  defines "T' \<equiv> T\<lparr>myRooms := upd_at w (\<lambda>q. q[pos := nr]) (myRooms T)\<rparr>"
  shows "placed_ok T' w'"
proof -
  have t: "live T' = live T" "rooms T' = rooms T" by (simp_all add: T'_def live_def fun_eq_iff)
  let ?A = "{x. live S x \<and> r_gameWorker (room_at S x) = w'}"
  have R: "live T' x \<and> r_gameWorker (room_at T' x) = w' \<longleftrightarrow> x = nr \<and> w' = w \<or> x \<noteq> r \<and> x \<in> ?A" for x
  proof (cases "x = nr")
    case True
    then show ?thesis using r(2) gw(2) nl by (auto simp: t live)
  next
    case False
    then have "live T' x \<longleftrightarrow> live S x \<and> x \<noteq> r" "room_at T' x = room_at T x" by (simp_all add: t live)
    then show ?thesis using gw(1) [of x] False by (cases "live S x \<and> x \<noteq> r") simp_all
  qed
  have A: "{x. live T' x \<and> r_gameWorker (room_at T' x) = w'} = (if w' = w then insert nr (?A - {r}) else ?A)"
    unfolding R using r(2) by auto
  show ?thesis
  proof (cases "w' = w")
    case True
    have rA: "r \<in> ?A" "nr \<notin> ?A" using r nl True by simp_all
    have "mset (placed T' w) = add_mset nr (mset (placed S w) - {#r#})"
      using pos(1,2) by (simp add: placed_def fr T'_def mset_update pos(3) [symmetric])
    also have "\<dots> = mset_set (insert nr (?A - {r}))"
      using old True mset_set_swap [OF finite_live rA] by (simp add: placed_ok_def)
    finally have "mset (placed T' w) = mset_set (insert nr (?A - {r}))" .
    moreover have "length (placed T' w) = length (placed S w)" using pos by (simp add: placed_def fr T'_def)
    ultimately show ?thesis using A True old fr(2) by (simp add: placed_ok_def T'_def)
  next
    case False
    have "placed T' w' = placed S w'" using False by (simp add: placed_def fr T'_def)
    then show ?thesis using old A False fr(2) unfolding placed_ok_def by (simp add: T'_def)
  qed
qed

lemma Inv_tick_turn:
  assumes inv: "Inv S" and w: "w < kMaxGameWorkers" "pos < length (myRooms S ! w)"
  shows "Inv (tick_turn MT w pos S)"
proof -
  let ?r = "myRooms S ! w ! pos"
  define S0 where "S0 = tick_body MT ?r S"
  have sa: "same_acct S S0" unfolding S0_def by (rule same_acct_tick_body)
  have inv0: "Inv S0" using Inv_same [OF sa inv] .
  have my: "myRooms S0 = myRooms S" using sa by (simp add: same_acct_def)
  have w0: "pos < length (myRooms S0 ! w)" using w(2) by (simp add: my)
  note M = my_room [OF inv0 w(1) w0, unfolded my]
  obtain mv S' where t: "ExitCheckAndMaybeTransfer MT ?r S0 = (mv, S')" by (cases "ExitCheckAndMaybeTransfer MT ?r S0")
  have turn: "tick_turn MT w pos S = (case mv of None \<Rightarrow> S' | Some nr \<Rightarrow> S'\<lparr>myRooms := upd_at w (\<lambda>q. q[pos := nr]) (myRooms S')\<rparr>)"
    using t by (simp add: tick_turn_def RoomTick_def S0_def)
  show ?thesis
  proof (cases mv)
    case None
    have "S' = S0"
      using t None by (auto simp: ExitCheckAndMaybeTransfer_def TransferRoom_def AllocRoomSlotLocked_def Let_def split: if_splits)
    then show ?thesis using inv0 turn None by simp
  next
    case (Some nr)
    then have tr: "TransferRoom MT ?r S0 = (Some nr, S')"
      using t by (auto simp: ExitCheckAndMaybeTransfer_def split: if_splits)
    obtain T where T: "same_acct T S'" "rooms_ok T" "books_ok (pool T) (tab T) (leaves T)" "mine_ok (pool T) (mySessions T)" "lists_ok T"
      and live: "\<And>r. live T r \<longleftrightarrow> r = nr \<or> live S0 r \<and> r \<noteq> ?r" and nl: "\<not> live S0 nr"
      and gw: "r_gameWorker (room_at T nr) = r_gameWorker (room_at S0 ?r)"
        "\<And>r. live S0 r \<Longrightarrow> r \<noteq> ?r \<Longrightarrow> r_gameWorker (room_at T r) = r_gameWorker (room_at S0 r)"
      and fr: "workerCount T = workerCount S0" "mail T = mail S0" "myRooms T = myRooms S0" "roomsPerWorker T = roomsPerWorker S0"
      and "tab T = (tab S0)(nr := tab S0 ?r, ?r := Map.empty)" "leaves T = (leaves S0)(nr := leaves S0 ?r, ?r := {})"
    proof (rule Inv_Transfer [OF inv0 M(1) tr], goal_cases)
      case (1 T)
      show ?thesis by (rule 1(1)) (rule 1(2-) | assumption)+
    qed
    let ?T = "T\<lparr>myRooms := upd_at w (\<lambda>q. q[pos := nr]) (myRooms T)\<rparr>"
    have t: "live ?T = live T \<and> tab ?T = tab T \<and> leaves ?T = leaves T" by (rule tab_cong) simp_all
    have W: "work_ok S0" using InvD(5) [OF inv0] .
    have wl: "w < length (myRooms S0)" using W w(1) by (simp add: work_ok_def)
    have "placed_ok ?T w'" if "w' < kMaxGameWorkers" for w'
      by (rule placed_after_move [OF _ M(1,2) nl live gw(2) gw(1) wl w0 _ fr(3,4,2)]) (use W that in \<open>simp_all add: work_ok_iff my\<close>)
    moreover have "r_gameWorker (room_at ?T r) < workerCount ?T" if "live ?T r" for r
    proof -
      have "live T r" using that t by metis
      then have "r_gameWorker (room_at T r) < workerCount S0"
        using gw W M(1) unfolding live work_ok_def by (cases "r = nr") simp_all
      then show ?thesis by (simp add: fr)
    qed
    ultimately have "work_ok ?T"
      using W unfolding work_ok_iff by (simp add: fr)
    moreover have "rooms_ok ?T" "lists_ok ?T" using T(2,5) t by (simp_all add: rooms_ok_def lists_ok_def)
    ultimately have "Inv ?T" using T(3,4) t by (simp add: Inv_def)
    moreover have "same_acct ?T (S'\<lparr>myRooms := upd_at w (\<lambda>q. q[pos := nr]) (myRooms S')\<rparr>)"
      using T(1) by (simp add: same_acct_def)
    ultimately show ?thesis using Inv_same turn Some by simp
  qed
qed

lemma Inv_room_turn:
  assumes inv: "Inv S" and w: "w < kMaxGameWorkers" "pos < length (myRooms S ! w)"
  shows "Inv (snd (room_turn MT w pos S))"
proof (cases "queues_turn w pos S")
  case (Pair b S1)
  have i1: "Inv S1" using Inv_queues_turn [OF assms] Pair by simp
  show ?thesis
  proof (cases b)
    case True
    then show ?thesis using Pair i1 by (simp add: room_turn_def)
  next
    case False
    then have p: "ProcessRoomQueues (myRooms S ! w ! pos) S = (False, S1)"
      using Pair by (auto simp: queues_turn_def split: prod.splits bool.splits)
    have my: "myRooms S1 = myRooms S"
      using apply_queues_lists(4) [OF Process_stays(5) [OF inv my_room(1) [OF assms] p]] .
    show ?thesis using Inv_tick_turn [OF i1 w(1), of pos MT] w(2) my Pair False by (simp add: room_turn_def)
  qed
qed

end
