(* ===== verification/Lifecycle.thy ===== *)
theory Lifecycle
  imports Preserve_Turn
begin

text \<open>
  The server as a transition system. A step is one handler of an epoll worker, one half of a turn
  of a game worker, or a change of the environment; steps of all workers interleave freely. The
  invariant holds in every reachable state.
\<close>

section \<open>Reachability and invariants\<close>

inductive reach :: "('st \<Rightarrow> bool) \<Rightarrow> ('st \<Rightarrow> 'st \<Rightarrow> bool) \<Rightarrow> 'st \<Rightarrow> bool" for init step where
  reach_init: "init S \<Longrightarrow> reach init step S"
| reach_step: "reach init step S \<Longrightarrow> step S S' \<Longrightarrow> reach init step S'"

locale invariant_system =
  fixes init :: "'st \<Rightarrow> bool" and step :: "'st \<Rightarrow> 'st \<Rightarrow> bool" and inv :: "'st \<Rightarrow> bool"
  assumes init_inv: "init S \<Longrightarrow> inv S"
    and step_inv: "inv S \<Longrightarrow> step S S' \<Longrightarrow> inv S'"
begin

lemma reach_inv: "reach init step S \<Longrightarrow> inv S"
  by (induction rule: reach.induct) (auto intro: init_inv step_inv)

lemma reach_star: "step\<^sup>*\<^sup>* S S' \<Longrightarrow> reach init step S \<Longrightarrow> reach init step S'"
  by (induction rule: rtranclp_induct) (auto intro: reach_step)

end

section \<open>A session in the hands of its owner\<close>

definition own :: "nat \<Rightarrow> nat \<Rightarrow> ('r, 's) Server \<Rightarrow> bool" where
  "own w i S \<longleftrightarrow> Inv S \<and> w < length (mySessions S) \<and> i < length (slots (pool S)) \<and> (\<not> dead (At S i) \<longrightarrow> refs (At S i) \<noteq> 0 \<and> owner (At S i) = w)"

lemma own_same:
  assumes "own w i S" "same_acct S S'"
  shows "own w i S'"
proof -
  have i: "i < length (slots (pool S))" using assms(1) by (simp add: own_def)
  have "acct (At S' i) = acct (At S i)" by (rule same_acctD(3) [OF assms(2) i])
  then have "dead (At S' i) = dead (At S i)" "refs (At S' i) = refs (At S i)" "owner (At S' i) = owner (At S i)"
    by (simp_all add: acct_def)
  moreover have "mySessions S' = mySessions S" using assms(2) by (simp add: same_acct_def)
  ultimately show ?thesis using assms(1) i Inv_same [OF assms(2)] same_acctD(1) [OF assms(2)] by (simp add: own_def)
qed

lemma own_Disconnect:
  assumes "own w i S"
  shows "own w i (Disconnect w i S)"
proof (cases "dead (At S i)")
  case True
  then show ?thesis using assms by (simp add: Disconnect_def)
next
  case alive: False
  then have i: "i < length (slots (pool S))" "refs (At S i) \<noteq> 0" "w = owner (At S i)" and inv: "Inv S"
    using assms by (simp_all add: own_def)
  have "inRoom (At S i) \<longrightarrow> roomIdx (At S i) < length (rooms S)"
    using in_room_live(1) [OF inv i(1,2)] by (simp add: live_def)
  note E = Disconnect_eqs(1) [OF i(1) alive pool_okD(1) [OF InvD(6) [OF inv] i(1)] this, of w]
  have "dead (At (Disconnect w i S) i)" using i(1) by (simp add: E slots_Release slots_upd_sess hung_up_def)
  then show ?thesis using assms Inv_Disconnect [OF inv i] i(1) by (simp add: own_def E(1) mySessions_length)
qed

lemma own_Flush: "own w i S \<Longrightarrow> own w i (FlushSend MT w i S)"
  by (rule FlushSend_keeps [where P = "own w i"]) (auto intro: own_same own_Disconnect)

lemma own_Send: "own w i S \<Longrightarrow> own w i (SendBytes MT w i bs S)"
  by (rule SendBytes_keeps [where P = "own w i"]) (auto intro: own_same own_Disconnect)

lemma find_open_pool: "pool (snd (find_open S)) = pool S"
proof (induction S rule: find_open.induct)
  case (1 S)
  show ?case
    by (subst find_open.simps) (use 1 in \<open>auto simp: Let_def split: option.splits\<close>)
qed

lemma Join_pool:
  "pool (snd (Join i S)) = pool S \<or>
   (\<exists>r k. pool (snd (Join i S)) = upd_sess i (\<lambda>s. s\<lparr>inRoom := True, roomIdx := r, actorId := k\<rparr>) (AddRef i (pool S)))"
proof -
  have e: "\<exists>r' k'. pool (enter_seat i r k S') = upd_sess i (\<lambda>s. s\<lparr>inRoom := True, roomIdx := r', actorId := k'\<rparr>) (AddRef i (pool S'))"
    for r k and S' :: "('a, 'b) Server" by (auto simp: enter_seat_def Let_def)
  have a: "pool (snd (AllocRoom S')) = pool S'" for S' :: "('a, 'b) Server"
    by (simp add: AllocRoom_def AllocRoomSlotLocked_def Let_def)
  obtain mv S1 where f: "find_open S = (mv, S1)" by (cases "find_open S")
  have p1: "pool S1 = pool S" using find_open_pool [of S] f by simp
  obtain nr S2 where A: "AllocRoom S1 = (nr, S2)" by (cases "AllocRoom S1")
  have p2: "pool S2 = pool S" using a [of S1] A p1 by simp
  show ?thesis
    using e [where S' = S1] e [where S' = "(upd_room (the nr) g S2)\<lparr>openRooms := os\<rparr>" for g os] p1 p2
    by (cases mv; cases nr) (auto simp: Join_def f A Let_def)
qed

lemma find_open_mine: "mySessions (snd (find_open S)) = mySessions S"
proof (induction S rule: find_open.induct)
  case (1 S)
  show ?case
    by (subst find_open.simps) (use 1 in \<open>auto simp: Let_def split: option.splits\<close>)
qed

lemma Join_mine: "mySessions (snd (Join i S)) = mySessions S"
proof -
  have e: "mySessions (enter_seat i r k S') = mySessions S'" for r k and S' :: "('a, 'b) Server"
    by (simp add: enter_seat_def Let_def)
  have a: "mySessions (snd (AllocRoom S')) = mySessions S'" for S' :: "('a, 'b) Server"
    by (simp add: AllocRoom_def AllocRoomSlotLocked_def Let_def)
  obtain mv S1 where f: "find_open S = (mv, S1)" by (cases "find_open S")
  obtain nr S2 where A: "AllocRoom S1 = (nr, S2)" by (cases "AllocRoom S1")
  show ?thesis
    using find_open_mine [of S] a [of S1] f A
    by (cases mv; cases nr) (auto simp: Join_def Let_def e)
qed

lemma own_Join:
  assumes "own w i S" "\<not> dead (At S i)" "\<not> inRoom (At S i)"
  shows "own w i (snd (Join i S))"
proof -
  have i: "i < length (slots (pool S))" "refs (At S i) \<noteq> 0" "owner (At S i) = w" and inv: "Inv S"
    using assms by (simp_all add: own_def)
  have p: "0 \<le> refs (At S i)" using pool_okD(2) [OF InvD(6) [OF inv] i(1)] .
  show ?thesis
    using Join_pool [of i S] Inv_Join [OF inv i(1,2) assms(2,3)] i p assms(1,2)
    by (auto simp: own_def slots_upd_sess slots_AddRef Join_mine)
qed

lemma own_Dispatch:
  assumes "own w i S" "\<not> dead (At S i)"
  shows "own w i (Dispatch MT w i msg S)"
proof -
  have cu: "own w i (count_up f S')" if "own w i S'" for f S' using own_same [OF that same_acct_count_up] .
  have "own w i (handle_join MT w i msg S)"
  proof (cases "inRoom (At S i)")
    case True
    then show ?thesis using assms by (auto simp: handle_join_def join_fail_def intro: own_Disconnect own_Send cu)
  next
    case False
    have "own w i (snd (Join i S))" by (rule own_Join [OF assms False])
    then show ?thesis using False assms
      by (cases "Join i S") (auto simp: handle_join_def join_fail_def split: option.splits intro: own_Disconnect own_Send cu)
  qed
  moreover have "own w i (PushInput i q mx my a k S)" for q mx my a k
    by (rule own_same [OF assms(1)]) (auto simp: PushInput_def Let_def room_acct_def intro!: same_acct_then(2) same_acct_room)
  then have "own w i (handle_input w i msg S)"
    using assms by (auto simp: handle_input_def Let_def intro: own_Disconnect)
  moreover have "own w i (handle_ping MT w i msg S)"
    using assms by (auto simp: handle_ping_def split: prod.splits intro: own_Disconnect own_Send)
  ultimately show ?thesis
    using assms by (auto simp: Dispatch_def split: option.splits MsgType.splits intro: own_Disconnect own_Send)
qed

lemma own_recv: "own w i S \<Longrightarrow> own w i (upd_session i (\<lambda>s. s\<lparr>recvQ := f s\<rparr>) S)"
  by (erule own_same) (rule same_acct_session, simp add: acct_def)

lemma dead_frame [simp]:
  "i < length (slots (pool S)) \<Longrightarrow> dead (At (upd_session i (\<lambda>s. s\<lparr>recvQ := f s\<rparr>) S) i) = dead (At S i)"
  by (simp add: slots_upd_sess)

lemma own_parse_loop:
  "own w i S \<Longrightarrow> \<not> dead (At S i) \<Longrightarrow> own w i (parse_loop ST MT w i n S)"
proof (induction n arbitrary: S)
  case (Suc n)
  let ?q = "recvQ (At S i)"
  let ?sz = "unat (h_size (dec_header (rb_Peek ST kHeaderSize ?q)))"
  have i: "i < length (slots (pool S))" using Suc.prems by (simp add: own_def)
  have cu: "own w i (count_up f S)" for f using own_same [OF Suc.prems(1) same_acct_count_up] .
  have D: "own w i (Dispatch MT w i buf (upd_session i (\<lambda>s. s\<lparr>recvQ := q'\<rparr>) S1))"
    if "own w i S1" "\<not> dead (At S1 i)" for S1 buf q'
    by (rule own_Dispatch [OF own_recv [OF that(1)]]) (use that in \<open>simp add: own_def slots_upd_sess\<close>)
  have R: "own w i (if dead (At S2 i) then S2 else parse_loop ST MT w i n S2)" if "own w i S2" for S2
    using that Suc.IH by simp
  have "own w i (Dispatch MT w i buf (upd_session i (\<lambda>s. s\<lparr>recvQ := q'\<rparr>) S))"
    "own w i (Dispatch MT w i buf (upd_session i (\<lambda>s. s\<lparr>recvQ := q'\<rparr>) (count_up f S)))" for buf q' f
    using D [OF Suc.prems] D [OF cu] Suc.prems(2) by simp_all
  note N = this [THEN R]
  show ?case
    using Suc.prems(1) cu own_Disconnect [OF Suc.prems(1)] N
    by (simp only: parse_loop.simps Let_def split: prod.split if_split) blast
qed simp

lemma own_read_loop:
  "own w i S \<Longrightarrow> \<not> dead (At S i) \<Longrightarrow> own w i (read_loop ST MT w i rs S)"
proof (induction rs arbitrary: S)
  case Nil
  then show ?case by (subst read_loop.simps) (auto simp: Let_def intro: own_Disconnect)
next
  case (Cons x rs)
  have k: "own w i (S\<lparr>kern := k\<rparr>)" for k using own_same [OF Cons.prems(1) same_acct_kern] .
  have i: "i < length (slots (pool S))" using Cons.prems by (simp add: own_def)
  have P: "own w i (ParseFrames ST MT w i (count_up f (upd_session i (\<lambda>s. s\<lparr>recvQ := g s\<rparr>) (S\<lparr>kern := kk\<rparr>))))" for f g kk
    unfolding ParseFrames_def
    by (rule own_parse_loop [OF own_same [OF own_recv [OF k] same_acct_count_up]])
      (use i Cons.prems in \<open>simp add: slots_upd_sess\<close>)
  show ?case
    using Cons.prems k P own_Disconnect [OF Cons.prems(1)] own_Disconnect [OF k]
    by (subst read_loop.simps) (auto simp: Let_def split: read_result.split intro: Cons.IH)
qed

lemma HandleSession_keeps:
  assumes "Inv S" "i < length (slots (pool S)) \<Longrightarrow> gen (At S i) = g \<Longrightarrow> \<not> dead (At S i) \<Longrightarrow> i \<in> set (mySessions S ! w)"
    and w: "w < length (mySessions S)"
  shows "Inv (HandleSession ST MT w i g ev S) \<and> w < length (mySessions (HandleSession ST MT w i g ev S))"
proof (cases "length (slots (pool S)) \<le> i \<or> gen (At S i) \<noteq> g \<or> dead (At S i)")
  case True
  then show ?thesis using assms(1) w by (auto simp: HandleSession_def)
next
  case False
  then have m: "i \<in> set (mySessions S ! w)" and d: "\<not> dead (At S i)" using assms(2) by auto
  then have o: "own w i S"
    using InvD(3) [OF assms(1)] w assms(1) unfolding own_def mine_ok_def by auto
  have "own w i (ReadSession ST MT w i S)" unfolding ReadSession_def by (rule own_read_loop [OF o d])
  then have "own w i (HandleSession ST MT w i g ev S)"
    using o False by (auto simp: HandleSession_def Let_def intro: own_Disconnect own_Flush)
  then show ?thesis by (simp add: own_def)
qed

lemma HandleAccept_mine: "length (mySessions (HandleAccept ST MT w S)) = length (mySessions S)"
proof -
  have "length (mySessions (accept_loop ST MT w n S)) = length (mySessions S)" for n
    by (induction n arbitrary: S) (auto simp: Let_def mySessions_length split: list.splits accept_result.splits)
  then show ?thesis by (simp add: HandleAccept_def)
qed

lemma flush_dirty_keeps:
  assumes "Inv S"
  shows "Inv (flush_dirty MT w i S) \<and> (w < length (mySessions S) \<longrightarrow> w < length (mySessions (flush_dirty MT w i S)))"
proof (cases "i < length (slots (pool S)) \<and> owner (At S i) = w \<and> \<not> dead (At S i) \<and> 0 \<le> fd (At S i)")
  case True
  then have "if refs (At S i) \<noteq> 0 then w < length (mySessions S) else dead (At S i) \<or> fd (At S i) = - 1"
    using InvD(3) [OF assms] unfolding mine_ok_def by blast
  then have "refs (At S i) \<noteq> 0" "w < length (mySessions S)" using True by (simp_all split: if_splits)
  then have "own w i S" using True assms by (simp add: own_def)
  then have "own w i (flush_dirty MT w i S)" using True own_Flush [of w i S] by (simp add: flush_dirty_def)
  then show ?thesis by (simp add: own_def)
next
  case False
  then show ?thesis using assms by (auto simp: flush_dirty_def)
qed

section \<open>The transition system\<close>

text \<open>
  An event that epoll reports for a session which is still the one of the tag is one this worker
  registered: the tag is on its list.
\<close>

definition registered :: "nat \<Rightarrow> nat \<Rightarrow> u32 \<Rightarrow> ('r, 's) Server \<Rightarrow> bool" where
  "registered w i g S \<longleftrightarrow> (i < length (slots (pool S)) \<longrightarrow> gen (At S i) = g \<longrightarrow> \<not> dead (At S i) \<longrightarrow> i \<in> set (mySessions S ! w))"

inductive server_step :: "'r ring_ops \<Rightarrow> 's ring_ops \<Rightarrow> ('r, 's) Server \<Rightarrow> ('r, 's) Server \<Rightarrow> bool"
  for ST MT where
  accept: "w < length (mySessions S) \<Longrightarrow> server_step ST MT S (HandleAccept ST MT w S)"
| event: "w < length (mySessions S) \<Longrightarrow> registered w i g S \<Longrightarrow> server_step ST MT S (HandleSession ST MT w i g ev S)"
| flush: "server_step ST MT S (flush_dirty MT w i S)"
| drain_dirty: "server_step ST MT S (S\<lparr>dirty := snd (Drain w (dirty S))\<rparr>)"
| cleanup: "w < length (mySessions S) \<Longrightarrow> i \<in> set (mySessions S ! w) \<Longrightarrow> server_step ST MT S (Disconnect w i S)"
| drain_mail: "server_step ST MT S (DrainRoomAddQ w S)"
| queues: "w < kMaxGameWorkers \<Longrightarrow> pos < length (myRooms S ! w) \<Longrightarrow> server_step ST MT S (snd (queues_turn w pos S))"
| tick: "w < kMaxGameWorkers \<Longrightarrow> pos < length (myRooms S ! w) \<Longrightarrow> server_step ST MT S (tick_turn MT w pos S)"
| publish: "server_step ST MT S (S\<lparr>nextTickAt := ts\<rparr>)"
| counters: "server_step ST MT S (count_up f S)"
| environment: "server_step ST MT S (S\<lparr>kern := k\<rparr>)"

text \<open>
  The state after start-up, for a number of session slots, room slots, game workers and epoll
  workers, with every buffer as it is before \<open>Init\<close>.
\<close>

definition boot :: "nat \<Rightarrow> nat \<Rightarrow> nat \<Rightarrow> nat \<Rightarrow> 'r \<Rightarrow> 's \<Rightarrow> Kernel \<Rightarrow> ('r, 's) Server" where
  "boot maxSessions roomCap gameWorkers epollWorkers r s k = Init roomCap gameWorkers
     \<lparr>pool = SessionPool_Init r s maxSessions, rooms = [], freeRooms = [], openRooms = [], workerCount = 1,
      roomsPerWorker = replicate kMaxGameWorkers 0, mail = replicate kMaxGameWorkers [],
      dirty = DirtyMap_Init maxSessions (if epollWorkers = 0 then 1 else epollWorkers), met = zero_counters,
      myRooms = replicate kMaxGameWorkers [], mySessions = replicate epollWorkers [],
      nextTickAt = replicate kMaxGameWorkers 0, kern = k\<rparr>"

definition booted :: "('r, 's) Server \<Rightarrow> bool" where
  "booted S \<longleftrightarrow> (\<exists>maxSessions roomCap gameWorkers epollWorkers r s k.
     gameWorkers \<le> kMaxGameWorkers \<and> S = boot maxSessions roomCap gameWorkers epollWorkers r s k)"

lemma Inv_boot:
  assumes "gameWorkers \<le> kMaxGameWorkers"
  shows "Inv (boot maxSessions roomCap gameWorkers epollWorkers r s k)"
proof -
  let ?S = "boot maxSessions roomCap gameWorkers epollWorkers r s k"
  have nl: "\<not> live ?S x" for x by (simp add: live_def boot_def Init_def)
  have tab: "tab ?S x = Map.empty" "leaves ?S x = {}" for x by (simp_all add: tab_def leaves_def nl)
  have p: "pool ?S = SessionPool_Init r s maxSessions" by (simp add: boot_def Init_def)
  have s: "slots (SessionPool_Init r s maxSessions) ! i = new_session r s i" "length (slots (SessionPool_Init r s maxSessions)) = maxSessions"
    if "i < maxSessions" for i using that by (simp_all add: SessionPool_Init_def)
  have l: "length (slots (SessionPool_Init r s maxSessions)) = maxSessions" by (simp add: SessionPool_Init_def)
  have "rooms_ok ?S" by (simp add: rooms_ok_def nl) (simp add: boot_def Init_def new_room_def)
  moreover have "books_ok (pool ?S) (tab ?S) (leaves ?S)"
    unfolding books_ok_def p l using pool_ok_Init s(1) by (simp add: tab sess_ok_def new_session_def)
  moreover have "mine_ok (pool ?S) (mySessions ?S)"
    unfolding mine_ok_def p l using s(1) by (auto simp: new_session_def boot_def Init_def)
  moreover have "lists_ok ?S" by (auto simp: lists_ok_def boot_def Init_def)
  moreover have "work_ok ?S"
    using assms by (simp add: work_ok_def nl placed_def) (simp add: boot_def Init_def)
  ultimately show ?thesis by (simp add: Inv_def)
qed

lemma Inv_step:
  assumes "server_step ST MT S S'" "Inv S"
  shows "Inv S'"
  using assms
proof cases
  case (accept w)
  then show ?thesis using assms(2) by (simp add: HandleAccept_def Inv_accept_loop)
next
  case (event w i g ev)
  then show ?thesis using assms(2) by (simp add: registered_def HandleSession_keeps)
next
  case (flush w i)
  then show ?thesis using assms(2) by (simp add: flush_dirty_keeps)
next
  case (drain_dirty w)
  then show ?thesis using Inv_same [OF same_acct_dirty assms(2)] by simp
next
  case (cleanup w i)
  then have "i < length (slots (pool S))" "refs (At S i) \<noteq> 0" "w = owner (At S i)"
    using InvD(3) [OF assms(2)] by (auto simp: mine_ok_def)
  then show ?thesis using cleanup assms(2) by (simp add: Inv_Disconnect)
next
  case (drain_mail w)
  then show ?thesis using assms(2) by (simp add: Inv_drain_mail)
next
  case (queues w pos)
  then show ?thesis using assms(2) by (simp add: Inv_queues_turn)
next
  case (tick w pos)
  then show ?thesis using assms(2) by (simp add: Inv_tick_turn)
next
  case (publish ts)
  then have "same_acct S S'" by (simp add: same_acct_def)
  then show ?thesis using Inv_same assms(2) by blast
next
  case (counters f)
  then show ?thesis using Inv_same [OF same_acct_count_up assms(2)] by simp
next
  case (environment k)
  then show ?thesis using Inv_same [OF same_acct_kern assms(2)] by simp
qed

interpretation server: invariant_system booted "server_step ST MT" Inv for ST MT
proof unfold_locales
  show "Inv S" if "booted S" for S using that Inv_boot by (auto simp: booted_def)
  show "Inv S'" if "Inv S" "server_step ST MT S S'" for S S' using Inv_step that by blast
qed

text \<open>A whole pass of a game worker over its rooms, and a round of the dirty scan, are made of steps.\<close>

lemma room_turn_steps:
  assumes "w < kMaxGameWorkers" "pos < length (myRooms S ! w)" "Inv S"
  shows "(server_step ST MT)\<^sup>*\<^sup>* S (snd (room_turn MT w pos S))"
proof (cases "queues_turn w pos S")
  case (Pair b S1)
  have q: "server_step ST MT S S1" using server_step.queues [OF assms(1,2)] Pair by (metis snd_conv)
  show ?thesis
  proof (cases b)
    case True
    then show ?thesis using q Pair by (simp add: room_turn_def r_into_rtranclp)
  next
    case False
    then have p: "ProcessRoomQueues (myRooms S ! w ! pos) S = (False, S1)"
      using Pair by (auto simp: queues_turn_def split: prod.splits bool.splits)
    have "myRooms S1 = myRooms S"
      using apply_queues_lists(4) [OF Process_stays(5) [OF assms(3) my_room(1) [OF assms(3,1,2)] p]] .
    then have "server_step ST MT S1 (tick_turn MT w pos S1)" using assms by (intro server_step.tick) simp_all
    then show ?thesis using q Pair False by (simp add: room_turn_def)
  qed
qed

lemma rooms_loop_steps:
  "w < kMaxGameWorkers \<Longrightarrow> Inv S \<Longrightarrow> (server_step ST MT)\<^sup>*\<^sup>* S (rooms_loop MT w n pos S)"
proof (induction n arbitrary: pos S)
  case (Suc n)
  show ?case
  proof (cases "length (myRooms S ! w) \<le> pos")
    case False
    then have p: "pos < length (myRooms S ! w)" by simp
    obtain b S1 where t: "room_turn MT w pos S = (b, S1)" by (cases "room_turn MT w pos S")
    have "Inv S1" using Inv_room_turn [OF Suc.prems(2,1) p, of MT] t by simp
    moreover have "(server_step ST MT)\<^sup>*\<^sup>* S S1" using room_turn_steps [OF Suc.prems(1) p Suc.prems(2), of ST MT] t by simp
    ultimately show ?thesis using Suc.IH [OF Suc.prems(1)] t False by (auto intro: rtranclp_trans)
  qed simp
qed simp

lemma TickOnce_steps:
  assumes "w < kMaxGameWorkers" "Inv S"
  shows "(server_step ST MT)\<^sup>*\<^sup>* S (TickOnce MT w S)"
  unfolding TickOnce_def Let_def
  by (rule converse_rtranclp_into_rtranclp [where b = "DrainRoomAddQ w S"])
    (rule server_step.drain_mail, rule rooms_loop_steps [OF assms(1) Inv_drain_mail [OF assms(2)]])

text \<open>
  A round of an epoll worker is made of steps too, for a batch in which every event is that of the
  listening socket or of a session the worker registered, at the moment it is handled.
\<close>

fun batch_ok :: "'r ring_ops \<Rightarrow> 's ring_ops \<Rightarrow> nat \<Rightarrow> (u64 \<times> u32) list \<Rightarrow> ('r, 's) Server \<Rightarrow> bool" where
  "batch_ok ST MT w [] S \<longleftrightarrow> True"
| "batch_ok ST MT w (ev # evs) S \<longleftrightarrow>
     (tag_idx (fst ev) = kListenTag \<or> registered w (unat (tag_idx (fst ev))) (tag_gen (fst ev)) S) \<and>
     batch_ok ST MT w evs (handle_event ST MT w ev S)"

definition ready :: "nat \<Rightarrow> ('r, 's) Server \<Rightarrow> bool" where
  "ready w S \<longleftrightarrow> Inv S \<and> w < length (mySessions S)"

lemma handle_event_step:
  assumes "ready w S" "tag_idx (fst ev) = kListenTag \<or> registered w (unat (tag_idx (fst ev))) (tag_gen (fst ev)) S"
  shows "server_step ST MT S (handle_event ST MT w ev S) \<and> ready w (handle_event ST MT w ev S)"
proof -
  have st: "server_step ST MT S (handle_event ST MT w ev S)"
    using assms by (auto simp: handle_event_def ready_def intro: server_step.accept server_step.event)
  have "w < length (mySessions (handle_event ST MT w ev S))"
    using assms HandleSession_keeps [where ST = ST and MT = MT and w = w and S = S]
    by (auto simp: handle_event_def ready_def registered_def HandleAccept_mine)
  then show ?thesis using st Inv_step [OF st] assms(1) by (simp add: ready_def)
qed

lemma batch_steps:
  "ready w S \<Longrightarrow> batch_ok ST MT w evs S \<Longrightarrow>
   (server_step ST MT)\<^sup>*\<^sup>* S (fold (handle_event ST MT w) evs S) \<and> ready w (fold (handle_event ST MT w) evs S)"
proof (induction evs arbitrary: S)
  case (Cons ev evs)
  from Cons.prems have "server_step ST MT S (handle_event ST MT w ev S)" "ready w (handle_event ST MT w ev S)"
    using handle_event_step [of w S ev ST MT] by auto
  then show ?case using Cons by (auto intro: converse_rtranclp_into_rtranclp)
qed simp

lemma scan_steps:
  "ready w S \<Longrightarrow> (server_step ST MT)\<^sup>*\<^sup>* S (fold (flush_dirty MT w) is S) \<and> ready w (fold (flush_dirty MT w) is S)"
proof (induction "is" arbitrary: S)
  case (Cons i js)
  have "ready w (flush_dirty MT w i S)" using Cons.prems flush_dirty_keeps [of S MT w i] by (simp add: ready_def)
  then show ?case using Cons.IH [of "flush_dirty MT w i S"] server_step.flush [of ST MT S w i]
    by (auto intro: converse_rtranclp_into_rtranclp)
qed simp

lemma round_steps:
  assumes "ready w S" "batch_ok ST MT w evs S"
  shows "(server_step ST MT)\<^sup>*\<^sup>* S (loop_round ST MT w evs S) \<and> ready w (loop_round ST MT w evs S)"
proof -
  define S1 where "S1 = fold (handle_event ST MT w) evs S"
  define S2 where "S2 = S1\<lparr>dirty := snd (Drain w (dirty S1))\<rparr>"
  have 1: "(server_step ST MT)\<^sup>*\<^sup>* S S1" "ready w S1" using batch_steps [OF assms] by (simp_all add: S1_def)
  have d: "server_step ST MT S1 S2" unfolding S2_def by (rule server_step.drain_dirty)
  have 2: "ready w S2" using 1(2) Inv_step [OF d] by (simp add: ready_def S2_def)
  have "loop_round ST MT w evs S = fold (flush_dirty MT w) (fst (Drain w (dirty S1))) S2"
    by (simp add: loop_round_def S1_def S2_def Let_def case_prod_beta)
  then show ?thesis using scan_steps [OF 2, of ST MT] 1(1) d by (metis rtranclp.rtrancl_into_rtrancl rtranclp_trans)
qed

end
