(* ===== verification/Demo.thy ===== *)
theory Demo
  imports Lifecycle
begin

text \<open>
  A run of the server model, for the witnesses of the properties of reachable states: one
  session slot, one room slot, one game worker and one epoll worker, with bounded lists for the
  ring buffers. A client connects (\<open>demo1\<close>) and sends a JOIN frame (\<open>demo2\<close>), the game worker takes
  the new room over (\<open>demo3\<close>) and seats the client at its next tick (\<open>demo4\<close>).
\<close>

definition demo_kernel :: Kernel where
  "demo_kernel = \<lparr>k_accepts = [Accepted 7], k_reads = [Got (enc_join kProtocolVersion)], k_writes = [Took 20], k_ctls = [],
     k_now = 0, k_log = []\<rparr>"
definition demo0 :: "(list_ring, list_ring) Server" where "demo0 = boot 1 1 1 1 (0, []) (0, []) demo_kernel"
definition demo1 where "demo1 = HandleAccept list_ring_ops list_ring_ops 0 demo0"
definition demo2 where "demo2 = HandleSession list_ring_ops list_ring_ops 0 0 0 EPOLLIN demo1"
definition demo3 where "demo3 = DrainRoomAddQ 0 demo2"
definition demo4 where "demo4 = snd (queues_turn 0 0 demo3)"

lemma demo0: "demo0 = \<lparr>pool = \<lparr>slots = [new_session (0, []) (0, []) 0], sfree = [0]\<rparr>, rooms = [new_room 0], freeRooms = [0], openRooms = [],
   workerCount = 1, roomsPerWorker = replicate kMaxGameWorkers 0, mail = replicate kMaxGameWorkers [], dirty = DirtyMap_Init 1 1, met = zero_counters,
   myRooms = replicate kMaxGameWorkers [], mySessions = [[]], nextTickAt = replicate kMaxGameWorkers 0, kern = demo_kernel\<rparr>"
  by (simp add: demo0_def boot_def Init_def SessionPool_Init_def)

lemma list_ring_simps:
  "rb_IsValid list_ring_ops q = (0 < fst q)"
  "rb_Init list_ring_ops n q = (1 < n, if 1 < n then (n - 1, []) else q)"
  "rb_Clear list_ring_ops q = (fst q, [])"
  "rb_Enqueue list_ring_ops bs q = (if length (snd q) + length bs \<le> fst q then (length bs, (fst q, snd q @ bs)) else (0, q))"
  "rb_Dequeue list_ring_ops n q = (if n \<le> length (snd q) then (take n (snd q), (fst q, drop n (snd q))) else ([], q))"
  "rb_Peek list_ring_ops n q = (if n \<le> length (snd q) then take n (snd q) else [])"
  "rb_Consume list_ring_ops n q = (if n \<le> length (snd q) then (fst q, drop n (snd q)) else q)"
  "rb_DataSize list_ring_ops q = length (snd q)"
  "rb_DirectRead list_ring_ops q = snd q"
  "rb_DirectWriteSize list_ring_ops q = fst q - length (snd q)"
  "rb_Received list_ring_ops bs q = (fst q, snd q @ bs)"
  by (simp_all add: list_ring_ops_def)

lemmas demo_ops = upd_session_def upd_sess_def upd_at_def count_up_def Let_def

definition demo_sess :: "(list_ring, list_ring) Session" where
  "demo_sess = \<lparr>refs = 1, dead = False, gen = 0, idx = 0, fd = 7, owner = 0, wantWrite = False, recvQ = (8191, []),
     sendQ = (16383, []), inRoom = False, roomIdx = 0, actorId = 0\<rparr>"

lemma accept_demo: "\<exists>m. accept_loop list_ring_ops list_ring_ops 0 (Suc (Suc n)) demo0 =
   demo0\<lparr>pool := \<lparr>slots = [demo_sess], sfree = []\<rparr>, met := m, mySessions := [[0]], kern := (kern demo0)\<lparr>k_accepts := []\<rparr>\<rparr>"
  by (simp add: demo0 demo_kernel_def accept_one_def Alloc_def new_session_def list_ring_simps
    kSendRingSize_def kRecvRingSize_def os_ctl_def claim_session_def demo_sess_def demo_ops)

lemma demo1: obtains m where "demo1 = demo0\<lparr>pool := \<lparr>slots = [demo_sess], sfree = []\<rparr>, met := m, mySessions := [[0]],
     kern := (kern demo0)\<lparr>k_accepts := []\<rparr>\<rparr>"
  using accept_demo [of 62] unfolding demo1_def HandleAccept_def kMaxAcceptPerWake_def by auto

definition demo_room :: Room where
  "demo_room = (clear_room (new_room 0))\<lparr>r_gameWorker := 0, r_seatUsed := (replicate kRoomMembers False)[0 := True], r_everReserved := True, r_reservedSeats := 1,
      r_pendingJoin := [\<lparr>j_sessIdx = 0, j_sessGen = 0, j_actorId = 0\<rparr>]\<rparr>"

lemma idx_clear: "r_idx (clear_room x) = r_idx x" "r_seatUsed (clear_room x) = replicate kRoomMembers False" "r_pendingJoin (clear_room x) = []" 
  by (simp_all add: clear_room_def)

definition demo_joined where "demo_joined m l = demo0\<lparr>pool := \<lparr>slots = [demo_sess\<lparr>refs := 2, inRoom := True\<rparr>], sfree = []\<rparr>, rooms := [demo_room], freeRooms := [], openRooms := [0],
  roomsPerWorker := (replicate kMaxGameWorkers 0)[0 := 1], mail := (replicate kMaxGameWorkers [])[0 := [0]], met := m, mySessions := [[0]],
     kern := (kern demo0)\<lparr>k_accepts := [], k_reads := [], k_writes := [], k_log := l\<rparr>\<rparr>"

lemma demo_frame: "msg_type_of (h_type (dec_header (enc_join kProtocolVersion))) = Some C2S_JOIN" "length (enc_join kProtocolVersion) = kJoinSize"
  "unat (h_size (dec_header (take 4 (enc_join kProtocolVersion)))) = kJoinSize"  "dec_join (enc_join kProtocolVersion) = kProtocolVersion"
  "length (enc_join_ok 0 0 0) = 13"
  by code_simp+

definition demo_entered where "demo_entered m = demo0\<lparr>pool := \<lparr>slots = [demo_sess\<lparr>refs := 2, inRoom := True\<rparr>], sfree = []\<rparr>, rooms := [demo_room], freeRooms := [], openRooms := [0],
  roomsPerWorker := (replicate kMaxGameWorkers 0)[0 := 1], mail := (replicate kMaxGameWorkers [])[0 := [0]], met := m, mySessions := [[0]],
     kern := (kern demo0)\<lparr>k_accepts := [], k_reads := []\<rparr>\<rparr>"
definition demo_before where "demo_before m = demo0\<lparr>pool := \<lparr>slots = [demo_sess], sfree = []\<rparr>, met := m, mySessions := [[0]],
     kern := (kern demo0)\<lparr>k_accepts := [], k_reads := []\<rparr>\<rparr>"

lemma join_demo: "\<exists>m'. Join 0 (demo_before m) = (Some (0, 0), demo_entered m')"
  by (simp add: demo_before_def demo_entered_def demo0 Join_def find_open_empty AllocRoom_def AllocRoomSlotLocked_def least_loaded_def enter_seat_def demo_ops demo_sess_def AddRef_def kMaxGameWorkers_def
     upd_room_def idx_clear new_room_def demo_room_def)

lemma flush_loop_done: "rb_DataSize MT (sendQ (At S i)) = 0 \<Longrightarrow> \<not> wantWrite (At S i) \<Longrightarrow> flush_loop MT w i ws S = S"
  by (subst flush_loop.simps) simp

lemma send_demo: "\<exists>m'. SendBytes list_ring_ops 0 0 (enc_join_ok 0 0 0) (demo_entered m) = demo_joined m' [Wrote 7 (enc_join_ok 0 0 0)]"
  apply (simp add: SendBytes_def FlushSend_def demo_entered_def demo0 demo_ops list_ring_simps demo_sess_def demo_kernel_def demo_frame)
  apply (subst flush_loop.simps)
  apply (auto simp add: demo_joined_def demo0 demo_ops list_ring_simps demo_sess_def demo_kernel_def demo_frame os_log_def flush_loop_done dest: arg_cong [where f = length])
  done

lemma dispatch_demo: "\<exists>m'. Dispatch list_ring_ops 0 0 (enc_join kProtocolVersion) (demo_before m) = demo_joined m' [Wrote 7 (enc_join_ok 0 0 0)]"
proof -
  obtain m1 where "Join 0 (demo_before m) = (Some (0, 0), demo_entered m1)" using join_demo by blast
  moreover have "inRoom (At (demo_before m) 0) = False" by (simp add: demo_before_def demo_sess_def)
  ultimately show ?thesis using send_demo [of m1] by (simp add: Dispatch_def handle_join_def demo_frame)
qed

lemma parse_demo: 
  assumes "S = (demo_before m)\<lparr>pool := \<lparr>slots = [demo_sess\<lparr>recvQ := (8191, enc_join kProtocolVersion)\<rparr>], sfree = []\<rparr>\<rparr>"
  shows "\<exists>m'. parse_loop list_ring_ops list_ring_ops 0 0 (Suc (Suc n)) S = demo_joined m' [Wrote 7 (enc_join_ok 0 0 0)]"
proof -
  have "upd_session 0 (\<lambda>s. s\<lparr>recvQ := (8191, [])\<rparr>) S = demo_before m" by (simp add: assms demo_before_def demo_ops demo_sess_def)
  moreover obtain m' where "Dispatch list_ring_ops 0 0 (enc_join kProtocolVersion) (demo_before m) = demo_joined m' [Wrote 7 (enc_join_ok 0 0 0)]"
    using dispatch_demo by blast
  moreover have "recvQ (At S 0) = (8191, enc_join kProtocolVersion)" by (simp add: assms demo_sess_def)
  moreover have "recvQ (At (demo_joined m l) 0) = (8191, [])"  "dead (At (demo_joined m l) 0) = False"  for m l by (simp_all add: demo_joined_def demo_sess_def)
  ultimately show ?thesis by (auto simp: list_ring_simps demo_frame kHeaderSize_def kJoinSize_def MAX_PACKET_SIZE_def)
qed

lemma event_demo: "\<exists>m. demo2 = demo_joined m [Wrote 7 (enc_join_ok 0 0 0)]"
proof -
  obtain m where d1: "demo1 = demo0\<lparr>pool := \<lparr>slots = [demo_sess], sfree = []\<rparr>, met := m, mySessions := [[0]],
     kern := (kern demo0)\<lparr>k_accepts := []\<rparr>\<rparr>" by (rule demo1)
  have a: "At demo1 0 = demo_sess" "length (slots (pool demo1)) = 1" "k_reads (kern demo1) = [Got (enc_join kProtocolVersion)]"
    by (simp_all add: d1 demo0 demo_kernel_def)
  obtain m2 where n: "count_up (\<lambda>g. g\<lparr>mt_recvBytes := Add (word_of_nat kJoinSize) (mt_recvBytes g)\<rparr>)
      (upd_session 0 (\<lambda>s. s\<lparr>recvQ := (fst (recvQ s), snd (recvQ s) @ enc_join kProtocolVersion)\<rparr>) (demo1\<lparr>kern := (kern demo1)\<lparr>k_reads := []\<rparr>\<rparr>)) =
       (demo_before m2)\<lparr>pool := \<lparr>slots = [demo_sess\<lparr>recvQ := (8191, enc_join kProtocolVersion)\<rparr>], sfree = []\<rparr>\<rparr>"
    by (simp add: d1 demo0 demo_before_def demo_ops demo_sess_def demo_kernel_def)
  obtain m3 where p: "ParseFrames list_ring_ops list_ring_ops 0 0 ((demo_before m2)\<lparr>pool := \<lparr>slots = [demo_sess\<lparr>recvQ := (8191, enc_join kProtocolVersion)\<rparr>], sfree = []\<rparr>\<rparr>)
     = demo_joined m3 [Wrote 7 (enc_join_ok 0 0 0)]"
    using parse_demo [OF refl, of 5 m2] by (auto simp: ParseFrames_def list_ring_simps demo_frame kJoinSize_def simp del: parse_loop.simps)
  have l: "read_loop list_ring_ops list_ring_ops 0 0 [] (demo_joined m3 x) = demo_joined m3 x" for x
    by (subst read_loop.simps) (simp add: demo_joined_def demo_sess_def list_ring_simps)
  have "dead (At (demo_joined m3 x) 0) = False"  for x by (simp add: demo_joined_def demo_sess_def)
  moreover have "recvQ demo_sess = (8191, [])" "gen demo_sess = 0" "dead demo_sess = False" by (simp_all add: demo_sess_def)
  moreover have "min (length (enc_join kProtocolVersion)) 8191 = kJoinSize" "kJoinSize \<noteq> 0" by (simp_all add: demo_frame kJoinSize_def)
  ultimately have "read_loop list_ring_ops list_ring_ops 0 0 (k_reads (kern demo1)) demo1 = demo_joined m3 [Wrote 7 (enc_join_ok 0 0 0)]"
    by (subst read_loop.simps) (simp add: a list_ring_simps Let_def n p l demo_frame)
  then show ?thesis using a by (auto simp: demo2_def HandleSession_def ReadSession_def Let_def EPOLLIN_def EPOLL_GONE_def EPOLLOUT_def demo_sess_def)
qed

text \<open>What the properties' witnesses read off the states.\<close>

lemma demo2:
  "slots (pool demo2) = [demo_sess\<lparr>refs := 2, inRoom := True\<rparr>]" "rooms demo2 = [demo_room]" "freeRooms demo2 = []"
  "openRooms demo2 = [0]" "mySessions demo2 = [[0]]" "k_log (kern demo2) = [Wrote 7 (enc_join_ok 0 0 0)]"
  "workerCount demo2 = 1" "mail demo2 ! 0 = [0]" "myRooms demo2 ! 0 = []" "length (myRooms demo2) = kMaxGameWorkers"
proof -
  obtain m l where d: "demo2 = demo_joined m l" "l = [Wrote 7 (enc_join_ok 0 0 0)]" using event_demo by blast
  show "slots (pool demo2) = [demo_sess\<lparr>refs := 2, inRoom := True\<rparr>]" "rooms demo2 = [demo_room]" "freeRooms demo2 = []"
    "openRooms demo2 = [0]" "mySessions demo2 = [[0]]" "k_log (kern demo2) = [Wrote 7 (enc_join_ok 0 0 0)]"
    "workerCount demo2 = 1" "mail demo2 ! 0 = [0]" "myRooms demo2 ! 0 = []" "length (myRooms demo2) = kMaxGameWorkers"
    unfolding d by (simp_all add: demo_joined_def demo0 kMaxGameWorkers_def)
qed

lemma demo_booted: "booted demo0"
  unfolding booted_def demo0_def
  by (rule exI [of _ 1], rule exI [of _ 1], rule exI [of _ 1], rule exI [of _ 1], rule exI [of _ "(0, [])"],
      rule exI [of _ "(0, [])"], rule exI [of _ demo_kernel]) (simp add: kMaxGameWorkers_def)

lemma demo_lists: "mySessions demo1 = [[0]]"
proof -
  obtain m where d: "demo1 = demo0\<lparr>pool := \<lparr>slots = [demo_sess], sfree = []\<rparr>, met := m, mySessions := [[0]],
     kern := (kern demo0)\<lparr>k_accepts := []\<rparr>\<rparr>" by (rule demo1)
  show ?thesis by (subst d) simp
qed

abbreviation demo_step where "demo_step \<equiv> server_step list_ring_ops list_ring_ops"

lemma demo_step_accept: "demo_step demo0 demo1"
  unfolding demo1_def by (rule server_step.accept) (simp add: demo0)

lemma demo_step_event: "demo_step demo1 demo2"
  unfolding demo2_def by (rule server_step.event) (simp_all only: registered_def demo_lists, simp_all)

lemma demo_step_mail: "demo_step demo2 demo3"
  unfolding demo3_def by (rule server_step.drain_mail)

lemma demo_step_queues: "demo_step demo3 demo4"
proof -
  have m: "myRooms demo3 ! 0 = [0]"
    unfolding demo3_def DrainRoomAddQ_def using demo2(8-10) by (simp add: kMaxGameWorkers_def)
  show ?thesis
    unfolding demo4_def by (rule server_step.queues) (simp_all only: m, simp_all add: kMaxGameWorkers_def)
qed

lemma demo_reach:
  "reach booted demo_step demo1" "reach booted demo_step demo2" "reach booted demo_step demo3" "reach booted demo_step demo4"
proof -
  have "reach booted demo_step demo0" by (rule reach_init [where S = demo0]) (rule demo_booted)
  then show "reach booted demo_step demo1" by (rule reach_step) (rule demo_step_accept)
  then show "reach booted demo_step demo2" by (rule reach_step) (rule demo_step_event)
  then show "reach booted demo_step demo3" by (rule reach_step) (rule demo_step_mail)
  then show "reach booted demo_step demo4" by (rule reach_step) (rule demo_step_queues)
qed

lemma demo4:
  "slots (pool demo4) = [demo_sess\<lparr>refs := 2, inRoom := True\<rparr>]"
  "rooms demo4 = [seat_member 0 0 0 0 (demo_room\<lparr>r_pendingJoin := []\<rparr>)]" "freeRooms demo4 = []"
  "myRooms demo4 ! 0 = [0]" "mySessions demo4 = [[0]]"
proof -
  obtain m l where d: "demo2 = demo_joined m l" using event_demo by blast
  have q: "pool (snd (queues_turn 0 0 (DrainRoomAddQ 0 (demo_joined m l)))) = pool (demo_joined m l)"
    "rooms (snd (queues_turn 0 0 (DrainRoomAddQ 0 (demo_joined m l)))) = [seat_member 0 0 0 0 (demo_room\<lparr>r_pendingJoin := []\<rparr>)]"
    "freeRooms (snd (queues_turn 0 0 (DrainRoomAddQ 0 (demo_joined m l)))) = []"
    "myRooms (snd (queues_turn 0 0 (DrainRoomAddQ 0 (demo_joined m l)))) ! 0 = [0]"
    "mySessions (snd (queues_turn 0 0 (DrainRoomAddQ 0 (demo_joined m l)))) = [[0]]"
    by (simp_all add: queues_turn_def ProcessRoomQueues_def DrainRoomAddQ_def demo_joined_def demo0 kMaxGameWorkers_def demo_ops
        apply_queues_def demo_room_def clear_room_def new_room_def upd_room_def join_one_def demo_sess_def seat_member_def room_empty_def)
  show "slots (pool demo4) = [demo_sess\<lparr>refs := 2, inRoom := True\<rparr>]"
    "rooms demo4 = [seat_member 0 0 0 0 (demo_room\<lparr>r_pendingJoin := []\<rparr>)]" "freeRooms demo4 = []" "myRooms demo4 ! 0 = [0]"
    "mySessions demo4 = [[0]]"
    unfolding demo4_def demo3_def d q by (simp_all add: demo_joined_def)
qed

text \<open>Then the connection breaks: the session is dead, its leave is filed, its seat still held.\<close>

definition demo5 where "demo5 = Disconnect 0 0 demo4"

lemma demo5: "reach booted demo_step demo5" "slots (pool demo5) = [demo_sess\<lparr>refs := 1, dead := True, fd := - 1\<rparr>]"
  "myRooms demo5 = myRooms demo4" "freeRooms demo5 = []" "r_gameWorker (room_at demo5 0) = 0"
proof -
  have "demo_step demo4 demo5"
    unfolding demo5_def by (rule server_step.cleanup) (simp_all add: demo4(5))
  with demo_reach(4) show "reach booted demo_step demo5" by (blast intro: reach_step)
  have c: "idx (At demo4 0) = 0" "\<not> dead (At demo4 0)" "roomIdx (At demo4 0) = 0" "inRoom (At demo4 0)"
    by (simp_all add: demo4 demo_sess_def)
  have "0 < length (slots (pool demo4))" "inRoom (At demo4 0) \<longrightarrow> roomIdx (At demo4 0) < length (rooms demo4)"
    by (simp_all add: demo4 demo_sess_def)
  note D = Disconnect_eqs [OF this(1) c(2,1) this(2), of 0, folded demo5_def]
  show "slots (pool demo5) = [demo_sess\<lparr>refs := 1, dead := True, fd := - 1\<rparr>]"
    by (simp add: D(1) demo4 Release_def upd_sess_def upd_at_def hung_up_def demo_sess_def Let_def)
  show "myRooms demo5 = myRooms demo4" "freeRooms demo5 = []" by (simp_all add: D demo4)
  show "r_gameWorker (room_at demo5 0) = 0"
    unfolding D(2) c(3) by (simp add: c(4) demo4 file_leave_def seat_member_def demo_room_def)
qed

end
