(* ===== verification/Server_Props.thy ===== *)
theory Server_Props
  imports Demo
begin

text \<open>
  What holds in every reachable state of the server, whatever the interleaving of its workers:
  references, seats, rooms and workers. Each property is read off the invariant, which the
  interpretation of \<open>invariant_system\<close> gives for every reachable state.
\<close>

lemmas reachD = server.reach_inv [THEN InvD(1)] server.reach_inv [THEN InvD(2)] server.reach_inv [THEN InvD(3)]
  server.reach_inv [THEN InvD(4)] server.reach_inv [THEN InvD(5)] server.reach_inv [THEN InvD(6)]

section \<open>References\<close>

lemma live_seat: "live S r \<Longrightarrow> tab S r = seat (room_at S r)"
  by (simp add: tab_def)

lemma seat_dead: "\<not> live S r \<Longrightarrow> tab S r = Map.empty"
  by (simp add: tab_def)

lemma member_seat:
  assumes "m_used (r_members x ! k)" "k < length (r_members x)"
  shows "seat x k = Some (m_sessIdx (r_members x ! k), m_sessGen (r_members x ! k))"
  using assms by (simp add: seat_def memb_def map_add_def)

text \<open>C2. No dangling reference: a member of a live room names a session slot that is held,
  still has the generation of the member, and knows its room and seat; the slot is not on the
  free stack. So the game worker that follows the number never reaches a recycled session.\<close>

theorem no_dangling_member:
  assumes "reach booted (server_step ST MT) S" "live S r" "k < kRoomMembers" "m_used (r_members (room_at S r) ! k)"
  defines "i \<equiv> m_sessIdx (r_members (room_at S r) ! k)"
  shows "i < length (slots (pool S)) \<and> gen (At S i) = m_sessGen (r_members (room_at S r) ! k) \<and>
    0 < refs (At S i) \<and> i \<notin> set (sfree (pool S)) \<and> roomIdx (At S i) = r \<and> actorId (At S i) = k"
proof -
  note inv = server.reach_inv [OF assms(1)]
  have "k < length (r_members (room_at S r))"
    using seats_okD(1) [OF room_liveD(5) [OF inv assms(2)]] assms(3) by simp
  then have "tab S r k = Some (i, m_sessGen (r_members (room_at S r) ! k))"
    using member_seat assms(4) by (simp add: live_seat [OF assms(2)] i_def)
  from seat_okD [OF books_okD(3) [OF InvD(2) [OF inv] this]]
  show ?thesis using pool_okD [OF InvD(6) [OF inv]] by (metis order_le_imp_less_or_eq)
qed

theorem no_dangling_member_witness:
  "m_used (r_members (room_at demo4 0) ! 0) \<and> gen (At demo4 0) = m_sessGen (r_members (room_at demo4 0) ! 0) \<and> 0 < refs (At demo4 0)"
  using no_dangling_member [OF demo_reach(4), of 0 0]
  by (simp add: demo4 live_def seat_member_def demo_room_def clear_room_def kRoomMembers_def)

text \<open>C1. Reference counts are exact: the count of every slot is one for the epoll worker that
  owns the session, while it is on that worker's list, plus one for the seat it occupies, as a
  member or as a pending join of a live room. With slot_freed_iff_all_returned this says that no
  reference leaks and none is returned twice.\<close>

theorem references_exact:
  assumes "reach booted (server_step ST MT) S" "i < length (slots (pool S))"
  shows "refs (At S i) = of_bool (\<exists>w<length (mySessions S). i \<in> set (mySessions S ! w)) +
    int (card {(r, k). live S r \<and> (\<exists>g. seat (room_at S r) k = Some (i, g))})"
proof -
  note inv = server.reach_inv [OF assms(1)]
  let ?s = "At S i" and ?O = "\<exists>w<length (mySessions S). i \<in> set (mySessions S ! w)"
  let ?A = "{(r, k). live S r \<and> (\<exists>g. seat (room_at S r) k = Some (i, g))}"
  have owned: "?O \<longleftrightarrow> refs ?s \<noteq> 0 \<and> \<not> dead ?s"
    using InvD(3) [OF inv] assms(2) unfolding mine_ok_def by (auto split: if_splits)
  have one: "seat_ok (pool S) (leaves S) r k (i, g)" if "live S r" "seat (room_at S r) k = Some (i, g)" for r k g
    using books_okD(3) [OF InvD(2) [OF inv], of r k] that by (simp add: tab_def)
  have A: "?A = (if refs ?s \<noteq> 0 \<and> tab S (roomIdx ?s) (actorId ?s) = Some (i, gen ?s) then {(roomIdx ?s, actorId ?s)} else {})"
  proof -
    have "(r, k) \<in> ?A \<longleftrightarrow> refs ?s \<noteq> 0 \<and> tab S (roomIdx ?s) (actorId ?s) = Some (i, gen ?s) \<and> r = roomIdx ?s \<and> k = actorId ?s" for r k
    proof
      assume "(r, k) \<in> ?A"
      then obtain g where g: "live S r" "seat (room_at S r) k = Some (i, g)" by auto
      from seat_okD(2-5) [OF one [OF this]]
      show "refs ?s \<noteq> 0 \<and> tab S (roomIdx ?s) (actorId ?s) = Some (i, gen ?s) \<and> r = roomIdx ?s \<and> k = actorId ?s"
        using g by (auto simp: tab_def)
    qed (auto simp: tab_def split: if_splits)
    then show ?thesis by auto
  qed
  show ?thesis
  proof (cases "refs ?s = 0")
    case True
    then have "?A = {}" "\<not> ?O" using owned A by simp_all
    then show ?thesis using True by (simp only: card.empty of_bool_eq)
  next
    case False
    then show ?thesis
      using books_okD(2) [OF InvD(2) [OF inv] assms(2)] owned unfolding A sess_ok_def by simp
  qed
qed

theorem references_exact_witness:
  "refs (At demo4 0) = of_bool (\<exists>w<length (mySessions demo4). 0 \<in> set (mySessions demo4 ! w)) +
     int (card {(r, k). live demo4 r \<and> (\<exists>g. seat (room_at demo4 r) k = Some (0, g))}) \<and> refs (At demo4 0) = 2"
  using references_exact [OF demo_reach(4), of 0] by (simp add: demo4)

text \<open>A session in a room sits where it says it does, and nowhere else: its room is live, its
  seat there is taken by it, and any seat of any live room that names the slot is that one.\<close>

theorem session_sits_once:
  assumes "reach booted (server_step ST MT) S" "i < length (slots (pool S))" "refs (At S i) \<noteq> 0" "inRoom (At S i)"
  shows "live S (roomIdx (At S i)) \<and> \<not> dead (At S i) \<and> seat (room_at S (roomIdx (At S i))) (actorId (At S i)) = Some (i, gen (At S i)) \<and>
    (\<forall>r k g. live S r \<longrightarrow> seat (room_at S r) k = Some (i, g) \<longrightarrow> r = roomIdx (At S i) \<and> k = actorId (At S i) \<and> g = gen (At S i))"
proof -
  note inv = server.reach_inv [OF assms(1)]
  note L = in_room_live [OF inv assms(2-4)]
  have "\<not> dead (At S i)"
    using books_okD(2) [OF InvD(2) [OF inv] assms(2)] assms(3,4) by (simp add: sess_ok_def)
  moreover have "r = roomIdx (At S i) \<and> k = actorId (At S i) \<and> g = gen (At S i)"
    if "live S r" "seat (room_at S r) k = Some (i, g)" for r k g
    using one_seat [OF InvD(2) [OF inv] L(2), of r k g] that(2) live_seat [OF that(1)] by metis
  ultimately show ?thesis using L live_seat [OF L(1)] by metis
qed

theorem session_sits_once_witness:
  "inRoom (At demo4 0) \<and> seat (room_at demo4 0) 0 = Some (0, gen (At demo4 0))"
  using session_sits_once [OF demo_reach(4), of 0] by (simp add: demo4 demo_sess_def)

section \<open>Rooms\<close>

text \<open>C14. Seat accounts: in a live room a seat is marked used exactly when a pending join or a member
  has it; the reserved seats are the used ones, between one and four; the member count is the
  number of members.\<close>

theorem seat_accounts:
  assumes "reach booted (server_step ST MT) S" "live S r"
  defines "x \<equiv> room_at S r"
  shows "(\<forall>k<kRoomMembers. r_seatUsed x ! k \<longleftrightarrow> m_used (r_members x ! k) \<or> k \<in> j_actorId ` set (r_pendingJoin x)) \<and>
    r_reservedSeats x = int (card {k. k < kRoomMembers \<and> r_seatUsed x ! k}) \<and> 1 \<le> r_reservedSeats x \<and> r_reservedSeats x \<le> int kRoomMembers \<and>
    r_memberCount x = int (card {k. k < kRoomMembers \<and> m_used (r_members x ! k)})"
proof -
  note inv = server.reach_inv [OF assms(1)]
  note R = room_liveD [OF inv assms(2), folded x_def]
  have s: "length (r_members x) = kRoomMembers" "\<forall>k<kRoomMembers. r_seatUsed x ! k \<longleftrightarrow> seat x k \<noteq> None"
    "r_reservedSeats x = int (card (dom (seat x)))" "r_memberCount x = int (card (dom (memb (r_members x))))"
    "\<forall>e\<in>set (r_pendingJoin x). j_actorId e < kRoomMembers"
    using R(5) by (simp_all add: seats_ok_def seat_def)
  have d: "dom (memb (r_members x)) = {k. k < kRoomMembers \<and> m_used (r_members x ! k)}"
    using s(1) by (auto simp: memb_def split: if_splits)
  have ds: "dom (seat x) = {k. k < kRoomMembers \<and> (m_used (r_members x ! k) \<or> k \<in> j_actorId ` set (r_pendingJoin x))}"
    using d s(5) by (auto simp: seat_def dom_pend)
  then have u: "\<forall>k<kRoomMembers. r_seatUsed x ! k \<longleftrightarrow> m_used (r_members x ! k) \<or> k \<in> j_actorId ` set (r_pendingJoin x)"
    using s(2) unfolding domIff [symmetric] by simp
  have e: "dom (seat x) = {k. k < kRoomMembers \<and> r_seatUsed x ! k}" using ds u by auto
  have sub: "dom (seat x) \<subseteq> {..<kRoomMembers}" using ds by auto
  then have "card (dom (seat x)) \<le> kRoomMembers" "finite (dom (seat x))"
    using card_mono [of "{..<kRoomMembers}" "dom (seat x)"] finite_subset by auto
  moreover have "0 < card (dom (seat x))" using R(2) calculation(2) by (simp add: card_gt_0_iff)
  ultimately have "1 \<le> r_reservedSeats x" "r_reservedSeats x \<le> int kRoomMembers" by (simp_all add: s(3))
  then show ?thesis using u s(3) s(4) unfolding d e by blast
qed

theorem seat_accounts_witness:
  "r_reservedSeats (room_at demo4 0) = int (card {k. k < kRoomMembers \<and> r_seatUsed (room_at demo4 0) ! k}) \<and> live demo4 0"
proof -
  have l: "live demo4 0" by (simp add: demo4 live_def)
  show ?thesis using seat_accounts [OF demo_reach(4) l] l by blast
qed

text \<open>C15. Every live room is ticked by exactly one game worker: it occurs once among all the lists
  and mailboxes of the workers, with the worker written in it, and the load counter of each
  worker is the number of its rooms. A free room is with no worker.\<close>

theorem room_has_one_worker:
  assumes "reach booted (server_step ST MT) S" "w < kMaxGameWorkers"
  shows "distinct (myRooms S ! w @ mail S ! w) \<and>
    set (myRooms S ! w @ mail S ! w) = {r. live S r \<and> r_gameWorker (room_at S r) = w} \<and>
    roomsPerWorker S ! w = of_nat (card {r. live S r \<and> r_gameWorker (room_at S r) = w}) \<and>
    (\<forall>r. live S r \<longrightarrow> r_gameWorker (room_at S r) < workerCount S)"
  using reachD(5) [OF assms(1)] assms(2) distinct_card [of "placed S w"] by (auto simp: work_ok_def placed_def)

theorem room_has_one_worker_witness:
  "roomsPerWorker demo4 ! 0 = of_nat (card {r. live demo4 r \<and> r_gameWorker (room_at demo4 r) = 0})"
  using room_has_one_worker [OF demo_reach(4), of 0] by (simp add: kMaxGameWorkers_def)

text \<open>The two room lists: a free room is on the free stack once; a room on the open list is live
  and has a seat to give, so a join that finds an open room always gets a seat in it.\<close>

theorem open_rooms_have_a_seat:
  assumes "reach booted (server_step ST MT) S" "openRooms S \<noteq> []"
  shows "distinct (freeRooms S) \<and> distinct (openRooms S) \<and> set (openRooms S) \<inter> set (freeRooms S) = {} \<and>
    (\<exists>r k S'. find_open S = (Some (r, k), S') \<and> r = last (openRooms S) \<and> live S r \<and> k < kRoomMembers \<and> \<not> r_seatUsed (room_at S r) ! k)"
proof -
  note inv = server.reach_inv [OF assms(1)]
  obtain k where k: "k < kRoomMembers" "live S (last (openRooms S))" "first_index Not (r_seatUsed (room_at S (last (openRooms S)))) = Some k"
    "fst (find_open S) = Some (last (openRooms S), k)"
    using find_open_found [OF inv assms(2) refl] by (metis fst_conv)
  then have "\<not> r_seatUsed (room_at S (last (openRooms S))) ! k" by (auto dest: first_index_SomeD)
  then show ?thesis
    using InvD(4) [OF inv] k unfolding lists_ok_def live_def by (metis (no_types, lifting) disjoint_iff prod.collapse)
qed

theorem open_rooms_have_a_seat_witness:
  "\<exists>r k S'. find_open demo2 = (Some (r, k), S') \<and> \<not> r_seatUsed (room_at demo2 r) ! k"
  using open_rooms_have_a_seat [OF demo_reach(2)] by (auto simp: demo2)

end
