(* ===== verification/Queue_Effect.thy ===== *)
theory Queue_Effect
  imports Preserve_Turn
begin

text \<open>
  What the queue processing at the tick boundary does to the seats of its room: exactly the seats
  of dead sessions are given up, every other pending join becomes a member. The processing of
  one entry is a step of \<open>settles\<close>, which composes along the queues.
\<close>

definition seat_row :: "nat \<Rightarrow> RoomJoinEntry list \<Rightarrow> ('r, 's) Server \<Rightarrow> nat \<Rightarrow> tag option" where
  "seat_row r js S = pend js ++ memb (r_members (room_at S r))"

text \<open>The room r goes from the row f to the row g, losing only seats of dead sessions.\<close>

definition settles :: "nat \<Rightarrow> (nat \<Rightarrow> tag option) \<Rightarrow> (nat \<Rightarrow> tag option) \<Rightarrow> ('r, 's) Server \<Rightarrow> ('r, 's) Server \<Rightarrow> bool" where
  "settles r f g S S' \<longleftrightarrow> (\<forall>j. dead (At S' j) = dead (At S j)) \<and> length (slots (pool S')) = length (slots (pool S)) \<and>
     (\<forall>r'. r' \<noteq> r \<longrightarrow> room_at S' r' = room_at S r') \<and>
     (\<forall>k. g k = f k \<or> g k = None \<and> (\<exists>i t. f k = Some (i, t) \<and> dead (At S i)))"

lemma settles_refl: "settles r f f S S"
  by (simp add: settles_def)

lemma settles_trans: "settles r f g S S' \<Longrightarrow> settles r g h S' S'' \<Longrightarrow> settles r f h S S''"
proof -
  assume 1: "settles r f g S S'" and 2: "settles r g h S' S''"
  have "h k = f k \<or> h k = None \<and> (\<exists>i t. f k = Some (i, t) \<and> dead (At S i))" for k
  proof (cases "h k = g k")
    case True
    then show ?thesis using 1 by (simp add: settles_def)
  next
    case False
    then obtain i t where "h k = None" "g k = Some (i, t)" "dead (At S i)" using 1 2 unfolding settles_def by metis
    moreover from this(2) have "f k = Some (i, t)" using 1 unfolding settles_def by (metis option.distinct(1))
    ultimately show ?thesis by simp
  qed
  then show ?thesis using 1 2 by (simp add: settles_def)
qed

lemma settles_room:
  assumes "S' = (upd_room r F S)\<lparr>pool := p\<rparr>" "\<And>j. dead (slots p ! j) = dead (At S j)" "length (slots p) = length (slots (pool S))"
    and "g = f \<or> (\<exists>k i t. g = f(k := None) \<and> f k = Some (i, t) \<and> dead (At S i))"
  shows "settles r f g S S'"
  using assms unfolding settles_def by (auto split: if_splits)

lemma dead_Release: "i < length (slots p) \<Longrightarrow> dead (slots (Release i p) ! j) = dead (slots p ! j)"
  by (simp add: slots_Release)

lemma join_settles:
  assumes m: "mid r (e # js) ls S"
  shows "settles r (seat_row r (e # js) S) (seat_row r js (join_one r e S)) S (join_one r e S)"
proof -
  note D = midD [OF m]
  let ?x = "room_at S r" and ?k = "j_actorId e" and ?i = "j_sessIdx e" and ?g = "j_sessGen e"
  have mk: "memb (r_members ?x) ?k = None" by (rule pend_memb_disjoint [OF D(4)]) simp
  have k: "seat_row r (e # js) S ?k = Some (?i, ?g)" using mk by (simp add: seat_row_def map_add_def pend_Cons)
  have "seat_ok (pool S) ((leaves S)(r := named (seat_row r (e # js) S) ls)) r ?k (?i, ?g)"
    unfolding seat_row_def by (rule books_okD(3) [OF D(7)]) (use k in \<open>simp add: seat_row_def\<close>)
  note s = seat_okD [OF this]
  show ?thesis
  proof (cases "dead (At S ?i)")
    case True
    have J: "join_one r e S = (upd_room r (free_seat ?k) S)\<lparr>pool := Release ?i (pool S)\<rparr>"
      using True by (simp add: join_one_def Let_def)
    have "seat_row r js (join_one r e S) = (seat_row r (e # js) S)(?k := None)"
      using seats_skip(2) [OF D(4)] D(2) by (simp add: J seat_row_def free_seat_def)
    then show ?thesis using k True s(1) by (intro settles_room [OF J]) (simp_all add: dead_Release, blast)
  next
    case False
    let ?F = "seat_member ?k ?i ?g (owner (At S ?i))"
    have J: "join_one r e S = (upd_room r ?F S)\<lparr>pool := pool S\<rparr>"
      using False s(2) by (simp add: join_one_def Let_def upd_room_def)
    have "seat_row r js (join_one r e S) = seat_row r (e # js) S"
      using seats_seat(2) [OF D(4), of "default_member\<lparr>m_used := True, m_sessIdx := ?i, m_sessGen := ?g, m_sessOwner := owner (At S ?i)\<rparr>"] D(2)
      by (simp add: J seat_row_def seat_member_def)
    then show ?thesis by (intro settles_room [OF J]) simp_all
  qed
qed

lemma leave_settles:
  assumes m: "mid r [] (e # ls) S"
  shows "settles r (seat_row r [] S) (seat_row r [] (leave_one r e S)) S (leave_one r e S)"
proof -
  note D = midD [OF m]
  let ?x = "room_at S r" and ?i = "l_sessIdx e" and ?g = "l_sessGen e"
  let ?P = "\<lambda>m. m_used m \<and> m_sessIdx m = l_sessIdx e \<and> m_sessGen m = l_sessGen e"
  show ?thesis
  proof (cases "first_index ?P (r_members ?x)")
    case None
    then have "leave_one r e S = S" unfolding leave_one_def by (simp only: option.case)
    then show ?thesis by (simp add: settles_refl)
  next
    case (Some k)
    from first_index_SomeD [OF Some] have k: "k < length (r_members ?x)" "?P (r_members ?x ! k)" by auto
    have kr: "k < kRoomMembers" using k(1) seats_okD(1) [OF D(4)] by simp
    have fk: "seat_row r [] S k = Some (?i, ?g)" using k by (simp add: seat_row_def memb_def)
    then have "(?i, ?g) \<in> named (seat_row r [] S) (e # ls)" by (auto simp: named_def leave_tag_def)
    then have d: "?i < length (slots (pool S))" "dead (At S ?i)"
      using books_okD(4) [OF D(7), of "(?i, ?g)" r] by (simp_all add: seat_row_def)
    have L: "leave_one r e S = (upd_room r (unseat_member k) S)\<lparr>pool := Release ?i (pool S)\<rparr>"
      using Some by (simp add: leave_one_def Let_def)
    have "seat_row r [] (leave_one r e S) = (seat_row r [] S)(k := None)"
      using seats_leave(2) [OF D(4) kr, of] k D(2) by (simp add: L seat_row_def unseat_member_def free_seat_def)
    then show ?thesis using fk d by (intro settles_room [OF L]) (simp_all add: dead_Release, blast)
  qed
qed

lemma joins_settle: "mid r (js @ js') ls S \<Longrightarrow>
    settles r (seat_row r (js @ js') S) (seat_row r js' (fold (join_one r) js S)) S (fold (join_one r) js S)"
  by (induction js arbitrary: S) (auto intro: settles_refl settles_trans join_settles mid_join)

lemma leaves_settle: "mid r [] (ls @ ls') S \<Longrightarrow>
    settles r (seat_row r [] S) (seat_row r [] (fold (leave_one r) ls S)) S (fold (leave_one r) ls S)"
  by (induction ls arbitrary: S) (auto intro: settles_refl settles_trans leave_settles mid_leave)

lemma apply_queues_settles:
  assumes "Inv S" "live S r"
  shows "settles r (seat (room_at S r)) (seat (room_at (apply_queues r S) r)) S (apply_queues r S)"
proof -
  let ?js = "r_pendingJoin (room_at S r)" and ?ls = "r_pendingLeave (room_at S r)"
  let ?S0 = "upd_room r (\<lambda>x. x\<lparr>r_pendingJoin := [], r_pendingLeave := []\<rparr>) S"
  let ?S1 = "fold (join_one r) ?js ?S0"
  have m0: "mid r (?js @ []) ?ls ?S0" using mid_start [OF assms] by simp
  have m1: "mid r [] (?ls @ []) ?S1" using mid_joins [OF m0] by simp
  have r: "r < length (rooms S)" using assms(2) by (simp add: live_def)
  have s0: "settles r f f S ?S0" for f by (simp add: settles_def)
  have "seat_row r ?js ?S0 = seat (room_at S r)" using r by (simp add: seat_row_def seat_def)
  then have "settles r (seat (room_at S r)) (seat_row r [] ?S1) S ?S1"
    using settles_trans [OF s0 joins_settle [OF m0]] by simp
  moreover have "settles r (seat_row r [] ?S1) (seat_row r [] (apply_queues r S)) ?S1 (apply_queues r S)"
    using leaves_settle [OF m1] by (simp add: apply_queues_def Let_def)
  moreover have "seat_row r [] (apply_queues r S) = seat (room_at (apply_queues r S) r)"
    using mid_endD(7) [OF apply_queues_mid [OF assms]] by (simp add: seat_row_def)
  ultimately show ?thesis by (simp only: settles_trans)
qed

text \<open>After the processing no seat is a dead session's, so exactly those were given up.\<close>

definition alive_row :: "('r, 's) Server \<Rightarrow> (nat \<Rightarrow> tag option) \<Rightarrow> nat \<Rightarrow> tag option" where
  "alive_row S f k = (case f k of None \<Rightarrow> None | Some t \<Rightarrow> if dead (At S (fst t)) then None else Some t)"

lemma queues_row:
  assumes inv: "Inv S" and r: "live S r" and S1: "S1 = apply_queues r S"
  shows "memb (r_members (room_at S1 r)) = alive_row S (tab S r)" "r_pendingJoin (room_at S1 r) = []"
    "r_pendingLeave (room_at S1 r) = []"
proof -
  note E = mid_endD [OF apply_queues_mid [OF inv r], folded S1]
  note st = apply_queues_settles [OF inv r, folded S1]
  have dead: "dead (At S1 j) = dead (At S j)" for j using st by (simp add: settles_def)
  have "memb (r_members (room_at S1 r)) k = alive_row S (tab S r) k" for k
  proof -
    have g: "seat (room_at S1 r) k = tab S r k \<or> seat (room_at S1 r) k = None \<and> (\<exists>i t. tab S r k = Some (i, t) \<and> dead (At S i))"
      using st r by (simp add: settles_def tab_def)
    have "\<not> dead (At S i)" if "seat (room_at S1 r) k = Some (i, t)" for i t
      using seat_okD(6) [OF books_okD(3) [OF E(3), of r k "(i, t)"]] that E(1,2) dead by auto
    then have "seat (room_at S1 r) k = alive_row S (tab S r) k"
      using g by (auto simp: alive_row_def split: option.splits)
    then show ?thesis using E(7) by simp
  qed
  then show "memb (r_members (room_at S1 r)) = alive_row S (tab S r)" by (rule ext)
  show "r_pendingJoin (room_at S1 r) = []" "r_pendingLeave (room_at S1 r) = []" using E(5,6) .
qed

lemma queues_freed:
  assumes inv: "Inv S" and r: "live S r" and S1: "S1 = apply_queues r S"
    and s: "tab S r k = Some (i, g)" "dead (At S i)"
  shows "refs (At S1 i) = 0" "i \<in> set (sfree (pool S1))"
proof -
  note m = apply_queues_mid [OF inv r, folded S1]
  note E = mid_endD [OF m] and L = apply_queues_lists [OF S1]
  have st: "settles r (seat (room_at S r)) (seat (room_at S1 r)) S S1" using apply_queues_settles [OF inv r] S1 by simp
  have i: "i < length (slots (pool S1))"
    using seat_okD(1) [OF books_okD(3) [OF InvD(2) [OF inv] s(1)]] st by (simp add: settles_def)
  have d: "dead (At S1 i)" using s(2) st by (simp add: settles_def)
  show "refs (At S1 i) = 0"
  proof (rule ccontr)
    assume "refs (At S1 i) \<noteq> 0"
    then have h: "tab S1 (roomIdx (At S1 i)) (actorId (At S1 i)) = Some (i, gen (At S1 i))"
      using books_okD(2) [OF E(3) i] d by (simp add: sess_ok_def split: if_splits)
    let ?r = "roomIdx (At S1 i)"
    have lv: "(i, gen (At S1 i)) \<in> leaves S1 ?r" using seat_okD(6) [OF books_okD(3) [OF E(3) h] d] by blast
    then have ne: "?r \<noteq> r" using E(2) by auto
    have "live S1 = live S" by (simp add: live_def fun_eq_iff L)
    then have "tab S1 ?r = tab S ?r" using ne st by (simp add: tab_def settles_def)
    then show False using one_seat(1) [OF InvD(2) [OF inv] s(1)] h ne by metis
  qed
  then show "i \<in> set (sfree (pool S1))" using pool_okD(3) [OF books_okD(1) [OF E(3)] i] by simp
qed

end
