(* ===== verification/Turn_Props.thy ===== *)
theory Turn_Props
  imports Demo Queue_Effect
begin

text \<open>
  The operations that change the table of seats, in every reachable state: the queue processing
  at the tick boundary, the join, the move of a room, and the disconnect; each against the
  abstract table (\<open>tab\<close>), and the pass of a game worker over its rooms as a sequence of steps.
\<close>

section \<open>The tick boundary\<close>

text \<open>The two outcomes of a queue turn.\<close>

lemma queues_turn_cases:
  assumes inv: "Inv S" and w: "w < kMaxGameWorkers" "pos < length (myRooms S ! w)"
  defines "r \<equiv> myRooms S ! w ! pos" and "S1 \<equiv> apply_queues (myRooms S ! w ! pos) S"
  shows "if room_empty (room_at S1 r)
    then fst (queues_turn w pos S) \<and> \<not> live (snd (queues_turn w pos S)) r
    else queues_turn w pos S = (False, S1) \<and> live S1 r"
    and "pool (snd (queues_turn w pos S)) = pool S1"
proof -
  note M = my_room [OF inv w, folded r_def]
  have P: "ProcessRoomQueues r S = (room_empty (room_at S1 r), snd (ProcessRoomQueues r S))"
    by (simp add: ProcessRoomQueues_def Let_def S1_def r_def)
  obtain S2 where p: "ProcessRoomQueues r S = (room_empty (room_at S1 r), S2)" using P by metis
  have "pool S2 = pool S1"
    using p by (auto simp: ProcessRoomQueues_def Let_def FreeRoomIfDrained_def S1_def r_def split: if_splits)
  then show "pool (snd (queues_turn w pos S)) = pool S1"
    using p by (auto simp: queues_turn_def r_def split: bool.splits)
  show "if room_empty (room_at S1 r)
    then fst (queues_turn w pos S) \<and> \<not> live (snd (queues_turn w pos S)) r
    else queues_turn w pos S = (False, S1) \<and> live S1 r"
  proof (cases "room_empty (room_at S1 r)")
    case True
    then have t: "ProcessRoomQueues r S = (True, S2)" using p by simp
    have "live (snd (queues_turn w pos S)) r = live S2 r"
      using t by (simp add: queues_turn_def r_def live_def)
    then show ?thesis using Process_dies(5) [OF inv M(1) t, of r] True t by (simp add: queues_turn_def r_def)
  next
    case False
    then have t: "ProcessRoomQueues r S = (False, S2)" using p by simp
    then have "S2 = S1" using Process_stays(5) [OF inv M(1)] by (simp add: S1_def r_def)
    then show ?thesis using Process_stays(2) [OF inv M(1) t] t False by (simp add: queues_turn_def r_def)
  qed
qed

lemma row_empty_iff:
  assumes inv: "Inv S" and r: "live S r" and S1: "S1 = apply_queues r S"
  shows "room_empty (room_at S1 r) \<longleftrightarrow> alive_row S (tab S r) = Map.empty"
proof -
  note Q = queues_row [OF assms] and E = mid_endD [OF apply_queues_mid [OF inv r], folded S1]
  have ok: "seats_ok [] (r_members (room_at S1 r)) (r_seatUsed (room_at S1 r)) (r_reservedSeats (room_at S1 r)) (r_memberCount (room_at S1 r))"
    "r_everReserved (room_at S1 r)" "\<not> r_dead (room_at S1 r)"
    using E(4) Q(2) by (simp_all add: room_ok_def)
  have "r_reservedSeats (room_at S1 r) = int (card (dom (alive_row S (tab S r))))"
    using seats_okD(6) [OF ok(1)] Q(1) by simp
  moreover have "finite (dom (alive_row S (tab S r)))" using seats_dom(3) [OF ok(1)] Q(1) by simp
  ultimately show ?thesis using ok Q(2) by (simp add: room_empty_def)
qed

text \<open>When every disconnect runs undisturbed, as a step of its own, the tick boundary drops exactly the dead: after a room's queues
  are processed its members are the sessions that sat in the room or waited to be seated and are
  still alive, each on its own seat; nobody waits and no leave is pending. The room is given
  back exactly when nobody alive is left. The theory Disconnect_Gap says what happens when a queue
  turn or a room move falls into the middle of a disconnect.\<close>

theorem tick_boundary_keeps_the_living:
  assumes "reach booted (server_step ST MT) S" "w < kMaxGameWorkers" "pos < length (myRooms S ! w)"
  defines "r \<equiv> myRooms S ! w ! pos" and "S' \<equiv> snd (queues_turn w pos S)"
  defines "row \<equiv> alive_row S (seat (room_at S r))"
  shows "live S r \<and> fst (queues_turn w pos S) = (row = Map.empty) \<and>
    (if row = Map.empty then \<not> live S' r
     else live S' r \<and> memb (r_members (room_at S' r)) = row \<and> r_pendingJoin (room_at S' r) = [] \<and> r_pendingLeave (room_at S' r) = [])"
proof -
  note inv = server.reach_inv [OF assms(1)]
  note M = my_room [OF inv assms(2,3), folded r_def]
  have row: "row = alive_row S (tab S r)" using M(1) by (simp add: row_def tab_def)
  note C = queues_turn_cases(1) [OF inv assms(2,3), folded r_def] and Q = queues_row [OF inv M(1) refl, folded row]
  show ?thesis
    using C Q M(1) row_empty_iff [OF inv M(1) refl, folded row] by (auto simp: S'_def split: if_splits)
qed

theorem tick_boundary_keeps_the_living_witness:
  "memb (r_members (room_at (snd (queues_turn 0 0 demo3)) 0)) 0 = Some (0, 0)"
proof -
  have m: "myRooms demo3 ! 0 = [0]"
    unfolding demo3_def DrainRoomAddQ_def using demo2(8-10) by (simp add: kMaxGameWorkers_def)
  have r: "room_at demo3 0 = demo_room" "At demo3 0 = demo_sess\<lparr>refs := 2, inRoom := True\<rparr>"
    by (simp_all add: demo3_def DrainRoomAddQ_def demo2)
  have "alive_row demo3 (seat (room_at demo3 0)) 0 = Some (0, 0)"
    by (simp add: alive_row_def r seat_def demo_room_def pend_def memb_def clear_room_def default_member_def kRoomMembers_def map_add_def demo_sess_def)
  then show ?thesis
    using tick_boundary_keeps_the_living [OF demo_reach(3), of 0 0] m by (force simp: kMaxGameWorkers_def)
qed

text \<open>When every disconnect runs undisturbed, a removed session is always on its way out: if a slot is held though its session is dead,
  then it holds the seat of a live room, that room is with a game worker, in its list or its
  mailbox, and the room's next queue turn returns the last reference and frees the slot.\<close>

theorem removed_session_is_freed:
  assumes "reach booted (server_step ST MT) S" "i < length (slots (pool S))" "dead (At S i)" "refs (At S i) \<noteq> 0"
  defines "r \<equiv> roomIdx (At S i)"
  defines "w \<equiv> r_gameWorker (room_at S r)"
  shows "live S r \<and> w < workerCount S \<and> r \<in> set (myRooms S ! w @ mail S ! w) \<and>
    (\<forall>pos<length (myRooms S ! w). myRooms S ! w ! pos = r \<longrightarrow>
       refs (At (snd (queues_turn w pos S)) i) = 0 \<and> i \<in> set (sfree (pool (snd (queues_turn w pos S)))))"
proof -
  note inv = server.reach_inv [OF assms(1)]
  have h: "tab S r (actorId (At S i)) = Some (i, gen (At S i))"
    using books_okD(2) [OF InvD(2) [OF inv] assms(2)] assms(3,4) by (simp add: sess_ok_def r_def split: if_splits)
  then have l: "live S r" by (auto simp: tab_def split: if_splits)
  have W: "work_ok S" using InvD(5) [OF inv] .
  then have w: "w < workerCount S" "w < kMaxGameWorkers" using l by (auto simp: work_ok_def w_def)
  have "r \<in> set (placed S w)" using W w(2) l by (auto simp: work_ok_def w_def)
  moreover have "refs (At (snd (queues_turn w pos S)) i) = 0 \<and> i \<in> set (sfree (pool (snd (queues_turn w pos S))))"
    if "pos < length (myRooms S ! w)" "myRooms S ! w ! pos = r" for pos
    using queues_freed [OF inv l refl h assms(3)] queues_turn_cases(2) [OF inv w(2) that(1)] that(2) by simp
  ultimately show ?thesis using l w(1) by (simp add: placed_def)
qed

theorem removed_session_is_freed_witness:
  "refs (At demo5 0) = 1 \<and> refs (At (snd (queues_turn 0 0 demo5)) 0) = 0"
proof -
  have s: "At demo5 0 = demo_sess\<lparr>refs := 1, dead := True, fd := - 1\<rparr>" "length (slots (pool demo5)) = 1" by (simp_all add: demo5(2))
  show ?thesis
    using removed_session_is_freed [OF demo5(1), of 0] by (simp add: s demo5(3,5) demo4 demo_sess_def)
qed

section \<open>Join\<close>

text \<open>C5. Join refines taking a free seat: it fails exactly when there is no game worker, or neither an
  open room nor a free room slot, and then changes nothing; otherwise the session gets a seat
  below four that nobody has, the table of seats gains exactly that entry, the session
  remembers it, and one reference is added.\<close>

theorem join_takes_a_free_seat:
  assumes "reach booted (server_step ST MT) S" "i < length (slots (pool S))" "refs (At S i) \<noteq> 0"
    "\<not> dead (At S i)" "\<not> inRoom (At S i)"
  shows "if workerCount S = 0 \<or> openRooms S = [] \<and> freeRooms S = [] then Join i S = (None, S)
    else \<exists>r k S'. Join i S = (Some (k, r), S') \<and> k < kRoomMembers \<and> tab S r k = None \<and>
      tab S' = (tab S)(r := (tab S r)(k \<mapsto> (i, gen (At S i)))) \<and> live S' r \<and>
      pool S' = upd_sess i (\<lambda>s. s\<lparr>inRoom := True, roomIdx := r, actorId := k\<rparr>) (AddRef i (pool S))"
proof (cases "workerCount S = 0 \<or> openRooms S = [] \<and> freeRooms S = []")
  case True
  then show ?thesis using Join_result [OF server.reach_inv [OF assms(1)] assms(2-)] by simp
next
  case False
  then obtain r k S' where J: "Join i S = (Some (k, r), S')" "takes_seat i r k S S'"
    using Join_result [OF server.reach_inv [OF assms(1)] assms(2-)] by auto
  then have "tab S' r k \<noteq> None" by (simp add: takes_seat_def)
  then have "live S' r" by (auto simp: tab_def split: if_splits)
  then show ?thesis using J False by (auto simp: takes_seat_def)
qed

theorem join_takes_a_free_seat_witness:
  "\<exists>k r S'. Join 0 demo1 = (Some (k, r), S') \<and> tab S' r k = Some (0, gen (At demo1 0))"
proof -
  obtain m where d: "demo1 = demo0\<lparr>pool := \<lparr>slots = [demo_sess], sfree = []\<rparr>, met := m, mySessions := [[0]],
     kern := (kern demo0)\<lparr>k_accepts := []\<rparr>\<rparr>" by (rule demo1)
  have s: "At demo1 0 = demo_sess" "length (slots (pool demo1)) = 1" "workerCount demo1 = 1" "freeRooms demo1 = [0]"
    by (subst d; simp add: demo0)+
  show ?thesis using join_takes_a_free_seat [OF demo_reach(1), of 0] by (auto simp: s demo_sess_def)
qed

section \<open>The tick of a room\<close>

lemma TransferRoom_None: "fst (TransferRoom MT r S) = None \<longleftrightarrow> freeRooms S = []"
  by (auto simp: TransferRoom_def AllocRoomSlotLocked_def Let_def)

lemma TransferRoom_fails: "freeRooms S = [] \<Longrightarrow> TransferRoom MT r S = (None, S)"
  by (simp add: TransferRoom_def AllocRoomSlotLocked_def)

lemma TransferRoom_nr: "TransferRoom MT r S = (Some nr, S') \<Longrightarrow> nr = last (freeRooms S)"
  by (auto simp: TransferRoom_def AllocRoomSlotLocked_def Let_def split: if_splits)

text \<open>The rooms after a tick that moves its room.\<close>

lemma tick_turn_moved:
  fixes S :: "('r, 's) Server" and MT :: "'s ring_ops"
  assumes inv: "Inv S" and w: "w < kMaxGameWorkers" "pos < length (myRooms S ! w)"
  defines "r \<equiv> myRooms S ! w ! pos" and "nr \<equiv> last (freeRooms S)" and "S0 \<equiv> tick_body MT (myRooms S ! w ! pos) S"
    and "S' \<equiv> tick_turn MT w pos S"
  assumes a: "at_exit (room_at S0 r)" "freeRooms S \<noteq> []"
  shows "memb (r_members (room_at S' nr)) = memb (r_members (room_at S r))" "freeRooms S' = butlast (freeRooms S) @ [r]"
    "w_tick (r_world (room_at S' nr)) = w_tick (r_world (room_at S0 r))"
    "\<And>r'. r' \<noteq> nr \<Longrightarrow> r' \<noteq> r \<Longrightarrow> room_at S' r' = room_at S0 r'"
    "myRooms S' = upd_at w (\<lambda>q. q[pos := nr]) (myRooms S)"
proof -
  have sa: "same_acct S S0" unfolding S0_def by (rule same_acct_tick_body)
  have inv0: "Inv S0" using Inv_same [OF sa inv] .
  have f0: "freeRooms S0 = freeRooms S" "myRooms S0 = myRooms S" using sa by (simp_all add: same_acct_def)
  note M = my_room [OF inv w, folded r_def]
  have l0: "live S0 r" using same_acct_tab(1) [OF sa] M(1) by simp
  have m0: "memb (r_members (room_at S0 r)) = memb (r_members (room_at S r))"
    using members_acct(3) [OF room_acctD(10) [OF same_acctD(4) [OF sa]]] M(1) by (simp add: live_def)
  obtain U where tr: "TransferRoom MT r S0 = (Some nr, U)"
    using TransferRoom_None [of MT r S0] TransferRoom_nr [of MT r S0] a(2) f0 by (cases "TransferRoom MT r S0") (auto simp: nr_def)
  have "ExitCheckAndMaybeTransfer MT r S0 = (Some nr, U)" using a tr by (simp add: ExitCheckAndMaybeTransfer_def)
  then have S': "S' = U\<lparr>myRooms := upd_at w (\<lambda>q. q[pos := nr]) (myRooms U)\<rparr>"
    by (simp add: S'_def tick_turn_def RoomTick_def S0_def r_def)
  obtain V where "same_acct V U" "myRooms V = myRooms S0" using Inv_Transfer [OF inv0 l0 tr] by metis
  then have "myRooms U = myRooms S" using f0 by (simp add: same_acct_def)
  then show "myRooms S' = upd_at w (\<lambda>q. q[pos := nr]) (myRooms S)" by (simp add: S')
  show "memb (r_members (room_at S' nr)) = memb (r_members (room_at S r))" "freeRooms S' = butlast (freeRooms S) @ [r]"
    "w_tick (r_world (room_at S' nr)) = w_tick (r_world (room_at S0 r))" "\<And>r'. r' \<noteq> nr \<Longrightarrow> r' \<noteq> r \<Longrightarrow> room_at S' r' = room_at S0 r'"
    by (rule Transfer_rooms [OF inv0 l0 tr]; simp add: S' m0 f0)+
qed

lemma tick_moves:
  fixes S :: "('r, 's) Server" and MT :: "'s ring_ops"
  assumes "Inv S" "w < kMaxGameWorkers" "pos < length (myRooms S ! w)"
  defines "r \<equiv> myRooms S ! w ! pos" and "S' \<equiv> tick_turn MT w pos S" and "nr \<equiv> last (freeRooms S)"
  shows "if at_exit (room_at (tick_body MT r S) r) \<and> freeRooms S \<noteq> []
    then \<not> live S nr \<and> live S' nr \<and> \<not> live S' r \<and> myRooms S' ! w ! pos = nr \<and>
      tab S' = (tab S)(nr := tab S r, r := Map.empty) \<and> leaves S' = (leaves S)(nr := leaves S r, r := {})
    else tab S' = tab S \<and> leaves S' = leaves S \<and> myRooms S' = myRooms S"
proof -
  note inv = assms(1)
  define S0 where "S0 = tick_body MT r S"
  have sa: "same_acct S S0" unfolding S0_def by (rule same_acct_tick_body)
  have inv0: "Inv S0" using Inv_same [OF sa inv] .
  note T0 = same_acct_tab [OF sa]
  have f0: "freeRooms S0 = freeRooms S" "myRooms S0 = myRooms S" using sa by (simp_all add: same_acct_def)
  note M = my_room [OF inv assms(2,3), folded r_def]
  show ?thesis
  proof (cases "at_exit (room_at S0 r) \<and> freeRooms S \<noteq> []")
    case False
    then have "ExitCheckAndMaybeTransfer MT r S0 = (None, S0)"
      using f0 by (auto simp: ExitCheckAndMaybeTransfer_def TransferRoom_fails)
    then have "S' = S0" by (simp add: S'_def tick_turn_def RoomTick_def S0_def r_def)
    then show ?thesis using False T0 f0 by (auto simp: S0_def [symmetric])
  next
    case True
    obtain U where tr: "TransferRoom MT r S0 = (Some nr, U)"
      using TransferRoom_None [of MT r S0] TransferRoom_nr [of MT r S0] True f0
      by (cases "TransferRoom MT r S0") (auto simp: nr_def)
    have l0: "live S0 r" using M(1) T0(1) by simp
    obtain T where T: "same_acct T U" "\<And>r'. live T r' \<longleftrightarrow> r' = nr \<or> live S0 r' \<and> r' \<noteq> r" "\<not> live S0 nr"
      "myRooms T = myRooms S0" "tab T = (tab S0)(nr := tab S0 r, r := Map.empty)" "leaves T = (leaves S0)(nr := leaves S0 r, r := {})"
      using Inv_Transfer [OF inv0 l0 tr] by metis
    have S': "S' = U\<lparr>myRooms := upd_at w (\<lambda>q. q[pos := nr]) (myRooms U)\<rparr>"
      using tr True by (simp add: S'_def tick_turn_def RoomTick_def ExitCheckAndMaybeTransfer_def S0_def r_def)
    have "live S' = live U \<and> tab S' = tab U \<and> leaves S' = leaves U" unfolding S' by (rule tab_cong) simp_all
    moreover have "myRooms U = myRooms S" using T(1,4) f0 by (simp add: same_acct_def)
    moreover have "r \<noteq> nr" using l0 T(3) by auto
    ultimately show ?thesis
      using True T same_acct_tab [OF T(1)] T0 M(3) assms(3) by (simp add: S0_def [symmetric] S')
  qed
qed

text \<open>C6. A tick never changes who sits where, except that it moves a room as a whole: when all
  members of the room stand in the exit zone and a room slot is free, the whole row of seats,
  members and waiting joins alike, goes to that slot, the old room is given back, and the worker
  has the new room in place of the old one. Nobody is lost and nobody is seated twice.\<close>

theorem tick_moves_whole_room:
  assumes "reach booted (server_step ST MT) S" "w < kMaxGameWorkers" "pos < length (myRooms S ! w)"
  defines "r \<equiv> myRooms S ! w ! pos" and "S' \<equiv> tick_turn MT w pos S" and "nr \<equiv> last (freeRooms S)"
  shows "if at_exit (room_at (tick_body MT r S) r) \<and> freeRooms S \<noteq> []
    then \<not> live S nr \<and> live S' nr \<and> \<not> live S' r \<and> myRooms S' ! w ! pos = nr \<and>
      tab S' = (tab S)(nr := tab S r, r := Map.empty) \<and> leaves S' = (leaves S)(nr := leaves S r, r := {})
    else tab S' = tab S \<and> leaves S' = leaves S \<and> myRooms S' = myRooms S"
  unfolding r_def S'_def nr_def by (rule tick_moves [OF server.reach_inv [OF assms(1)] assms(2,3)])

theorem tick_moves_whole_room_witness:
  "tab (tick_turn list_ring_ops 0 0 demo4) = tab demo4"
  using tick_moves_whole_room [OF demo_reach(4), of 0 0] by (simp add: demo4 kMaxGameWorkers_def)

section \<open>A pass over the rooms\<close>

text \<open>The pass of a game worker over its rooms, with its mailbox, its queue turns, ticks and room
  moves, is made of atomic steps: whatever other workers do in between, the invariant of
  reachable states covers it, and a pass by itself ends in a reachable state.\<close>

theorem pass_is_made_of_steps:
  assumes "reach booted (server_step ST MT) S" "w < kMaxGameWorkers"
  shows "(server_step ST MT)\<^sup>*\<^sup>* S (TickOnce MT w S) \<and> reach booted (server_step ST MT) (TickOnce MT w S)"
  using TickOnce_steps [OF assms(2) server.reach_inv [OF assms(1)]] server.reach_star assms(1) by blast

theorem pass_is_made_of_steps_witness:
  "reach booted demo_step (TickOnce list_ring_ops 0 demo2)"
  using pass_is_made_of_steps [OF demo_reach(2), of 0] by (simp add: kMaxGameWorkers_def)

end
