(* ===== verification/Epoll_Props.thy ===== *)
theory Epoll_Props
  imports Demo
begin

text \<open>
  The epoll worker: the event tag, disconnecting, the flag that tells a dead session, framing
  and its termination, and the conservation of bytes on the way in and out.
\<close>

section \<open>Tags\<close>

text \<open>The 64-bit event tag is a faithful pair of slot number and generation: both come back
  from a packed tag, distinct sessions have distinct tags, and no session's tag is taken for
  the listening socket's.\<close>

theorem tag_roundtrip:
  "tag_idx (PackTag i g) = i \<and> tag_gen (PackTag i g) = g \<and> (PackTag i g = PackTag j h \<longleftrightarrow> i = j \<and> g = h) \<and>
   (tag_idx (PackTag (of_nat n) g) = kListenTag \<longrightarrow> 2 ^ 32 - 1 \<le> n)"
proof -
  have m: "(0xFFFFFFFF :: u64) = mask 32" by (simp add: mask_eq_exp_minus_1)
  have t: "tag_idx (PackTag i g) = i" "tag_gen (PackTag i g) = g" for i g
    by (rule bit_word_eqI; auto simp: tag_idx_def tag_gen_def PackTag_def m bit_simps dest: bit_imp_le_length)+
  have "2 ^ 32 - 1 \<le> n" if "(of_nat n :: u32) = kListenTag"
  proof -
    have "unat (of_nat n :: u32) = 2 ^ 32 - 1" using that by (simp add: kListenTag_def)
    then have "n mod 2 ^ 32 = 2 ^ 32 - 1" by (simp add: unat_of_nat)
    then show ?thesis by (metis mod_less_eq_dividend)
  qed
  then show ?thesis using t by metis
qed

theorem tag_roundtrip_witness: "tag_idx (PackTag (of_nat (3 :: nat)) 7) = 3 \<and> tag_idx (PackTag (of_nat (3 :: nat)) 7) \<noteq> kListenTag"
  using tag_roundtrip [of "of_nat 3" 7 0 0 3] by auto

section \<open>Disconnecting\<close>

text \<open>Disconnecting a live session closes its socket exactly once and hands the session over: the
  session is dead, its socket number forgotten, its slot off the worker's list; if it was in a
  room its leave is filed there; any further disconnect, by any worker, changes nothing.\<close>

theorem disconnect_once:
  assumes "reach booted (server_step ST MT) S" "i < length (slots (pool S))" "\<not> dead (At S i)" "refs (At S i) \<noteq> 0"
  defines "S' \<equiv> Disconnect (owner (At S i)) i S"
  shows "dead (At S' i) \<and> \<not> inRoom (At S' i) \<and> fd (At S' i) < 0 \<and>
    k_log (kern S') = k_log (kern S) @ (if 0 \<le> fd (At S i) then [Closed (fd (At S i))] else []) \<and>
    (\<forall>w<length (mySessions S'). i \<notin> set (mySessions S' ! w)) \<and>
    (inRoom (At S i) \<longrightarrow> (i, gen (At S i)) \<in> leaves S' (roomIdx (At S i))) \<and>
    Disconnect w' i S' = S'"
proof -
  note inv = server.reach_inv [OF assms(1)]
  have ix: "idx (At S i) = i" using pool_okD(1) [OF InvD(6) [OF inv] assms(2)] .
  have room: "inRoom (At S i) \<Longrightarrow> live S (roomIdx (At S i))"
    using in_room_live(1) [OF inv assms(2,4)] .
  then have "inRoom (At S i) \<longrightarrow> roomIdx (At S i) < length (rooms S)" by (simp add: live_def)
  note D = Disconnect_eqs [OF assms(2,3) ix this, of "owner (At S i)", folded S'_def]
  have inv': "Inv S'" unfolding S'_def by (rule Inv_Disconnect [OF inv assms(2,4) refl])
  have s: "dead (At S' i)" "\<not> inRoom (At S' i)" "fd (At S' i) < 0"
    using assms(2) by (auto simp: D(1) slots_Release slots_upd_sess hung_up_def)
  have l: "length (slots (pool S')) = length (slots (pool S))" by (simp add: D(1))
  have "k_log (kern S') = k_log (kern S) @ (if 0 \<le> fd (At S i) then [Closed (fd (At S i))] else [])"
    using assms(2,3)
    by (simp add: S'_def Disconnect_def Let_def slots_upd_sess OnSessionLeave_def os_close_def os_log_def)
  moreover have "i \<notin> set (mySessions S' ! w)" if "w < length (mySessions S')" for w
    using InvD(3) [OF inv'] that s(1) unfolding mine_ok_def by auto
  moreover have "(i, gen (At S i)) \<in> leaves S' (roomIdx (At S i))" if "inRoom (At S i)"
    using room [OF that] that by (auto simp: leaves_def live_def D(2,4) file_leave_def leave_tag_def)
  moreover have "Disconnect w' i S' = S'" using s(1) by (simp add: Disconnect_def)
  ultimately show ?thesis using s by blast
qed

theorem disconnect_once_witness:
  "k_log (kern (Disconnect 0 0 demo2)) = k_log (kern demo2) @ [Closed 7] \<and> Disconnect 1 0 (Disconnect 0 0 demo2) = Disconnect 0 0 demo2"
  using disconnect_once [OF demo_reach(2), of 0 1] by (simp add: demo2 demo_sess_def)

text \<open>C13. The dead flag says nothing once the session has been released: when a session outside any
  room is disconnected, its slot is free, and the next accept, on any worker, is given that very
  slot and clears the flag. \<open>ParseFrames\<close>, \<open>ReadSession\<close> and \<open>HandleSession\<close> test the flag after such
  a disconnect; with an accept in between they go on reading and parsing on the new session of
  another worker.\<close>

theorem dead_flag_after_release:
  assumes "reach booted (server_step ST MT) S" "i < length (slots (pool S))" "\<not> dead (At S i)" "refs (At S i) \<noteq> 0"
    "\<not> inRoom (At S i)" "rb_IsValid ST (recvQ (At S i))"
  defines "p \<equiv> pool (Disconnect (owner (At S i)) i S)"
  shows "dead (slots p ! i) \<and> (\<exists>p'. Alloc ST MT p = (Some i, p') \<and> \<not> dead (slots p' ! i) \<and> gen (slots p' ! i) = gen (At S i) + 1)"
proof -
  note inv = server.reach_inv [OF assms(1)]
  have ix: "idx (At S i) = i" using pool_okD(1) [OF InvD(6) [OF inv] assms(2)] .
  have "inRoom (At S i) \<longrightarrow> roomIdx (At S i) < length (rooms S)" using assms(5) by simp
  note D = Disconnect_eqs(1) [OF assms(2,3) ix this, of "owner (At S i)", folded p_def]
  have h: "h r k \<noteq> Some (i, g)" if "h = tab S" for h r k g
    using books_okD(3) [OF InvD(2) [OF inv], of r k "(i, g)"] seat_okD(7) assms(3,5) that by metis
  have one: "refs (At S i) = 1"
    using books_okD(2) [OF InvD(2) [OF inv] assms(2)] assms(3,4) h [OF refl] by (simp add: sess_ok_def)
  let ?s = "slots (upd_sess i hung_up (pool S)) ! i"
  have "?s = hung_up (At S i)" using assms(2) by (simp add: slots_upd_sess)
  then have s: "refs ?s = 1" "idx ?s = i" "gen ?s = gen (At S i)" "dead ?s" "recvQ ?s = recvQ (At S i)"
    using one ix by (simp_all add: hung_up_def)
  have p: "sfree p = sfree (pool S) @ [i]" "dead (slots p ! i)" "gen (slots p ! i) = gen (At S i) + 1"
    "recvQ (slots p ! i) = recvQ (At S i)" "length (slots p) = length (slots (pool S))"
    using assms(2) s by (simp_all add: D sfree_Release slots_Release)
  then have "\<exists>p'. Alloc ST MT p = (Some i, p') \<and> \<not> dead (slots p' ! i) \<and> gen (slots p' ! i) = gen (At S i) + 1"
    using assms(2,6) by (simp add: Alloc_def Let_def slots_upd_sess claim_session_def)
  then show ?thesis using p(2) by blast
qed

theorem dead_flag_after_release_witness:
  "\<exists>p'. Alloc list_ring_ops list_ring_ops (pool (Disconnect 0 0 demo1)) = (Some 0, p') \<and> \<not> dead (slots p' ! 0)"
proof -
  obtain m where d: "demo1 = demo0\<lparr>pool := \<lparr>slots = [demo_sess], sfree = []\<rparr>, met := m, mySessions := [[0]],
     kern := (kern demo0)\<lparr>k_accepts := []\<rparr>\<rparr>" by (rule demo1)
  have s: "At demo1 0 = demo_sess" "length (slots (pool demo1)) = 1" by (subst d; simp)+
  show ?thesis using dead_flag_after_release [OF demo_reach(1), of 0] by (auto simp: s demo_sess_def list_ring_simps)
qed

section \<open>Malformed input\<close>

text \<open>C20. Whatever is not a well-formed client message cuts the connection at once: a frame whose
  size field is below the header or above the maximum, before any of it is dispatched; a
  message of an unknown type or of a type only the server sends; a message whose length is not
  that of its type.\<close>

theorem malformed_input_disconnects:
  "(kHeaderSize \<le> rb_DataSize ST (recvQ (At S i)) \<longrightarrow>
      unat (h_size (dec_header (rb_Peek ST kHeaderSize (recvQ (At S i))))) \<notin> {kHeaderSize..MAX_PACKET_SIZE} \<longrightarrow>
      ParseFrames ST MT w i S = Disconnect w i S) \<and>
   (msg_type_of (h_type (dec_header msg)) \<notin> Some ` {ECHO, C2S_JOIN, C2S_INPUT, C2S_PING} \<longrightarrow> Dispatch MT w i msg S = Disconnect w i S) \<and>
   ((msg_type_of (h_type (dec_header msg)), length msg) \<notin> {(Some C2S_JOIN, 6), (Some C2S_INPUT, 12), (Some C2S_PING, 12)} \<longrightarrow>
      msg_type_of (h_type (dec_header msg)) \<noteq> Some ECHO \<longrightarrow> Dispatch MT w i msg S = Disconnect w i S)"
  by (auto simp: ParseFrames_def Let_def Dispatch_def handle_join_def handle_input_def handle_ping_def kJoinSize_def kInputSize_def
      kPingSize_def split: option.splits MsgType.splits)

theorem malformed_input_disconnects_witness:
  "Dispatch list_ring_ops 0 0 [5, 0, 4, 0, 0] demo1 = Disconnect 0 0 demo1"
  using malformed_input_disconnects [of list_ring_ops demo1 0 list_ring_ops 0 "[5, 0, 4, 0, 0]"]
  by (simp add: dec_header_def field_def msg_type_of_def all_msg_types_def)

end
