(* ===== verification/Stream_Props.thy ===== *)
theory Stream_Props
  imports Demo
begin

text \<open>
  The byte streams of a session. Under the contract of the ring buffers: the framing loop ends by
  itself, so the bound of the model never cuts it short; and no byte is lost, reordered or
  invented between the receive ring, the send ring and the socket.
\<close>

section \<open>The contract, fact by fact\<close>

lemma ring_contractD:
  assumes "ring_contract R ok cap buf" "ok q"
  shows "length (buf q) \<le> cap q" "rb_DataSize R q = length (buf q)"
    "length (buf q) + length bs \<le> cap q \<Longrightarrow> fst (rb_Enqueue R bs q) = length bs \<and> ok (snd (rb_Enqueue R bs q)) \<and>
       cap (snd (rb_Enqueue R bs q)) = cap q \<and> buf (snd (rb_Enqueue R bs q)) = buf q @ bs"
    "\<not> length (buf q) + length bs \<le> cap q \<Longrightarrow> rb_Enqueue R bs q = (0, q)"
    "n \<le> length (buf q) \<Longrightarrow> rb_Peek R n q = take n (buf q) \<and> fst (rb_Dequeue R n q) = take n (buf q) \<and>
       ok (snd (rb_Dequeue R n q)) \<and> buf (snd (rb_Dequeue R n q)) = drop n (buf q) \<and>
       ok (rb_Consume R n q) \<and> buf (rb_Consume R n q) = drop n (buf q)"
    "\<exists>k. rb_DirectRead R q = take k (buf q)" "buf q \<noteq> [] \<Longrightarrow> rb_DirectRead R q \<noteq> []"
  using assms unfolding ring_contract_def by (simp_all)

section \<open>What leaves the receive ring alone\<close>

definition same_recv :: "('r, 's) Server \<Rightarrow> ('r, 's) Server \<Rightarrow> bool" where
  "same_recv S S' \<longleftrightarrow> map recvQ (slots (pool S')) = map recvQ (slots (pool S))"

named_theorems recv_frame

lemma same_recv_refl [recv_frame]: "same_recv S S"
  by (simp add: same_recv_def)

lemma same_recv_trans: "same_recv S S' \<Longrightarrow> same_recv S' S'' \<Longrightarrow> same_recv S S''"
  by (simp add: same_recv_def)

lemma same_recvD:
  assumes "same_recv S S'" "i < length (slots (pool S))"
  shows "recvQ (At S' i) = recvQ (At S i)" "i < length (slots (pool S'))"
proof -
  have m: "map recvQ (slots (pool S')) = map recvQ (slots (pool S))" using assms(1) by (simp add: same_recv_def)
  then have l: "length (slots (pool S')) = length (slots (pool S))" by (rule map_eq_imp_length_eq)
  show "i < length (slots (pool S'))" using assms(2) l by simp
  then show "recvQ (At S' i) = recvQ (At S i)" using map_eq_nth [OF m] by blast
qed

lemma same_recv_pool: "pool S' = pool S \<Longrightarrow> same_recv S S'"
  by (simp add: same_recv_def)

lemma same_recv_sess: "(\<And>s. recvQ (f s) = recvQ s) \<Longrightarrow> pool S' = upd_sess i f (pool S) \<Longrightarrow> same_recv S S'"
  by (simp add: same_recv_def upd_sess_def map_upd_at_id)

lemma same_recv_session [recv_frame]: "(\<And>s. recvQ (f s) = recvQ s) \<Longrightarrow> same_recv S (upd_session i f S)"
  by (rule same_recv_sess) simp_all

lemma same_recv_frames [recv_frame]:
  "same_recv S (count_up f S)" "same_recv S (upd_room r g S)" "same_recv S (S\<lparr>kern := k\<rparr>)" "same_recv S (S\<lparr>openRooms := os\<rparr>)"
  "same_recv S (os_log e S)" "same_recv S (os_close n S)" "same_recv S (S\<lparr>mySessions := ms\<rparr>)"
  by (simp_all add: same_recv_def os_log_def os_close_def)

lemma same_recv_Release: "same_recv S (S\<lparr>pool := Release i (pool S)\<rparr>)"
  by (simp add: same_recv_def Release_def Let_def upd_sess_def map_upd_at_id)

lemma same_recv_os_ctl: "os_ctl S = (b, S') \<Longrightarrow> same_recv S S'"
  by (rule same_recv_pool) (auto simp: os_ctl_def split: list.splits)

lemma same_recv_write_interest: "same_recv S (UpdateWriteInterest i want S)"
proof (cases "os_ctl S")
  case (Pair b S1)
  have "same_recv S1 (upd_session i (\<lambda>s. s\<lparr>wantWrite := want\<rparr>) (os_log e S1))" for e
    by (rule same_recv_trans [OF same_recv_frames(5) same_recv_session]) simp
  note u = same_recv_trans [OF same_recv_os_ctl [OF Pair] this]
  show ?thesis
    using Pair same_recv_os_ctl [OF Pair] u same_recv_trans [OF u same_recv_frames(1)]
    by (auto simp: UpdateWriteInterest_def Let_def split: bool.splits intro: recv_frame)
qed

lemma same_recv_OnSessionLeave: "same_recv S (OnSessionLeave i S)"
proof -
  have "same_recv S (upd_room r g (upd_session i (\<lambda>s. s\<lparr>inRoom := False\<rparr>) S))" for r g
    by (rule same_recv_trans [OF same_recv_session same_recv_frames(2)]) simp
  then show ?thesis by (auto simp: OnSessionLeave_def Let_def intro: same_recv_refl)
qed

lemma same_recv_Disconnect: "same_recv S (Disconnect w i S)"
proof -
  have a: "same_recv S S'" if "same_recv S S1" "pool S' = Release i (pool (OnSessionLeave i S1))" for S1 S'
    by (rule same_recv_trans [OF that(1) same_recv_trans [OF same_recv_OnSessionLeave
          same_recv_trans [OF same_recv_Release same_recv_pool]]]) (simp add: that(2))
  have b: "same_recv S (upd_session i (\<lambda>s. s\<lparr>dead := True\<rparr>) S)" by (rule same_recv_session) simp
  have c: "same_recv S (upd_session i (\<lambda>s. s\<lparr>fd := - 1\<rparr>) (os_close n (upd_session i (\<lambda>s. s\<lparr>dead := True\<rparr>) S)))" for n
    by (rule same_recv_trans [OF b same_recv_trans [OF same_recv_frames(6) same_recv_session]]) simp
  show ?thesis
    unfolding Disconnect_def Let_def using a [OF b] a [OF c] by (simp add: same_recv_refl)
qed

lemma same_recv_flush_loop: "same_recv S (flush_loop MT w i ws S)"
proof (induction ws arbitrary: S)
  case Nil
  show ?case
    by (subst flush_loop.simps)
      (auto simp: Let_def intro: recv_frame same_recv_write_interest same_recv_trans [OF same_recv_frames(1) same_recv_write_interest])
next
  case (Cons x ws)
  let ?c = "count_up (\<lambda>g. g\<lparr>mt_ringSplitSend := Inc (mt_ringSplitSend g)\<rparr>) S"
  have c: "same_recv S (S\<lparr>kern := k\<rparr>)" "same_recv S (?c\<lparr>kern := k\<rparr>)" for k
    by (simp_all add: same_recv_pool)
  have wi: "same_recv S (UpdateWriteInterest i b S1)" "same_recv S (Disconnect w i S1)" "same_recv S (flush_loop MT w i ws S1)"
    "same_recv S (count_up f S1)" if "same_recv S S1" for S1 b f
    using that same_recv_write_interest same_recv_Disconnect Cons.IH same_recv_frames(1) same_recv_trans by blast+
  have t: "same_recv S (upd_session i (\<lambda>s. s\<lparr>sendQ := g s\<rparr>) (os_log e S1))" if "same_recv S S1" for g e S1
    by (rule same_recv_trans [OF that same_recv_trans [OF same_recv_frames(5) same_recv_session]]) simp
  show ?case
    by (subst flush_loop.simps)
      (simp add: Let_def recv_frame same_recv_write_interest c wi t split: write_result.split)
qed

lemma same_recv_SendBytes: "same_recv S (SendBytes MT w i bs S)"
proof -
  have a: "same_recv S (upd_session i (\<lambda>s. s\<lparr>sendQ := q\<rparr>) S)" for q by (rule same_recv_session) simp
  show ?thesis
    by (auto simp: SendBytes_def Let_def FlushSend_def split: prod.splits
        intro: same_recv_trans [OF a same_recv_flush_loop] same_recv_trans [OF same_recv_trans [OF a same_recv_frames(1)] same_recv_Disconnect])
qed

lemma same_recv_Join: "same_recv S (snd (Join i S))"
  using Join_pool [of i S] by (auto simp: same_recv_def AddRef_def upd_sess_def map_upd_at_id)

lemma same_recv_Dispatch: "same_recv S (Dispatch MT w i msg S)"
proof -
  have jf: "same_recv S1 (join_fail MT w i reason S1)" for reason and S1 :: "('a, 'b) Server"
    unfolding join_fail_def by (rule same_recv_trans [OF same_recv_frames(1) same_recv_SendBytes])
  have j: "same_recv S S1" if "Join i S = (x, S1)" for x S1 using same_recv_Join [of S i] that by simp
  have "same_recv S (handle_join MT w i msg S)"
    by (auto simp: handle_join_def same_recv_Disconnect jf split: prod.splits option.splits
        intro: same_recv_trans [OF j jf] same_recv_trans [OF j same_recv_SendBytes])
  moreover have "same_recv S (PushInput i q mx my a k S)" for q mx my a k
    by (auto simp: PushInput_def Let_def same_recv_def)
  then have "same_recv S (handle_input w i msg S)"
    by (auto simp: handle_input_def Let_def same_recv_Disconnect same_recv_refl)
  moreover have "same_recv S (handle_ping MT w i msg S)"
    by (auto simp: handle_ping_def same_recv_Disconnect same_recv_SendBytes split: prod.splits)
  ultimately show ?thesis
    by (auto simp: Dispatch_def same_recv_Disconnect same_recv_SendBytes split: option.splits MsgType.splits)
qed

section \<open>The framing loop ends\<close>

lemma parse_loop_enough:
  assumes "ring_contract ST ok cap buf" "i < length (slots (pool S))" "ok (recvQ (At S i))"
    and "length (buf (recvQ (At S i))) < n" "length (buf (recvQ (At S i))) < m"
  shows "parse_loop ST MT w i n S = parse_loop ST MT w i m S"
  using assms(2-)
proof (induction n arbitrary: m S)
  case (Suc n)
  let ?q = "recvQ (At S i)"
  note C = ring_contractD [OF assms(1) Suc.prems(2)]
  let ?sz = "unat (h_size (dec_header (rb_Peek ST kHeaderSize ?q)))"
  obtain m' where m: "m = Suc m'" using Suc.prems(4) by (cases m) auto
  have go: "parse_loop ST MT w i n S2 = parse_loop ST MT w i m' S2"
    if z: "kHeaderSize \<le> ?sz" "?sz \<le> rb_DataSize ST ?q"
      and S2: "S2 = Dispatch MT w i (fst (rb_Dequeue ST ?sz ?q)) (upd_session i (\<lambda>s. s\<lparr>recvQ := snd (rb_Dequeue ST ?sz ?q)\<rparr>) S1)"
      and S1: "S1 = S \<or> S1 = count_up f S" for S1 S2 f
  proof (rule Suc.IH)
    have l: "?sz \<le> length (buf ?q)" using z(2) C(2) by simp
    have d: "ok (snd (rb_Dequeue ST ?sz ?q))" "buf (snd (rb_Dequeue ST ?sz ?q)) = drop ?sz (buf ?q)"
      using C(5) [OF l] by simp_all
    have i1: "i < length (slots (pool (upd_session i g S1)))" for g using Suc.prems(1) S1 by auto
    have r: "recvQ (At S2 i) = snd (rb_Dequeue ST ?sz ?q)"
      using same_recvD(1) [OF same_recv_Dispatch i1] Suc.prems(1) S1 by (auto simp: S2 slots_upd_sess)
    show "i < length (slots (pool S2))" unfolding S2 by (rule same_recvD(2) [OF same_recv_Dispatch i1])
    show "ok (recvQ (At S2 i))" using d r by simp
    have "0 < ?sz" using z(1) by (simp add: kHeaderSize_def)
    then have "length (buf (recvQ (At S2 i))) < length (buf ?q)"
      unfolding r d(2) using l by simp
    then show "length (buf (recvQ (At S2 i))) < n" "length (buf (recvQ (At S2 i))) < m'"
      using Suc.prems(3,4) m by simp_all
  qed
  show ?case
    unfolding m by (auto simp: Let_def split: prod.splits intro!: go)
qed simp

text \<open>C19. The framing loop terminates by itself: every round that goes on takes a whole frame of at
  least four bytes off the receive ring and nothing puts bytes back, so any bound above the
  number of buffered bytes gives the result of \<open>ParseFrames\<close>; the loop never runs out.\<close>

theorem framing_terminates:
  assumes "ring_contract ST ok cap buf" "i < length (slots (pool S))" "ok (recvQ (At S i))"
    and "length (buf (recvQ (At S i))) < n"
  shows "parse_loop ST MT w i n S = ParseFrames ST MT w i S"
  unfolding ParseFrames_def
  by (rule parse_loop_enough [OF assms]) (simp add: ring_contractD(2) [OF assms(1,3)])

theorem framing_terminates_witness:
  "parse_loop list_ring_ops list_ring_ops 0 0 1000 demo2 = ParseFrames list_ring_ops list_ring_ops 0 0 demo2"
  using framing_terminates [OF list_ring_contract, of 0 demo2 1000] by (simp add: demo2 demo_sess_def)

section \<open>The send path conserves bytes\<close>

text \<open>The bytes that went into a socket, from the log of the system calls.\<close>

definition sent :: "int \<Rightarrow> os_event list \<Rightarrow> bytes" where
  "sent f es = concat (map (\<lambda>e. case e of Wrote g bs \<Rightarrow> if g = f then bs else [] | _ \<Rightarrow> []) es)"

lemma sent_simps [simp]:
  "sent f [] = []" "sent f (es @ es') = sent f es @ sent f es'" "sent f (Wrote f bs # es) = bs @ sent f es"
  "sent f (Watch g b # es) = sent f es" "sent f (Closed g # es) = sent f es"
  by (simp_all add: sent_def)

text \<open>
  What a piece of the send path does to session i: the bytes it writes to the socket and those it
  leaves in the ring are the bytes that were there, in order.
\<close>

definition conserves :: "('s \<Rightarrow> bool) \<Rightarrow> ('s \<Rightarrow> bytes) \<Rightarrow> nat \<Rightarrow> ('r, 's) Server \<Rightarrow> ('r, 's) Server \<Rightarrow> bool" where
  "conserves ok buf i S S' \<longleftrightarrow> i < length (slots (pool S')) \<and> ok (sendQ (At S' i)) \<and> (fd (At S' i) = fd (At S i) \<or> dead (At S' i)) \<and>
     (\<exists>es. k_log (kern S') = k_log (kern S) @ es \<and> sent (fd (At S i)) es @ buf (sendQ (At S' i)) = buf (sendQ (At S i)))"

lemma conserves_trans:
  assumes "conserves ok buf i S S'" "conserves ok buf i S' S''" "fd (At S' i) = fd (At S i)"
  shows "conserves ok buf i S S''"
  using assms unfolding conserves_def by (metis append.assoc sent_simps(2))

lemma conserves_same:
  assumes "i < length (slots (pool S))" "ok (sendQ (At S i))" "pool S' = pool S" "k_log (kern S') = k_log (kern S)"
  shows "conserves ok buf i S S'"
  using assms by (simp add: conserves_def)

lemma os_ctl_eqs:
  assumes "os_ctl S = (b, S')"
  shows "pool S' = pool S" "k_log (kern S') = k_log (kern S)" "\<not> b \<Longrightarrow> k_ctls (kern S) = False # k_ctls (kern S')"
  using assms by (auto simp: os_ctl_def split: list.splits)

lemma write_interest:
  assumes "i < length (slots (pool S))" "ok (sendQ (At S i))"
  shows "conserves ok buf i S (UpdateWriteInterest i want S)" "dead (At (UpdateWriteInterest i want S) i) = dead (At S i)"
    "wantWrite (At (UpdateWriteInterest i want S) i) = want \<or>
      wantWrite (At (UpdateWriteInterest i want S) i) = wantWrite (At S i) \<and>
      k_ctls (kern S) = False # k_ctls (kern (UpdateWriteInterest i want S))"
    "sendQ (At (UpdateWriteInterest i want S) i) = sendQ (At S i)"
proof -
  obtain b S1 where b: "os_ctl S = (b, S1)" by (cases "os_ctl S")
  note E = os_ctl_eqs [OF b]
  show "conserves ok buf i S (UpdateWriteInterest i want S)" "dead (At (UpdateWriteInterest i want S) i) = dead (At S i)"
    "sendQ (At (UpdateWriteInterest i want S) i) = sendQ (At S i)"
    using assms b E(1,2)
    by (auto simp: conserves_def UpdateWriteInterest_def Let_def slots_upd_sess os_log_def split: bool.splits)
  show "wantWrite (At (UpdateWriteInterest i want S) i) = want \<or>
      wantWrite (At (UpdateWriteInterest i want S) i) = wantWrite (At S i) \<and>
      k_ctls (kern S) = False # k_ctls (kern (UpdateWriteInterest i want S))"
    using assms b E(1,3) by (auto simp: UpdateWriteInterest_def Let_def slots_upd_sess os_log_def split: bool.splits)
qed

lemma Disconnect_send:
  assumes "i < length (slots (pool S))" "ok (sendQ (At S i))"
  shows "conserves ok buf i S (Disconnect w i S)" "dead (At (Disconnect w i S) i)"
  using assms
  by (auto simp: conserves_def Disconnect_def Let_def slots_upd_sess slots_Release OnSessionLeave_def os_close_def os_log_def)

text \<open>
  Where the flush of session i may stop: bytes conserved and, unless the session died, write
  interest armed exactly when bytes are left; or the call that should have changed it failed, and
  it is what it was.
\<close>

definition flushed :: "('s \<Rightarrow> bool) \<Rightarrow> ('s \<Rightarrow> bytes) \<Rightarrow> nat \<Rightarrow> ('r, 's) Server \<Rightarrow> ('r, 's) Server \<Rightarrow> bool" where
  "flushed ok buf i S S' \<longleftrightarrow> conserves ok buf i S S' \<and>
     (\<not> dead (At S' i) \<longrightarrow> (wantWrite (At S' i) \<longleftrightarrow> buf (sendQ (At S' i)) \<noteq> []) \<or>
        k_ctls (kern S) = False # k_ctls (kern S') \<and> wantWrite (At S' i) = wantWrite (At S i))"

lemma flushed_trans:
  assumes "conserves ok buf i S S1" "fd (At S1 i) = fd (At S i)" "k_ctls (kern S1) = k_ctls (kern S)"
    "wantWrite (At S1 i) = wantWrite (At S i)" "flushed ok buf i S1 S'"
  shows "flushed ok buf i S S'"
  using assms conserves_trans [of ok buf i S S1 S'] by (simp add: flushed_def)

lemma flushed_interest:
  assumes "i < length (slots (pool S))" "ok (sendQ (At S i))" "want \<longleftrightarrow> buf (sendQ (At S i)) \<noteq> []"
  shows "flushed ok buf i S (UpdateWriteInterest i want S)"
  using write_interest(1) [of i S ok buf want] write_interest(3,4) [of i S ok want] assms by (auto simp: flushed_def)

lemma flushed_dead:
  assumes "i < length (slots (pool S))" "ok (sendQ (At S i))"
  shows "flushed ok buf i S (Disconnect w i S)"
  using Disconnect_send(1) [of i S ok buf w] Disconnect_send(2) [of i S ok w] assms by (simp add: flushed_def)

lemma conserves_write:
  assumes "ring_contract MT ok cap buf" "i < length (slots (pool S))" "ok (sendQ (At S i))" "n \<le> length (rb_DirectRead MT (sendQ (At S i)))"
  shows "conserves ok buf i S (upd_session i (\<lambda>s. s\<lparr>sendQ := rb_Consume MT n (sendQ s)\<rparr>)
      (os_log (Wrote (fd (At S i)) (take n (rb_DirectRead MT (sendQ (At S i))))) S))"
    and "buf (rb_Consume MT n (sendQ (At S i))) = drop n (buf (sendQ (At S i)))" "n \<le> length (buf (sendQ (At S i)))"
proof -
  note C = ring_contractD [OF assms(1,3)]
  obtain k where k: "rb_DirectRead MT (sendQ (At S i)) = take k (buf (sendQ (At S i)))" using C(6) by blast
  then show n: "n \<le> length (buf (sendQ (At S i)))" using assms(4) by simp
  have t: "take n (rb_DirectRead MT (sendQ (At S i))) = take n (buf (sendQ (At S i)))"
    using assms(4) by (simp add: k min_absorb1)
  note C5 = C(5) [OF n]
  then show "buf (rb_Consume MT n (sendQ (At S i))) = drop n (buf (sendQ (At S i)))" by simp
  show "conserves ok buf i S (upd_session i (\<lambda>s. s\<lparr>sendQ := rb_Consume MT n (sendQ s)\<rparr>)
      (os_log (Wrote (fd (At S i)) (take n (rb_DirectRead MT (sendQ (At S i))))) S))"
    unfolding t using C5 assms(2) by (simp add: conserves_def slots_upd_sess os_log_def)
qed

text \<open>One round of the loop when there are bytes to send: the answer is taken off the script.\<close>

definition popped :: "'s ring_ops \<Rightarrow> nat \<Rightarrow> write_result list \<Rightarrow> ('r, 's) Server \<Rightarrow> ('r, 's) Server" where
  "popped MT i ws S = (let S0 = (if length (rb_DirectRead MT (sendQ (At S i))) < rb_DataSize MT (sendQ (At S i))
      then count_up (\<lambda>g. g\<lparr>mt_ringSplitSend := Inc (mt_ringSplitSend g)\<rparr>) S else S) in S0\<lparr>kern := (kern S0)\<lparr>k_writes := ws\<rparr>\<rparr>)"

lemma popped_eqs:
  "pool (popped MT i ws S) = pool S" "k_log (kern (popped MT i ws S)) = k_log (kern S)" "k_ctls (kern (popped MT i ws S)) = k_ctls (kern S)"
  by (simp_all add: popped_def Let_def)

definition written :: "'s ring_ops \<Rightarrow> nat \<Rightarrow> nat \<Rightarrow> bytes \<Rightarrow> ('r, 's) Server \<Rightarrow> ('r, 's) Server" where
  "written MT i n direct S = count_up (\<lambda>g. g\<lparr>mt_sendBytes := Add (of_nat n) (mt_sendBytes g)\<rparr>)
     (upd_session i (\<lambda>s. s\<lparr>sendQ := rb_Consume MT n (sendQ s)\<rparr>) (os_log (Wrote (fd (At S i)) (take n direct)) S))"

lemma flush_loop_round:
  assumes "rb_DataSize MT (sendQ (At S i)) \<noteq> 0"
  shows "flush_loop MT w i (x # ws) S = (let S1 = popped MT i ws S; direct = rb_DirectRead MT (sendQ (At S i)) in case x of
      WriteAgain \<Rightarrow> UpdateWriteInterest i True S1
    | WriteIntr \<Rightarrow> flush_loop MT w i ws S1
    | WriteErr \<Rightarrow> Disconnect w i S1
    | Took k \<Rightarrow> (let n = min (Suc k) (length direct); S4 = written MT i n direct S1
        in if n < length direct then UpdateWriteInterest i True (count_up (\<lambda>g. g\<lparr>mt_partialSend := Inc (mt_partialSend g)\<rparr>) S4)
           else flush_loop MT w i ws S4))"
  using assms by (cases x; subst flush_loop.simps) (simp_all add: popped_def written_def Let_def)

text \<open>A write that took some bytes: what follows it may be judged by itself, and a short write arms the interest.\<close>

lemma flushed_write:
  fixes k :: nat and S :: "('r, 's) Server"
  assumes C: "ring_contract MT ok cap buf" and i: "i < length (slots (pool S))" "ok (sendQ (At S i))"
  defines "q \<equiv> sendQ (At S i)"
  defines "n \<equiv> min (Suc k) (length (rb_DirectRead MT q))"
  defines "S4 \<equiv> written MT i n (rb_DirectRead MT q) S"
  shows "flushed ok buf i S4 S' \<Longrightarrow> flushed ok buf i S S'" "i < length (slots (pool S4))" "ok (sendQ (At S4 i))"
    "n < length (rb_DirectRead MT q) \<Longrightarrow>
     flushed ok buf i S4 (UpdateWriteInterest i True (count_up (\<lambda>g. g\<lparr>mt_partialSend := Inc (mt_partialSend g)\<rparr>) S4))"
proof -
  have W: "conserves ok buf i S S4" "buf (rb_Consume MT n q) = drop n (buf q)"
    using conserves_write(1) [of MT ok cap buf i S n] conserves_write(2) [OF C i, of n] C i
    by (simp_all add: S4_def n_def q_def written_def conserves_def)
  have s4: "fd (At S4 i) = fd (At S i)" "sendQ (At S4 i) = rb_Consume MT n q" "k_ctls (kern S4) = k_ctls (kern S)"
    "wantWrite (At S4 i) = wantWrite (At S i)"
    using i by (simp_all add: S4_def q_def written_def slots_upd_sess os_log_def)
  show i4: "i < length (slots (pool S4))" "ok (sendQ (At S4 i))"
    using i W(1) by (simp_all add: conserves_def S4_def written_def slots_upd_sess os_log_def)
  show "flushed ok buf i S4 S' \<Longrightarrow> flushed ok buf i S S'" by (rule flushed_trans [OF W(1) s4(1,3,4)])
  assume n: "n < length (rb_DirectRead MT q)"
  obtain j where "rb_DirectRead MT q = take j (buf q)" using ring_contractD(6) [OF C i(2)] by (auto simp: q_def)
  then have "n < length (buf q)" using n by simp
  then have ne: "buf (sendQ (At S4 i)) \<noteq> []" by (simp only: s4(2) W(2) drop_eq_Nil not_le not_False_eq_True)
  let ?S5 = "count_up (\<lambda>g. g\<lparr>mt_partialSend := Inc (mt_partialSend g)\<rparr>) S4"
  have c5: "conserves ok buf i S4 ?S5" by (rule conserves_same) (use i4 in simp_all)
  have "flushed ok buf i ?S5 (UpdateWriteInterest i True ?S5)" by (rule flushed_interest) (use i4 ne in simp_all)
  then show "flushed ok buf i S4 (UpdateWriteInterest i True ?S5)" by (rule flushed_trans [OF c5, rotated -1]) simp_all
qed

lemma flush_loop_flushed:
  assumes "ring_contract MT ok cap buf" "i < length (slots (pool S))" "ok (sendQ (At S i))"
  shows "flushed ok buf i S (flush_loop MT w i ws S)"
  using assms(2,3)
proof (induction ws arbitrary: S)
  case Nil
  note C = ring_contractD [OF assms(1) Nil.prems(2)]
  have c: "conserves ok buf i S (count_up f S)" for f by (rule conserves_same) (use Nil.prems in simp_all)
  have "flushed ok buf i S (UpdateWriteInterest i True (count_up f S))" if "buf (sendQ (At S i)) \<noteq> []" for f
    by (rule flushed_trans [OF c [of f]]) (use that Nil.prems in \<open>simp_all add: flushed_interest\<close>)
  moreover have "flushed ok buf i S S" if "buf (sendQ (At S i)) = []" "\<not> wantWrite (At S i)"
    using that Nil.prems by (simp add: flushed_def conserves_def)
  ultimately show ?case
    using Nil.prems by (subst flush_loop.simps) (auto simp: Let_def C(2) intro: flushed_interest)
next
  case (Cons x ws)
  note i = Cons.prems and C = ring_contractD [OF assms(1) Cons.prems(2)]
  let ?q = "sendQ (At S i)"
  show ?case
  proof (cases "buf ?q = []")
    case True
    have "flushed ok buf i S (UpdateWriteInterest i False S)" by (rule flushed_interest) (use i True in simp_all)
    moreover have "flushed ok buf i S S" if "\<not> wantWrite (At S i)" using that True i by (simp add: flushed_def conserves_def)
    ultimately have "flushed ok buf i S (if wantWrite (At S i) then UpdateWriteInterest i False S else S)" by simp
    then show ?thesis using True by (subst flush_loop.simps) (simp add: Let_def C(2))
  next
    case False
    define S1 where "S1 = popped MT i ws S"
    have s1: "pool S1 = pool S" "k_log (kern S1) = k_log (kern S)" "k_ctls (kern S1) = k_ctls (kern S)"
      by (simp_all add: S1_def popped_eqs)
    have c1: "conserves ok buf i S S1" by (rule conserves_same) (use i s1 in simp_all)
    have via: "flushed ok buf i S S'" if "flushed ok buf i S1 S'" for S'
      by (rule flushed_trans [OF c1 _ _ _ that]) (simp_all add: s1)
    have "rb_DataSize MT ?q \<noteq> 0" using False C(2) by simp
    note step = flush_loop_round [OF this, of w x ws, folded S1_def]
    show ?thesis
    proof (cases x)
      case (Took k)
      note W = flushed_write [OF assms(1), of i S1 k, unfolded s1(1), OF i]
      have W1: "flushed ok buf i S S'" if "flushed ok buf i (written MT i (min (Suc k) (length (rb_DirectRead MT ?q))) (rb_DirectRead MT ?q) S1) S'" for S'
        by (rule via [OF W(1) [OF that]])
      show ?thesis
        unfolding Took step [unfolded Took Let_def write_result.case]
        by (split if_split) (intro conjI impI W1 W(4) Cons.IH [OF W(2,3)])
    next
      case WriteAgain
      have "flushed ok buf i S1 (UpdateWriteInterest i True S1)" by (rule flushed_interest) (use i False s1 in simp_all)
      then show ?thesis using via unfolding WriteAgain step [unfolded WriteAgain Let_def write_result.case] by simp
    next
      case WriteIntr
      have "flushed ok buf i S1 (flush_loop MT w i ws S1)" by (rule Cons.IH) (use i s1 in simp_all)
      then show ?thesis using via unfolding WriteIntr step [unfolded WriteIntr Let_def write_result.case] by simp
    next
      case WriteErr
      have "flushed ok buf i S1 (Disconnect w i S1)" by (rule flushed_dead) (use i s1 in simp_all)
      then show ?thesis using via unfolding WriteErr step [unfolded WriteErr Let_def write_result.case] by simp
    qed
  qed
qed



section \<open>Echo\<close>

text \<open>A message that is sent goes out whole behind what waits, or the session is cut.\<close>

lemma SendBytes_send:
  assumes "ring_contract MT ok cap buf" "i < length (slots (pool S))" "ok (sendQ (At S i))"
    and alive: "\<not> dead (At (SendBytes MT w i bs S) i)" and bs: "bs \<noteq> []"
  shows "\<exists>es. k_log (kern (SendBytes MT w i bs S)) = k_log (kern S) @ es \<and>
      sent (fd (At S i)) es @ buf (sendQ (At (SendBytes MT w i bs S) i)) = buf (sendQ (At S i)) @ bs"
    and "fd (At (SendBytes MT w i bs S) i) = fd (At S i)" "ok (sendQ (At (SendBytes MT w i bs S) i))"
    "i < length (slots (pool (SendBytes MT w i bs S)))"
proof -
  note C = ring_contractD [OF assms(1,3)]
  have fits: "length (buf (sendQ (At S i))) + length bs \<le> cap (sendQ (At S i))"
  proof (rule ccontr)
    assume "\<not> ?thesis"
    then have e: "rb_Enqueue MT bs (sendQ (At S i)) = (0, sendQ (At S i))" by (rule C(4))
    let ?S1 = "count_up (\<lambda>g. g\<lparr>mt_sendRingFull := Inc (mt_sendRingFull g)\<rparr>) (upd_session i (\<lambda>s. s\<lparr>sendQ := sendQ (At S i)\<rparr>) S)"
    have "SendBytes MT w i bs S = Disconnect w i ?S1" using e by (simp add: SendBytes_def)
    moreover have "dead (At (Disconnect w i ?S1) i)"
      by (rule Disconnect_send(2) [where ok = ok]) (use assms(2,3) in \<open>simp_all add: slots_upd_sess\<close>)
    ultimately show False using alive by simp
  qed
  note E = C(3) [OF fits]
  obtain q where q: "rb_Enqueue MT bs (sendQ (At S i)) = (length bs, q)" "ok q" "buf q = buf (sendQ (At S i)) @ bs"
    using E by (cases "rb_Enqueue MT bs (sendQ (At S i))") simp
  define S1 where "S1 = upd_session i (\<lambda>s. s\<lparr>sendQ := q\<rparr>) S"
  have s1: "i < length (slots (pool S1))" "sendQ (At S1 i) = q" "fd (At S1 i) = fd (At S i)" "kern S1 = kern S"
    using assms(2) by (simp_all add: S1_def slots_upd_sess)
  have S': "SendBytes MT w i bs S = FlushSend MT w i S1" using q(1) bs by (simp add: SendBytes_def S1_def Let_def)
  have "conserves ok buf i S1 (FlushSend MT w i S1)"
    using flush_loop_flushed [OF assms(1) s1(1)] q(2) s1(2) by (simp add: FlushSend_def flushed_def)
  then show "\<exists>es. k_log (kern (SendBytes MT w i bs S)) = k_log (kern S) @ es \<and>
      sent (fd (At S i)) es @ buf (sendQ (At (SendBytes MT w i bs S) i)) = buf (sendQ (At S i)) @ bs"
    "fd (At (SendBytes MT w i bs S) i) = fd (At S i)" "ok (sendQ (At (SendBytes MT w i bs S) i))"
    "i < length (slots (pool (SendBytes MT w i bs S)))"
    using alive s1 q(3) unfolding S' conserves_def by auto
qed

text \<open>The frames of a byte stream and the incomplete rest, on the bytes alone.\<close>

function split_frames :: "bytes \<Rightarrow> bytes list \<times> bytes" where
  "split_frames bs = (let sz = unat (h_size (dec_header (take kHeaderSize bs))) in
     if length bs < kHeaderSize \<or> sz < kHeaderSize \<or> MAX_PACKET_SIZE < sz \<or> length bs < sz then ([], bs)
     else (take sz bs # fst (split_frames (drop sz bs)), snd (split_frames (drop sz bs))))"
  by pat_completeness auto
termination
  by (relation "measure length") (auto simp: kHeaderSize_def)

declare split_frames.simps [simp del]

lemma echo_loop:
  assumes ST: "ring_contract ST okr capr bufr" and MT: "ring_contract MT ok cap buf"
    and "i < length (slots (pool S))" "okr (recvQ (At S i))" "ok (sendQ (At S i))"
    and "length (bufr (recvQ (At S i))) < n"
    and "\<forall>f\<in>set (fst (split_frames (bufr (recvQ (At S i))))). msg_type_of (h_type (dec_header f)) = Some ECHO"
    and "\<not> dead (At (parse_loop ST MT w i n S) i)"
  shows "bufr (recvQ (At (parse_loop ST MT w i n S) i)) = snd (split_frames (bufr (recvQ (At S i)))) \<and>
    (\<exists>es. k_log (kern (parse_loop ST MT w i n S)) = k_log (kern S) @ es \<and>
       sent (fd (At S i)) es @ buf (sendQ (At (parse_loop ST MT w i n S) i)) =
         buf (sendQ (At S i)) @ concat (fst (split_frames (bufr (recvQ (At S i))))))"
  using assms(3-)
proof (induction n arbitrary: S)
  case (Suc n)
  let ?q = "recvQ (At S i)"
  let ?b = "bufr ?q"
  note C = ring_contractD [OF ST Suc.prems(2)]
  let ?sz = "unat (h_size (dec_header (rb_Peek ST kHeaderSize ?q)))"
  have pk: "rb_Peek ST kHeaderSize ?q = take kHeaderSize ?b" if "kHeaderSize \<le> length ?b" using C(5) [OF that] by simp
  show ?case
  proof (cases "length ?b < kHeaderSize \<or> ?sz < kHeaderSize \<or> MAX_PACKET_SIZE < ?sz \<or> length ?b < ?sz")
    case True
    then have sp: "split_frames ?b = ([], ?b)" using pk by (subst split_frames.simps) (auto simp: Let_def not_less)
    have D: "dead (At (Disconnect w i S) i)" by (rule Disconnect_send(2) [where ok = ok, OF Suc.prems(1,3)])
    have "parse_loop ST MT w i (Suc n) S = S \<or> parse_loop ST MT w i (Suc n) S = Disconnect w i S \<or>
        (\<exists>f. parse_loop ST MT w i (Suc n) S = count_up f S)"
      using True C(2) by (auto simp: Let_def)
    then have "At (parse_loop ST MT w i (Suc n) S) i = At S i \<and> kern (parse_loop ST MT w i (Suc n) S) = kern S"
      using Suc.prems(6) D by auto
    then show ?thesis using sp by simp
  next
    case False
    then have z: "kHeaderSize \<le> length ?b" "kHeaderSize \<le> ?sz" "?sz \<le> MAX_PACKET_SIZE" "?sz \<le> length ?b" by simp_all
    have sp: "split_frames ?b = (take ?sz ?b # fst (split_frames (drop ?sz ?b)), snd (split_frames (drop ?sz ?b)))"
      by (subst split_frames.simps) (use z pk in \<open>simp add: Let_def\<close>)
    obtain q' where dq: "rb_Dequeue ST ?sz ?q = (take ?sz ?b, q')" and q': "okr q'" "bufr q' = drop ?sz ?b"
      using C(5) [OF z(4)] by (cases "rb_Dequeue ST ?sz ?q") simp
    define S1 where "S1 = upd_session i (\<lambda>s. s\<lparr>recvQ := q'\<rparr>) (if length (rb_DirectRead ST ?q) < ?sz
      then count_up (\<lambda>g. g\<lparr>mt_ringSplitRead := Inc (mt_ringSplitRead g)\<rparr>) S else S)"
    have s1: "i < length (slots (pool S1))" "recvQ (At S1 i) = q'" "sendQ (At S1 i) = sendQ (At S i)" "fd (At S1 i) = fd (At S i)"
      "kern S1 = kern S" using Suc.prems(1) by (simp_all add: S1_def slots_upd_sess)
    define S2 where "S2 = SendBytes MT w i (take ?sz ?b) S1"
    have "msg_type_of (h_type (dec_header (take ?sz ?b))) = Some ECHO" using Suc.prems(5) by (simp add: sp)
    then have Dis: "Dispatch MT w i (take ?sz ?b) S1 = S2" by (simp add: Dispatch_def S2_def)
    have loop: "parse_loop ST MT w i (Suc n) S = (if dead (At S2 i) then S2 else parse_loop ST MT w i n S2)"
      using False C(2) dq Dis unfolding S1_def by (simp add: Let_def)
    then have alive: "\<not> dead (At S2 i)" using Suc.prems(6) by (auto split: if_splits)
    have ne: "take ?sz ?b \<noteq> []" using z by (auto simp: kHeaderSize_def)
    have ok1: "ok (sendQ (At S1 i))" using Suc.prems(3) s1(3) by simp
    note B = SendBytes_send [OF MT s1(1) ok1 alive [unfolded S2_def] ne, folded S2_def]
    have r2: "recvQ (At S2 i) = q'" unfolding S2_def using same_recvD(1) [OF same_recv_SendBytes s1(1)] s1(2) by metis
    have "0 < ?sz" using z(2) by (simp add: kHeaderSize_def)
    then have "length (bufr (recvQ (At S2 i))) < n" unfolding r2 q'(2) using z(4) Suc.prems(4) by simp
    moreover have "\<not> dead (At (parse_loop ST MT w i n S2) i)" using Suc.prems(6) loop alive by simp
    ultimately have IH: "bufr (recvQ (At (parse_loop ST MT w i n S2) i)) = snd (split_frames (drop ?sz ?b)) \<and>
      (\<exists>es. k_log (kern (parse_loop ST MT w i n S2)) = k_log (kern S2) @ es \<and>
         sent (fd (At S2 i)) es @ buf (sendQ (At (parse_loop ST MT w i n S2) i)) = buf (sendQ (At S2 i)) @ concat (fst (split_frames (drop ?sz ?b))))"
      using Suc.IH [OF B(4) _ B(3)] q' Suc.prems(5) by (simp add: r2 sp)
    obtain es1 where e1: "k_log (kern S2) = k_log (kern S) @ es1"
      "sent (fd (At S i)) es1 @ buf (sendQ (At S2 i)) = buf (sendQ (At S i)) @ take ?sz ?b"
      using B(1) unfolding s1(3-5) by blast
    obtain es2 where e2: "k_log (kern (parse_loop ST MT w i n S2)) = k_log (kern S2) @ es2"
      "sent (fd (At S i)) es2 @ buf (sendQ (At (parse_loop ST MT w i n S2) i)) = buf (sendQ (At S2 i)) @ concat (fst (split_frames (drop ?sz ?b)))"
      using IH B(2) s1(4) by auto
    have "sent (fd (At S i)) (es1 @ es2) @ buf (sendQ (At (parse_loop ST MT w i n S2) i)) =
        buf (sendQ (At S i)) @ concat (fst (split_frames ?b))"
      using e1(2) e2(2) by (simp add: sp)
    then show ?thesis using IH e1(1) e2(1) loop alive by (auto simp: sp)
  qed
qed simp

lemma ParseFrames_echo:
  fixes w :: nat
  assumes "ring_contract ST okr capr bufr" "ring_contract MT ok cap buf"
    and "i < length (slots (pool S))" "okr (recvQ (At S i))" "ok (sendQ (At S i))"
    and "\<forall>f\<in>set (fst (split_frames (bufr (recvQ (At S i))))). msg_type_of (h_type (dec_header f)) = Some ECHO"
  defines "S' \<equiv> ParseFrames ST MT w i S"
  assumes "\<not> dead (At S' i)"
  shows "bufr (recvQ (At S' i)) = snd (split_frames (bufr (recvQ (At S i)))) \<and>
    (\<exists>es. k_log (kern S') = k_log (kern S) @ es \<and>
       sent (fd (At S i)) es @ buf (sendQ (At S' i)) = buf (sendQ (At S i)) @ concat (fst (split_frames (bufr (recvQ (At S i))))))"
proof -
  have S': "S' = parse_loop ST MT w i (length (bufr (recvQ (At S i))) + 1) S"
    using ring_contractD(2) [OF assms(1,4)] by (simp add: S'_def ParseFrames_def)
  show ?thesis
    using echo_loop [OF assms(1-5) _ assms(6), of "length (bufr (recvQ (At S i))) + 1" w] assms(8) unfolding S' by simp
qed

text \<open>C11. Echo is exact and independent of how the stream was cut: when the buffered bytes are ECHO
  frames followed by an incomplete frame, a session that survives has sent, or holds ready to
  send, precisely those frames, behind what it already had, and keeps the incomplete rest for
  the next read.\<close>

theorem echo_is_exact:
  fixes w :: nat
  assumes "ring_contract ST okr capr bufr" "ring_contract MT ok cap buf"
    and "i < length (slots (pool S))" "okr (recvQ (At S i))" "ok (sendQ (At S i))"
    and "\<forall>f\<in>set (fst (split_frames (bufr (recvQ (At S i))))). msg_type_of (h_type (dec_header f)) = Some ECHO"
  defines "S' \<equiv> ParseFrames ST MT w i S"
  assumes "\<not> dead (At S' i)"
  shows "bufr (recvQ (At S' i)) = snd (split_frames (bufr (recvQ (At S i)))) \<and>
    (\<exists>es. k_log (kern S') = k_log (kern S) @ es \<and>
       sent (fd (At S i)) es @ buf (sendQ (At S' i)) = buf (sendQ (At S i)) @ concat (fst (split_frames (bufr (recvQ (At S i))))))"
  unfolding S'_def by (rule ParseFrames_echo [OF assms(1-6) assms(8) [unfolded S'_def]])

definition echo_demo :: "(list_ring, list_ring) Server" where
  "echo_demo = upd_session 0 (\<lambda>s. s\<lparr>recvQ := (8191, [5, 0, 1, 0, 42, 5, 0])\<rparr>) demo2"

lemma echo_frames: "split_frames [5, 0, 1, 0, 42, 5, 0] = ([[5, 0, 1, 0, 42]], [5, 0])"
  "msg_type_of (h_type (dec_header [5, 0, 1, 0, 42])) = Some ECHO" "unat (h_size (dec_header [5, 0, 1, 0])) = 5"
  by code_simp+

lemma echo_alive: "\<not> dead (At (ParseFrames list_ring_ops list_ring_ops 0 0 echo_demo) 0)"
proof -
  have e: "At echo_demo 0 = demo_sess\<lparr>refs := 2, inRoom := True, recvQ := (8191, [5, 0, 1, 0, 42, 5, 0])\<rparr>"
    "length (slots (pool echo_demo)) = 1"
    by (simp_all add: echo_demo_def slots_upd_sess demo2)
  have w: "k_writes (kern echo_demo) = []" "k_ctls (kern echo_demo) = []"
  proof -
    obtain m l where d: "demo2 = demo_joined m l" using event_demo by blast
    show "k_writes (kern echo_demo) = []" "k_ctls (kern echo_demo) = []"
      unfolding echo_demo_def d by (simp_all add: demo_joined_def demo0 demo_kernel_def)
  qed
  let ?S1 = "upd_session 0 (\<lambda>s. s\<lparr>recvQ := (8191, [5, 0])\<rparr>) echo_demo"
  let ?S2 = "SendBytes list_ring_ops 0 0 [5, 0, 1, 0, 42] ?S1"
  have "\<not> dead (At ?S2 0)"
    by (subst SendBytes_def, simp add: list_ring_simps e slots_upd_sess demo_sess_def FlushSend_def w, subst flush_loop.simps)
      (simp add: list_ring_simps e slots_upd_sess demo_sess_def UpdateWriteInterest_def os_ctl_def w Let_def os_log_def)
  note alive = this
  have r: "recvQ (At ?S2 0) = (8191, [5, 0])"
    using same_recvD(1) [OF same_recv_SendBytes, of 0 ?S1] e by (simp add: slots_upd_sess)
  have q: "recvQ (At echo_demo 0) = (8191, [5, 0, 1, 0, 42, 5, 0])" by (simp add: e)
  have d: "Dispatch list_ring_ops 0 0 [5, 0, 1, 0, 42] ?S1 = ?S2" by (simp add: Dispatch_def echo_frames(2))
  have stop: "parse_loop list_ring_ops list_ring_ops 0 0 (Suc n) ?S2 = ?S2" for n
    by (simp add: r list_ring_simps kHeaderSize_def)
  have "parse_loop list_ring_ops list_ring_ops 0 0 (Suc (Suc n)) echo_demo =
      (if dead (At ?S2 0) then ?S2 else parse_loop list_ring_ops list_ring_ops 0 0 (Suc n) ?S2)" for n
    by (subst parse_loop.simps)
      (simp add: q list_ring_simps kHeaderSize_def MAX_PACKET_SIZE_def echo_frames(3) d Let_def del: parse_loop.simps)
  then have p: "parse_loop list_ring_ops list_ring_ops 0 0 (Suc (Suc n)) echo_demo = ?S2" for n unfolding stop by (simp only: if_cancel)
  have z: "rb_DataSize list_ring_ops (recvQ (At echo_demo 0)) + 1 = Suc (Suc 6)" by (simp add: q list_ring_simps)
  have "ParseFrames list_ring_ops list_ring_ops 0 0 echo_demo = ?S2" unfolding ParseFrames_def z p by (rule refl)
  then show ?thesis using alive by simp
qed

theorem echo_is_exact_witness:
  "\<exists>es. k_log (kern (ParseFrames list_ring_ops list_ring_ops 0 0 echo_demo)) = k_log (kern echo_demo) @ es \<and>
     sent 7 es @ snd (sendQ (At (ParseFrames list_ring_ops list_ring_ops 0 0 echo_demo) 0)) = [5, 0, 1, 0, 42]"
proof -
  have e: "At echo_demo 0 = demo_sess\<lparr>refs := 2, inRoom := True, recvQ := (8191, [5, 0, 1, 0, 42, 5, 0])\<rparr>"
    "length (slots (pool echo_demo)) = 1"
    by (simp_all add: echo_demo_def slots_upd_sess demo2)
  show ?thesis
    using echo_is_exact [OF list_ring_contract list_ring_contract, of 0 echo_demo 0] echo_alive
    by (simp add: e demo_sess_def echo_frames)
qed

end
