(* ===== verification/GameWorker_Props.thy ===== *)
theory GameWorker_Props
  imports Demo
begin

text \<open>
  The game worker's clock: one wake-up against the schedule it should keep, the oversleep
  histogram, the stagger of the workers, and the end of the loop over the rooms.
\<close>

lemma period_pos [simp]: "0 < kTickPeriodNs"
  by (simp add: kTickPeriodNs_def kTickHz_def)

lemma period_nonneg [simp]: "0 \<le> kTickPeriodNs"
  by (simp add: kTickPeriodNs_def kTickHz_def)

lemma period_nonzero [simp]: "kTickPeriodNs \<noteq> 0"
  by (simp add: kTickPeriodNs_def kTickHz_def)

lemma le_div_period: "a \<le> b div kTickPeriodNs \<longleftrightarrow> a * kTickPeriodNs \<le> b"
proof
  assume "a \<le> b div kTickPeriodNs"
  then have "a * kTickPeriodNs \<le> b div kTickPeriodNs * kTickPeriodNs" by (simp add: mult_right_mono less_imp_le)
  then show "a * kTickPeriodNs \<le> b"
    using pos_mod_sign [OF period_pos, of b] div_mult_mod_eq [of b kTickPeriodNs] by linarith
next
  assume "a * kTickPeriodNs \<le> b"
  then show "a \<le> b div kTickPeriodNs" using zdiv_mono1 [of "a * kTickPeriodNs" b kTickPeriodNs] by simp
qed

section \<open>What a tick leaves alone\<close>

text \<open>The pacing counters belong to the loop: nothing in a tick writes them.\<close>

definition same_game :: "('r, 's) Server \<Rightarrow> ('r, 's) Server \<Rightarrow> bool" where
  "same_game S S' \<longleftrightarrow> mt_game (met S') = mt_game (met S)"

lemma same_game_trans: "same_game S S' \<Longrightarrow> same_game S' S'' \<Longrightarrow> same_game S S''"
  by (simp add: same_game_def)

lemma same_game_refl [simp]: "same_game S S"
  by (simp add: same_game_def)

lemma same_game_count: "(\<And>m. mt_game (f m) = mt_game m) \<Longrightarrow> same_game S (count_up f S)"
  by (simp add: same_game_def count_up_def)

lemma same_game_fold: "(\<And>x S. same_game S (f x S)) \<Longrightarrow> same_game S (fold f xs S)"
  by (induction xs arbitrary: S) (auto intro: same_game_trans)

lemma same_game_met: "met S' = met S \<Longrightarrow> same_game S S'"
  by (simp add: same_game_def)

lemma met_frames [simp]:
  "met (upd_room r f S) = met S" "met (upd_session i g S) = met S" "met (mark m S) = met S"
  by (simp_all add: mark_def)

lemma same_game_route_one: "same_game S (route_one r c S)"
  by (auto simp: route_one_def Let_def same_game_def count_up_def)

lemma same_game_consume_one: "same_game S (consume_one r k S)"
  by (auto simp: consume_one_def Let_def same_game_def count_up_def count_consume_def)

lemma same_game_send_snapshot: "same_game S (send_snapshot MT r bs k S)"
  by (auto simp: send_snapshot_def Let_def enqueue_def same_game_def count_up_def split: prod.splits)

lemma same_game_send_room_event: "same_game S (send_room_event MT nr k S)"
  by (auto simp: send_room_event_def Let_def enqueue_def same_game_def split: prod.splits)

lemma same_game_tick_body: "same_game S (tick_body MT r S)"
proof -
  have a: "same_game S (upd_room r step_room (consume_inputs r (route_inputs r S)))"
    by (rule same_game_trans [where S' = "consume_inputs r (route_inputs r S)"],
        rule same_game_trans [where S' = "route_inputs r S"])
      (auto simp: route_inputs_def consume_inputs_def Let_def same_game_def [of _ "upd_room _ _ _"]
        intro!: same_game_fold same_game_consume_one same_game_route_one
          same_game_trans [OF same_game_met same_game_fold, where S' = "upd_room r (\<lambda>x. x\<lparr>r_inQ := []\<rparr>) S"])
  then show ?thesis
    by (auto simp: tick_body_def Let_def broadcast_snapshot_def
        intro: same_game_trans [OF a same_game_fold] same_game_send_snapshot)
qed

lemma same_game_alloc: "AllocRoomSlotLocked fw mb S = (x, S') \<Longrightarrow> same_game S S'"
  by (auto simp: AllocRoomSlotLocked_def Let_def same_game_def count_up_def split: if_splits)

lemma met_fold: "(\<And>x S. met (f x S) = met S) \<Longrightarrow> met (fold f xs S) = met S"
  by (induction xs arbitrary: S) simp_all

lemma same_game_move_room: "same_game S (move_room old nr S)"
proof -
  have "met (carry_member old nr k S) = met S" for k and S :: "('a, 'b) Server"
    by (simp add: carry_member_def Let_def)
  moreover have "met (carry_join nr e S) = met S" for e and S :: "('a, 'b) Server"
    by (simp add: carry_join_def Let_def)
  ultimately show ?thesis
    by (simp add: move_room_def Let_def FreeRoomIfDrained_def same_game_def count_up_def met_fold)
qed

lemma same_game_RoomTick: "same_game S (snd (RoomTick MT r S))"
proof -
  have t: "same_game S (snd (TransferRoom MT r S))" for S :: "('a, 'b) Server"
  proof (cases "AllocRoomSlotLocked (r_gameWorker (room_at S r)) False S")
    case (Pair x S1)
    have "same_game S1 (fold (send_room_event MT nr) ks (move_room r nr S1))" for nr ks
      by (rule same_game_trans [OF same_game_move_room same_game_fold]) (rule same_game_send_room_event)
    then show ?thesis
      using Pair same_game_alloc [OF Pair] by (auto simp: TransferRoom_def split: option.splits intro: same_game_trans)
  qed
  show ?thesis
    unfolding RoomTick_def ExitCheckAndMaybeTransfer_def
    by (auto intro: same_game_tick_body same_game_trans [OF same_game_tick_body t])
qed

lemma same_game_queues: "same_game S (snd (ProcessRoomQueues r S))"
proof -
  have j: "met (join_one r e S) = met S" "met (leave_one r l S) = met S" for e l and S :: "('a, 'b) Server"
    by (simp_all add: join_one_def leave_one_def Let_def split: option.splits)
  have "met (apply_queues r S) = met S" by (simp add: apply_queues_def Let_def met_fold j)
  then show ?thesis
    by (auto simp: ProcessRoomQueues_def Let_def FreeRoomIfDrained_def same_game_def count_up_def)
qed

lemma same_game_room_turn: "same_game S (snd (room_turn MT w pos S))"
proof -
  have q: "same_game S (snd (queues_turn w pos S))"
    using same_game_queues [of S "myRooms S ! w ! pos"]
    by (auto simp: queues_turn_def same_game_def split: prod.splits bool.splits)
  have t: "same_game S (tick_turn MT w pos S)" for S :: "('a, 'b) Server"
    using same_game_RoomTick [of S MT "myRooms S ! w ! pos"]
    by (auto simp: tick_turn_def same_game_def split: prod.splits option.splits)
  show ?thesis
    using q t by (auto simp: room_turn_def split: prod.splits bool.splits intro: same_game_trans)
qed

lemma same_game_TickOnce: "same_game S (TickOnce MT w S)"
proof -
  have "same_game S (rooms_loop MT w n pos S)" for n pos and S :: "('a, 'b) Server"
  proof (induction n arbitrary: pos S)
    case (Suc n)
    obtain b S1 where t: "room_turn MT w pos S = (b, S1)" by (cases "room_turn MT w pos S")
    have "same_game S S1" using same_game_room_turn [of S MT w pos] t by simp
    then show ?case using t Suc.IH same_game_trans by (auto simp: Let_def) blast+
  qed simp
  then show ?thesis
    unfolding TickOnce_def Let_def by (rule same_game_trans [rotated]) (simp add: same_game_def DrainRoomAddQ_def)
qed

section \<open>One wake-up\<close>

text \<open>The catch-up loop in closed form: how many ticks, and what they do.\<close>

lemma catch_up_steps:
  "catch_up MT w now (Suc n) next S =
    (let k = min (Suc n) (Suc (nat ((now - next) div kTickPeriodNs)))
     in (k, next + int k * kTickPeriodNs, ((\<lambda>S. upd_stats w (\<lambda>g. g\<lparr>g_ticks := Inc (g_ticks g)\<rparr>) (TickOnce MT w S)) ^^ k) S))"
proof (induction n arbitrary: "next" S)
  case 0
  then show ?case by (simp add: Let_def)
next
  case (Suc n)
  let ?P = kTickPeriodNs and ?T = "\<lambda>S. upd_stats w (\<lambda>g. g\<lparr>g_ticks := Inc (g_ticks g)\<rparr>) (TickOnce MT w S)"
  show ?case
  proof (cases "next + ?P \<le> now")
    case True
    let ?d = "(now - next) div ?P" and ?k = "min (Suc n) (Suc (nat ((now - (next + ?P)) div ?P)))"
    have d: "(now - (next + ?P)) div ?P = ?d - 1"
      using div_add_self2 [OF period_nonzero, of "now - next - ?P"] by (simp add: algebra_simps)
    have "1 * ?P \<le> now - next" using True by simp
    then have "1 \<le> ?d" using zdiv_mono1 [of "1 * ?P" "now - next" ?P] by simp
    then have k: "min (Suc (Suc n)) (Suc (nat ?d)) = Suc ?k" unfolding d by (simp add: Suc_nat_eq_nat_zadd1)
    have "catch_up MT w now (Suc (Suc n)) next S =
        (case catch_up MT w now (Suc n) (next + ?P) (?T S) of (steps, next2, S2) \<Rightarrow> (Suc steps, next2, S2))"
      using True by (subst catch_up.simps) (simp add: Let_def del: catch_up.simps)
    also have "\<dots> = (Suc ?k, next + ?P + int ?k * ?P, (?T ^^ ?k) (?T S))"
      unfolding Suc.IH Let_def by (simp only: prod.case)
    also have "(?T ^^ ?k) (?T S) = (?T ^^ Suc ?k) S" by (simp only: funpow_Suc_right o_apply)
    also have "next + ?P + int ?k * ?P = next + int (Suc ?k) * ?P" by (simp add: algebra_simps)
    finally show ?thesis unfolding Let_def k .
  next
    case False
    then have "(now - next) div ?P \<le> 0"
      using zdiv_mono1 [of "now - next" "?P - 1" ?P] by simp
    then show ?thesis using False by (subst catch_up.simps) (simp add: Let_def)
  qed
qed

text \<open>The scheduled times of a worker that are due at a time.\<close>

definition due :: "int \<Rightarrow> int \<Rightarrow> nat" where
  "due next now = card {k :: nat. next + int k * kTickPeriodNs \<le> now}"

lemma due_eq: "due next now = (if next \<le> now then Suc (nat ((now - next) div kTickPeriodNs)) else 0)"
proof -
  have le: "next + int k * kTickPeriodNs \<le> now \<longleftrightarrow> int k \<le> (now - next) div kTickPeriodNs" for k
  proof -
    have "next + int k * kTickPeriodNs \<le> now \<longleftrightarrow> int k * kTickPeriodNs \<le> now - next" by linarith
    also have "\<dots> \<longleftrightarrow> int k \<le> (now - next) div kTickPeriodNs"
      by (simp only: le_div_period)
    finally show ?thesis .
  qed
  show ?thesis
  proof (cases "next \<le> now")
    case True
    then have "0 \<le> (now - next) div kTickPeriodNs" by (simp add: pos_imp_zdiv_nonneg_iff)
    then have "{k :: nat. next + int k * kTickPeriodNs \<le> now} = {..nat ((now - next) div kTickPeriodNs)}"
      unfolding le by auto
    then show ?thesis using True by (simp add: due_def)
  next
    case False
    then have "(now - next) div kTickPeriodNs < 0" by (simp add: pos_imp_zdiv_neg_iff)
    then have "{k :: nat. next + int k * kTickPeriodNs \<le> now} = {}" unfolding le by auto
    then show ?thesis using False by (simp add: due_def)
  qed
qed

text \<open>The pacing counters after k ticks.\<close>

lemma upd_stats_game: "mt_game (met (upd_stats w f S)) = upd_at w f (mt_game (met S))"
  by (simp add: upd_stats_def count_up_def)

lemma ticks_counted:
  fixes MT :: "'s ring_ops" and S :: "('r, 's) Server"
  assumes "w < length (mt_game (met S))"
  defines "T \<equiv> \<lambda>S. upd_stats w (\<lambda>g. g\<lparr>g_ticks := Inc (g_ticks g)\<rparr>) (TickOnce MT w S)"
  shows "mt_game (met ((T ^^ k) S)) ! w = (mt_game (met S) ! w)\<lparr>g_ticks := g_ticks (mt_game (met S) ! w) + of_nat k\<rparr>"
    and "length (mt_game (met ((T ^^ k) S))) = length (mt_game (met S))"
proof (induction k)
  case (Suc k)
  have "mt_game (met (TickOnce MT w ((T ^^ k) S))) = mt_game (met ((T ^^ k) S))"
    using same_game_TickOnce by (auto simp: same_game_def)
  then show "mt_game (met ((T ^^ Suc k) S)) ! w = (mt_game (met S) ! w)\<lparr>g_ticks := g_ticks (mt_game (met S) ! w) + of_nat (Suc k)\<rparr>"
    "length (mt_game (met ((T ^^ Suc k) S))) = length (mt_game (met S))"
    using Suc assms(1) by (simp_all add: T_def upd_stats_game Inc_def)
qed simp_all

lemma wake_effect:
  fixes MT :: "'s ring_ops" and S :: "('r, 's) Server"
  assumes "w < length (mt_game (met S))" "next \<le> now"
  defines "n \<equiv> min 3 (due next now)" and "skipped \<equiv> due next now - min 3 (due next now)"
    and "next' \<equiv> fst (wake MT w now next S)" and "g \<equiv> mt_game (met S) ! w" and "g' \<equiv> mt_game (met (snd (wake MT w now next S))) ! w"
  shows "1 \<le> n \<and> now < next' \<and> next' \<le> now + kTickPeriodNs \<and> (skipped = 0 \<longrightarrow> next' = next + int n * kTickPeriodNs) \<and> (0 < skipped \<longrightarrow> next' = now + kTickPeriodNs) \<and>
    g_ticks g' = g_ticks g + of_nat n \<and> g_skippedTicks g' = g_skippedTicks g + of_nat skipped \<and>
    g_rebases g' = g_rebases g + of_bool (0 < skipped) \<and> g_wakes g' = g_wakes g + 1"
proof -
  let ?P = kTickPeriodNs
  let ?d = "(now - next) div ?P"
  let ?T = "\<lambda>S. upd_stats w (\<lambda>g. g\<lparr>g_ticks := Inc (g_ticks g)\<rparr>) (TickOnce MT w S)"
  have d0: "0 \<le> ?d" using assms(2) by (simp add: pos_imp_zdiv_nonneg_iff)
  have due: "due next now = Suc (nat ?d)" using assms(2) by (simp add: due_eq)
  have nn: "n = min 3 (Suc (nat ?d))" by (simp add: n_def due)
  define S2 where "S2 = upd_stats w (RecordOversleep (if next < now then now - next else 0)) (S\<lparr>nextTickAt := (nextTickAt S)[w := next]\<rparr>)"
  define S3 where "S3 = (?T ^^ n) S2"
  define next1 where "next1 = next + int n * ?P"
  have c: "catch_up MT w now kMaxCatchupSteps next S2 = (n, next1, S3)"
    using catch_up_steps [of MT w now 2 "next" S2] by (simp add: kMaxCatchupSteps_def S3_def next1_def nn Let_def eval_nat_numeral)
  have W: "wake MT w now next S = (fst (rebase now next1 (mt_game (met S3) ! w)), upd_stats w (\<lambda>g. snd (rebase now next1 g)) S3)"
    by (simp add: wake_def Let_def S2_def [symmetric] c)
  have g2: "mt_game (met S2) ! w = RecordOversleep (if next < now then now - next else 0) g" "w < length (mt_game (met S2))"
    using assms(1) by (simp_all add: S2_def upd_stats_game g_def)
  note t = ticks_counted [OF g2(2), where MT = MT and k = n, folded S3_def]
  have g': "g' = snd (rebase now next1 (mt_game (met S3) ! w))" using t(2) g2(2) by (simp add: g'_def W upd_stats_game)
  have bounds: "?d * ?P \<le> now - next" "now - next < (?d + 1) * ?P"
    using le_div_period [of ?d "now - next"] le_div_period [of "?d + 1" "now - next"] by linarith+
  show ?thesis
  proof (cases "?d < 3")
    case True
    then have n: "n = Suc (nat ?d)" "int n = ?d + 1" using d0 nn by simp_all
    have s: "skipped = 0" using True due n nn by (simp add: skipped_def)
    have ahead: "now < next1" "next1 \<le> now + ?P" using bounds unfolding next1_def n(2) by (simp_all add: algebra_simps)
    then show ?thesis using s n(1) g2(1) t(1) by (simp add: next'_def W g' rebase_def next1_def RecordOversleep_def Inc_def)
  next
    case False
    then have n: "n = 3" using d0 nn by simp
    have "3 * ?P \<le> ?d * ?P" using False by (intro mult_right_mono) simp_all
    then have late: "next1 \<le> now" using bounds(1) unfolding next1_def n by linarith
    have e: "(now - next1) div ?P = ?d - 3"
      using div_mult_self1 [OF period_nonzero, of "now - next1" 3] by (simp add: next1_def n algebra_simps)
    have "int skipped = ?d - 2" using False d0 by (simp add: skipped_def due)
    then have sk: "skipped = nat (?d - 2)" "0 < skipped" using False by simp_all
    have "word_of_int ((now - next1) div ?P + 1) = (of_nat skipped :: i64)"
      unfolding e using sk False by (simp add: of_nat_nat)
    then show ?thesis using late n sk(2) g2(1) t(1) by (simp add: next'_def W g' rebase_def RecordOversleep_def Inc_def Add_def)
  qed
qed

text \<open>Every scheduled tick is accounted for: a wake-up runs the ticks that are due, at most three,
  and counts precisely the others as skipped; it rebases its schedule exactly when some were
  skipped, and otherwise keeps the phase; the next tick is ahead of now, by no more than one
  period.\<close>

theorem wake_accounts_for_every_tick:
  fixes MT :: "'s ring_ops" and S :: "('r, 's) Server"
  assumes "w < length (mt_game (met S))" "next \<le> now"
  defines "n \<equiv> min 3 (due next now)" and "skipped \<equiv> due next now - min 3 (due next now)"
    and "next' \<equiv> fst (wake MT w now next S)" and "g \<equiv> mt_game (met S) ! w" and "g' \<equiv> mt_game (met (snd (wake MT w now next S))) ! w"
  shows "1 \<le> n \<and> now < next' \<and> next' \<le> now + kTickPeriodNs \<and> (skipped = 0 \<longrightarrow> next' = next + int n * kTickPeriodNs) \<and> (0 < skipped \<longrightarrow> next' = now + kTickPeriodNs) \<and>
    g_ticks g' = g_ticks g + of_nat n \<and> g_skippedTicks g' = g_skippedTicks g + of_nat skipped \<and>
    g_rebases g' = g_rebases g + of_bool (0 < skipped) \<and> g_wakes g' = g_wakes g + 1"
  unfolding n_def skipped_def next'_def g_def g'_def by (rule wake_effect [OF assms(1,2)])

theorem wake_accounts_for_every_tick_witness:
  "due 0 50000000 = 4 \<and> g_skippedTicks (mt_game (met (snd (wake list_ring_ops 0 50000000 0 demo0))) ! 0) = 1"
proof -
  have "due 0 50000000 = 4" by (simp add: due_eq kTickPeriodNs_def kTickHz_def)
  then show ?thesis
    using wake_accounts_for_every_tick [of 0 demo0 0 50000000 list_ring_ops]
    by (simp add: demo0 zero_counters_def kMaxGameWorkers_def zero_stats_def)
qed

section \<open>The schedule of the workers\<close>

text \<open>The workers are staggered: the first ticks of the workers fall in worker order within one
  period, evenly apart by the period divided by their number, so no two workers wake together
  and worker 0 starts at the common time.\<close>

theorem first_ticks_staggered:
  assumes "w < w'" "w' < workers" "workers \<le> kMaxGameWorkers"
  shows "first_tick t0 0 workers = t0 \<and> first_tick t0 w workers < first_tick t0 w' workers \<and>
    first_tick t0 w' workers - first_tick t0 w workers = int (w' - w) * (kTickPeriodNs div int workers) \<and>
    first_tick t0 w' workers < t0 + kTickPeriodNs"
proof -
  let ?s = "kTickPeriodNs div int workers"
  have n: "0 < int workers" using assms by simp
  have "int workers div int workers \<le> ?s"
    using assms(3) n by (intro zdiv_mono1) (simp_all add: kTickPeriodNs_def kTickHz_def kMaxGameWorkers_def)
  then have s: "1 \<le> ?s" using n by simp
  have "int w' * ?s < int workers * ?s" using assms s by simp
  also have "\<dots> \<le> kTickPeriodNs"
    using pos_mod_sign [OF n, of kTickPeriodNs] div_mult_mod_eq [of kTickPeriodNs "int workers"] mult.commute [of "int workers" ?s] by linarith
  finally have u: "int w' * ?s < kTickPeriodNs" .
  have "int w * ?s < int w' * ?s" using assms s by simp
  then show ?thesis using u assms n by (simp add: first_tick_def of_nat_diff left_diff_distrib)
qed

theorem first_ticks_staggered_witness:
  "first_tick 0 3 7 < first_tick 0 5 7 \<and> first_tick 0 5 7 < kTickPeriodNs"
  using first_ticks_staggered [of 3 5 7 0] by (simp add: kTickPeriodNs_def kTickHz_def kMaxGameWorkers_def)

section \<open>The oversleep histogram\<close>

lemma bucket_from_card:
  assumes "sorted bs"
  shows "bucket_from bs us = length (filter (\<lambda>b. b < us) bs)"
  using assms by (induction bs) (auto simp: filter_empty_conv intro!: filter_False)

lemma below_count:
  fixes bs :: "'a :: linorder list" and x :: 'a
  assumes "sorted_wrt (<) bs"
  defines "b \<equiv> length (filter (\<lambda>e. e < x) bs)"
  shows "b \<le> length bs \<and> (0 < b \<longrightarrow> bs ! (b - 1) < x) \<and> (b < length bs \<longrightarrow> x \<le> bs ! b)"
proof -
  have "filter (\<lambda>e. e < x) bs = takeWhile (\<lambda>e. e < x) bs" using assms(1)
  proof (induction bs)
    case (Cons e bs)
    show ?case
    proof (cases "e < x")
      case True
      then show ?thesis using Cons by simp
    next
      case False
      then have "filter (\<lambda>e. e < x) bs = []" using Cons.prems by (auto simp: filter_empty_conv)
      then show ?thesis using False by simp
    qed
  qed simp
  then have b: "b = length (takeWhile (\<lambda>e. e < x) bs)" by (simp add: b_def)
  have "bs ! (b - 1) < x" if "0 < b"
    using that set_takeWhileD [OF nth_mem, of "b - 1" "\<lambda>e. e < x" bs] by (simp add: b takeWhile_nth)
  moreover have "x \<le> bs ! b" if "b < length bs" using nth_length_takeWhile [of "\<lambda>e. e < x" bs] that by (simp add: b not_less)
  ultimately show ?thesis using length_takeWhile_le [of "\<lambda>e. e < x" bs] by (simp add: b)
qed

text \<open>The histogram is a partition: every oversleep goes to exactly one of the nine buckets, the one
  whose bound is the first not below it, the last when it is above all bounds; only that
  counter and the number of samples grow, and the maximum never shrinks.\<close>

theorem oversleep_in_its_bucket:
  fixes ns :: int
  assumes "length (g_oversleepBucket g) = kOversleepBuckets"
  defines "b \<equiv> length (filter (\<lambda>bound. bound < ns div 1000) kOversleepBucketUs)"
  shows "b < kOversleepBuckets \<and> (0 < b \<longrightarrow> kOversleepBucketUs ! (b - 1) < ns div 1000) \<and>
    (b + 1 < kOversleepBuckets \<longrightarrow> ns div 1000 \<le> kOversleepBucketUs ! b) \<and>
    g_oversleepBucket (RecordOversleep ns g) = (g_oversleepBucket g)[b := g_oversleepBucket g ! b + 1] \<and>
    g_wakes (RecordOversleep ns g) = g_wakes g + 1 \<and> sint (g_oversleepMaxNs g) \<le> sint (g_oversleepMaxNs (RecordOversleep ns g))"
proof -
  have "bucket_from kOversleepBucketUs (ns div 1000) = b"
    unfolding b_def by (rule bucket_from_card) (simp add: kOversleepBucketUs_def)
  moreover have "b < kOversleepBuckets \<and> (0 < b \<longrightarrow> kOversleepBucketUs ! (b - 1) < ns div 1000) \<and>
    (b + 1 < kOversleepBuckets \<longrightarrow> ns div 1000 \<le> kOversleepBucketUs ! b)"
  proof -
    have s: "sorted_wrt (<) kOversleepBucketUs" and l: "length kOversleepBucketUs + 1 = kOversleepBuckets"
      by (simp_all add: kOversleepBucketUs_def kOversleepBuckets_def)
    show ?thesis unfolding b_def using below_count [OF s, of "ns div 1000"] by (simp add: l [symmetric] le_imp_less_Suc)
  qed
  ultimately show ?thesis by (simp add: RecordOversleep_def upd_at_def Inc_def StoreMax_def)
qed

theorem oversleep_in_its_bucket_witness:
  "g_oversleepBucket (RecordOversleep 150000 zero_stats) ! 2 = 1"
  using oversleep_in_its_bucket [of zero_stats 150000]
  by (simp add: zero_stats_def kOversleepBuckets_def kOversleepBucketUs_def numeral_2_eq_2)

section \<open>The loop over the rooms ends\<close>

lemma RoomTick_myRooms:
  assumes "Inv S" "live S r"
  shows "myRooms (snd (RoomTick MT r S)) = myRooms S"
proof -
  define S0 where "S0 = tick_body MT r S"
  have sa: "same_acct S S0" unfolding S0_def by (rule same_acct_tick_body)
  have inv0: "Inv S0" using Inv_same [OF sa assms(1)] .
  have l0: "live S0 r" using same_acct_tab(1) [OF sa] assms(2) by simp
  have m0: "myRooms S0 = myRooms S" using sa by (simp add: same_acct_def)
  obtain mv U where t: "TransferRoom MT r S0 = (mv, U)" by (cases "TransferRoom MT r S0")
  have "myRooms U = myRooms S0"
  proof (cases mv)
    case None
    then have "U = S0" using t by (auto simp: TransferRoom_def AllocRoomSlotLocked_def Let_def split: if_splits)
    then show ?thesis by simp
  next
    case (Some nr)
    then obtain T where "same_acct T U" "myRooms T = myRooms S0" using Inv_Transfer [OF inv0 l0] t by metis
    then show ?thesis by (simp add: same_acct_def)
  qed
  then show ?thesis using t m0 by (simp add: RoomTick_def ExitCheckAndMaybeTransfer_def S0_def [symmetric])
qed

lemma turn_length:
  assumes inv: "Inv S" and w: "w < kMaxGameWorkers" "pos < length (myRooms S ! w)" and t: "room_turn MT w pos S = (b, S1)"
  shows "length (myRooms S1 ! w) = (if b then length (myRooms S ! w) - 1 else length (myRooms S ! w))" "Inv S1"
proof -
  note M = my_room [OF inv w]
  show "Inv S1" using Inv_room_turn [OF inv w, of MT] t by simp
  obtain b' S2 where p: "ProcessRoomQueues (myRooms S ! w ! pos) S = (b', S2)" by (cases "ProcessRoomQueues (myRooms S ! w ! pos) S")
  show "length (myRooms S1 ! w) = (if b then length (myRooms S ! w) - 1 else length (myRooms S ! w))"
  proof (cases b')
    case True
    then have "myRooms S2 = myRooms S" using Process_dies(9) [OF inv M(1)] p by simp
    then show ?thesis using t p True M(3) by (simp add: room_turn_def queues_turn_def) (auto simp: nth_upd_at)
  next
    case False
    then have s2: "S2 = apply_queues (myRooms S ! w ! pos) S" using Process_stays(5) [OF inv M(1)] p by simp
    then have m2: "myRooms S2 = myRooms S" using apply_queues_lists(4) by blast
    have inv2: "Inv S2" using Process_stays(1) [OF inv M(1)] p False by simp
    have l2: "live S2 (myRooms S ! w ! pos)" using Process_stays(2) [OF inv M(1)] p False by simp
    have S1: "b = False" "S1 = tick_turn MT w pos S2" using t p False by (simp_all add: room_turn_def queues_turn_def)
    have "length (myRooms (tick_turn MT w pos S2) ! w) = length (myRooms S ! w)"
      using RoomTick_myRooms [OF inv2 l2, of MT] m2 M(3) unfolding tick_turn_def
      by (cases "RoomTick MT (myRooms S ! w ! pos) S2") (auto split: option.splits)
    then show ?thesis using S1 by simp
  qed
qed

lemma rooms_loop_enough:
  "Inv S \<Longrightarrow> w < kMaxGameWorkers \<Longrightarrow> length (myRooms S ! w) - pos \<le> n \<Longrightarrow> length (myRooms S ! w) - pos \<le> m \<Longrightarrow>
    rooms_loop MT w n pos S = rooms_loop MT w m pos S"
proof (induction n arbitrary: m pos S)
  case 0
  then show ?case by (cases m) simp_all
next
  case (Suc n)
  show ?case
  proof (cases "length (myRooms S ! w) \<le> pos")
    case True
    then show ?thesis by (cases m) simp_all
  next
    case False
    then obtain m' where m: "m = Suc m'" using Suc.prems(4) by (cases m) auto
    obtain b S1 where t: "room_turn MT w pos S = (b, S1)" by (cases "room_turn MT w pos S")
    have p: "pos < length (myRooms S ! w)" using False by simp
    note L = turn_length [OF Suc.prems(1,2) p t]
    have "rooms_loop MT w n (if b then pos else pos + 1) S1 = rooms_loop MT w m' (if b then pos else pos + 1) S1"
      by (rule Suc.IH [OF L(2) Suc.prems(2)]) (use Suc.prems(3,4) m L(1) p in auto)
    then show ?thesis using t False by (simp add: m)
  qed
qed

text \<open>The pass over the rooms terminates by itself: every turn takes a room off the list or moves
  past it, so any bound from the number of rooms on gives the same result as the pass of the
  model; the loop is never cut short.\<close>

theorem room_pass_terminates:
  assumes "reach booted (server_step ST MT) S" "w < kMaxGameWorkers" "length (myRooms (DrainRoomAddQ w S) ! w) \<le> n"
  shows "rooms_loop MT w n 0 (DrainRoomAddQ w S) = TickOnce MT w S"
  unfolding TickOnce_def Let_def
  by (rule rooms_loop_enough [OF Inv_drain_mail [OF server.reach_inv [OF assms(1)]] assms(2)]) (use assms(3) in simp_all)

theorem room_pass_terminates_witness:
  "rooms_loop list_ring_ops 0 100 0 (DrainRoomAddQ 0 demo2) = TickOnce list_ring_ops 0 demo2"
  using room_pass_terminates [OF demo_reach(2), of 0 100] demo2(8-10) by (simp add: DrainRoomAddQ_def kMaxGameWorkers_def)

end
