(* ===== verification/Echo.thy ===== *)
theory Echo
  imports EpollWorker
begin

text \<open>
  The echo packets of the load generator (dummy_main.cpp): size and padding of a packet are drawn
  from a seed and its sequence number, so that whoever gets the packet back can draw them again
  and compare.
\<close>

section \<open>Options\<close>

text \<open>The options of the command line that the workers read.\<close>

record Config =
  cf_echoMode :: bool
  cf_verify :: bool
  cf_pktMin :: int
  cf_pktMax :: int
  cf_overSend :: int
  cf_echoTimeoutMs :: int
  cf_churnMs :: int
  cf_reconnectMs :: int
  cf_attackSendQ :: int
  cf_slowRecvMs :: int
  cf_failFast :: bool

definition default_config :: Config where
  "default_config = \<lparr>cf_echoMode = False, cf_verify = True, cf_pktMin = 20, cf_pktMax = 256, cf_overSend = 0,
     cf_echoTimeoutMs = 500, cf_churnMs = 0, cf_reconnectMs = 1000, cf_attackSendQ = 0, cf_slowRecvMs = 0,
     cf_failFast = True\<rparr>"

section \<open>Size and padding\<close>

definition Mix64 :: "u64 \<Rightarrow> u64" where
  "Mix64 x0 =
     (let x1 = x0 + 0x9E3779B97F4A7C15;
          x2 = (x1 XOR drop_bit 30 x1) * 0xBF58476D1CE4E5B9;
          x3 = (x2 XOR drop_bit 27 x2) * 0x94D049BB133111EB
      in x3 XOR drop_bit 31 x3)"

definition EchoSizeFor :: "Config \<Rightarrow> u64 \<Rightarrow> u64 \<Rightarrow> u16" where
  "EchoSizeFor cf seed q =
     (if cf_pktMax cf \<le> cf_pktMin cf then word_of_int (cf_pktMin cf)
      else (let span = word_of_int (cf_pktMax cf - cf_pktMin cf + 1) :: u64
            in ucast (word_of_int (cf_pktMin cf) + Mix64 (seed XOR (q * 0xD1B54A32D192ED03)) mod span)))"

text \<open>The loop of \<open>FillPad\<close>: n bytes are still to be filled, eight at a time.\<close>

function pad_loop :: "nat \<Rightarrow> u64 \<Rightarrow> bytes" where
  "pad_loop n s = (if n = 0 then [] else (let s' = Mix64 s in take n (le 8 s') @ pad_loop (n - 8) s'))"
  by pat_completeness auto
termination
  by (relation "measure fst") auto

declare pad_loop.simps [simp del]

definition FillPad :: "nat \<Rightarrow> u64 \<Rightarrow> u64 \<Rightarrow> bytes" where
  "FillPad n seed q = pad_loop n (seed XOR q)"

section \<open>The packet\<close>

record EchoHead =
  eh_size :: u16
  eh_type :: u16
  eh_seq :: u64
  eh_sentNs :: i64

definition kEchoMin :: nat where "kEchoMin = 20"

definition enc_echo_head :: "EchoHead \<Rightarrow> bytes" where
  "enc_echo_head h = le 2 (eh_size h) @ le 2 (eh_type h) @ le 8 (eh_seq h) @ le 8 (eh_sentNs h)"

definition dec_echo_head :: "bytes \<Rightarrow> EchoHead" where
  "dec_echo_head bs = \<lparr>eh_size = field 0 2 bs, eh_type = field 2 2 bs, eh_seq = field 4 8 bs, eh_sentNs = field 12 8 bs\<rparr>"

text \<open>The bytes \<open>SendEcho\<close> builds for a sequence number and a send time.\<close>

definition echo_packet :: "Config \<Rightarrow> u64 \<Rightarrow> u64 \<Rightarrow> i64 \<Rightarrow> bytes" where
  "echo_packet cf seed q sentNs =
     (let size = EchoSizeFor cf seed q; n = unat size in
      take n (enc_echo_head \<lparr>eh_size = size, eh_type = msg_code ECHO, eh_seq = q, eh_sentNs = sentNs\<rparr>
        @ (if kEchoMin < n then FillPad (n - kEchoMin) seed q else [])))"

section \<open>Sizes\<close>

text \<open>The size range that \<open>main\<close> leaves after it has tidied the options.\<close>

definition size_range_ok :: "Config \<Rightarrow> bool" where
  "size_range_ok cf \<longleftrightarrow> int kEchoMin \<le> cf_pktMin cf \<and> cf_pktMin cf \<le> cf_pktMax cf \<and> cf_pktMax cf \<le> int MAX_PACKET_SIZE"

lemma length_pad_loop [simp]: "length (pad_loop n s) = n"
proof (induction n s rule: pad_loop.induct)
  case (1 n s)
  then show ?case by (subst pad_loop.simps) (auto simp: Let_def)
qed

lemma length_FillPad [simp]: "length (FillPad n seed q) = n"
  by (simp add: FillPad_def)

lemma length_enc_echo_head [simp]: "length (enc_echo_head h) = kEchoMin"
  by (simp add: enc_echo_head_def kEchoMin_def)

lemma dec_enc_echo_head [simp]: "dec_echo_head (enc_echo_head h @ bs) = h"
  by (simp add: dec_echo_head_def enc_echo_head_def field_simps_le)

lemma bit_unle: "bit (unle bs :: 'a::len word) n \<Longrightarrow> n < 8 * length bs"
proof (induction bs arbitrary: n)
  case (Cons b bs)
  show ?case
  proof (cases "n < 8")
    case False
    have "\<not> bit b n" using False by (auto dest: bit_imp_le_length)
    then have "bit (unle bs :: 'a word) (n - 8)" using Cons.prems False by (auto simp: bit_simps)
    then show ?thesis using Cons.IH by fastforce
  qed simp
qed simp

lemma le_unle: "8 * length bs \<le> LENGTH('a) \<Longrightarrow> le (length bs) (unle bs :: 'a::len word) = bs"
proof (induction bs)
  case (Cons b bs)
  let ?v = "unle bs :: 'a word"
  have l: "8 * length bs + 8 \<le> LENGTH('a)" using Cons.prems by simp
  have nb: "\<not> bit b (8 + n)" for n by (auto dest: bit_imp_le_length)
  have "ucast (ucast b OR push_bit 8 ?v) = b"
    by (rule bit_word_eqI) (use l in \<open>auto simp: bit_simps\<close>)
  moreover have "drop_bit 8 (ucast b OR push_bit 8 ?v) = ?v"
    by (rule bit_word_eqI) (use l nb bit_unle [of bs, where 'a = 'a] in \<open>fastforce simp: bit_simps\<close>)
  ultimately show ?case using Cons.IH l by simp
qed simp

lemma take_field: "n \<le> length bs \<Longrightarrow> 8 * n \<le> LENGTH('a) \<Longrightarrow> le n (field 0 n bs :: 'a::len word) = take n bs"
  using le_unle [of "take n bs", where 'a = 'a] by (simp add: field_def)

lemma field_drop: "field (a + k) n bs = field a n (drop k bs)"
  by (simp add: field_def add.commute)

lemma enc_dec_echo_head:
  assumes "kEchoMin \<le> length bs"
  shows "enc_echo_head (dec_echo_head bs) = take kEchoMin bs"
proof -
  have f: "le n (field off n bs :: 'a::len word) = take n (drop off bs)" if "off + n \<le> length bs" "8 * n \<le> LENGTH('a)" for off n
    using take_field [of n "drop off bs", where 'a = 'a] that by (simp add: field_def)
  have "take kEchoMin bs = take 2 bs @ take 2 (drop 2 bs) @ take 8 (drop 4 bs) @ take 8 (drop 12 bs)"
    using take_add [of 2 2 bs] take_add [of 4 8 bs] take_add [of 12 8 bs] by (simp add: kEchoMin_def)
  then show ?thesis
    using assms by (simp add: enc_echo_head_def dec_echo_head_def f kEchoMin_def)
qed

lemma EchoSizeFor_bounds:
  assumes "size_range_ok cf"
  shows "cf_pktMin cf \<le> int (unat (EchoSizeFor cf seed q))" "int (unat (EchoSizeFor cf seed q)) \<le> cf_pktMax cf"
proof -
  have r: "20 \<le> cf_pktMin cf" "cf_pktMin cf \<le> cf_pktMax cf" "cf_pktMax cf \<le> 1024"
    using assms by (simp_all add: size_range_ok_def kEchoMin_def MAX_PACKET_SIZE_def)
  define a d where "a = nat (cf_pktMin cf)" and "d = nat (cf_pktMax cf - cf_pktMin cf)"
  have a: "cf_pktMin cf = int a" "20 \<le> a" and d: "cf_pktMax cf = int a + int d" "a + d \<le> 1024"
    using r by (auto simp: a_def d_def)
  have n64: "unat (of_nat k :: u64) = k" if "k \<le> 2048" for k
    using that by (simp add: unsigned_of_nat take_bit_nat_eq_self)
  have "unat (of_nat (d + 1) :: u64) = d + 1" by (rule n64) (use d in simp)
  then have m: "unat (x mod of_nat (d + 1) :: u64) \<le> d" for x
    by (simp add: unat_mod less_Suc_eq_le [symmetric] del: of_nat_add of_nat_Suc)
  have u: "unat (ucast (of_nat a + y :: u64) :: u16) = a + unat y" if "unat y \<le> d" for y
  proof -
    have "unat (of_nat a + y) = a + unat y"
      using that d n64 [of a] by (simp add: unat_word_ariths)
    then show ?thesis using that d by (simp add: unsigned_ucast_eq take_bit_nat_eq_self)
  qed
  have w: "word_of_int (int a) = (of_nat a :: 'b::len word)" "word_of_int (int a + int d - int a + 1) = (of_nat (d + 1) :: u64)"
    by simp_all
  have "unat (EchoSizeFor cf seed q) = (if d = 0 then a else a + unat (Mix64 (seed XOR (q * 0xD1B54A32D192ED03)) mod of_nat (d + 1)))"
    using u [OF m] d unfolding EchoSizeFor_def a(1) d(1) w Let_def
    by (simp add: unsigned_of_nat take_bit_nat_eq_self del: of_nat_add of_nat_Suc)
  then have "a \<le> unat (EchoSizeFor cf seed q)" "unat (EchoSizeFor cf seed q) \<le> a + d"
    using m [of "Mix64 (seed XOR (q * 0xD1B54A32D192ED03))"] by (simp_all del: of_nat_add of_nat_Suc)
  then show "cf_pktMin cf \<le> int (unat (EchoSizeFor cf seed q))" "int (unat (EchoSizeFor cf seed q)) \<le> cf_pktMax cf"
    unfolding a(1) d(1) by (simp_all only: of_nat_le_iff flip: of_nat_add)
qed

end
