(* ===== verification/Dummy.thy ===== *)
theory Dummy
  imports Echo "HOL-Library.Signed_Division"
begin

text \<open>
  A worker thread of the load generator (dummy_main.cpp, class Worker): its clients with their
  connection state machine, the receive path with the verification of the echoes, the send path
  with its pending buffer, and the loop. The answers of the system calls and of the clock are a
  script, as for the server.
\<close>

section \<open>State\<close>

datatype CState = Idle | Connecting | Joining | Active | Dead

record Client =
  c_fd :: int
  c_state :: CState
  c_seq :: u32
  c_nextInputNs :: int
  c_recvBuf :: bytes       \<comment> \<open>the first \<open>recvLen\<close> bytes\<close>
  c_pend :: bytes
  c_wantWrite :: bool
  c_echoSeq :: u64
  c_expectRecv :: u64
  c_seed :: u64
  c_pending :: int
  c_lastRecvNs :: int
  c_notRecvFlagged :: bool
  c_churnAtNs :: int
  c_reconnectAtNs :: int
  c_attacker :: bool
  c_nextRecvNs :: int

definition new_client :: Client where
  "new_client = \<lparr>c_fd = - 1, c_state = Idle, c_seq = 0, c_nextInputNs = 0, c_recvBuf = [], c_pend = [],
     c_wantWrite = False, c_echoSeq = 0, c_expectRecv = 1, c_seed = 0, c_pending = 0, c_lastRecvNs = 0,
     c_notRecvFlagged = False, c_churnAtNs = 0, c_reconnectAtNs = 0, c_attacker = False, c_nextRecvNs = 0\<rparr>"

definition kRecvBufSize :: nat where "kRecvBufSize = 4096"
definition kPendMax :: nat where "kPendMax = 4096"

definition kLoopBucketUs :: "int list" where
  "kLoopBucketUs = [50, 100, 200, 500, 1000, 2000, 5000, 10000, 40000]"
definition kLoopBuckets :: nat where "kLoopBuckets = 10"
definition kRttBucketUs :: "int list" where
  "kRttBucketUs = [50, 100, 200, 500, 1000, 2000, 5000, 10000, 40000]"
definition kRttBuckets :: nat where "kRttBuckets = 10"

text \<open>The totals of the process (\<open>g_stats\<close>), as far as this thread sees and changes them.\<close>

record DummyStats =
  ds_active :: Counter
  ds_joinOk :: Counter
  ds_joinFail :: Counter
  ds_connectFail :: Counter
  ds_snapshots :: Counter
  ds_inputsSent :: Counter
  ds_pendOverflow :: Counter
  ds_serverClosed :: Counter
  ds_loops :: Counter
  ds_loopBucket :: "Counter list"
  ds_loopMaxUs :: Counter
  ds_echoSent :: Counter
  ds_echoRecv :: Counter
  ds_rttBucket :: "Counter list"
  ds_rttMaxUs :: Counter
  ds_padError :: Counter
  ds_orderError :: Counter
  ds_lateArrival :: Counter
  ds_echoNotRecv :: Counter
  ds_reconnects :: Counter

definition zero_dummy_stats :: DummyStats where
  "zero_dummy_stats = \<lparr>ds_active = 0, ds_joinOk = 0, ds_joinFail = 0, ds_connectFail = 0, ds_snapshots = 0, ds_inputsSent = 0,
     ds_pendOverflow = 0, ds_serverClosed = 0, ds_loops = 0, ds_loopBucket = replicate kLoopBuckets 0, ds_loopMaxUs = 0,
     ds_echoSent = 0, ds_echoRecv = 0, ds_rttBucket = replicate kRttBuckets 0, ds_rttMaxUs = 0, ds_padError = 0,
     ds_orderError = 0, ds_lateArrival = 0, ds_echoNotRecv = 0, ds_reconnects = 0\<rparr>"

text \<open>What the thread gathers by itself and adds to the totals every 100 ms.\<close>

record Local =
  lc_snapshots :: i64
  lc_inputs :: i64
  lc_loops :: i64
  lc_buckets :: "i64 list"
  lc_maxUs :: i64
  lc_echoSent :: i64
  lc_echoRecv :: i64
  lc_rttBuckets :: "i64 list"
  lc_rttMaxUs :: i64

definition zero_local :: Local where
  "zero_local = \<lparr>lc_snapshots = 0, lc_inputs = 0, lc_loops = 0, lc_buckets = replicate kLoopBuckets 0, lc_maxUs = 0,
     lc_echoSent = 0, lc_echoRecv = 0, lc_rttBuckets = replicate kRttBuckets 0, lc_rttMaxUs = 0\<rparr>"

text \<open>
  The script: the clock readings, the outcome of socket and connect, SO_ERROR, the answers of
  read, write and epoll_ctl; and the log of what the thread did.
\<close>

datatype connect_result = Opened int | SocketFailed | ConnectFailed int

datatype client_event = CClosed int | CWrote int bytes | CWatch int u32

record DummyKernel =
  dk_now :: "int list"
  dk_connects :: "connect_result list"
  dk_errors :: "bool list"
  dk_reads :: "read_result list"
  dk_writes :: "write_result list"
  dk_ctls :: "bool list"
  dk_log :: "client_event list"

definition quiet_kernel :: DummyKernel where
  "quiet_kernel = \<lparr>dk_now = [], dk_connects = [], dk_errors = [], dk_reads = [], dk_writes = [], dk_ctls = [], dk_log = []\<rparr>"

text \<open>A line of the violation log: its kind, the worker, the client and the sequence number.\<close>

record Violation =
  v_kind :: string
  v_worker :: nat
  v_client :: nat
  v_seq :: u64

record DummyWorker =
  wk_cfg :: Config
  wk_id :: nat
  wk_inputHz :: int
  wk_ramp :: nat
  wk_deadline :: int
  wk_nextToConnect :: nat
  wk_clients :: "Client list"
  wk_local :: Local
  wk_stats :: DummyStats
  wk_stop :: bool          \<comment> \<open>\<open>g_stop\<close>\<close>
  wk_dumps :: "Violation list"
  wk_kern :: DummyKernel

abbreviation Cl :: "DummyWorker \<Rightarrow> nat \<Rightarrow> Client" where
  "Cl W i \<equiv> wk_clients W ! i"

definition upd_client :: "nat \<Rightarrow> (Client \<Rightarrow> Client) \<Rightarrow> DummyWorker \<Rightarrow> DummyWorker" where
  "upd_client i f W = W\<lparr>wk_clients := upd_at i f (wk_clients W)\<rparr>"

definition stat :: "(DummyStats \<Rightarrow> DummyStats) \<Rightarrow> DummyWorker \<Rightarrow> DummyWorker" where
  "stat f W = W\<lparr>wk_stats := f (wk_stats W)\<rparr>"

definition loc :: "(Local \<Rightarrow> Local) \<Rightarrow> DummyWorker \<Rightarrow> DummyWorker" where
  "loc f W = W\<lparr>wk_local := f (wk_local W)\<rparr>"

definition dk_update :: "(DummyKernel \<Rightarrow> DummyKernel) \<Rightarrow> DummyWorker \<Rightarrow> DummyWorker" where
  "dk_update f W = W\<lparr>wk_kern := f (wk_kern W)\<rparr>"

definition did :: "client_event \<Rightarrow> DummyWorker \<Rightarrow> DummyWorker" where
  "did e = dk_update (\<lambda>k. k\<lparr>dk_log := dk_log k @ [e]\<rparr>)"

definition NowNs :: "DummyWorker \<Rightarrow> int \<times> DummyWorker" where
  "NowNs W = (case dk_now (wk_kern W) of [] \<Rightarrow> (0, W) | t # ts \<Rightarrow> (t, dk_update (\<lambda>k. k\<lparr>dk_now := ts\<rparr>) W))"

text \<open>\<open>epoll_ctl\<close> for a descriptor with an event mask; an empty script succeeds.\<close>

definition watch :: "int \<Rightarrow> u32 \<Rightarrow> DummyWorker \<Rightarrow> bool \<times> DummyWorker" where
  "watch f ev W =
     (case dk_ctls (wk_kern W) of
        [] \<Rightarrow> (True, did (CWatch f ev) W)
      | b # bs \<Rightarrow> (let W1 = dk_update (\<lambda>k. k\<lparr>dk_ctls := bs\<rparr>) W in (b, if b then did (CWatch f ev) W1 else W1)))"

definition EPOLLRDHUP :: u32 where "EPOLLRDHUP = 8192"

definition DumpViolation :: "string \<Rightarrow> nat \<Rightarrow> u64 \<Rightarrow> DummyWorker \<Rightarrow> DummyWorker" where
  "DumpViolation kind i q W =
     (if 8 \<le> length (wk_dumps W) then W
      else W\<lparr>wk_dumps := wk_dumps W @ [\<lparr>v_kind = kind, v_worker = wk_id W, v_client = i, v_seq = q\<rparr>]\<rparr>)"

definition fail_fast :: "DummyWorker \<Rightarrow> DummyWorker" where
  "fail_fast W = (if cf_failFast (wk_cfg W) then W\<lparr>wk_stop := True\<rparr> else W)"

section \<open>Connecting and hanging up\<close>

definition Kill :: "nat \<Rightarrow> bool \<Rightarrow> DummyWorker \<Rightarrow> DummyWorker" where
  "Kill i byServer W =
     (if c_state (Cl W i) = Dead then W else
      let W1 = (if c_state (Cl W i) = Active then stat (\<lambda>s. s\<lparr>ds_active := Add (- 1) (ds_active s)\<rparr>) W else W);
          W2 = (if byServer then stat (\<lambda>s. s\<lparr>ds_serverClosed := Inc (ds_serverClosed s)\<rparr>) W1 else W1);
          W3 = (if 0 \<le> c_fd (Cl W2 i) then upd_client i (\<lambda>c. c\<lparr>c_fd := - 1\<rparr>) (did (CClosed (c_fd (Cl W2 i))) W2) else W2);
          W4 = upd_client i (\<lambda>c. c\<lparr>c_state := Dead\<rparr>) W3
      in if 0 < cf_churnMs (wk_cfg W)
         then (case NowNs W4 of (now, W5) \<Rightarrow>
                 upd_client i (\<lambda>c. c\<lparr>c_reconnectAtNs := now + cf_reconnectMs (wk_cfg W) * 1000000\<rparr>) W5)
         else W4)"

text \<open>The fields a client starts a connection with.\<close>

definition fresh_connection :: "DummyWorker \<Rightarrow> nat \<Rightarrow> int \<Rightarrow> Client \<Rightarrow> Client" where
  "fresh_connection W i f c =
     c\<lparr>c_fd := f, c_state := Connecting,
       c_seed := (if c_seed c = 0 then Mix64 (push_bit 32 (of_nat (wk_id W)) XOR of_nat (i + 1)) else c_seed c),
       c_attacker := (cf_echoMode (wk_cfg W) \<and> 0 < cf_attackSendQ (wk_cfg W) \<and> wk_id W = 0 \<and>
         i < nat (cf_attackSendQ (wk_cfg W))),
       c_echoSeq := 0, c_expectRecv := 1, c_pending := 0, c_notRecvFlagged := False, c_recvBuf := [], c_pend := [],
       c_reconnectAtNs := 0, c_churnAtNs := 0\<rparr>"

definition connect_refused :: "nat \<Rightarrow> DummyWorker \<Rightarrow> DummyWorker" where
  "connect_refused i W =
     stat (\<lambda>s. s\<lparr>ds_connectFail := Inc (ds_connectFail s)\<rparr>) (upd_client i (\<lambda>c. c\<lparr>c_fd := - 1, c_state := Dead\<rparr>) W)"

text \<open>The random time a connection is kept in churn mode.\<close>

definition plan_churn :: "nat \<Rightarrow> DummyWorker \<Rightarrow> DummyWorker" where
  "plan_churn i W =
     (if 0 < cf_churnMs (wk_cfg W)
      then (case NowNs W of (t1, W1) \<Rightarrow> case NowNs W1 of (t2, W2) \<Rightarrow>
              let span = word_of_int (cf_churnMs (wk_cfg W)) * 4 + 1 :: u64;
                  hold = cf_churnMs (wk_cfg W) + sint (Mix64 (c_seed (Cl W i) + c_echoSeq (Cl W i) + word_of_int t1) mod span)
              in upd_client i (\<lambda>c. c\<lparr>c_churnAtNs := t2 + hold * 1000000\<rparr>) W2)
      else W)"

definition StartConnect :: "nat \<Rightarrow> DummyWorker \<Rightarrow> DummyWorker" where
  "StartConnect i W =
     (let cs = dk_connects (wk_kern W); W0 = dk_update (\<lambda>k. k\<lparr>dk_connects := tl (dk_connects k)\<rparr>) W in
      case (if cs = [] then SocketFailed else hd cs) of
        SocketFailed \<Rightarrow> connect_refused i W0
      | ConnectFailed f \<Rightarrow> connect_refused i (did (CClosed f) W0)
      | Opened f \<Rightarrow>
          (case NowNs (upd_client i (fresh_connection W i f) W0) of (now, W1) \<Rightarrow>
             let W2 = plan_churn i (upd_client i (\<lambda>c. c\<lparr>c_lastRecvNs := now\<rparr>) W1)
             in snd (watch f (EPOLLIN OR EPOLLOUT OR EPOLLRDHUP) W2)))"

definition UpdateWrite :: "nat \<Rightarrow> bool \<Rightarrow> DummyWorker \<Rightarrow> DummyWorker" where
  "UpdateWrite i want W =
     (let c = Cl W i in
      if c_wantWrite c = want \<or> c_fd c < 0 then W else
      case watch (c_fd c) ((if c_attacker c then 0 else EPOLLIN) OR EPOLLRDHUP OR (if want then EPOLLOUT else 0)) W of
        (ok, W1) \<Rightarrow> if ok then upd_client i (\<lambda>c. c\<lparr>c_wantWrite := want\<rparr>) W1 else W1)"

section \<open>Sending\<close>

definition Worker_SendBytes :: "nat \<Rightarrow> bytes \<Rightarrow> DummyWorker \<Rightarrow> DummyWorker" where
  "Worker_SendBytes i bs W =
     (let c = Cl W i in
      if c_pend c \<noteq> [] then
        (if kPendMax < length (c_pend c) + length bs
         then Kill i False (stat (\<lambda>s. s\<lparr>ds_pendOverflow := Inc (ds_pendOverflow s)\<rparr>) W)
         else upd_client i (\<lambda>c. c\<lparr>c_pend := c_pend c @ bs\<rparr>) W)
      else
        (let ws = dk_writes (wk_kern W);
             W0 = dk_update (\<lambda>k. k\<lparr>dk_writes := tl (dk_writes k)\<rparr>) W;
             kept = (\<lambda>n W'. if n < length bs
                            then upd_client i (\<lambda>c. c\<lparr>c_pend := c_pend c @ drop n bs, c_wantWrite := False\<rparr>) W' else W')
         in case (if ws = [] then WriteAgain else hd ws) of
              Took k \<Rightarrow> (let n = min (Suc k) (length bs) in kept n (did (CWrote (c_fd c) (take n bs)) W0))
            | WriteAgain \<Rightarrow> kept 0 W0
            | WriteIntr \<Rightarrow> kept 0 W0
            | WriteErr \<Rightarrow> Kill i True W0))"

fun pend_loop :: "nat \<Rightarrow> write_result list \<Rightarrow> DummyWorker \<Rightarrow> DummyWorker" where
  "pend_loop i ws W =
     (let c = Cl W i in
      if c_pend c = [] then W else
      case ws of
        [] \<Rightarrow> W
      | x # ws' \<Rightarrow>
          (let W1 = dk_update (\<lambda>k. k\<lparr>dk_writes := ws'\<rparr>) W in
           case x of
             Took k \<Rightarrow>
               (let n = min (Suc k) (length (c_pend c))
                in pend_loop i ws' (upd_client i (\<lambda>c. c\<lparr>c_pend := drop n (c_pend c)\<rparr>)
                     (did (CWrote (c_fd c) (take n (c_pend c))) W1)))
           | WriteAgain \<Rightarrow> W1
           | WriteIntr \<Rightarrow> pend_loop i ws' W1
           | WriteErr \<Rightarrow> Kill i True W1))"

declare pend_loop.simps [simp del]

definition FlushPend :: "nat \<Rightarrow> DummyWorker \<Rightarrow> DummyWorker" where
  "FlushPend i W = pend_loop i (dk_writes (wk_kern W)) W"

definition SendEcho :: "nat \<Rightarrow> DummyWorker \<Rightarrow> DummyWorker" where
  "SendEcho i W =
     (let q = c_echoSeq (Cl W i) + 1;
          W1 = upd_client i (\<lambda>c. c\<lparr>c_echoSeq := q\<rparr>) W in
      case NowNs W1 of (now, W2) \<Rightarrow>
        let W3 = Worker_SendBytes i (echo_packet (wk_cfg W) (c_seed (Cl W i)) q (word_of_int now)) W2 in
        if c_state (Cl W3 i) = Dead then W3 else
        let W4 = (if c_pend (Cl W3 i) \<noteq> [] then UpdateWrite i True W3 else W3)
        in upd_client i (\<lambda>c. c\<lparr>c_pending := c_pending c + 1\<rparr>) (loc (\<lambda>l. l\<lparr>lc_echoSent := Inc (lc_echoSent l)\<rparr>) W4))"

end
