(* ===== verification/DummyLoop.thy ===== *)
theory DummyLoop
  imports Dummy GameWorker
begin

text \<open>
  The load generator, continued: the verification of the echoes, the receive path, the events and
  the loop of a worker thread.
\<close>

section \<open>Echoes\<close>

text \<open>Latency and book-keeping of a received echo, whatever its contents.\<close>

definition note_echo :: "nat \<Rightarrow> EchoHead \<Rightarrow> DummyWorker \<Rightarrow> DummyWorker" where
  "note_echo i eh W =
     (case NowNs W of (now, W1) \<Rightarrow>
        let rttUs = sint (word_of_int now - eh_sentNs eh) sdiv 1000;
            W2 = loc (\<lambda>l. l\<lparr>lc_echoRecv := Inc (lc_echoRecv l),
                   lc_rttMaxUs := (if sint (lc_rttMaxUs l) < rttUs then word_of_int rttUs else lc_rttMaxUs l),
                   lc_rttBuckets := upd_at (bucket_from kRttBucketUs rttUs) Inc (lc_rttBuckets l)\<rparr>) W1
        in upd_client i (\<lambda>c. c\<lparr>c_pending := (if 0 < c_pending c then c_pending c - 1 else c_pending c),
             c_lastRecvNs := now, c_notRecvFlagged := False\<rparr>) W2)"

definition pad_violation :: "string \<Rightarrow> nat \<Rightarrow> u64 \<Rightarrow> DummyWorker \<Rightarrow> DummyWorker" where
  "pad_violation kind i q W =
     fail_fast (DumpViolation kind i q (stat (\<lambda>s. s\<lparr>ds_padError := Inc (ds_padError s)\<rparr>) W))"

text \<open>The size and the padding against those of the sequence number in the packet.\<close>

definition check_contents :: "nat \<Rightarrow> EchoHead \<Rightarrow> bytes \<Rightarrow> DummyWorker \<Rightarrow> DummyWorker" where
  "check_contents i eh frame W =
     (let seed = c_seed (Cl W i); size = eh_size eh in
      if EchoSizeFor (wk_cfg W) seed (eh_seq eh) \<noteq> size then pad_violation ''SIZE'' i (eh_seq eh) W
      else if kEchoMin < unat size \<and> FillPad (unat size - kEchoMin) seed (eh_seq eh) \<noteq> drop kEchoMin frame
      then pad_violation ''PAD'' i (eh_seq eh) W
      else W)"

definition check_order :: "nat \<Rightarrow> u64 \<Rightarrow> DummyWorker \<Rightarrow> DummyWorker" where
  "check_order i q W =
     (let expected = c_expectRecv (Cl W i) in
      if q = expected then upd_client i (\<lambda>c. c\<lparr>c_expectRecv := c_expectRecv c + 1\<rparr>) W
      else if q < expected then stat (\<lambda>s. s\<lparr>ds_lateArrival := Inc (ds_lateArrival s)\<rparr>) W
      else upd_client i (\<lambda>c. c\<lparr>c_expectRecv := q + 1\<rparr>)
             (fail_fast (DumpViolation ''ORDER'' i q (stat (\<lambda>s. s\<lparr>ds_orderError := Inc (ds_orderError s)\<rparr>) W))))"

text \<open>One ECHO frame; False when the connection was cut.\<close>

definition handle_echo :: "nat \<Rightarrow> bytes \<Rightarrow> DummyWorker \<Rightarrow> bool \<times> DummyWorker" where
  "handle_echo i frame W =
     (if length frame < kEchoMin then (False, Kill i False (pad_violation ''SIZE'' i 0 W))
      else
        (let eh = dec_echo_head frame; W1 = note_echo i eh W
         in (True, if cf_verify (wk_cfg W) then check_order i (eh_seq eh) (check_contents i eh frame W1) else W1)))"

section \<open>Frames\<close>

text \<open>The switch over the type of a frame; False when the connection was cut.\<close>

definition handle_frame :: "nat \<Rightarrow> bytes \<Rightarrow> DummyWorker \<Rightarrow> bool \<times> DummyWorker" where
  "handle_frame i frame W =
     (case msg_type_of (h_type (dec_header frame)) of
        Some ECHO \<Rightarrow> handle_echo i frame W
      | Some S2C_JOIN_OK \<Rightarrow>
          (True, if c_state (Cl W i) = Joining
                 then stat (\<lambda>s. s\<lparr>ds_joinOk := Inc (ds_joinOk s), ds_active := Inc (ds_active s)\<rparr>)
                        (upd_client i (\<lambda>c. c\<lparr>c_state := Active\<rparr>) W)
                 else W)
      | Some S2C_JOIN_FAIL \<Rightarrow> (False, Kill i False (stat (\<lambda>s. s\<lparr>ds_joinFail := Inc (ds_joinFail s)\<rparr>) W))
      | Some S2C_SNAPSHOT \<Rightarrow> (True, loc (\<lambda>l. l\<lparr>lc_snapshots := Inc (lc_snapshots l)\<rparr>) W)
      | _ \<Rightarrow> (True, W))"

text \<open>
  The loop of \<open>ParseFrames\<close> over the bytes behind \<open>off\<close>: what is left when it ends, or None when
  the connection was cut on the way, and then the buffer is not compacted.
\<close>

function frames_loop :: "nat \<Rightarrow> bytes \<Rightarrow> DummyWorker \<Rightarrow> bytes option \<times> DummyWorker" where
  "frames_loop i bs W =
     (let sz = unat (h_size (dec_header (take kHeaderSize bs))) in
      if length bs < kHeaderSize then (Some bs, W)
      else if sz < kHeaderSize \<or> MAX_PACKET_SIZE < sz then (None, Kill i False W)
      else if length bs < sz then (Some bs, W)
      else if fst (handle_frame i (take sz bs) W) then frames_loop i (drop sz bs) (snd (handle_frame i (take sz bs) W))
      else (None, snd (handle_frame i (take sz bs) W)))"
  by pat_completeness auto
termination
  by (relation "measure (\<lambda>(i, bs, W). length bs)") (auto simp: kHeaderSize_def)

declare frames_loop.simps [simp del]

definition Worker_ParseFrames :: "nat \<Rightarrow> DummyWorker \<Rightarrow> DummyWorker" where
  "Worker_ParseFrames i W =
     (case frames_loop i (c_recvBuf (Cl W i)) W of
        (None, W1) \<Rightarrow> W1
      | (Some rest, W1) \<Rightarrow> upd_client i (\<lambda>c. c\<lparr>c_recvBuf := rest\<rparr>) W1)"

text \<open>
  An answer \<open>Got bs\<close> of the script says that bs has arrived: a read takes as much of it as it asks
  for, and what it leaves is there for the next one.
\<close>

definition left_over :: "nat \<Rightarrow> bytes \<Rightarrow> read_result list \<Rightarrow> read_result list" where
  "left_over n bs rs = (if n < length bs then Got (drop n bs) # rs else rs)"

primrec answer_size :: "read_result \<Rightarrow> nat" where
  "answer_size (Got bs) = Suc (length bs)"
| "answer_size Eof = 1"
| "answer_size ReadAgain = 1"
| "answer_size ReadIntr = 1"
| "answer_size ReadErr = 1"

lemma left_over_shrinks:
  "n \<noteq> 0 \<Longrightarrow> sum_list (map answer_size (left_over n bs rs)) < Suc (length bs + sum_list (map answer_size rs))"
  by (auto simp: left_over_def)

function recv_loop :: "nat \<Rightarrow> read_result list \<Rightarrow> DummyWorker \<Rightarrow> DummyWorker" where
  "recv_loop i [] W = (if length (c_recvBuf (Cl W i)) = kRecvBufSize then Kill i False W else W)"
| "recv_loop i (x # rs) W =
     (let c = Cl W i; slow = (c_attacker c \<and> 0 < cf_slowRecvMs (wk_cfg W)); left = kRecvBufSize - length (c_recvBuf c);
          W1 = dk_update (\<lambda>k. k\<lparr>dk_reads := rs\<rparr>) W in
      if length (c_recvBuf c) = kRecvBufSize then Kill i False W else
      case x of
        Got bs \<Rightarrow>
          (let n = min (length bs) (if slow then min left 2048 else left) in
           if n = 0 then Kill i True W1 else
           let W2 = Worker_ParseFrames i (upd_client i (\<lambda>c. c\<lparr>c_recvBuf := c_recvBuf c @ take n bs\<rparr>)
                      (dk_update (\<lambda>k. k\<lparr>dk_reads := left_over n bs rs\<rparr>) W))
           in if c_state (Cl W2 i) = Dead \<or> slow then W2 else recv_loop i (left_over n bs rs) W2)
      | Eof \<Rightarrow> Kill i True W1
      | ReadAgain \<Rightarrow> W1
      | ReadIntr \<Rightarrow> recv_loop i rs W1
      | ReadErr \<Rightarrow> Kill i True W1)"
  by pat_completeness auto
termination
  by (relation "measure (\<lambda>(i, rs, W). sum_list (map answer_size rs))") (simp_all add: left_over_shrinks)

declare recv_loop.simps [simp del]

text \<open>Induction over a script of which the loop may put back the rest of an answer.\<close>

abbreviation script_size :: "read_result list \<Rightarrow> nat" where
  "script_size rs \<equiv> sum_list (map answer_size rs)"

lemma answer_size_pos [simp]: "0 < answer_size x"
  by (cases x) simp_all

lemma recv_script_induct [case_names Nil Cons]:
  assumes "P []" "\<And>x rs. (\<And>rs'. script_size rs' < script_size (x # rs) \<Longrightarrow> P rs') \<Longrightarrow> P (x # rs)"
  shows "P rs"
proof (induction rs rule: measure_induct_rule [where f = script_size])
  case (less rs)
  then show ?case using assms by (cases rs) auto
qed

lemma left_over_less: "n \<noteq> 0 \<Longrightarrow> script_size (left_over n bs rs) < script_size (Got bs # rs)"
  using left_over_shrinks by simp

text \<open>A read of the descriptor -1, left by a connection that was cut just before, fails with EBADF.\<close>

definition OnReadable :: "nat \<Rightarrow> DummyWorker \<Rightarrow> DummyWorker" where
  "OnReadable i W = (if c_fd (Cl W i) < 0 then Kill i True W else recv_loop i (dk_reads (wk_kern W)) W)"

section \<open>Events\<close>

text \<open>A slow reader plans its next read.\<close>

definition plan_recv :: "nat \<Rightarrow> DummyWorker \<Rightarrow> DummyWorker" where
  "plan_recv i W =
     (case NowNs W of (now, W1) \<Rightarrow> upd_client i (\<lambda>c. c\<lparr>c_nextRecvNs := now + cf_slowRecvMs (wk_cfg W) * 1000000\<rparr>) W1)"

text \<open>The connection is up: into the echo mode, or on with the JOIN.\<close>

definition connected :: "nat \<Rightarrow> DummyWorker \<Rightarrow> DummyWorker" where
  "connected i W =
     (if cf_echoMode (wk_cfg W) then
        (let W1 = stat (\<lambda>s. s\<lparr>ds_active := Inc (ds_active s), ds_joinOk := Inc (ds_joinOk s)\<rparr>)
                    (upd_client i (\<lambda>c. c\<lparr>c_state := Active\<rparr>) W) in
         if c_attacker (Cl W1 i) then
           (let W2 = upd_client i (\<lambda>c. c\<lparr>c_wantWrite := False\<rparr>) (snd (watch (c_fd (Cl W1 i)) EPOLLRDHUP W1))
            in if 0 < cf_slowRecvMs (wk_cfg W) then plan_recv i W2 else W2)
         else UpdateWrite i (c_pend (Cl W1 i) \<noteq> []) W1)
      else
        (let W1 = upd_client i (\<lambda>c. c\<lparr>c_state := Joining\<rparr>) (Worker_SendBytes i (enc_join kProtocolVersion) W)
         in UpdateWrite i (c_pend (Cl W1 i) \<noteq> []) W1))"

definition OnEvent :: "nat \<Rightarrow> u32 \<Rightarrow> DummyWorker \<Rightarrow> DummyWorker" where
  "OnEvent i ev W =
     (if c_state (Cl W i) = Dead \<or> c_fd (Cl W i) < 0 then W
      else if ev AND EPOLL_GONE \<noteq> 0 then Kill i True W
      else if c_state (Cl W i) = Connecting \<and> ev AND EPOLLOUT \<noteq> 0 then
        (let es = dk_errors (wk_kern W); W1 = dk_update (\<lambda>k. k\<lparr>dk_errors := tl (dk_errors k)\<rparr>) W in
         if es \<noteq> [] \<and> hd es then stat (\<lambda>s. s\<lparr>ds_connectFail := Inc (ds_connectFail s)\<rparr>) (Kill i False W1)
         else connected i W1)
      else
        (let W1 = (if ev AND EPOLLOUT \<noteq> 0
                   then (let W' = FlushPend i W in if c_pend (Cl W' i) = [] then UpdateWrite i False W' else W')
                   else W)
         in if ev AND EPOLLIN \<noteq> 0
            then (let W2 = OnReadable i W1; c = Cl W2 i in
                  if c_attacker c \<and> 0 < cf_slowRecvMs (wk_cfg W) \<and> c_state c = Active
                  then plan_recv i (snd (watch (c_fd c) (EPOLLRDHUP OR (if c_wantWrite c then EPOLLOUT else 0)) W2))
                  else W2)
            else W1))"

section \<open>The loop\<close>

definition Flush :: "DummyWorker \<Rightarrow> DummyWorker" where
  "Flush W =
     (let l = wk_local W; s = wk_stats W in
      W\<lparr>wk_stats := s\<lparr>ds_snapshots := Add (lc_snapshots l) (ds_snapshots s), ds_inputsSent := Add (lc_inputs l) (ds_inputsSent s),
          ds_loops := Add (lc_loops l) (ds_loops s), ds_loopBucket := map2 Add (lc_buckets l) (ds_loopBucket s),
          ds_loopMaxUs := StoreMax (lc_maxUs l) (ds_loopMaxUs s), ds_echoSent := Add (lc_echoSent l) (ds_echoSent s),
          ds_echoRecv := Add (lc_echoRecv l) (ds_echoRecv s), ds_rttBucket := map2 Add (lc_rttBuckets l) (ds_rttBucket s),
          ds_rttMaxUs := StoreMax (lc_rttMaxUs l) (ds_rttMaxUs s)\<rparr>, wk_local := zero_local\<rparr>)"

definition input_period :: "DummyWorker \<Rightarrow> int" where
  "input_period W = 1000000000 div (if 0 < wk_inputHz W then wk_inputHz W else 60)"

definition next_input :: "int \<Rightarrow> int \<Rightarrow> Client \<Rightarrow> Client" where
  "next_input workStart period c =
     c\<lparr>c_nextInputNs := (if c_nextInputNs c = 0 then workStart else c_nextInputNs c) + period\<rparr>"

text \<open>The idle input of the game mode.\<close>

definition send_input :: "nat \<Rightarrow> DummyWorker \<Rightarrow> DummyWorker" where
  "send_input i W =
     (let q = c_seq (Cl W i) + 1; W1 = upd_client i (\<lambda>c. c\<lparr>c_seq := q\<rparr>) W;
          W2 = Worker_SendBytes i (enc_input \<lparr>i_seq = q, i_mx = 0, i_my = 0, i_attack = 0, i_skill = 0\<rparr>) W1 in
      if c_state (Cl W2 i) = Dead then W2 else
      let W3 = (if c_pend (Cl W2 i) \<noteq> [] then UpdateWrite i True W2 else W2)
      in loc (\<lambda>l. l\<lparr>lc_inputs := Inc (lc_inputs l)\<rparr>) W3)"

text \<open>An attacker sends in every round; a slow reader opens its ear when it is time.\<close>

definition attack_turn :: "int \<Rightarrow> nat \<Rightarrow> DummyWorker \<Rightarrow> DummyWorker" where
  "attack_turn workStart i W =
     (let c = Cl W i;
          W1 = (if 0 < cf_slowRecvMs (wk_cfg W) \<and> c_nextRecvNs c \<noteq> 0 \<and> c_nextRecvNs c \<le> workStart
                then upd_client i (\<lambda>c. c\<lparr>c_nextRecvNs := 0\<rparr>)
                       (snd (watch (c_fd c) (EPOLLIN OR EPOLLRDHUP OR (if c_wantWrite c then EPOLLOUT else 0)) W))
                else W)
      in SendEcho i W1)"

text \<open>The regular send of an active client whose turn it is.\<close>

definition send_turn :: "int \<Rightarrow> nat \<Rightarrow> DummyWorker \<Rightarrow> DummyWorker" where
  "send_turn workStart i W =
     (if workStart < c_nextInputNs (Cl W i) then W
      else if cf_echoMode (wk_cfg W) \<and> 0 < cf_overSend (wk_cfg W) \<and> cf_overSend (wk_cfg W) \<le> c_pending (Cl W i)
      then upd_client i (next_input workStart (input_period W)) W
      else
        (let W1 = (if cf_echoMode (wk_cfg W) then SendEcho i W else send_input i W)
         in if c_state (Cl W1 i) = Dead then W1 else upd_client i (next_input workStart (input_period W)) W1))"

definition flag_silence :: "int \<Rightarrow> nat \<Rightarrow> DummyWorker \<Rightarrow> DummyWorker" where
  "flag_silence workStart i W =
     (let c = Cl W i in
      if cf_echoMode (wk_cfg W) \<and> 0 < c_pending c \<and> \<not> c_notRecvFlagged c \<and>
         cf_echoTimeoutMs (wk_cfg W) * 1000000 < workStart - c_lastRecvNs c
      then stat (\<lambda>s. s\<lparr>ds_echoNotRecv := Inc (ds_echoNotRecv s)\<rparr>) (upd_client i (\<lambda>c. c\<lparr>c_notRecvFlagged := True\<rparr>) W)
      else W)"

definition client_turn :: "int \<Rightarrow> nat \<Rightarrow> DummyWorker \<Rightarrow> DummyWorker" where
  "client_turn workStart i W =
     (let c = Cl W i in
      if c_state c = Dead \<and> c_reconnectAtNs c \<noteq> 0 \<and> c_reconnectAtNs c \<le> workStart
      then stat (\<lambda>s. s\<lparr>ds_reconnects := Inc (ds_reconnects s)\<rparr>) (StartConnect i W)
      else if c_state c \<noteq> Active then W
      else if c_churnAtNs c \<noteq> 0 \<and> c_churnAtNs c \<le> workStart then Kill i False W
      else
        (let W1 = flag_silence workStart i W in
         if cf_echoMode (wk_cfg W) \<and> c_attacker c then attack_turn workStart i W1
         else send_turn workStart i W1))"

text \<open>The first \<open>ramp\<close> clients that have not been started yet.\<close>

definition ramp_up :: "DummyWorker \<Rightarrow> DummyWorker" where
  "ramp_up W =
     (let k = min (wk_ramp W) (length (wk_clients W) - wk_nextToConnect W)
      in (fold StartConnect [wk_nextToConnect W..<wk_nextToConnect W + k] W)\<lparr>wk_nextToConnect := wk_nextToConnect W + k\<rparr>)"

definition note_work :: "int \<Rightarrow> Local \<Rightarrow> Local" where
  "note_work workUs l =
     l\<lparr>lc_loops := Inc (lc_loops l), lc_maxUs := (if sint (lc_maxUs l) < workUs then word_of_int workUs else lc_maxUs l),
       lc_buckets := upd_at (bucket_from kLoopBucketUs workUs) Inc (lc_buckets l)\<rparr>"

text \<open>One round of the loop, for the events of its \<open>epoll_wait\<close>; the time of the last flush is passed on.\<close>

definition Worker_round :: "(nat \<times> u32) list \<Rightarrow> int \<times> DummyWorker \<Rightarrow> int \<times> DummyWorker" where
  "Worker_round events LW =
     (case NowNs (ramp_up (snd LW)) of (workStart, W1) \<Rightarrow>
        let W2 = fold (\<lambda>e. OnEvent (fst e) (snd e)) events W1;
            W3 = fold (client_turn workStart) [0..<length (wk_clients W2)] W2 in
        case NowNs W3 of (t, W4) \<Rightarrow>
          let W5 = loc (note_work ((t - workStart) sdiv 1000)) W4 in
          case NowNs W5 of (t1, W6) \<Rightarrow>
            if 100 * 1000000 < t1 - fst LW
            then (case NowNs (Flush W6) of (t2, W7) \<Rightarrow> (t2, W7))
            else (fst LW, W6))"

text \<open>
  The loop along the answers of \<open>epoll_wait\<close>, until the deadline or the stop flag (True), or until
  the script ends (False: still running).
\<close>

fun Worker_rounds :: "(nat \<times> u32) list list \<Rightarrow> int \<times> DummyWorker \<Rightarrow> bool \<times> DummyWorker" where
  "Worker_rounds [] LW = (False, snd LW)"
| "Worker_rounds (es # ess) LW =
     (case NowNs (snd LW) of (loopStart, W1) \<Rightarrow>
        if wk_deadline W1 \<le> loopStart \<or> wk_stop W1 then (True, W1)
        else Worker_rounds ess (Worker_round es (fst LW, W1)))"

definition Worker_Loop :: "(nat \<times> u32) list list \<Rightarrow> DummyWorker \<Rightarrow> bool \<times> DummyWorker" where
  "Worker_Loop ess W =
     (case NowNs W of (t, W1) \<Rightarrow> case Worker_rounds ess (t, W1) of
        (False, W2) \<Rightarrow> (False, W2)
      | (True, W2) \<Rightarrow> (True, fold (\<lambda>i. Kill i False) [0..<length (wk_clients W2)] (Flush W2)))"

end
