(* ===== verification/Verify_Props.thy ===== *)
theory Verify_Props
  imports DummyLoop "HOL-Library.Sublist"
begin

text \<open>
  The verifier of the load generator: it accepts a frame exactly when it is the packet that was
  sent next, and it accepts the stream of the packets however the network cuts it.
\<close>

section \<open>Packets\<close>

lemma echo_packet_eq:
  assumes "size_range_ok cf"
  shows "echo_packet cf seed q t =
    enc_echo_head \<lparr>eh_size = EchoSizeFor cf seed q, eh_type = msg_code ECHO, eh_seq = q, eh_sentNs = t\<rparr>
      @ FillPad (unat (EchoSizeFor cf seed q) - kEchoMin) seed q"
    and "length (echo_packet cf seed q t) = unat (EchoSizeFor cf seed q)"
proof -
  have n: "kEchoMin \<le> unat (EchoSizeFor cf seed q)"
    using EchoSizeFor_bounds(1) [OF assms, of seed q] assms unfolding size_range_ok_def by linarith
  have f0: "FillPad 0 seed q = []" by (simp add: FillPad_def pad_loop.simps [of 0])
  show e: "echo_packet cf seed q t =
    enc_echo_head \<lparr>eh_size = EchoSizeFor cf seed q, eh_type = msg_code ECHO, eh_seq = q, eh_sentNs = t\<rparr>
      @ FillPad (unat (EchoSizeFor cf seed q) - kEchoMin) seed q"
    using n by (cases "unat (EchoSizeFor cf seed q) = kEchoMin") (simp_all add: echo_packet_def Let_def f0)
  show "length (echo_packet cf seed q t) = unat (EchoSizeFor cf seed q)"
    unfolding e using n by simp
qed

lemma echo_packet_size:
  assumes "size_range_ok cf"
  shows "kEchoMin \<le> length (echo_packet cf seed q t)" "length (echo_packet cf seed q t) \<le> MAX_PACKET_SIZE"
  using EchoSizeFor_bounds [OF assms, of seed q] assms unfolding echo_packet_eq(2) [OF assms] size_range_ok_def by linarith+

lemma dec_header_echo_head:
  "dec_header (enc_echo_head h @ bs) = \<lparr>h_size = eh_size h, h_type = eh_type h\<rparr>"
  by (simp add: dec_header_def enc_echo_head_def field_simps_le)

lemma dec_echo_packet:
  assumes "size_range_ok cf"
  shows "dec_header (echo_packet cf seed q t @ bs) = \<lparr>h_size = EchoSizeFor cf seed q, h_type = msg_code ECHO\<rparr>"
    "dec_echo_head (echo_packet cf seed q t) = \<lparr>eh_size = EchoSizeFor cf seed q, eh_type = msg_code ECHO, eh_seq = q, eh_sentNs = t\<rparr>"
    "drop kEchoMin (echo_packet cf seed q t) = FillPad (unat (EchoSizeFor cf seed q) - kEchoMin) seed q"
  unfolding echo_packet_eq(1) [OF assms] by (simp_all add: dec_header_echo_head)

lemma msg_type_of_SomeD: "msg_type_of c = Some t \<Longrightarrow> c = msg_code t"
  by (auto simp: msg_type_of_def find_Some_iff)

lemma dec_header_eq: "dec_header bs = \<lparr>h_size = eh_size (dec_echo_head bs), h_type = eh_type (dec_echo_head bs)\<rparr>"
  by (simp add: dec_header_def dec_echo_head_def)

section \<open>One frame\<close>

text \<open>The counters of the violations.\<close>

definition violations :: "DummyWorker \<Rightarrow> i64 \<times> i64 \<times> i64" where
  "violations W = (ds_padError (wk_stats W), ds_orderError (wk_stats W), ds_lateArrival (wk_stats W))"

lemma note_echo_keeps:
  "violations (note_echo i eh W) = violations W" "wk_cfg (note_echo i eh W) = wk_cfg W"
  "length (wk_clients (note_echo i eh W)) = length (wk_clients W)" "wk_stop (note_echo i eh W) = wk_stop W"
  by (auto simp: note_echo_def violations_def NowNs_def loc_def dk_update_def upd_client_def Let_def split: list.splits)

text \<open>The part of a client the verification depends on.\<close>

definition echo_view :: "Client \<Rightarrow> int \<times> CState \<times> u64 \<times> u64 \<times> bytes \<times> bool" where
  "echo_view c = (c_fd c, c_state c, c_seed c, c_expectRecv c, c_recvBuf c, c_attacker c)"

lemma note_echo_view: "i < length (wk_clients W) \<Longrightarrow> echo_view (Cl (note_echo i eh W) i) = echo_view (Cl W i)"
  by (auto simp: note_echo_def NowNs_def loc_def dk_update_def upd_client_def Let_def echo_view_def split: list.splits)

lemma inc_neq [simp]: "Inc v \<noteq> v" "v \<noteq> Inc v"
  by (simp_all add: Inc_def)

lemma pad_violation_simps [simp]:
  "violations (pad_violation k i q W) = (Inc (ds_padError (wk_stats W)), ds_orderError (wk_stats W), ds_lateArrival (wk_stats W))"
  "wk_clients (pad_violation k i q W) = wk_clients W"
  by (simp_all add: pad_violation_def fail_fast_def DumpViolation_def stat_def violations_def)

definition contents_ok :: "Config \<Rightarrow> u64 \<Rightarrow> EchoHead \<Rightarrow> bytes \<Rightarrow> bool" where
  "contents_ok cf seed eh frame \<longleftrightarrow> EchoSizeFor cf seed (eh_seq eh) = eh_size eh \<and>
     (kEchoMin < unat (eh_size eh) \<longrightarrow> FillPad (unat (eh_size eh) - kEchoMin) seed (eh_seq eh) = drop kEchoMin frame)"

lemma check_contents_cases:
  "check_contents i eh frame W = (if contents_ok (wk_cfg W) (c_seed (Cl W i)) eh frame then W
     else pad_violation (if EchoSizeFor (wk_cfg W) (c_seed (Cl W i)) (eh_seq eh) \<noteq> eh_size eh then ''SIZE'' else ''PAD'') i (eh_seq eh) W)"
  by (auto simp: check_contents_def contents_ok_def Let_def)

lemma check_order_effect:
  fixes q :: u64
  assumes "i < length (wk_clients W)"
  defines "e \<equiv> c_expectRecv (Cl W i)"
  shows "violations (check_order i q W) = (ds_padError (wk_stats W), (if e < q then Inc (ds_orderError (wk_stats W)) else ds_orderError (wk_stats W)),
      (if q < e then Inc (ds_lateArrival (wk_stats W)) else ds_lateArrival (wk_stats W)))"
    "c_expectRecv (Cl (check_order i q W) i) = (if q < e then e else q + 1)"
  using assms(1) unfolding e_def
  by (auto simp: check_order_def violations_def upd_client_def stat_def fail_fast_def DumpViolation_def Let_def)

lemma pad_violation_stats [simp]:
  "wk_stats (pad_violation k i q W) = (wk_stats W)\<lparr>ds_padError := Inc (ds_padError (wk_stats W))\<rparr>"
  by (simp add: pad_violation_def fail_fast_def DumpViolation_def stat_def)

text \<open>The counters after the checks of one frame: damage by the contents, order and late by the number.\<close>

definition judged :: "bool \<Rightarrow> u64 \<Rightarrow> u64 \<Rightarrow> i64 \<times> i64 \<times> i64 \<Rightarrow> i64 \<times> i64 \<times> i64" where
  "judged intact q e v = (case v of (damage, skipped, late) \<Rightarrow>
     (if intact then damage else Inc damage, if e < q then Inc skipped else skipped, if q < e then Inc late else late))"

lemma violations_checks:
  assumes "i < length (wk_clients W)"
  shows "violations (check_order i (eh_seq eh) (check_contents i eh frame W)) =
      judged (contents_ok (wk_cfg W) (c_seed (Cl W i)) eh frame) (eh_seq eh) (c_expectRecv (Cl W i)) (violations W)"
    "c_expectRecv (Cl (check_order i (eh_seq eh) (check_contents i eh frame W)) i) =
      (if eh_seq eh < c_expectRecv (Cl W i) then c_expectRecv (Cl W i) else eh_seq eh + 1)"
  using check_order_effect [of i "check_contents i eh frame W" "eh_seq eh"] assms
  by (simp_all add: check_contents_cases judged_def violations_def)

lemma handle_echo_frame:
  assumes "msg_type_of (h_type (dec_header frame)) = Some ECHO" "kEchoMin \<le> length frame" "cf_verify (wk_cfg W)"
  shows "handle_frame i frame W = (True, check_order i (eh_seq (dec_echo_head frame))
    (check_contents i (dec_echo_head frame) frame (note_echo i (dec_echo_head frame) W)))"
  using assms by (simp add: handle_frame_def handle_echo_def Let_def)

lemma contents_ok_iff:
  assumes r: "size_range_ok cf" and n: "length frame = unat (h_size (dec_header frame))"
    and ty: "msg_type_of (h_type (dec_header frame)) = Some ECHO" and l: "kEchoMin \<le> length frame"
  shows "contents_ok cf seed (dec_echo_head frame) frame \<and> eh_seq (dec_echo_head frame) = q \<longleftrightarrow>
    (\<exists>t. frame = echo_packet cf seed q t)"
proof
  let ?h = "dec_echo_head frame"
  assume a: "contents_ok cf seed ?h frame \<and> eh_seq ?h = q"
  then have s: "eh_size ?h = EchoSizeFor cf seed q" by (auto simp: contents_ok_def)
  have sz: "unat (eh_size ?h) = length frame" using n by (simp add: dec_header_eq)
  have "eh_type ?h = msg_code ECHO" using msg_type_of_SomeD [OF ty] by (simp add: dec_header_eq)
  then have "?h = \<lparr>eh_size = EchoSizeFor cf seed q, eh_type = msg_code ECHO, eh_seq = q, eh_sentNs = eh_sentNs ?h\<rparr>"
    using a s by simp
  moreover have "drop kEchoMin frame = FillPad (unat (EchoSizeFor cf seed q) - kEchoMin) seed q"
  proof (cases "kEchoMin < unat (eh_size ?h)")
    case True
    then show ?thesis using a s by (auto simp: contents_ok_def)
  next
    case False
    then show ?thesis using sz s by (simp add: FillPad_def pad_loop.simps [of 0])
  qed
  ultimately have "frame = echo_packet cf seed q (eh_sentNs ?h)"
    using enc_dec_echo_head [OF l] append_take_drop_id [of kEchoMin frame] unfolding echo_packet_eq(1) [OF r] by metis
  then show "\<exists>t. frame = echo_packet cf seed q t" ..
next
  assume "\<exists>t. frame = echo_packet cf seed q t"
  then show "contents_ok cf seed (dec_echo_head frame) frame \<and> eh_seq (dec_echo_head frame) = q"
    using dec_echo_packet [OF r] by (auto simp: contents_ok_def)
qed

text \<open>A worker with one connected echo client, packets of 20 bytes, and the given answers of read.\<close>

definition echo_cfg :: Config where
  "echo_cfg = default_config\<lparr>cf_echoMode := True, cf_pktMax := 20\<rparr>"

definition echo_worker :: "read_result list \<Rightarrow> DummyWorker" where
  "echo_worker reads = \<lparr>wk_cfg = echo_cfg, wk_id = 0, wk_inputHz = 60, wk_ramp = 1,
     wk_deadline = 0, wk_nextToConnect = 1, wk_clients = [new_client\<lparr>c_fd := 5, c_state := Active, c_seed := 7\<rparr>],
     wk_local = zero_local, wk_stats = zero_dummy_stats, wk_stop = False, wk_dumps = [], wk_kern = quiet_kernel\<lparr>dk_reads := reads\<rparr>\<rparr>"

lemma echo_worker_simps [simp]:
  "size_range_ok echo_cfg" "cf_verify echo_cfg" "wk_cfg (echo_worker rs) = echo_cfg" "length (wk_clients (echo_worker rs)) = 1"
  "c_seed (Cl (echo_worker rs) 0) = 7" "c_expectRecv (Cl (echo_worker rs) 0) = 1" "c_recvBuf (Cl (echo_worker rs) 0) = []"
  "c_state (Cl (echo_worker rs) 0) = Active" "\<not> c_attacker (Cl (echo_worker rs) 0)" "dk_reads (wk_kern (echo_worker rs)) = rs"
  "violations (echo_worker rs) = (0, 0, 0)" "c_fd (Cl (echo_worker rs) 0) = 5"
  by (simp_all add: echo_worker_def echo_cfg_def size_range_ok_def default_config_def kEchoMin_def MAX_PACKET_SIZE_def new_client_def
      quiet_kernel_def violations_def zero_dummy_stats_def)

definition echo_sample :: bytes where
  "echo_sample = echo_packet echo_cfg 7 1 5"

lemma echo_sample_simps:
  "length echo_sample = 20" "dec_header echo_sample = \<lparr>h_size = 20, h_type = msg_code ECHO\<rparr>"
proof -
  have r: "size_range_ok echo_cfg" by simp
  have s: "EchoSizeFor echo_cfg 7 1 = 20"
    by (simp add: EchoSizeFor_def echo_cfg_def default_config_def)
  show "length echo_sample = 20" "dec_header echo_sample = \<lparr>h_size = 20, h_type = msg_code ECHO\<rparr>"
    using echo_packet_eq(2) [OF r, of 7 1 5] dec_echo_packet(1) [OF r, of 7 1 5 "[]"] s by (simp_all add: echo_sample_def)
qed

lemma Kill_dead: "i < length (wk_clients W) \<Longrightarrow> c_state (Cl (Kill i b W) i) = Dead"
  by (auto simp: Kill_def Let_def stat_def did_def dk_update_def upd_client_def NowNs_def split: list.splits)

text \<open>C27. The verifier of the echoes, with a size range that suits the protocol, is neither blind nor jumpy. Of a received ECHO frame it counts a
  damage exactly when the frame is not, byte for byte, the packet of its sequence number as the
  client sent it, whatever its time stamp; a skipped packet exactly when the number is past the
  expected one, and a late one exactly when it is before it; and it then expects the number after
  this one, unless the frame was late. A frame too short for the head of an echo is a damage and
  cuts the connection. So no counter moves exactly when the frame is the packet expected next.\<close>

theorem verifier_exact:
  assumes "size_range_ok (wk_cfg W)" "cf_verify (wk_cfg W)" "i < length (wk_clients W)"
    and "length frame = unat (h_size (dec_header frame))" "msg_type_of (h_type (dec_header frame)) = Some ECHO"
  defines "W' \<equiv> snd (handle_frame i frame W)" and "q \<equiv> eh_seq (dec_echo_head frame)" and "e \<equiv> c_expectRecv (Cl W i)"
    and "p \<equiv> ds_padError (wk_stats W)" and "s \<equiv> ds_orderError (wk_stats W)" and "l \<equiv> ds_lateArrival (wk_stats W)"
    and "packet \<equiv> echo_packet (wk_cfg W) (c_seed (Cl W i))"
  shows "(if length frame < kEchoMin
      then violations W' = (Inc p, s, l) \<and> c_state (Cl W' i) = Dead
      else violations W' = (if \<exists>t. frame = packet q t then p else Inc p, if e < q then Inc s else s, if q < e then Inc l else l) \<and>
        c_expectRecv (Cl W' i) = (if q < e then e else q + 1)) \<and>
    (violations W' = violations W \<longleftrightarrow> (\<exists>t. frame = packet e t))"
proof (cases "length frame < kEchoMin")
  case False
  then have n: "kEchoMin \<le> length frame" by simp
  let ?W = "note_echo i (dec_echo_head frame) W"
  have i: "i < length (wk_clients ?W)" using assms(3) by (simp add: note_echo_keeps)
  have v: "c_seed (Cl ?W i) = c_seed (Cl W i)" "c_expectRecv (Cl ?W i) = e"
    using note_echo_view [OF assms(3)] by (simp_all add: echo_view_def e_def)
  have W': "W' = check_order i q (check_contents i (dec_echo_head frame) frame ?W)"
    by (simp add: W'_def handle_echo_frame [OF assms(5) n assms(2)] q_def)
  have ok: "contents_ok (wk_cfg W) (c_seed (Cl W i)) (dec_echo_head frame) frame \<longleftrightarrow> (\<exists>t. frame = packet q t)"
    using contents_ok_iff [OF assms(1,4,5) n, of "c_seed (Cl W i)" q] by (simp add: packet_def q_def)
  have viol: "violations W' = (if \<exists>t. frame = packet q t then p else Inc p, if e < q then Inc s else s, if q < e then Inc l else l)"
  proof -
    have "violations ?W = (p, s, l)" by (simp add: note_echo_keeps(1)) (simp add: violations_def p_def s_def l_def)
    then show ?thesis
      using violations_checks(1) [OF i, of "dec_echo_head frame" frame] by (simp add: W' q_def v note_echo_keeps(2) ok [unfolded q_def] judged_def)
  qed
  moreover have "c_expectRecv (Cl W' i) = (if q < e then e else q + 1)"
    using violations_checks(2) [OF i, of "dec_echo_head frame" frame] by (simp add: W' q_def v)
  moreover have "(\<exists>t. frame = packet e t) \<longleftrightarrow> (\<exists>t. frame = packet q t) \<and> q = e"
    using contents_ok_iff [OF assms(1,4,5) n, of "c_seed (Cl W i)" e] ok by (auto simp: packet_def q_def)
  moreover have "violations W' = violations W \<longleftrightarrow> (\<exists>t. frame = packet q t) \<and> \<not> e < q \<and> \<not> q < e"
    unfolding viol by (auto simp: violations_def p_def s_def l_def)
  ultimately show ?thesis using False not_less_iff_gr_or_eq [of q e] by auto
next
  case True
  have k: "violations (Kill i b W1) = violations W1" for b and W1 :: DummyWorker
    by (auto simp: Kill_def violations_def NowNs_def stat_def did_def dk_update_def upd_client_def Let_def split: list.splits)
  have W': "W' = Kill i False (pad_violation ''SIZE'' i 0 W)"
    using True assms(5) by (simp add: W'_def handle_frame_def handle_echo_def)
  have "c_state (Cl W' i) = Dead"
    using assms(3) Kill_dead [of i "pad_violation ''SIZE'' i 0 W" False] by (simp add: W')
  moreover have "kEchoMin \<le> length (packet e t)" for t unfolding packet_def by (rule echo_packet_size(1) [OF assms(1)])
  then have "frame \<noteq> packet e t" for t using True by (metis not_le)
  moreover have "violations W' = (Inc p, s, l)" by (simp add: W' k p_def s_def l_def)
  moreover have "violations W = (p, s, l)" by (simp add: violations_def p_def s_def l_def)
  ultimately show ?thesis using True by simp
qed

theorem verifier_exact_witness:
  "violations (snd (handle_frame 0 echo_sample (echo_worker []))) = (0, 0, 0)"
proof -
  have "violations (snd (handle_frame 0 echo_sample (echo_worker []))) = violations (echo_worker []) \<longleftrightarrow>
      (\<exists>t. echo_sample = echo_packet (wk_cfg (echo_worker [])) (c_seed (Cl (echo_worker []) 0)) (c_expectRecv (Cl (echo_worker []) 0)) t)"
    by (rule conjunct2 [OF verifier_exact]) (use msg_type_of_code [of ECHO] in \<open>simp_all add: echo_sample_simps\<close>)
  then show ?thesis by (auto simp: echo_sample_def)
qed

section \<open>A stream of echoes\<close>

text \<open>The bytes of the packets from number q on, one per time stamp.\<close>

fun echoes :: "Config \<Rightarrow> u64 \<Rightarrow> u64 \<Rightarrow> i64 list \<Rightarrow> bytes" where
  "echoes cf seed q [] = []"
| "echoes cf seed q (t # ts) = echo_packet cf seed q t @ echoes cf seed (q + 1) ts"

lemma echoes_split: "echoes cf seed q ts = echoes cf seed q (take m ts) @ echoes cf seed (q + of_nat m) (drop m ts)"
proof (induction ts arbitrary: q m)
  case (Cons t ts)
  then show ?case
    by (cases m) (use Cons.IH [of "q + 1"] in \<open>auto simp: add.assoc\<close>)
qed simp

text \<open>What may wait in a buffer: a proper beginning of the packet that comes next, nothing when none does.\<close>

fun incomplete :: "Config \<Rightarrow> u64 \<Rightarrow> u64 \<Rightarrow> i64 list \<Rightarrow> bytes \<Rightarrow> bool" where
  "incomplete cf seed q [] bs \<longleftrightarrow> bs = []"
| "incomplete cf seed q (t # ts) bs \<longleftrightarrow> strict_prefix bs (echo_packet cf seed q t)"

lemma incomplete_short:
  assumes "size_range_ok cf" "incomplete cf seed q ts bs"
  shows "length bs < MAX_PACKET_SIZE"
proof (cases ts)
  case (Cons t ts')
  then have "length bs < length (echo_packet cf seed q t)" using assms(2) prefix_length_less by simp
  then show ?thesis using echo_packet_size(2) [OF assms(1), of seed q t] by simp
qed (use assms in \<open>simp add: MAX_PACKET_SIZE_def\<close>)

lemma incomplete_take:
  assumes "size_range_ok cf" "incomplete cf seed q (take k ts) bs"
  shows "incomplete cf seed q ts bs"
proof (cases "take k ts")
  case Nil
  have "[] \<noteq> echo_packet cf seed q t" for t using echo_packet_size(1) [OF assms(1), of seed q t] by (cases "echo_packet cf seed q t") (simp_all add: kEchoMin_def)
  then show ?thesis using assms(2) Nil by (cases ts) (simp_all add: strict_prefix_def)
qed (use assms(2) in \<open>cases ts; cases k; simp\<close>)

text \<open>
  \<open>accepted i m W W'\<close>: the worker took m echoes of client i without a complaint, and the connection
  is as before.
\<close>

definition accepted :: "nat \<Rightarrow> nat \<Rightarrow> DummyWorker \<Rightarrow> DummyWorker \<Rightarrow> bool" where
  "accepted i m W W' \<longleftrightarrow> wk_cfg W' = wk_cfg W \<and> length (wk_clients W') = length (wk_clients W) \<and>
     violations W' = violations W \<and> wk_stop W' = wk_stop W \<and> c_fd (Cl W' i) = c_fd (Cl W i) \<and>
     c_state (Cl W' i) = c_state (Cl W i) \<and> c_seed (Cl W' i) = c_seed (Cl W i) \<and>
     c_attacker (Cl W' i) = c_attacker (Cl W i) \<and> c_expectRecv (Cl W' i) = c_expectRecv (Cl W i) + of_nat m"

lemma accepted_refl: "accepted i 0 W W"
  by (simp add: accepted_def)

lemma accepted_trans: "accepted i m W W' \<Longrightarrow> accepted i k W' W'' \<Longrightarrow> accepted i (m + k) W W''"
  by (simp add: accepted_def add.assoc)

lemma accepted_buf: "accepted i 0 W (upd_client i (\<lambda>c. c\<lparr>c_recvBuf := bs\<rparr>) W)"
  "accepted i 0 W (dk_update g W)"
  by (cases "i < length (wk_clients W)"; simp add: accepted_def upd_client_def violations_def)
    (simp add: accepted_def dk_update_def violations_def)

lemma accepted_packet:
  fixes t :: i64
  assumes "size_range_ok (wk_cfg W)" "cf_verify (wk_cfg W)" "i < length (wk_clients W)"
  defines "p \<equiv> echo_packet (wk_cfg W) (c_seed (Cl W i)) (c_expectRecv (Cl W i)) t"
  shows "fst (handle_frame i p W)" "accepted i 1 W (snd (handle_frame i p W))"
proof -
  note d = dec_echo_packet [OF assms(1), where seed = "c_seed (Cl W i)" and q = "c_expectRecv (Cl W i)" and t = t, folded p_def]
  note l = echo_packet_size [OF assms(1), of "c_seed (Cl W i)" "c_expectRecv (Cl W i)" t, folded p_def]
  let ?W = "note_echo i (dec_echo_head p) W"
  have v: "echo_view (Cl ?W i) = echo_view (Cl W i)" by (rule note_echo_view [OF assms(3)])
  have ty: "msg_type_of (h_type (dec_header p)) = Some ECHO" using d(1) [of "[]"] msg_type_of_code [of ECHO] by simp
  have "contents_ok (wk_cfg W) (c_seed (Cl W i)) (dec_echo_head p) p" by (simp add: contents_ok_def d)
  then have "handle_frame i p W = (True, check_order i (c_expectRecv (Cl W i)) ?W)"
    using v by (simp add: handle_echo_frame [OF ty l(1) assms(2)] check_contents_cases note_echo_keeps d echo_view_def)
  then show "fst (handle_frame i p W)" "accepted i 1 W (snd (handle_frame i p W))"
    using v note_echo_keeps [of i "dec_echo_head p" W] assms(3)
    by (auto simp: accepted_def check_order_def echo_view_def upd_client_def violations_def)
qed

lemma dec_header_take [simp]: "dec_header (take kHeaderSize bs) = dec_header bs"
  by (simp add: dec_header_def field_def kHeaderSize_def min_def drop_take)

lemma dec_header_prefix: "kHeaderSize \<le> length bs \<Longrightarrow> dec_header (bs @ xs) = dec_header bs"
  by (metis append_eq_append_conv_if dec_header_take take_append diff_is_0_eq take0 append_Nil2)

lemma frames_loop_echoes:
  assumes "size_range_ok (wk_cfg W)" "cf_verify (wk_cfg W)" "i < length (wk_clients W)"
    and "bs @ rest = echoes (wk_cfg W) (c_seed (Cl W i)) (c_expectRecv (Cl W i)) ts"
  shows "\<exists>m bs' W'. frames_loop i bs W = (Some bs', W') \<and> m \<le> length ts \<and> accepted i m W W' \<and>
    incomplete (wk_cfg W) (c_seed (Cl W i)) (c_expectRecv (Cl W i) + of_nat m) (drop m ts) bs' \<and>
    bs = echoes (wk_cfg W) (c_seed (Cl W i)) (c_expectRecv (Cl W i)) (take m ts) @ bs'"
  using assms
proof (induction ts arbitrary: bs W)
  case Nil
  then show ?case
    by (intro exI [of _ 0] exI [of _ "[]"] exI [of _ W]) (simp add: frames_loop.simps kHeaderSize_def accepted_refl)
next
  case (Cons t ts)
  note W = Cons.prems(1-3)
  define cf seed q where "cf = wk_cfg W" and "seed = c_seed (Cl W i)" and "q = c_expectRecv (Cl W i)"
  define p where "p = echo_packet cf seed q t"
  have e: "bs @ rest = p @ echoes cf seed (q + 1) ts" using Cons.prems(4) by (simp add: p_def cf_def seed_def q_def)
  have p: "kEchoMin \<le> length p" "length p \<le> MAX_PACKET_SIZE" "\<And>xs. unat (h_size (dec_header (p @ xs))) = length p"
    using W(1) echo_packet_size [of cf seed q t] by (simp_all add: p_def cf_def dec_echo_packet echo_packet_eq(2))
  have hd: "kHeaderSize \<le> kEchoMin" by (simp add: kEchoMin_def kHeaderSize_def)
  have h: "unat (h_size (dec_header bs)) = length p" if "kHeaderSize \<le> length bs"
    using p(3) dec_header_prefix [OF that, of rest] e by metis
  show ?case
  proof (cases "length bs < length p")
    case True
    then have "frames_loop i bs W = (Some bs, W)"
      using h p hd by (subst frames_loop.simps) (auto simp: Let_def not_less)
    moreover have "bs = take (length bs) p" using arg_cong [OF e, of "take (length bs)"] True by simp
    then have "strict_prefix bs p" using True take_is_prefix [of "length bs" p] by (auto simp: strict_prefix_def)
    ultimately show ?thesis
      by (intro exI [of _ 0] exI [of _ bs] exI [of _ W]) (simp add: accepted_refl p_def cf_def seed_def q_def)
  next
    case False
    have "take (length p) bs = p" "drop (length p) bs @ rest = echoes cf seed (q + 1) ts"
      using False arg_cong [OF e, of "take (length p)"] arg_cong [OF e, of "drop (length p)"] by simp_all
    then obtain b2 where b: "bs = p @ b2" "b2 @ rest = echoes cf seed (q + 1) ts"
      using append_take_drop_id [of "length p" bs] by metis
    note A = accepted_packet [OF W, of t, folded cf_def seed_def q_def, folded p_def]
    let ?W1 = "snd (handle_frame i p W)"
    have w1: "wk_cfg ?W1 = cf" "c_seed (Cl ?W1 i) = seed" "c_expectRecv (Cl ?W1 i) = q + 1" "i < length (wk_clients ?W1)"
      using A(2) W unfolding accepted_def cf_def [symmetric] seed_def [symmetric] q_def [symmetric] by simp_all
    have step: "frames_loop i bs W = frames_loop i b2 ?W1"
      using p(1,2) p(3) [of "[]"] A(1) hd by (subst frames_loop.simps) (simp add: b(1) Let_def)
    obtain m bs' W' where IH: "frames_loop i b2 ?W1 = (Some bs', W')" "m \<le> length ts" "accepted i m ?W1 W'" "incomplete cf seed (q + 1 + of_nat m) (drop m ts) bs'"
      "b2 = echoes cf seed (q + 1) (take m ts) @ bs'"
      using Cons.IH [of ?W1 b2] W(1,2) w1 b(2) by (auto simp: cf_def)
    then show ?thesis
      using step accepted_trans [OF A(2) IH(3)]
      by (intro exI [of _ "Suc m"] exI [of _ bs'] exI [of _ W']) (simp add: b(1) p_def cf_def seed_def q_def add_ac)
  qed
qed


section \<open>The receive path\<close>

lemma Worker_ParseFrames_echoes:
  assumes W: "size_range_ok (wk_cfg W)" "cf_verify (wk_cfg W)" "i < length (wk_clients W)"
    and e: "c_recvBuf (Cl W i) @ rest = echoes (wk_cfg W) (c_seed (Cl W i)) (c_expectRecv (Cl W i)) ts"
  defines "W' \<equiv> Worker_ParseFrames i W"
  shows "\<exists>m \<le> length ts. accepted i m W W' \<and>
    incomplete (wk_cfg W) (c_seed (Cl W i)) (c_expectRecv (Cl W i) + of_nat m) (drop m ts) (c_recvBuf (Cl W' i)) \<and>
    c_recvBuf (Cl W i) = echoes (wk_cfg W) (c_seed (Cl W i)) (c_expectRecv (Cl W i)) (take m ts) @ c_recvBuf (Cl W' i)"
proof -
  obtain m bs' W1 where f: "frames_loop i (c_recvBuf (Cl W i)) W = (Some bs', W1)" "m \<le> length ts" "accepted i m W W1"
    "incomplete (wk_cfg W) (c_seed (Cl W i)) (c_expectRecv (Cl W i) + of_nat m) (drop m ts) bs'"
    "c_recvBuf (Cl W i) = echoes (wk_cfg W) (c_seed (Cl W i)) (c_expectRecv (Cl W i)) (take m ts) @ bs'"
    using frames_loop_echoes [OF W e] by blast
  have i: "i < length (wk_clients W1)" using f(3) W(3) by (simp add: accepted_def)
  have P: "W' = upd_client i (\<lambda>c. c\<lparr>c_recvBuf := bs'\<rparr>) W1" by (simp add: W'_def Worker_ParseFrames_def f(1))
  have "c_recvBuf (Cl W' i) = bs'" using i by (simp add: P upd_client_def)
  then show ?thesis using f accepted_trans [OF f(3) accepted_buf(1)] unfolding P by auto
qed

text \<open>
  \<open>took i ts bs W W'\<close>: the bytes bs, behind what the client had in its buffer, were a beginning of its
  echoes; it has accepted the packets that are complete and keeps the beginning of the next.
\<close>

definition took :: "nat \<Rightarrow> i64 list \<Rightarrow> bytes \<Rightarrow> nat \<Rightarrow> DummyWorker \<Rightarrow> DummyWorker \<Rightarrow> bool" where
  "took i ts bs m W W' \<longleftrightarrow> (let cf = wk_cfg W; seed = c_seed (Cl W i); q = c_expectRecv (Cl W i) in
     m \<le> length ts \<and> accepted i m W W' \<and> incomplete cf seed (q + of_nat m) (drop m ts) (c_recvBuf (Cl W' i)) \<and>
     c_recvBuf (Cl W i) @ bs = echoes cf seed q (take m ts) @ c_recvBuf (Cl W' i))"

lemma took_nothing: "incomplete (wk_cfg W) (c_seed (Cl W i)) (c_expectRecv (Cl W i)) ts (c_recvBuf (Cl W i)) \<Longrightarrow> took i ts [] 0 W W"
  by (simp add: took_def Let_def accepted_refl)

lemma took_trans:
  assumes "took i ts bs m W W'" "took i (drop m ts) bs' k W' W''"
  shows "took i ts (bs @ bs') (m + k) W W''"
proof -
  let ?cf = "wk_cfg W" and ?s = "c_seed (Cl W i)" and ?q = "c_expectRecv (Cl W i)"
  have a: "accepted i m W W'" "accepted i k W' W''" using assms by (simp_all add: took_def Let_def)
  then have v: "wk_cfg W' = ?cf" "c_seed (Cl W' i) = ?s" "c_expectRecv (Cl W' i) = ?q + of_nat m" by (simp_all add: accepted_def)
  have mk: "echoes ?cf ?s ?q (take (m + k) ts) = echoes ?cf ?s ?q (take m ts) @ echoes ?cf ?s (?q + of_nat m) (take k (drop m ts))"
    using echoes_split [of ?cf ?s ?q "take (m + k) ts" m] by (simp add: drop_take)
  have "m \<le> length ts" "k \<le> length (drop m ts)" using assms by (simp_all only: took_def Let_def)
  then have "m + k \<le> length ts" by simp
  moreover have "incomplete ?cf ?s (?q + of_nat (m + k)) (drop (m + k) ts) (c_recvBuf (Cl W'' i))"
    using assms(2) by (simp add: took_def Let_def v add_ac)
  moreover have "c_recvBuf (Cl W i) @ bs = echoes ?cf ?s ?q (take m ts) @ c_recvBuf (Cl W' i)"
    "c_recvBuf (Cl W' i) @ bs' = echoes ?cf ?s (?q + of_nat m) (take k (drop m ts)) @ c_recvBuf (Cl W'' i)"
    using assms by (simp_all add: took_def Let_def v)
  then have "c_recvBuf (Cl W i) @ bs @ bs' = echoes ?cf ?s ?q (take (m + k) ts) @ c_recvBuf (Cl W'' i)"
    unfolding mk by (metis append.assoc)
  ultimately show ?thesis using accepted_trans [OF a] by (simp add: took_def Let_def)
qed

text \<open>What is still to come after some bytes were taken is again a stream of echoes.\<close>

lemma took_rest:
  assumes "took i ts bs m W W'" "c_recvBuf (Cl W i) @ bs @ rest = echoes (wk_cfg W) (c_seed (Cl W i)) (c_expectRecv (Cl W i)) ts"
  shows "c_recvBuf (Cl W' i) @ rest = echoes (wk_cfg W') (c_seed (Cl W' i)) (c_expectRecv (Cl W' i)) (drop m ts)"
proof -
  let ?e = "echoes (wk_cfg W) (c_seed (Cl W i))" and ?q = "c_expectRecv (Cl W i)"
  have "c_recvBuf (Cl W i) @ bs = ?e ?q (take m ts) @ c_recvBuf (Cl W' i)" using assms(1) by (simp add: took_def Let_def)
  then have "?e ?q (take m ts) @ c_recvBuf (Cl W' i) @ rest = ?e ?q (take m ts) @ ?e (?q + of_nat m) (drop m ts)"
    using assms(2) echoes_split [of "wk_cfg W" "c_seed (Cl W i)" ?q ts m] by (metis append.assoc)
  then show ?thesis using assms(1) by (simp add: took_def Let_def accepted_def)
qed

text \<open>The client reads: it verifies, is connected and not one of the attackers.\<close>

definition reader :: "nat \<Rightarrow> DummyWorker \<Rightarrow> bool" where
  "reader i W \<longleftrightarrow> size_range_ok (wk_cfg W) \<and> cf_verify (wk_cfg W) \<and> i < length (wk_clients W) \<and>
     \<not> c_attacker (Cl W i) \<and> c_state (Cl W i) \<noteq> Dead \<and> 0 \<le> c_fd (Cl W i)"

lemma reader_accepted: "reader i W \<Longrightarrow> accepted i m W W' \<Longrightarrow> reader i W'"
  by (simp add: reader_def accepted_def)

lemma recv_loop_echoes:
  assumes "reader i W" "[] \<notin> set cs"
    and "incomplete (wk_cfg W) (c_seed (Cl W i)) (c_expectRecv (Cl W i)) ts (c_recvBuf (Cl W i))"
    and "c_recvBuf (Cl W i) @ concat cs @ rest = echoes (wk_cfg W) (c_seed (Cl W i)) (c_expectRecv (Cl W i)) ts"
  shows "\<exists>m. took i ts (concat cs) m W (recv_loop i (map Got cs) W)"
  using assms
proof (induction "length (concat cs)" arbitrary: cs W ts rule: less_induct)
  case less
  have short: "length (c_recvBuf (Cl W i)) < kRecvBufSize"
    using incomplete_short [OF _ less.prems(3)] less.prems(1) by (simp add: reader_def kRecvBufSize_def MAX_PACKET_SIZE_def)
  show ?case
  proof (cases cs)
    case Nil
    then show ?thesis using took_nothing [OF less.prems(3)] short by (simp add: recv_loop.simps exI [of _ 0])
  next
    case (Cons c cs')
    have R: "\<not> c_attacker (Cl W i)" "i < length (wk_clients W)" using less.prems(1) by (simp_all add: reader_def)
    have c: "c \<noteq> []" "[] \<notin> set cs'" using less.prems(2) Cons by auto
    define n where "n = min (length c) (kRecvBufSize - length (c_recvBuf (Cl W i)))"
    define cs1 where "cs1 = (if n < length c then drop n c # cs' else cs')"
    have n: "n \<noteq> 0" using c(1) short by (simp add: n_def)
    have cc: "concat cs = take n c @ concat cs1" "[] \<notin> set cs1" "length (concat cs1) < length (concat cs)"
      using n c(2) by (auto simp: Cons cs1_def n_def)
    have script: "left_over n c (map Got cs') = map Got cs1" by (simp add: left_over_def cs1_def)
    define W1 where "W1 = upd_client i (\<lambda>x. x\<lparr>c_recvBuf := c_recvBuf x @ take n c\<rparr>) (dk_update (\<lambda>k. k\<lparr>dk_reads := map Got cs1\<rparr>) W)"
    have W1: "W1 = upd_client i (\<lambda>x. x\<lparr>c_recvBuf := c_recvBuf (Cl W i) @ take n c\<rparr>) (dk_update (\<lambda>k. k\<lparr>dk_reads := map Got cs1\<rparr>) W)"
      unfolding W1_def upd_client_def upd_at_def by (simp add: dk_update_def)
    have a1: "accepted i 0 W W1" using accepted_trans [OF accepted_buf(2) accepted_buf(1)] unfolding W1 by fastforce
    have b1: "c_recvBuf (Cl W1 i) = c_recvBuf (Cl W i) @ take n c" using R(2) by (simp add: W1 upd_client_def dk_update_def)
    have s1: "wk_cfg W1 = wk_cfg W" "c_seed (Cl W1 i) = c_seed (Cl W i)" "c_expectRecv (Cl W1 i) = c_expectRecv (Cl W i)"
      using a1 by (simp_all add: accepted_def)
    have r1: "reader i W1" by (rule reader_accepted [OF less.prems(1) a1])
    have "c_recvBuf (Cl W1 i) @ (concat cs1 @ rest) = echoes (wk_cfg W1) (c_seed (Cl W1 i)) (c_expectRecv (Cl W1 i)) ts"
      using less.prems(4) by (simp add: b1 s1 cc(1))
    then obtain m where m: "m \<le> length ts" "accepted i m W1 (Worker_ParseFrames i W1)"
      "incomplete (wk_cfg W) (c_seed (Cl W i)) (c_expectRecv (Cl W i) + of_nat m) (drop m ts) (c_recvBuf (Cl (Worker_ParseFrames i W1) i))"
      "c_recvBuf (Cl W i) @ take n c = echoes (wk_cfg W) (c_seed (Cl W i)) (c_expectRecv (Cl W i)) (take m ts) @ c_recvBuf (Cl (Worker_ParseFrames i W1) i)"
      using Worker_ParseFrames_echoes [of W1 i "concat cs1 @ rest" ts] r1 unfolding reader_def b1 s1 by auto
    define W2 where "W2 = Worker_ParseFrames i W1"
    have a2: "accepted i m W W2" using accepted_trans [OF a1 m(2)] by (simp add: W2_def)
    have t2: "took i ts (take n c) m W W2" using m a2 by (simp add: took_def Let_def W2_def)
    have v2: "wk_cfg W2 = wk_cfg W" "c_seed (Cl W2 i) = c_seed (Cl W i)" "c_expectRecv (Cl W2 i) = c_expectRecv (Cl W i) + of_nat m"
      using a2 by (simp_all add: accepted_def)
    have alive: "c_state (Cl W2 i) \<noteq> Dead" using reader_accepted [OF less.prems(1) a2] by (simp add: reader_def)
    have step: "recv_loop i (map Got cs) W = recv_loop i (map Got cs1) W2"
      using short n alive R(1) by (simp add: Cons recv_loop.simps(2) Let_def n_def [symmetric] script W1_def [symmetric] W2_def [symmetric])
    have "\<exists>k. took i (drop m ts) (concat cs1) k W2 (recv_loop i (map Got cs1) W2)"
    proof (rule less.hyps [OF cc(3) reader_accepted [OF less.prems(1) a2] cc(2)])
      show "incomplete (wk_cfg W2) (c_seed (Cl W2 i)) (c_expectRecv (Cl W2 i)) (drop m ts) (c_recvBuf (Cl W2 i))"
        using m(3) unfolding W2_def [symmetric] by (simp add: v2)
      show "c_recvBuf (Cl W2 i) @ concat cs1 @ rest = echoes (wk_cfg W2) (c_seed (Cl W2 i)) (c_expectRecv (Cl W2 i)) (drop m ts)"
        by (rule took_rest [OF t2]) (use less.prems(4) cc(1) in simp)
    qed
    then show ?thesis using took_trans [OF t2] unfolding step cc(1) by blast
  qed
qed

text \<open>The readable events of client i, each with what has arrived by then, cut into pieces anyhow.\<close>

fun deliver :: "nat \<Rightarrow> bytes list list \<Rightarrow> DummyWorker \<Rightarrow> DummyWorker" where
  "deliver i [] W = W"
| "deliver i (cs # css) W = deliver i css (OnEvent i EPOLLIN (dk_update (\<lambda>k. k\<lparr>dk_reads := map Got cs\<rparr>) W))"

lemma OnEvent_in:
  assumes "reader i W" "\<not> c_attacker (Cl (OnReadable i W) i)"
  shows "OnEvent i EPOLLIN W = OnReadable i W"
proof -
  have "EPOLLIN AND EPOLL_GONE = 0" "EPOLLIN AND EPOLLOUT = 0" "EPOLLIN \<noteq> 0" by (simp_all add: EPOLLIN_def EPOLLOUT_def EPOLL_GONE_def)
  then show ?thesis using assms by (simp add: OnEvent_def reader_def Let_def)
qed

lemma deliver_echoes:
  assumes "reader i W" "\<forall>cs\<in>set css. [] \<notin> set cs"
    and "incomplete (wk_cfg W) (c_seed (Cl W i)) (c_expectRecv (Cl W i)) ts (c_recvBuf (Cl W i))"
    and "c_recvBuf (Cl W i) @ concat (concat css) @ rest = echoes (wk_cfg W) (c_seed (Cl W i)) (c_expectRecv (Cl W i)) ts"
  shows "\<exists>m. took i ts (concat (concat css)) m W (deliver i css W)"
  using assms
proof (induction css arbitrary: W ts)
  case Nil
  then show ?case using took_nothing [OF Nil.prems(3)] by (auto intro: exI [of _ 0])
next
  case (Cons cs css)
  define W1 where "W1 = dk_update (\<lambda>k. k\<lparr>dk_reads := map Got cs\<rparr>) W"
  have a1: "accepted i 0 W W1" unfolding W1_def by (rule accepted_buf(2))
  have s1: "wk_cfg W1 = wk_cfg W" "c_recvBuf (Cl W1 i) = c_recvBuf (Cl W i)" "dk_reads (wk_kern W1) = map Got cs"
    "c_seed (Cl W1 i) = c_seed (Cl W i)" "c_expectRecv (Cl W1 i) = c_expectRecv (Cl W i)"
    by (simp_all add: W1_def dk_update_def)
  note r1 = reader_accepted [OF Cons.prems(1) a1]
  have "\<exists>m. took i ts (concat cs) m W1 (recv_loop i (map Got cs) W1)"
    using recv_loop_echoes [OF r1, of cs ts "concat (concat css) @ rest"] Cons.prems(2-4) by (simp add: s1)
  then obtain m where m: "took i ts (concat cs) m W1 (OnReadable i W1)"
    using r1 by (auto simp: OnReadable_def s1(3) reader_def)
  have a: "accepted i m W1 (OnReadable i W1)" using m by (simp add: took_def Let_def)
  note r2 = reader_accepted [OF r1 a]
  have e: "OnEvent i EPOLLIN W1 = OnReadable i W1" using OnEvent_in [OF r1] r2 by (simp add: reader_def)
  have t: "took i ts (concat cs) m W (OnReadable i W1)"
    using m accepted_trans [OF a1 a] by (simp add: took_def Let_def s1)
  have "\<exists>k. took i (drop m ts) (concat (concat css)) k (OnReadable i W1) (deliver i css (OnReadable i W1))"
  proof (rule Cons.IH [OF r2])
    show "\<forall>cs\<in>set css. [] \<notin> set cs" using Cons.prems(2) by simp
    show "incomplete (wk_cfg (OnReadable i W1)) (c_seed (Cl (OnReadable i W1) i)) (c_expectRecv (Cl (OnReadable i W1) i)) (drop m ts)
        (c_recvBuf (Cl (OnReadable i W1) i))"
      using t by (simp add: took_def Let_def accepted_def)
    show "c_recvBuf (Cl (OnReadable i W1) i) @ concat (concat css) @ rest =
        echoes (wk_cfg (OnReadable i W1)) (c_seed (Cl (OnReadable i W1) i)) (c_expectRecv (Cl (OnReadable i W1) i)) (drop m ts)"
      by (rule took_rest [OF t]) (use Cons.prems(4) in simp)
  qed
  then show ?case using took_trans [OF t] by (auto simp: W1_def [symmetric] e)
qed

text \<open>C29. The stream of the echoes is accepted however the network cuts it: over any number of
  readable events, whatever has arrived by each and in pieces of any size, as long as it all makes
  up, behind what the client had kept, a beginning of the packets from the expected number on. A
  connected client that verifies, is no attacker and has a size range that suits the protocol
  raises no error counter, stays connected, and advances the expected number by the packets
  that are complete; what it keeps for the next event is a proper beginning of the packet after
  them, so a packet split over two events is put together again.\<close>

theorem echoes_accepted_however_cut:
  fixes i :: nat
  assumes "size_range_ok (wk_cfg W)" "cf_verify (wk_cfg W)" "i < length (wk_clients W)"
    and "\<not> c_attacker (Cl W i)" "c_state (Cl W i) \<noteq> Dead \<and> 0 \<le> c_fd (Cl W i)" "\<forall>cs\<in>set css. [] \<notin> set cs"
  defines "cf \<equiv> wk_cfg W" and "seed \<equiv> c_seed (Cl W i)" and "q \<equiv> c_expectRecv (Cl W i)"
  assumes "incomplete cf seed q ts (c_recvBuf (Cl W i))"
    and "prefix (c_recvBuf (Cl W i) @ concat (concat css)) (echoes cf seed q ts)"
  defines "W' \<equiv> deliver i css W"
  shows "\<exists>m \<le> length ts. violations W' = violations W \<and> c_state (Cl W' i) = c_state (Cl W i) \<and> c_fd (Cl W' i) = c_fd (Cl W i) \<and>
    c_expectRecv (Cl W' i) = q + of_nat m \<and> incomplete cf seed (q + of_nat m) (drop m ts) (c_recvBuf (Cl W' i)) \<and>
    c_recvBuf (Cl W i) @ concat (concat css) = echoes cf seed q (take m ts) @ c_recvBuf (Cl W' i)"
proof -
  have r: "reader i W" using assms(1-5) by (simp add: reader_def)
  obtain rest where "c_recvBuf (Cl W i) @ concat (concat css) @ rest = echoes cf seed q ts" using assms(11) by (auto simp: prefix_def)
  then have "\<exists>m. took i ts (concat (concat css)) m W W'"
    using deliver_echoes [OF r assms(6)] assms(10) by (simp add: cf_def seed_def q_def W'_def)
  then show ?thesis by (auto simp: took_def Let_def accepted_def cf_def seed_def q_def)
qed

theorem echoes_accepted_however_cut_witness:
  "violations (deliver 0 [[take 7 echo_sample], [take 1 (drop 7 echo_sample), drop 8 echo_sample]] (echo_worker [])) = (0, 0, 0)"
proof -
  have l: "length echo_sample = 20" by (rule echo_sample_simps)
  have c: "take 7 echo_sample @ take 1 (drop 7 echo_sample) @ drop 8 echo_sample = echo_sample"
    using append_take_drop_id [of 1 "drop 7 echo_sample"] by simp
  have n: "echo_sample \<noteq> []" using l by force
  have p: "incomplete echo_cfg 7 1 [5] []" using n unfolding echo_sample_def by (auto simp: strict_prefix_def)
  let ?css = "[[take 7 echo_sample], [take 1 (drop 7 echo_sample), drop 8 echo_sample]]"
  have "\<forall>cs\<in>set ?css. [] \<notin> set cs" using l n by auto
  moreover have "prefix ([] @ concat (concat ?css)) (echoes echo_cfg 7 1 [5])" using c by (simp add: echo_sample_def [symmetric])
  ultimately have "violations (deliver 0 ?css (echo_worker [])) = violations (echo_worker [])"
    using echoes_accepted_however_cut [of "echo_worker []" 0 ?css "[5]"] p by auto
  then show ?thesis by simp
qed

end
