(* ===== verification/Echo_Props.thy ===== *)
theory Echo_Props
  imports Stream_Props Verify_Props
begin

text \<open>
  Client and server together: what the server returns of the packets of a client passes the
  verifier of that client.
\<close>

lemma split_frames_echoes:
  assumes "size_range_ok cf" "bs @ rest = echoes cf seed q ts"
  shows "\<exists>m \<le> length ts. concat (fst (split_frames bs)) = echoes cf seed q (take m ts) \<and>
    bs = echoes cf seed q (take m ts) @ snd (split_frames bs) \<and>
    incomplete cf seed (q + of_nat m) (drop m ts) (snd (split_frames bs)) \<and>
    (\<forall>f\<in>set (fst (split_frames bs)). msg_type_of (h_type (dec_header f)) = Some ECHO)"
  using assms(2)
proof (induction ts arbitrary: bs q)
  case Nil
  have "split_frames [] = ([], [])" by (subst split_frames.simps) (simp add: kHeaderSize_def)
  then show ?case using Nil by (intro exI [of _ 0]) simp
next
  case (Cons t ts)
  define p where "p = echo_packet cf seed q t"
  have e: "bs @ rest = p @ echoes cf seed (q + 1) ts" using Cons.prems by (simp add: p_def)
  have p: "kEchoMin \<le> length p" "length p \<le> MAX_PACKET_SIZE" "unat (h_size (dec_header (p @ xs))) = length p"
    "msg_type_of (h_type (dec_header p)) = Some ECHO" for xs
    using echo_packet_size [OF assms(1), of seed q t] dec_echo_packet(1) [OF assms(1), of seed q t] msg_type_of_code [of ECHO]
      dec_echo_packet(1) [OF assms(1), of seed q t "[]"]
    by (simp_all add: p_def echo_packet_eq(2) [OF assms(1)])
  have hd: "kHeaderSize \<le> kEchoMin" by (simp add: kEchoMin_def kHeaderSize_def)
  show ?case
  proof (cases "length bs < length p")
    case True
    have "unat (h_size (dec_header bs)) = length p" if "kHeaderSize \<le> length bs"
      using p(3) dec_header_prefix [OF that, of rest] e by metis
    then have s: "split_frames bs = ([], bs)" using True by (subst split_frames.simps) (auto simp: Let_def not_less)
    have "bs = take (length bs) p" using arg_cong [OF e, of "take (length bs)"] True by simp
    then have "strict_prefix bs p" using True take_is_prefix [of "length bs" p] by (auto simp: strict_prefix_def)
    then show ?thesis using s by (intro exI [of _ 0]) (simp add: p_def)
  next
    case False
    have "take (length p) bs = p" "drop (length p) bs @ rest = echoes cf seed (q + 1) ts"
      using False arg_cong [OF e, of "take (length p)"] arg_cong [OF e, of "drop (length p)"] by simp_all
    then obtain b2 where b: "bs = p @ b2" "b2 @ rest = echoes cf seed (q + 1) ts"
      using append_take_drop_id [of "length p" bs] by metis
    have s: "split_frames bs = (p # fst (split_frames b2), snd (split_frames b2))"
      using p(1,2) p(3) [of "[]"] hd by (subst split_frames.simps) (simp add: b(1) Let_def)
    obtain m where m: "m \<le> length ts" "concat (fst (split_frames b2)) = echoes cf seed (q + 1) (take m ts)"
      "b2 = echoes cf seed (q + 1) (take m ts) @ snd (split_frames b2)"
      "incomplete cf seed (q + 1 + of_nat m) (drop m ts) (snd (split_frames b2))"
      "\<forall>f\<in>set (fst (split_frames b2)). msg_type_of (h_type (dec_header f)) = Some ECHO"
      using Cons.IH [OF b(2)] by blast
    then show ?thesis
      using p(4) by (intro exI [of _ "Suc m"]) (simp add: s [unfolded b(1)] b(1) p_def [symmetric] add_ac)
  qed
qed

text \<open>
  The packets of a client on their way: of the packets ts from the number q on, the first n have been
  through the server, the others have come in (\<open>input\<close>) or have not (\<open>outside\<close>); what the server
  has returned of the first n is in the buffer of the client (\<open>kept\<close>), on the wire, or still in the
  send ring (\<open>pending\<close>).
\<close>

definition under_way :: "Config \<Rightarrow> u64 \<Rightarrow> u64 \<Rightarrow> i64 list \<Rightarrow> nat \<Rightarrow> bytes \<Rightarrow> bytes \<Rightarrow> bytes \<Rightarrow> bytes \<Rightarrow> bytes \<Rightarrow> bool" where
  "under_way cf seed q ts n kept wire pending input outside \<longleftrightarrow> n \<le> length ts \<and> incomplete cf seed q ts kept \<and>
     kept @ wire @ pending = echoes cf seed q (take n ts) \<and> input @ outside = echoes cf seed (q + of_nat n) (drop n ts)"

text \<open>C28. The echo test is sound end to end, over any number of rounds. Let the packets of a client be
  under way: some echoed and partly delivered, some received by the server, the last perhaps cut,
  some not there yet. When the server handles what it has and the session survives, and any
  beginning of what is then on the wire arrives at the client, in any number of readable events
  and pieces of any size, the verifier of a client that is no attacker raises no error counter, the client stays connected and
  expects the packet after the last complete one; and all packets from there on are again under
  way: nothing is lost, repeated or reordered between send ring, wire, and the two buffers.\<close>

theorem echo_end_to_end:
  fixes w i j :: nat
  assumes "ring_contract ST okr capr bufr" "ring_contract MT ok cap buf"
    and "i < length (slots (pool S))" "okr (recvQ (At S i))" "ok (sendQ (At S i))"
  defines "S' \<equiv> ParseFrames ST MT w i S"
  assumes "\<not> dead (At S' i)" "k_log (kern S') = k_log (kern S) @ es"
    and "size_range_ok (wk_cfg W)" "cf_verify (wk_cfg W)" "j < length (wk_clients W)"
    and "\<not> c_attacker (Cl W j)" "c_state (Cl W j) \<noteq> Dead \<and> 0 \<le> c_fd (Cl W j)" "\<forall>cs\<in>set css. [] \<notin> set cs"
  defines "cf \<equiv> wk_cfg W" and "seed \<equiv> c_seed (Cl W j)" and "q \<equiv> c_expectRecv (Cl W j)"
  assumes "under_way cf seed q ts n (c_recvBuf (Cl W j)) wire (buf (sendQ (At S i))) (bufr (recvQ (At S i))) outside"
    and "concat (concat css) @ wire' = wire @ sent (fd (At S i)) es"
  defines "W' \<equiv> deliver j css W"
  shows "violations W' = violations W \<and> c_state (Cl W' j) = c_state (Cl W j) \<and>
    (\<exists>m n'. n \<le> m + n' \<and> c_expectRecv (Cl W' j) = q + of_nat m \<and>
       under_way cf seed (q + of_nat m) (drop m ts) n' (c_recvBuf (Cl W' j)) wire' (buf (sendQ (At S' i))) (bufr (recvQ (At S' i))) outside)"
proof -
  let ?e = "echoes cf seed"
  have u: "n \<le> length ts" "incomplete cf seed q ts (c_recvBuf (Cl W j))"
    "c_recvBuf (Cl W j) @ wire @ buf (sendQ (At S i)) = ?e q (take n ts)"
    "bufr (recvQ (At S i)) @ outside = ?e (q + of_nat n) (drop n ts)" using assms(18) by (simp_all add: under_way_def)
  have sr: "size_range_ok cf" using assms(9) by (simp add: cf_def)
  obtain k where k: "k \<le> length (drop n ts)" "concat (fst (split_frames (bufr (recvQ (At S i))))) = ?e (q + of_nat n) (take k (drop n ts))"
    "bufr (recvQ (At S i)) = ?e (q + of_nat n) (take k (drop n ts)) @ snd (split_frames (bufr (recvQ (At S i))))"
    "\<forall>f\<in>set (fst (split_frames (bufr (recvQ (At S i))))). msg_type_of (h_type (dec_header f)) = Some ECHO"
    using split_frames_echoes [OF sr u(4)] by blast
  have srv: "bufr (recvQ (At S' i)) = snd (split_frames (bufr (recvQ (At S i))))"
    "sent (fd (At S i)) es @ buf (sendQ (At S' i)) = buf (sendQ (At S i)) @ ?e (q + of_nat n) (take k (drop n ts))"
    using ParseFrames_echo [OF assms(1-5) k(4) assms(7) [unfolded S'_def]] assms(8) k(2) unfolding S'_def by auto
  define l where "l = n + k"
  have l: "l \<le> length ts" "?e q (take l ts) = ?e q (take n ts) @ ?e (q + of_nat n) (take k (drop n ts))"
    using k(1) u(1) echoes_split [of cf seed q "take l ts" n] by (auto simp: l_def drop_take)
  have all: "c_recvBuf (Cl W j) @ concat (concat css) @ wire' @ buf (sendQ (At S' i)) = ?e q (take l ts)"
    using srv(2) u(3) assms(19) unfolding l(2) by (metis append.assoc)
  have rd: "reader j W" using assms(9-13) by (simp add: reader_def)
  have inc: "incomplete cf seed q (take l ts) (c_recvBuf (Cl W j))"
  proof (cases "take l ts = []")
    case True
    then have "c_recvBuf (Cl W j) = []" using all by (metis Nil_is_append_conv echoes.simps(1))
    then show ?thesis unfolding True by simp
  next
    case False
    then show ?thesis using u(2) by (cases ts; cases l) simp_all
  qed
  then obtain m where m: "took j (take l ts) (concat (concat css)) m W W'"
    using deliver_echoes [OF rd assms(14), of "take l ts"] all by (auto simp: cf_def seed_def q_def W'_def)
  have v: "m \<le> l" "violations W' = violations W" "c_state (Cl W' j) = c_state (Cl W j)" "c_expectRecv (Cl W' j) = q + of_nat m"
    "incomplete cf seed (q + of_nat m) (take (l - m) (drop m ts)) (c_recvBuf (Cl W' j))" "wk_cfg W' = cf" "c_seed (Cl W' j) = seed"
    using m by (simp_all add: took_def Let_def accepted_def cf_def seed_def q_def drop_take)
  have "c_recvBuf (Cl W' j) @ wire' @ buf (sendQ (At S' i)) = ?e (q + of_nat m) (take (l - m) (drop m ts))"
    using took_rest [OF m, of "wire' @ buf (sendQ (At S' i))"] all
    by (simp add: v(4,6,7) drop_take) (simp add: cf_def seed_def q_def)
  moreover have "bufr (recvQ (At S' i)) @ outside = ?e (q + of_nat l) (drop l ts)"
  proof -
    have "?e (q + of_nat n) (drop n ts) = ?e (q + of_nat n) (take k (drop n ts)) @ ?e (q + of_nat n + of_nat k) (drop k (drop n ts))"
      by (rule echoes_split)
    then have "?e (q + of_nat n) (take k (drop n ts)) @ bufr (recvQ (At S' i)) @ outside =
        ?e (q + of_nat n) (take k (drop n ts)) @ ?e (q + of_nat n + of_nat k) (drop k (drop n ts))"
      using k(3) u(4) unfolding srv(1) by (metis append.assoc)
    then show ?thesis by (simp add: l_def add_ac)
  qed
  moreover have "q + of_nat m + of_nat (l - m) = q + of_nat l" using v(1) by (simp add: of_nat_diff)
  ultimately have "under_way cf seed (q + of_nat m) (drop m ts) (l - m) (c_recvBuf (Cl W' j)) wire' (buf (sendQ (At S' i))) (bufr (recvQ (At S' i))) outside"
    using l(1) v(1) incomplete_take [OF sr v(5)] by (simp add: under_way_def)
  moreover have "n \<le> m + (l - m)" using v(1) by (simp add: l_def)
  ultimately show ?thesis using v(2-4) by blast
qed

text \<open>The server of the demo run with one packet received and a kernel that takes it whole.\<close>

definition echo_server :: "(list_ring, list_ring) Server" where
  "echo_server = upd_session 0 (\<lambda>s. s\<lparr>recvQ := (8191, echo_sample)\<rparr>) (demo2\<lparr>kern := (kern demo2)\<lparr>k_writes := [Took 19]\<rparr>\<rparr>)"

lemma echo_server_run:
  "\<not> dead (At (ParseFrames list_ring_ops list_ring_ops 0 0 echo_server) 0)"
  "k_log (kern (ParseFrames list_ring_ops list_ring_ops 0 0 echo_server)) = k_log (kern echo_server) @ [Wrote 7 echo_sample]"
proof -
  have e: "At echo_server 0 = demo_sess\<lparr>refs := 2, inRoom := True, recvQ := (8191, echo_sample)\<rparr>"
    "length (slots (pool echo_server)) = 1" "k_writes (kern echo_server) = [Took 19]"
    by (simp_all add: echo_server_def slots_upd_sess demo2)
  have ty: "unat (h_size (dec_header (take kHeaderSize echo_sample))) = 20" "msg_type_of (h_type (dec_header echo_sample)) = Some ECHO"
    using msg_type_of_code [of ECHO] by (simp_all add: echo_sample_simps)
  define S1 where "S1 = upd_session 0 (\<lambda>s. s\<lparr>recvQ := (8191, [])\<rparr>) echo_server"
  define S2 where "S2 = SendBytes list_ring_ops 0 0 echo_sample S1"
  have s1: "At S1 0 = demo_sess\<lparr>refs := 2, inRoom := True, recvQ := (8191, [])\<rparr>" "length (slots (pool S1)) = 1"
    "k_writes (kern S1) = [Took 19]" "kern S1 = kern echo_server"
    by (simp_all add: S1_def slots_upd_sess e)
  have ne: "echo_sample \<noteq> []" using echo_sample_simps(1) by force
  define S3 where "S3 = upd_session 0 (\<lambda>s. s\<lparr>sendQ := (16383, echo_sample)\<rparr>) S1"
  have s3: "At S3 0 = demo_sess\<lparr>refs := 2, inRoom := True, recvQ := (8191, []), sendQ := (16383, echo_sample)\<rparr>"
    "length (slots (pool S3)) = 1" "kern S3 = kern echo_server" "k_writes (kern S3) = [Took 19]"
    by (simp_all add: S3_def slots_upd_sess s1 e(3))
  have "S2 = flush_loop list_ring_ops 0 0 [Took 19] S3"
    unfolding S2_def SendBytes_def by (simp add: s1 list_ring_simps demo_sess_def echo_sample_simps(1) FlushSend_def S3_def Let_def e(3))
  also have "\<dots> = written list_ring_ops 0 20 echo_sample (popped list_ring_ops 0 [] S3)" (is "_ = ?S4")
  proof -
    have q: "sendQ (At ?S4 0) = (16383, [])" "wantWrite (At ?S4 0) = False"
      by (simp_all add: written_def popped_def Let_def slots_upd_sess s3 list_ring_simps echo_sample_simps(1) os_log_def demo_sess_def)
    have "flush_loop list_ring_ops 0 0 [] ?S4 = ?S4"
      by (subst flush_loop.simps) (simp add: q list_ring_simps)
    then show ?thesis
      by (subst flush_loop_round) (simp_all add: s3 list_ring_simps echo_sample_simps(1) ne Let_def)
  qed
  finally have S2: "S2 = ?S4" .
  have s2: "\<not> dead (At S2 0)" "recvQ (At S2 0) = (8191, [])" "k_log (kern S2) = k_log (kern echo_server) @ [Wrote 7 echo_sample]"
    unfolding S2 by (simp_all add: written_def popped_def Let_def slots_upd_sess s3 list_ring_simps echo_sample_simps(1) os_log_def demo_sess_def)
  have d: "Dispatch list_ring_ops 0 0 echo_sample S1 = S2" by (simp add: Dispatch_def ty(2) S2_def)
  have stop: "parse_loop list_ring_ops list_ring_ops 0 0 (Suc n) S2 = S2" for n
    by (simp add: s2 list_ring_simps kHeaderSize_def)
  have "parse_loop list_ring_ops list_ring_ops 0 0 (Suc (Suc n)) echo_server = S2" for n
    by (subst parse_loop.simps)
      (simp add: e list_ring_simps echo_sample_simps(1) ty(1) [unfolded kHeaderSize_def] kHeaderSize_def MAX_PACKET_SIZE_def S1_def [symmetric] d s2(1) stop Let_def del: parse_loop.simps)
  then have "ParseFrames list_ring_ops list_ring_ops 0 0 echo_server = S2"
    by (simp add: ParseFrames_def e list_ring_simps echo_sample_simps(1) numeral_eq_Suc del: parse_loop.simps)
  then show "\<not> dead (At (ParseFrames list_ring_ops list_ring_ops 0 0 echo_server) 0)"
    "k_log (kern (ParseFrames list_ring_ops list_ring_ops 0 0 echo_server)) = k_log (kern echo_server) @ [Wrote 7 echo_sample]"
    using s2 by simp_all
qed

theorem echo_end_to_end_witness:
  "violations (deliver 0 [[take 7 echo_sample]] (echo_worker [])) = (0, 0, 0)"
proof -
  have e: "At echo_server 0 = demo_sess\<lparr>refs := 2, inRoom := True, recvQ := (8191, echo_sample)\<rparr>" "length (slots (pool echo_server)) = 1"
    by (simp_all add: echo_server_def slots_upd_sess demo2)
  have l: "length echo_sample = 20" by (rule echo_sample_simps)
  then have ne: "echo_sample \<noteq> []" by force
  have "under_way echo_cfg 7 1 [5] 0 [] [] [] echo_sample []"
    using ne by (auto simp: under_way_def echo_sample_def strict_prefix_def)
  moreover have "\<forall>cs\<in>set [[take 7 echo_sample]]. [] \<notin> set cs" using l ne by simp
  ultimately have "violations (deliver 0 [[take 7 echo_sample]] (echo_worker [])) = violations (echo_worker [])"
    using echo_end_to_end [OF list_ring_contract list_ring_contract, of 0 echo_server 0 "[Wrote 7 echo_sample]" "echo_worker []" 0
        "[[take 7 echo_sample]]" "[5]" 0 "[]" "[]" "drop 7 echo_sample"] echo_server_run
    by (simp add: e demo_sess_def l)
  then show ?thesis by simp
qed

end
