(* ===== verification/Client_Props.thy ===== *)
theory Client_Props
  imports DummyLoop
begin

text \<open>
  The clients of the load generator through their life: the gauge of active clients, the sockets,
  the pending bytes, and two ways in which a client gets stuck.
\<close>

section \<open>What an operation on one client leaves alone\<close>

definition is_active :: "Client \<Rightarrow> i64" where
  "is_active c = (if c_state c = Active then 1 else 0)"

text \<open>The gauge of active clients, less the clients of this worker that are active.\<close>

definition gauge :: "DummyWorker \<Rightarrow> i64" where
  "gauge W = ds_active (wk_stats W) - sum_list (map is_active (wk_clients W))"

text \<open>A client that is not connected has no socket.\<close>

definition sound :: "Client \<Rightarrow> bool" where
  "sound c \<longleftrightarrow> (c_state c = Dead \<or> c_state c = Idle \<longrightarrow> c_fd c < 0)"

definition touches :: "nat \<Rightarrow> DummyWorker \<Rightarrow> DummyWorker \<Rightarrow> bool" where
  "touches i W W' \<longleftrightarrow> gauge W' = gauge W \<and> length (wk_clients W') = length (wk_clients W) \<and>
     wk_nextToConnect W' = wk_nextToConnect W \<and> wk_cfg W' = wk_cfg W \<and> (\<forall>j. j \<noteq> i \<longrightarrow> Cl W' j = Cl W j) \<and>
     (sound (Cl W i) \<longrightarrow> sound (Cl W' i))"

named_theorems touch

lemma touches_refl [touch]: "touches i W W"
  by (simp add: touches_def)

lemma touches_trans: "touches i W W' \<Longrightarrow> touches i W' W'' \<Longrightarrow> touches i W W''"
  by (simp add: touches_def)

lemma touches_len: "touches i W W' \<Longrightarrow> length (wk_clients W') = length (wk_clients W)"
  by (simp add: touches_def)

lemma sum_list_upd_at:
  fixes g :: "'a \<Rightarrow> 'b::ab_group_add"
  shows "i < length xs \<Longrightarrow> sum_list (map g (upd_at i f xs)) = sum_list (map g xs) - g (xs ! i) + g (f (xs ! i))"
proof (induction xs arbitrary: i)
  case (Cons x xs)
  then show ?case by (cases i) (simp_all add: upd_at_def algebra_simps)
qed simp

lemma touches_upd:
  assumes "\<And>c. c_state (f c) = c_state c" "\<And>c. c_fd (f c) = c_fd c"
  shows "touches i W (upd_client i f W)"
proof -
  have "map is_active (upd_at i f (wk_clients W)) = map is_active (wk_clients W)"
    using assms by (intro map_upd_at_id) (simp add: is_active_def)
  then show ?thesis using assms
    by (cases "i < length (wk_clients W)") (simp_all add: touches_def upd_client_def gauge_def sound_def)
qed

lemma touches_frames [touch]:
  "touches i W (loc f W)" "touches i W (dk_update g W)" "touches i W (did e W)" "touches i W (fail_fast W)"
  "touches i W (DumpViolation k j q W)"
  by (simp_all add: touches_def gauge_def loc_def dk_update_def did_def fail_fast_def DumpViolation_def)

lemma touches_stat: "(\<And>s. ds_active (f s) = ds_active s) \<Longrightarrow> touches i W (stat f W)"
  by (simp add: touches_def gauge_def stat_def)

lemma touches_NowNs: "NowNs W = (t, W') \<Longrightarrow> touches i W W'"
  by (auto simp: NowNs_def intro: touch split: list.splits)

lemma touches_watch [touch]: "touches i W (snd (watch f ev W))"
  by (auto simp: watch_def Let_def intro: touch touches_trans [OF touches_frames(2) touches_frames(3)] split: list.splits)

text \<open>A change of the state of client i, with the gauge brought up to date.\<close>

lemma touches_state:
  assumes "i < length (wk_clients W)"
    and "\<And>s. ds_active (g s) = ds_active s + is_active (f (Cl W i)) - is_active (Cl W i)"
    and "sound (Cl W i) \<Longrightarrow> sound (f (Cl W i))"
  shows "touches i W (stat g (upd_client i f W))" "touches i W (upd_client i f (stat g W))"
  using assms sum_list_upd_at [of i "wk_clients W" is_active f]
  by (simp_all add: touches_def upd_client_def gauge_def stat_def)

section \<open>The operations\<close>

lemma touches_Kill [touch]:
  assumes "i < length (wk_clients W)"
  shows "touches i W (Kill i b W)" "c_state (Cl (Kill i b W) i) = Dead"
    "sound (Cl W i) \<Longrightarrow> c_fd (Cl (Kill i b W) i) < 0"
proof -
  have "touches i W (Kill i b W) \<and> c_state (Cl (Kill i b W) i) = Dead \<and> (sound (Cl W i) \<longrightarrow> c_fd (Cl (Kill i b W) i) < 0)"
  proof (cases "c_state (Cl W i) = Dead")
    case True
    then show ?thesis by (simp add: Kill_def touches_refl sound_def)
  next
    case False
    define W3 where "W3 = (let W1 = (if c_state (Cl W i) = Active then stat (\<lambda>s. s\<lparr>ds_active := Add (- 1) (ds_active s)\<rparr>) W else W);
          W2 = (if b then stat (\<lambda>s. s\<lparr>ds_serverClosed := Inc (ds_serverClosed s)\<rparr>) W1 else W1);
          W3 = (if 0 \<le> c_fd (Cl W2 i) then upd_client i (\<lambda>c. c\<lparr>c_fd := - 1\<rparr>) (did (CClosed (c_fd (Cl W2 i))) W2) else W2)
      in upd_client i (\<lambda>c. c\<lparr>c_state := Dead\<rparr>) W3)"
    have t: "touches i W W3" "c_state (Cl W3 i) = Dead" "c_fd (Cl W3 i) < 0"
      using assms False sum_list_upd_at [of i "wk_clients W" is_active]
      by (auto simp: W3_def Let_def touches_def gauge_def upd_client_def stat_def did_def dk_update_def sound_def sum_list_upd_at
          is_active_def Add_def)
    have K: "Kill i b W = (if 0 < cf_churnMs (wk_cfg W) then (case NowNs W3 of (now, W5) \<Rightarrow>
        upd_client i (\<lambda>c. c\<lparr>c_reconnectAtNs := now + cf_reconnectMs (wk_cfg W) * 1000000\<rparr>) W5) else W3)"
      using False by (simp add: Kill_def W3_def Let_def)
    obtain now W5 where n: "NowNs W3 = (now, W5)" by (cases "NowNs W3")
    have c5: "wk_clients W5 = wk_clients W3" using n by (auto simp: NowNs_def dk_update_def split: list.splits)
    have "touches i W (upd_client i (\<lambda>c. c\<lparr>c_reconnectAtNs := z\<rparr>) W5)" for z
      by (rule touches_trans [OF touches_trans [OF t(1) touches_NowNs [OF n]] touches_upd]) simp_all
    then show ?thesis using t assms touches_len [OF t(1)] by (auto simp: K n upd_client_def c5)
  qed
  then show "touches i W (Kill i b W)" "c_state (Cl (Kill i b W) i) = Dead" "sound (Cl W i) \<Longrightarrow> c_fd (Cl (Kill i b W) i) < 0"
    by simp_all
qed


lemma touches_UpdateWrite: "touches i W (UpdateWrite i want W)"
proof -
  have "touches i W (if fst r then upd_client i (\<lambda>c. c\<lparr>c_wantWrite := want\<rparr>) (snd r) else snd r)"
    if "touches i W (snd r)" for r
    using that touches_trans [OF that touches_upd] by simp
  then show ?thesis
    using touches_watch by (simp add: UpdateWrite_def Let_def touches_refl split_beta)
qed

lemma touches_Send:
  assumes "i < length (wk_clients W)"
  shows "touches i W (Worker_SendBytes i bs W)"
proof -
  have kept: "touches i W (upd_client i (\<lambda>c. c\<lparr>c_pend := c_pend c @ p, c_wantWrite := False\<rparr>) W')" if "touches i W W'" for p W'
    by (rule touches_trans [OF that touches_upd]) simp_all
  have s: "touches i W (stat (\<lambda>s. s\<lparr>ds_pendOverflow := Inc (ds_pendOverflow s)\<rparr>) W)" by (rule touches_stat) simp
  have k: "touches i W (Kill i b W')" if "touches i W W'" for b W'
    by (rule touches_trans [OF that touches_Kill(1)]) (use assms touches_len [OF that] in simp)
  have u: "touches i W (upd_client i (\<lambda>c. c\<lparr>c_pend := c_pend c @ bs\<rparr>) W)" by (rule touches_upd) simp_all
  have d: "touches i W (did e (dk_update g W))" for e g by (rule touches_trans [OF touches_frames(2,3)])
  show ?thesis
    unfolding Worker_SendBytes_def Let_def
    using kept [OF touches_frames(2)] kept [OF d] k [OF touches_frames(2)] k [OF s] u d touches_frames(2)
    by (auto split: write_result.split)
qed

lemma touches_pend_loop: "i < length (wk_clients W) \<Longrightarrow> touches i W (pend_loop i ws W)"
proof (induction ws arbitrary: W)
  case Nil
  then show ?case by (subst pend_loop.simps) (simp add: Let_def touches_refl)
next
  case (Cons x ws)
  let ?W1 = "dk_update (\<lambda>k. k\<lparr>dk_writes := ws\<rparr>) W"
  have w1: "touches i W ?W1" by (rule touches_frames)
  have i1: "i < length (wk_clients ?W1)" using touches_len [OF w1] Cons.prems by simp
  have more: "touches i W (pend_loop i ws W2)" if "touches i W W2" for W2
    by (rule touches_trans [OF that Cons.IH]) (use touches_len [OF that] Cons.prems in simp)
  have took: "touches i W (upd_client i (\<lambda>c. c\<lparr>c_pend := p\<rparr>) (did e ?W1))" for p e
    by (rule touches_trans [OF touches_trans [OF w1 touches_frames(3)] touches_upd]) simp_all
  have "touches i W (Kill i True ?W1)" by (rule touches_trans [OF w1 touches_Kill(1) [OF i1]])
  moreover have "touches i W (upd_client i (\<lambda>c. c\<lparr>c_pend := drop n (c_pend c)\<rparr>) (did e ?W1))" for n e
    by (rule touches_trans [OF touches_trans [OF w1 touches_frames(3)] touches_upd]) simp_all
  ultimately show ?case
    by (subst pend_loop.simps) (simp add: Let_def touches_refl w1 more split: write_result.split)
qed

lemma touches_SendEcho:
  assumes "i < length (wk_clients W)"
  shows "touches i W (SendEcho i W)"
proof -
  let ?W1 = "upd_client i (\<lambda>c. c\<lparr>c_echoSeq := c_echoSeq (Cl W i) + 1\<rparr>) W"
  obtain now W2 where n: "NowNs ?W1 = (now, W2)" by (cases "NowNs ?W1")
  have t2: "touches i W W2" by (rule touches_trans [OF touches_upd touches_NowNs [OF n]]) simp_all
  define W3 where "W3 = Worker_SendBytes i (echo_packet (wk_cfg W) (c_seed (Cl W i)) (c_echoSeq (Cl W i) + 1) (word_of_int now)) W2"
  have t3: "touches i W W3"
    unfolding W3_def by (rule touches_trans [OF t2 touches_Send]) (use touches_len [OF t2] assms in simp)
  have fin: "touches i W (upd_client i (\<lambda>c. c\<lparr>c_pending := c_pending c + 1\<rparr>) (loc f W4))" if "touches i W W4" for f W4
    by (rule touches_trans [OF touches_trans [OF that touches_frames(1)] touches_upd]) simp_all
  show ?thesis
    using t3 fin [OF t3] fin [OF touches_trans [OF t3 touches_UpdateWrite]]
    by (simp add: SendEcho_def Let_def n W3_def [symmetric])
qed

lemma touches_note_echo: "touches i W (note_echo i eh W)"
proof -
  obtain now W1 where n: "NowNs W = (now, W1)" by (cases "NowNs W")
  have "touches i W (upd_client i (\<lambda>c. c\<lparr>c_pending := (if 0 < c_pending c then c_pending c - 1 else c_pending c),
             c_lastRecvNs := now, c_notRecvFlagged := False\<rparr>) (loc f W1))" for f
    by (rule touches_trans [OF touches_trans [OF touches_NowNs [OF n] touches_frames(1)] touches_upd]) simp_all
  then show ?thesis by (simp add: note_echo_def n Let_def)
qed

lemma touches_violation: "(\<And>s. ds_active (f s) = ds_active s) \<Longrightarrow> touches i W (fail_fast (DumpViolation k i q (stat f W)))"
  by (rule touches_trans [OF touches_trans [OF touches_stat touches_frames(5)] touches_frames(4)])

lemma touches_checks: "touches i W (check_order i q (check_contents i eh frame W))"
proof -
  have c: "touches i W (check_contents i eh frame W)"
    by (auto simp: check_contents_def Let_def pad_violation_def intro: touches_refl touches_violation)
  have u: "touches i W (upd_client i (\<lambda>c. c\<lparr>c_expectRecv := g c\<rparr>) W)" for g W by (rule touches_upd) simp_all
  have "touches i W (check_order i q W)" for W
    unfolding check_order_def Let_def
    by (auto intro: u touches_stat touches_trans [OF touches_violation u])
  then show ?thesis using touches_trans [OF c] by blast
qed

lemma touches_handle_frame:
  assumes "i < length (wk_clients W)"
  shows "touches i W (snd (handle_frame i frame W))"
proof -
  have v: "touches i W (pad_violation k i q W)" for k q unfolding pad_violation_def by (rule touches_violation) simp
  have "touches i W (Kill i False (pad_violation k i q W))" for k q
    by (rule touches_trans [OF v touches_Kill(1)]) (use touches_len [OF v] assms in simp)
  then have "touches i W (snd (handle_echo i frame W))"
    using touches_trans [OF touches_note_echo touches_checks] touches_note_echo by (simp add: handle_echo_def Let_def)
  moreover have "touches i W (Kill i False (stat (\<lambda>s. s\<lparr>ds_joinFail := Inc (ds_joinFail s)\<rparr>) W))"
    by (rule touches_trans [OF touches_stat touches_Kill(1)]) (use assms in \<open>simp_all add: stat_def\<close>)
  moreover have "touches i W (stat (\<lambda>s. s\<lparr>ds_joinOk := Inc (ds_joinOk s), ds_active := Inc (ds_active s)\<rparr>)
                        (upd_client i (\<lambda>c. c\<lparr>c_state := Active\<rparr>) W))" if "c_state (Cl W i) = Joining"
    by (rule touches_state) (use assms that in \<open>simp_all add: is_active_def Inc_def sound_def\<close>)
  ultimately show ?thesis
    by (auto simp: handle_frame_def touches_refl touches_frames split: option.split MsgType.split)
qed

lemma touches_frames_loop: "i < length (wk_clients W) \<Longrightarrow> touches i W (snd (frames_loop i bs W))"
proof (induction i bs W rule: frames_loop.induct)
  case (1 i bs W)
  let ?sz = "unat (h_size (dec_header (take kHeaderSize bs)))"
  let ?W1 = "snd (handle_frame i (take ?sz bs) W)"
  have w1: "touches i W ?W1" by (rule touches_handle_frame [OF "1.prems"])
  show ?case
  proof (cases "length bs < kHeaderSize \<or> ?sz < kHeaderSize \<or> MAX_PACKET_SIZE < ?sz \<or> length bs < ?sz \<or> \<not> fst (handle_frame i (take ?sz bs) W)")
    case True
    then show ?thesis
      using w1 touches_Kill(1) [OF "1.prems", of False] by (subst frames_loop.simps) (auto simp: Let_def touches_refl)
  next
    case False
    have "touches i ?W1 (snd (frames_loop i (drop ?sz bs) ?W1))"
      by (rule "1.IH") (use False touches_len [OF w1] "1.prems" in auto)
    then show ?thesis
      using False touches_trans [OF w1] by (subst frames_loop.simps) (simp add: Let_def)
  qed
qed

lemma touches_recv_loop: "i < length (wk_clients W) \<Longrightarrow> touches i W (recv_loop i rs W)"
proof (induction rs arbitrary: W rule: recv_script_induct)
  case Nil
  then show ?case by (simp add: recv_loop.simps touches_refl touches_Kill(1))
next
  case (Cons x rs)
  let ?W1 = "\<lambda>rs. dk_update (\<lambda>k. k\<lparr>dk_reads := rs\<rparr>) W"
  have w1: "touches i W (?W1 rs)" for rs by (rule touches_frames)
  have i1: "i < length (wk_clients (?W1 rs))" for rs using touches_len [OF w1] Cons.prems by simp
  have more: "touches i W (recv_loop i rs' W2)" if "touches i W W2" "script_size rs' < script_size (x # rs)" for W2 rs'
    by (rule touches_trans [OF that(1) Cons.IH [OF that(2)]]) (use touches_len [OF that(1)] Cons.prems in simp)
  have kill: "touches i W (Kill i b (?W1 rs))" for b rs by (rule touches_trans [OF w1 touches_Kill(1) [OF i1]])
  have got: "touches i W (Worker_ParseFrames i (upd_client i (\<lambda>c. c\<lparr>c_recvBuf := c_recvBuf c @ bs\<rparr>) (?W1 rs)))" for bs rs
  proof -
    let ?W2 = "upd_client i (\<lambda>c. c\<lparr>c_recvBuf := c_recvBuf c @ bs\<rparr>) (?W1 rs)"
    have w2: "touches i W ?W2" by (rule touches_trans [OF w1 touches_upd]) simp_all
    obtain r W3 where f: "frames_loop i (c_recvBuf (Cl ?W2 i)) ?W2 = (r, W3)" by (cases "frames_loop i (c_recvBuf (Cl ?W2 i)) ?W2")
    have "touches i ?W2 W3"
      using touches_frames_loop [of i ?W2 "c_recvBuf (Cl ?W2 i)"] touches_len [OF w2] Cons.prems f by simp
    then have w3: "touches i W W3" by (rule touches_trans [OF w2])
    have "touches i W (upd_client i (\<lambda>c. c\<lparr>c_recvBuf := b\<rparr>) W3)" for b
      by (rule touches_trans [OF w3 touches_upd]) simp_all
    then show ?thesis using w3 by (simp add: Worker_ParseFrames_def f split: option.split)
  qed
  show ?case
    by (subst recv_loop.simps(2))
      (simp add: Let_def w1 kill got more left_over_shrinks touches_Kill(1) [OF Cons.prems] split: read_result.split)
qed

lemma touches_OnReadable: "i < length (wk_clients W) \<Longrightarrow> touches i W (OnReadable i W)"
  by (simp add: OnReadable_def touches_recv_loop touches_Kill(1))


section \<open>Connecting and events\<close>

lemma touches_same_state:
  assumes "is_active (f (Cl W i)) = is_active (Cl W i)" "sound (Cl W i) \<Longrightarrow> sound (f (Cl W i))"
  shows "touches i W (upd_client i f W)"
  using assms sum_list_upd_at [of i "wk_clients W" is_active f]
  by (cases "i < length (wk_clients W)") (simp_all add: touches_def upd_client_def gauge_def)

lemma touches_plan_churn: "touches i W (plan_churn i W)"
proof -
  obtain t1 W1 where 1: "NowNs W = (t1, W1)" by (cases "NowNs W")
  obtain t2 W2 where 2: "NowNs W1 = (t2, W2)" by (cases "NowNs W1")
  have "touches i W (upd_client i (\<lambda>c. c\<lparr>c_churnAtNs := z\<rparr>) W2)" for z
    by (rule touches_trans [OF touches_trans [OF touches_NowNs [OF 1] touches_NowNs [OF 2]] touches_upd]) simp_all
  then show ?thesis by (simp add: plan_churn_def 1 2 Let_def touches_refl)
qed

lemma touches_StartConnect:
  assumes "c_state (Cl W i) \<noteq> Active"
  shows "touches i W (StartConnect i W)"
proof -
  have ref: "touches i W (connect_refused i W')" if "touches i W W'" "wk_clients W' = wk_clients W" for W'
  proof -
    have "touches i W' (upd_client i (\<lambda>c. c\<lparr>c_fd := - 1, c_state := Dead\<rparr>) W')"
      by (rule touches_same_state) (use assms that(2) in \<open>simp_all add: is_active_def sound_def\<close>)
    then show ?thesis
      unfolding connect_refused_def by (rule touches_trans [OF touches_trans [OF that(1)] touches_stat]) simp
  qed
  define W0 where "W0 = dk_update (\<lambda>k. k\<lparr>dk_connects := tl (dk_connects k)\<rparr>) W"
  have w0: "touches i W W0" "wk_clients W0 = wk_clients W" unfolding W0_def by (rule touches_frames) (simp add: dk_update_def)
  have op: "touches i W (upd_client i (fresh_connection W i f) W0)" for f
    by (rule touches_trans [OF w0(1) touches_same_state])
      (use assms w0(2) in \<open>simp_all add: fresh_connection_def is_active_def sound_def\<close>)
  have opened: "touches i W (snd (watch f ev (plan_churn i (upd_client i (\<lambda>c. c\<lparr>c_lastRecvNs := now\<rparr>) W1))))"
    if "NowNs (upd_client i (fresh_connection W i f) W0) = (now, W1)" for f now W1 ev
  proof -
    have a: "touches i W (upd_client i (\<lambda>c. c\<lparr>c_lastRecvNs := now\<rparr>) W1)"
      by (rule touches_trans [OF touches_trans [OF op touches_NowNs [OF that]] touches_upd]) simp_all
    show ?thesis by (rule touches_trans [OF touches_trans [OF a touches_plan_churn] touches_watch])
  qed
  have rd: "touches i W (connect_refused i (did e W0))" for e
    by (rule ref [OF touches_trans [OF w0(1) touches_frames(3)]]) (use w0(2) in \<open>simp add: did_def dk_update_def\<close>)
  show ?thesis
    unfolding StartConnect_def Let_def W0_def [symmetric]
    using ref [OF w0] rd opened by (auto split: connect_result.split prod.split)
qed

lemma Send_state: "c_state (Cl (Worker_SendBytes i bs W) i) \<in> {c_state (Cl W i), Dead}"
  if "i < length (wk_clients W)"
proof -
  have k: "c_state (Cl (Kill i b W') i) = Dead" if "length (wk_clients W') = length (wk_clients W)" for b W'
    by (rule touches_Kill(2)) (use that \<open>i < length (wk_clients W)\<close> in simp)
  show ?thesis
    using that by (auto simp: Worker_SendBytes_def Let_def k stat_def dk_update_def upd_client_def did_def split: write_result.split)
qed

lemma touches_plan_recv: "touches i W (plan_recv i W)"
proof -
  obtain now W1 where 1: "NowNs W = (now, W1)" by (cases "NowNs W")
  have "touches i W (upd_client i (\<lambda>c. c\<lparr>c_nextRecvNs := z\<rparr>) W1)" for z
    by (rule touches_trans [OF touches_NowNs [OF 1] touches_upd]) simp_all
  then show ?thesis by (simp add: plan_recv_def 1)
qed

lemma touches_connected:
  assumes "i < length (wk_clients W)" "c_state (Cl W i) = Connecting"
  shows "touches i W (connected i W)"
proof -
  let ?A = "stat (\<lambda>s. s\<lparr>ds_active := Inc (ds_active s), ds_joinOk := Inc (ds_joinOk s)\<rparr>) (upd_client i (\<lambda>c. c\<lparr>c_state := Active\<rparr>) W)"
  have A: "touches i W ?A"
    by (rule touches_state) (use assms in \<open>simp_all add: is_active_def Inc_def sound_def\<close>)
  have w: "touches i W (upd_client i (\<lambda>c. c\<lparr>c_wantWrite := False\<rparr>) (snd (watch f ev ?A)))" for f ev
    by (rule touches_trans [OF touches_trans [OF A touches_watch] touches_upd]) simp_all
  let ?B = "Worker_SendBytes i (enc_join kProtocolVersion) W"
  have b: "touches i W ?B" by (rule touches_Send [OF assms(1)])
  have "c_state (Cl ?B i) \<noteq> Active" using Send_state [OF assms(1), of "enc_join kProtocolVersion"] assms(2) by auto
  then have B: "touches i W (upd_client i (\<lambda>c. c\<lparr>c_state := Joining\<rparr>) ?B)"
    by (intro touches_trans [OF b touches_same_state]) (simp_all add: is_active_def sound_def)
  show ?thesis
    unfolding connected_def Let_def
    using w touches_trans [OF w touches_plan_recv] touches_trans [OF A touches_UpdateWrite] touches_trans [OF B touches_UpdateWrite]
    by auto
qed

lemma touches_OnEvent:
  assumes "i < length (wk_clients W)"
  shows "touches i W (OnEvent i ev W)"
proof -
  let ?E = "dk_update (\<lambda>k. k\<lparr>dk_errors := tl (dk_errors k)\<rparr>) W"
  have e: "touches i W ?E" by (rule touches_frames)
  have ei: "i < length (wk_clients ?E)" "wk_clients ?E = wk_clients W" using assms by (simp_all add: dk_update_def)
  have ek: "touches i W (stat (\<lambda>s. s\<lparr>ds_connectFail := Inc (ds_connectFail s)\<rparr>) (Kill i False ?E))"
    by (rule touches_trans [OF touches_trans [OF e touches_Kill(1) [OF ei(1)]] touches_stat]) simp
  have ec: "touches i W (connected i ?E)" if "c_state (Cl W i) = Connecting"
    by (rule touches_trans [OF e touches_connected [OF ei(1)]]) (use that ei(2) in simp)
  define W1 where "W1 = (if ev AND EPOLLOUT \<noteq> 0
      then (let W' = FlushPend i W in if c_pend (Cl W' i) = [] then UpdateWrite i False W' else W') else W)"
  have f: "touches i W (FlushPend i W)" unfolding FlushPend_def by (rule touches_pend_loop [OF assms])
  have w1: "touches i W W1"
    using f touches_trans [OF f touches_UpdateWrite] by (simp add: W1_def Let_def touches_refl)
  define W2 where "W2 = OnReadable i W1"
  have w2: "touches i W W2"
    unfolding W2_def by (rule touches_trans [OF w1 touches_OnReadable]) (use touches_len [OF w1] assms in simp)
  have w3: "touches i W (plan_recv i (snd (watch f' ev' W2)))" for f' ev'
    by (rule touches_trans [OF touches_trans [OF w2 touches_watch] touches_plan_recv])
  show ?thesis
    unfolding OnEvent_def Let_def W1_def [unfolded Let_def, symmetric] W2_def [symmetric]
    using touches_refl touches_Kill(1) [OF assms, of True] ek ec w1 w2 w3 by auto
qed

section \<open>The loop\<close>

lemma touches_client_turn:
  assumes "i < length (wk_clients W)"
  shows "touches i W (client_turn ts i W)"
proof -
  have f: "touches i W (flag_silence ts i W)"
    unfolding flag_silence_def Let_def using touches_trans [OF touches_upd touches_stat] by (auto simp: touches_refl)
  let ?F = "flag_silence ts i W"
  have fi: "i < length (wk_clients ?F)" using touches_len [OF f] assms by simp
  have open_ear: "touches i ?F (upd_client i (\<lambda>c. c\<lparr>c_nextRecvNs := 0\<rparr>) (snd (watch g ev ?F)))" for g ev
    by (rule touches_trans [OF touches_watch touches_upd]) simp_all
  have at: "touches i ?F (attack_turn ts i ?F)"
    unfolding attack_turn_def Let_def
    using touches_trans [OF open_ear touches_SendEcho] touches_SendEcho [OF fi] touches_len [OF open_ear] fi by auto
  have nx: "touches i W' (upd_client i (next_input ts p) W')" for p W' by (rule touches_upd) (simp_all add: next_input_def)
  have inp: "touches i ?F (send_input i ?F)"
  proof -
    let ?U = "upd_client i (\<lambda>c. c\<lparr>c_seq := c_seq (Cl ?F i) + 1\<rparr>) ?F"
    have u: "touches i ?F ?U" by (rule touches_upd) simp_all
    define S where "S = Worker_SendBytes i (enc_input \<lparr>i_seq = c_seq (Cl ?F i) + 1, i_mx = 0, i_my = 0, i_attack = 0, i_skill = 0\<rparr>) ?U"
    have s: "touches i ?F S"
      unfolding S_def by (rule touches_trans [OF u touches_Send]) (use touches_len [OF u] fi in simp)
    show ?thesis
      using s touches_trans [OF s touches_frames(1)] touches_trans [OF touches_trans [OF s touches_UpdateWrite] touches_frames(1)]
      by (simp add: send_input_def Let_def S_def [symmetric])
  qed
  have sd: "touches i ?F (send_turn ts i ?F)"
    unfolding send_turn_def Let_def
    using nx touches_refl inp touches_trans [OF inp nx] touches_SendEcho [OF fi] touches_trans [OF touches_SendEcho [OF fi] nx] by auto
  have rc: "touches i W (stat (\<lambda>s. s\<lparr>ds_reconnects := Inc (ds_reconnects s)\<rparr>) (StartConnect i W))" if "c_state (Cl W i) = Dead"
    by (rule touches_trans [OF touches_StartConnect touches_stat]) (use that in simp_all)
  show ?thesis
    unfolding client_turn_def Let_def
    using rc touches_refl touches_Kill(1) [OF assms, of False] touches_trans [OF f at] touches_trans [OF f sd] by auto
qed

text \<open>All clients are sound, and those from m on have not been started.\<close>

definition fleet_ok :: "nat \<Rightarrow> DummyWorker \<Rightarrow> bool" where
  "fleet_ok m W \<longleftrightarrow> (\<forall>j<length (wk_clients W). sound (Cl W j) \<and> (m \<le> j \<longrightarrow> c_state (Cl W j) = Idle))"

text \<open>What the worker as a whole keeps.\<close>

definition fleet :: "nat \<Rightarrow> DummyWorker \<Rightarrow> DummyWorker \<Rightarrow> bool" where
  "fleet m W W' \<longleftrightarrow> gauge W' = gauge W \<and> length (wk_clients W') = length (wk_clients W) \<and> fleet_ok m W' \<and>
     wk_nextToConnect W' = wk_nextToConnect W"

lemma fleet_step:
  assumes "fleet_ok m W" "touches i W W'" "i < length (wk_clients W)" "c_state (Cl W i) = Idle \<Longrightarrow> W' = W \<or> i < m"
  shows "fleet m W W'"
proof -
  have "sound (Cl W' j) \<and> (m \<le> j \<longrightarrow> c_state (Cl W' j) = Idle)" if "j < length (wk_clients W)" for j
    using assms that by (cases "j = i") (auto simp: touches_def fleet_ok_def)
  then show ?thesis using assms(2) by (simp add: fleet_def fleet_ok_def touches_def)
qed

lemma fleet_trans: "fleet m W W' \<Longrightarrow> fleet m W' W'' \<Longrightarrow> fleet m W W''"
  by (simp add: fleet_def)

lemma fleet_fold:
  assumes "\<And>x W. x \<in> set xs \<Longrightarrow> fleet_ok m W \<Longrightarrow> length (wk_clients W) = n \<Longrightarrow> fleet m W (f x W)"
  shows "fleet_ok m W \<Longrightarrow> length (wk_clients W) = n \<Longrightarrow> fleet m W (fold f xs W)"
  using assms
proof (induction xs arbitrary: W)
  case (Cons x xs)
  have a: "fleet m W (f x W)" by (rule Cons.prems(3)) (use Cons.prems(1,2) in simp_all)
  have "fleet m (f x W) (fold f xs (f x W))"
    by (rule Cons.IH) (use a Cons.prems in \<open>auto simp: fleet_def\<close>)
  then show ?case using fleet_trans [OF a] by simp
qed (simp add: fleet_def)

lemma Idle_event: "fleet_ok m W \<Longrightarrow> i < length (wk_clients W) \<Longrightarrow> c_state (Cl W i) = Idle \<Longrightarrow> OnEvent i ev W = W"
  by (auto simp: OnEvent_def fleet_ok_def sound_def)

lemma Idle_turn: "c_state (Cl W i) = Idle \<Longrightarrow> client_turn ts i W = W"
  by (simp add: client_turn_def Let_def)

lemma fleet_ramp:
  "fleet_ok m W \<Longrightarrow> m + k \<le> length (wk_clients W) \<Longrightarrow>
   fleet (m + k) W (fold StartConnect [m..<m + k] W)"
proof (induction k arbitrary: m W)
  case (Suc k)
  have i: "m < length (wk_clients W)" using Suc.prems(2) by simp
  have "c_state (Cl W m) = Idle" using Suc.prems(1) i by (simp add: fleet_ok_def)
  then have t: "touches m W (StartConnect m W)" by (intro touches_StartConnect) simp
  have "fleet_ok (Suc m) W" using Suc.prems(1) by (simp add: fleet_ok_def)
  then have a: "fleet (Suc m) W (StartConnect m W)" by (rule fleet_step [OF _ t i]) simp
  then have "fleet (Suc m + k) (StartConnect m W) (fold StartConnect [Suc m..<Suc m + k] (StartConnect m W))"
    by (intro Suc.IH) (use Suc.prems in \<open>simp_all add: fleet_def\<close>)
  moreover have "[m..<m + Suc k] = m # [Suc m..<Suc m + k]" by (simp add: upt_conv_Cons del: upt_Suc)
  ultimately show ?case using a by (simp add: fleet_def del: upt_Suc)
qed (simp add: fleet_def)

lemma fleet_frame:
  assumes "fleet_ok m W" "\<And>i. touches i W W'" "wk_clients W' = wk_clients W"
  shows "fleet m W W'"
  using assms(2) [of 0] assms(1,3) by (simp add: fleet_def touches_def fleet_ok_def)


lemma fleet_round:
  fixes lf :: int and es :: "(nat \<times> u32) list"
  assumes ok: "fleet_ok (wk_nextToConnect W) W" and ev: "\<forall>e\<in>set es. fst e < length (wk_clients W)"
  defines "W' \<equiv> snd (Worker_round es (lf, W))"
  shows "gauge W' = gauge W" "length (wk_clients W') = length (wk_clients W)" "fleet_ok (wk_nextToConnect W') W'"
proof -
  define k where "k = min (wk_ramp W) (length (wk_clients W) - wk_nextToConnect W)"
  define m where "m = wk_nextToConnect W + k"
  define R where "R = ramp_up W"
  have R: "gauge R = gauge W \<and> length (wk_clients R) = length (wk_clients W) \<and> fleet_ok m R \<and> wk_nextToConnect R = m"
  proof (cases "k = 0")
    case True
    then show ?thesis using ok
      by (auto simp: R_def ramp_up_def Let_def k_def [symmetric] m_def gauge_def fleet_ok_def)
  next
    case False
    then have "fleet m W (fold StartConnect [wk_nextToConnect W..<wk_nextToConnect W + k] W)"
      unfolding m_def by (intro fleet_ramp [OF ok]) (auto simp: k_def)
    then show ?thesis
      by (auto simp: R_def ramp_up_def Let_def k_def [symmetric] m_def [symmetric] fleet_def gauge_def fleet_ok_def)
  qed
  have now: "fleet m W1 W2" if "fleet_ok m W1" "NowNs W1 = (t, W2)" for t W1 W2
    using that by (intro fleet_frame [OF that(1) touches_NowNs [OF that(2)]]) (auto simp: NowNs_def dk_update_def split: list.splits)
  obtain ws W1 where 1: "NowNs R = (ws, W1)" by (cases "NowNs R")
  have a1: "fleet m R W1" by (rule now [OF _ 1]) (use R in simp)
  define W2 where "W2 = fold (\<lambda>e. OnEvent (fst e) (snd e)) es W1"
  have a2: "fleet m W1 W2"
    unfolding W2_def
  proof (rule fleet_fold [where n = "length (wk_clients W)"])
    show "fleet m V (OnEvent (fst e) (snd e) V)" if "e \<in> set es" "fleet_ok m V" "length (wk_clients V) = length (wk_clients W)" for e V
      using that ev Idle_event [OF that(2)] by (intro fleet_step [OF that(2) touches_OnEvent]) auto
  qed (use a1 R in \<open>simp_all add: fleet_def\<close>)
  define W3 where "W3 = fold (client_turn ws) [0..<length (wk_clients W2)] W2"
  have a3: "fleet m W2 W3"
    unfolding W3_def
  proof (rule fleet_fold [where n = "length (wk_clients W2)"])
    show "fleet m V (client_turn ws i V)" if "i \<in> set [0..<length (wk_clients W2)]" "fleet_ok m V" "length (wk_clients V) = length (wk_clients W2)" for i V
      using that Idle_turn [of V i ws] by (intro fleet_step [OF that(2) touches_client_turn]) auto
  qed (use a2 in \<open>simp_all add: fleet_def\<close>)
  obtain t W4 where 4: "NowNs W3 = (t, W4)" by (cases "NowNs W3")
  have a4: "fleet m W3 W4" by (rule now [OF _ 4]) (use a3 in \<open>simp add: fleet_def\<close>)
  define W5 where "W5 = loc (note_work ((t - ws) sdiv 1000)) W4"
  have a5: "fleet m W4 W5"
    unfolding W5_def by (rule fleet_frame [OF _ touches_frames(1)]) (use a4 in \<open>simp_all add: fleet_def loc_def\<close>)
  obtain t1 W6 where 6: "NowNs W5 = (t1, W6)" by (cases "NowNs W5")
  have a6: "fleet m W5 W6" by (rule now [OF _ 6]) (use a5 in \<open>simp add: fleet_def\<close>)
  have a7: "fleet m W6 (Flush W6)"
    using a6 by (simp add: fleet_def Flush_def Let_def gauge_def fleet_ok_def)
  obtain t2 W7 where 7: "NowNs (Flush W6) = (t2, W7)" by (cases "NowNs (Flush W6)")
  have a8: "fleet m (Flush W6) W7" by (rule now [OF _ 7]) (use a7 in \<open>simp add: fleet_def\<close>)
  note up6 = fleet_trans [OF a1 fleet_trans [OF a2 fleet_trans [OF a3 fleet_trans [OF a4 fleet_trans [OF a5 a6]]]]]
  have "W' = W7 \<or> W' = W6"
    unfolding W'_def Worker_round_def
    by (simp add: R_def [symmetric] 1 Let_def W2_def [symmetric] W3_def [symmetric] 4 W5_def [symmetric] 6 7)
  then have "fleet m R W'" using up6 fleet_trans [OF up6 fleet_trans [OF a7 a8]] by auto
  then show "gauge W' = gauge W" "length (wk_clients W') = length (wk_clients W)" "fleet_ok (wk_nextToConnect W') W'"
    using R by (simp_all add: fleet_def)
qed

lemma fleet_rounds:
  "fleet_ok (wk_nextToConnect W) W \<Longrightarrow> \<forall>es\<in>set ess. \<forall>e\<in>set es. fst e < length (wk_clients W) \<Longrightarrow>
   Worker_rounds ess (lf, W) = (fin, W') \<Longrightarrow>
   gauge W' = gauge W \<and> length (wk_clients W') = length (wk_clients W) \<and> fleet_ok (wk_nextToConnect W') W'"
proof (induction ess arbitrary: W lf)
  case (Cons es ess)
  obtain ls W1 where 1: "NowNs W = (ls, W1)" by (cases "NowNs W")
  have w1: "gauge W1 = gauge W" "length (wk_clients W1) = length (wk_clients W)" "fleet_ok (wk_nextToConnect W1) W1"
    using 1 Cons.prems(1) by (auto simp: NowNs_def dk_update_def gauge_def fleet_ok_def split: list.splits)
  show ?case
  proof (cases "wk_deadline W1 \<le> ls \<or> wk_stop W1")
    case True
    then show ?thesis using Cons.prems(3) w1 by (simp add: 1)
  next
    case False
    obtain lf2 W2 where 2: "Worker_round es (lf, W1) = (lf2, W2)" by (cases "Worker_round es (lf, W1)")
    have w2: "gauge W2 = gauge W1" "length (wk_clients W2) = length (wk_clients W1)" "fleet_ok (wk_nextToConnect W2) W2"
      using fleet_round [OF w1(3), of es lf] Cons.prems(2) w1(2) 2 by simp_all
    have "Worker_rounds ess (lf2, W2) = (fin, W')" using Cons.prems(3) False by (auto simp: 1 2)
    then show ?thesis using Cons.IH [OF w2(3)] Cons.prems(2) w1 w2 by simp
  qed
qed simp

lemma Kill_all:
  assumes "\<forall>j<length (wk_clients W). sound (Cl W j)" "n \<le> length (wk_clients W)"
  shows "gauge (fold (\<lambda>i. Kill i False) [0..<n] W) = gauge W \<and> length (wk_clients (fold (\<lambda>i. Kill i False) [0..<n] W)) = length (wk_clients W) \<and>
    (\<forall>j<length (wk_clients W). sound (Cl (fold (\<lambda>i. Kill i False) [0..<n] W) j) \<and>
      (j < n \<longrightarrow> c_state (Cl (fold (\<lambda>i. Kill i False) [0..<n] W) j) = Dead))"
  using assms(2)
proof (induction n)
  case (Suc n)
  let ?V = "fold (\<lambda>i. Kill i False) [0..<n] W"
  have v: "gauge ?V = gauge W" "length (wk_clients ?V) = length (wk_clients W)"
    "\<forall>j<length (wk_clients W). sound (Cl ?V j) \<and> (j < n \<longrightarrow> c_state (Cl ?V j) = Dead)"
    using Suc by simp_all
  have n: "n < length (wk_clients ?V)" using Suc.prems v(2) by simp
  have t: "touches n ?V (Kill n False ?V)" "c_state (Cl (Kill n False ?V) n) = Dead" by (rule touches_Kill [OF n])+
  have "sound (Cl (Kill n False ?V) j) \<and> (j < Suc n \<longrightarrow> c_state (Cl (Kill n False ?V) j) = Dead)" if "j < length (wk_clients W)" for j
    using t v(3) that by (cases "j = n") (auto simp: touches_def less_Suc_eq)
  then show ?case using t(1) v(1,2) by (simp add: touches_def)
qed (use assms(1) in simp)

text \<open>The bookkeeping of the load generator is exact: at any time the gauge of active clients is
  what it was plus the number of clients of this worker that are active; and when the loop ends,
  by the deadline or the stop flag, every client is dead with its socket closed and the gauge is
  back where it was.\<close>

theorem active_gauge_exact:
  assumes "set (wk_clients W) \<subseteq> {new_client}" "\<forall>es\<in>set ess. \<forall>e\<in>set es. fst e < length (wk_clients W)"
    and "Worker_Loop ess W = (fin, W')"
  shows "ds_active (wk_stats W') = ds_active (wk_stats W) + of_nat (length (filter (\<lambda>c. c_state c = Active) (wk_clients W'))) \<and>
    (fin \<longrightarrow> ds_active (wk_stats W') = ds_active (wk_stats W) \<and> (\<forall>c\<in>set (wk_clients W'). c_state c = Dead \<and> c_fd c < 0))"
proof -
  have sum: "sum_list (map is_active cs) = of_nat (length (filter (\<lambda>c. c_state c = Active) cs))" for cs
    by (induction cs) (simp_all add: is_active_def)
  have "sum_list (map is_active (wk_clients W)) = 0"
  proof -
    have "filter (\<lambda>c. c_state c = Active) (wk_clients W) = []"
      using assms(1) by (auto simp: filter_empty_conv new_client_def)
    then show ?thesis unfolding sum by simp
  qed
  then have g: "gauge W = ds_active (wk_stats W)" by (simp add: gauge_def)
  have nc: "Cl W j = new_client" if "j < length (wk_clients W)" for j using assms(1) nth_mem [OF that] by blast
  obtain t W1 where 1: "NowNs W = (t, W1)" by (cases "NowNs W")
  have w1: "wk_clients W1 = wk_clients W" "gauge W1 = gauge W"
    using 1 by (auto simp: NowNs_def dk_update_def gauge_def split: list.splits)
  have ok: "fleet_ok (wk_nextToConnect W1) W1" using nc by (simp add: fleet_ok_def w1 sound_def new_client_def)
  obtain f W2 where 2: "Worker_rounds ess (t, W1) = (f, W2)" by (cases "Worker_rounds ess (t, W1)")
  have w2: "gauge W2 = gauge W" "length (wk_clients W2) = length (wk_clients W)" "fleet_ok (wk_nextToConnect W2) W2"
    using fleet_rounds [OF ok _ 2] assms(2) w1 by simp_all
  have F: "gauge (Flush W2) = gauge W2" "wk_clients (Flush W2) = wk_clients W2" by (simp_all add: Flush_def Let_def gauge_def)
  have gW': "gauge W' = gauge W \<and> (fin \<longrightarrow> (\<forall>c\<in>set (wk_clients W'). c_state c = Dead \<and> c_fd c < 0))"
  proof (cases f)
    case False
    then show ?thesis using assms(3) w2 by (simp add: Worker_Loop_def 1 2)
  next
    case True
    have W': "W' = fold (\<lambda>i. Kill i False) [0..<length (wk_clients W2)] (Flush W2)"
      using assms(3) True by (simp add: Worker_Loop_def 1 2)
    have "\<forall>j<length (wk_clients (Flush W2)). sound (Cl (Flush W2) j)" using w2(3) by (simp add: F fleet_ok_def)
    from Kill_all [OF this, of "length (wk_clients W2)"] have K: "gauge W' = gauge W2" "length (wk_clients W') = length (wk_clients W2)"
      "\<forall>j<length (wk_clients W2). sound (Cl W' j) \<and> c_state (Cl W' j) = Dead"
      by (simp_all add: F W')
    then show ?thesis using w2(1) by (auto simp: in_set_conv_nth sound_def)
  qed
  have ex: "ds_active (wk_stats W') = ds_active (wk_stats W) + of_nat (length (filter (\<lambda>c. c_state c = Active) (wk_clients W')))"
    using gW' g sum [of "wk_clients W'"] by (simp add: gauge_def algebra_simps)
  moreover have "filter (\<lambda>c. c_state c = Active) (wk_clients W') = []" if fin
    using gW' that by (auto simp: filter_empty_conv)
  ultimately show ?thesis using gW' by auto
qed


definition gauge_worker :: DummyWorker where
  "gauge_worker = \<lparr>wk_cfg = default_config\<lparr>cf_echoMode := True\<rparr>, wk_id = 0, wk_inputHz = 60, wk_ramp = 20, wk_deadline = 100,
     wk_nextToConnect = 0, wk_clients = [new_client], wk_local = zero_local, wk_stats = zero_dummy_stats, wk_stop = False, wk_dumps = [],
     wk_kern = quiet_kernel\<lparr>dk_now := [1, 2, 3, 4, 5, 6, 7, 8, 9], dk_connects := [Opened 7]\<rparr>\<rparr>"

theorem active_gauge_exact_witness:
  "ds_active (wk_stats (snd (Worker_Loop [[], [(0, EPOLLOUT)]] gauge_worker))) =
     of_nat (length (filter (\<lambda>c. c_state c = Active) (wk_clients (snd (Worker_Loop [[], [(0, EPOLLOUT)]] gauge_worker)))))"
  using active_gauge_exact [OF _ _ surjective_pairing, of gauge_worker "[[], [(0, EPOLLOUT)]]"]
  by (simp add: gauge_worker_def zero_dummy_stats_def)

section \<open>Pending bytes\<close>

definition csent :: "int \<Rightarrow> client_event list \<Rightarrow> bytes" where
  "csent f es = concat (map (\<lambda>e. case e of CWrote g bs \<Rightarrow> if g = f then bs else [] | _ \<Rightarrow> []) es)"

lemma csent_simps [simp]:
  "csent f [] = []" "csent f (es @ es') = csent f es @ csent f es'" "csent f (CWrote f bs # es) = bs @ csent f es"
  "csent f (CWatch g ev # es) = csent f es" "csent f (CClosed g # es) = csent f es"
  by (simp_all add: csent_def)

text \<open>The bytes written between two states and those still pending at the end.\<close>

definition passed :: "nat \<Rightarrow> DummyWorker \<Rightarrow> DummyWorker \<Rightarrow> bytes \<Rightarrow> bool" where
  "passed i W W' bs \<longleftrightarrow> (\<exists>es. dk_log (wk_kern W') = dk_log (wk_kern W) @ es \<and>
     csent (c_fd (Cl W i)) es @ c_pend (Cl W' i) = bs \<and> length (c_pend (Cl W' i)) \<le> kPendMax)"

lemma passed_Send:
  assumes "i < length (wk_clients W)" "length (c_pend (Cl W i)) \<le> kPendMax" "length bs \<le> kPendMax"
    and "c_state (Cl (Worker_SendBytes i bs W) i) \<noteq> Dead"
  shows "passed i W (Worker_SendBytes i bs W) (c_pend (Cl W i) @ bs)"
proof -
  have k: "c_state (Cl (Kill i b W') i) = Dead" if "length (wk_clients W') = length (wk_clients W)" for b W'
    by (rule touches_Kill(2)) (use that assms(1) in simp)
  have e: "\<exists>es. log = log @ es \<and> csent f es @ p = p" for log f p by (rule exI [of _ "[]"]) simp
  show ?thesis
  proof (cases "c_pend (Cl W i) = []")
    case False
    then have "Worker_SendBytes i bs W = upd_client i (\<lambda>c. c\<lparr>c_pend := c_pend c @ bs\<rparr>) W"
      "length (c_pend (Cl W i)) + length bs \<le> kPendMax"
      using assms(4) k by (auto simp: Worker_SendBytes_def Let_def stat_def split: if_splits)
    then show ?thesis using assms(1) by (auto simp: passed_def upd_client_def)
  next
    case True
    then show ?thesis
      using assms k
      by (cases "dk_writes (wk_kern W)"; cases "hd (dk_writes (wk_kern W))")
        (auto simp: passed_def Worker_SendBytes_def Let_def upd_client_def did_def dk_update_def min_def)
  qed
qed

lemma passed_pend_loop:
  assumes "i < length (wk_clients W)" "length (c_pend (Cl W i)) \<le> kPendMax" "c_state (Cl (pend_loop i ws W) i) \<noteq> Dead"
  shows "passed i W (pend_loop i ws W) (c_pend (Cl W i))"
  using assms
proof (induction ws arbitrary: W)
  case Nil
  then show ?case by (subst pend_loop.simps) (auto simp: Let_def passed_def)
next
  case (Cons x ws)
  let ?W1 = "dk_update (\<lambda>k. k\<lparr>dk_writes := ws\<rparr>) W"
  have w1: "wk_clients ?W1 = wk_clients W" "dk_log (wk_kern ?W1) = dk_log (wk_kern W)" by (simp_all add: dk_update_def)
  show ?case
  proof (cases "c_pend (Cl W i) = []")
    case True
    then show ?thesis by (subst pend_loop.simps) (auto simp: Let_def passed_def)
  next
    case False
    note step = pend_loop.simps [of i "x # ws" W, simplified Let_def list.case, unfolded if_not_P [OF False]]
    show ?thesis
    proof (cases x)
      case (Took k)
      define n where "n = min (Suc k) (length (c_pend (Cl W i)))"
      define W2 where "W2 = upd_client i (\<lambda>c. c\<lparr>c_pend := drop n (c_pend c)\<rparr>) (did (CWrote (c_fd (Cl W i)) (take n (c_pend (Cl W i)))) ?W1)"
      have s: "pend_loop i (x # ws) W = pend_loop i ws W2"
        using step unfolding Took by (simp add: W2_def n_def)
      have w2: "i < length (wk_clients W2)" "c_pend (Cl W2 i) = drop n (c_pend (Cl W i))" "c_fd (Cl W2 i) = c_fd (Cl W i)"
        "dk_log (wk_kern W2) = dk_log (wk_kern W) @ [CWrote (c_fd (Cl W i)) (take n (c_pend (Cl W i)))]"
        using Cons.prems(1) by (simp_all add: W2_def upd_client_def did_def dk_update_def)
      have "passed i W2 (pend_loop i ws W2) (c_pend (Cl W2 i))"
        by (rule Cons.IH) (use Cons.prems s w2 in simp_all)
      then obtain es where "dk_log (wk_kern (pend_loop i ws W2)) = dk_log (wk_kern W) @ CWrote (c_fd (Cl W i)) (take n (c_pend (Cl W i))) # es"
        "csent (c_fd (Cl W i)) es @ c_pend (Cl (pend_loop i ws W2) i) = drop n (c_pend (Cl W i))"
        "length (c_pend (Cl (pend_loop i ws W2) i)) \<le> kPendMax" by (auto simp: passed_def w2)
      then show ?thesis unfolding s passed_def
        by (intro exI [of _ "CWrote (c_fd (Cl W i)) (take n (c_pend (Cl W i))) # es"]) simp
    next
      case WriteIntr
      have "passed i ?W1 (pend_loop i ws ?W1) (c_pend (Cl ?W1 i))"
        by (rule Cons.IH) (use Cons.prems step WriteIntr w1 in simp_all)
      then show ?thesis unfolding WriteIntr step [unfolded WriteIntr] by (simp add: passed_def w1)
    next
      case WriteAgain
      then show ?thesis unfolding WriteAgain step [unfolded WriteAgain] using Cons.prems by (auto simp: passed_def w1)
    next
      case WriteErr
      have "c_state (Cl (Kill i True ?W1) i) = Dead" by (rule touches_Kill(2)) (use Cons.prems(1) w1 in simp)
      then show ?thesis using Cons.prems(3) unfolding WriteErr step [unfolded WriteErr] by simp
    qed
  qed
qed

text \<open>A client loses no bytes of what it sends: unless the connection is cut, the bytes written to
  the socket followed by those pending are what was pending before and the new message, in order;
  flushing the pending bytes keeps them likewise; and never more than 4096 bytes are pending.\<close>

theorem client_send_conserves:
  assumes "i < length (wk_clients W)" "length (c_pend (Cl W i)) \<le> kPendMax" "length bs \<le> kPendMax"
  shows "(c_state (Cl (Worker_SendBytes i bs W) i) \<noteq> Dead \<longrightarrow> passed i W (Worker_SendBytes i bs W) (c_pend (Cl W i) @ bs)) \<and>
    (c_state (Cl (FlushPend i W) i) \<noteq> Dead \<longrightarrow> passed i W (FlushPend i W) (c_pend (Cl W i)))"
  using passed_Send [OF assms] passed_pend_loop [OF assms(1,2)] by (simp add: FlushPend_def)

definition pending_worker :: DummyWorker where
  "pending_worker = gauge_worker\<lparr>wk_clients := [new_client\<lparr>c_fd := 7, c_state := Active, c_pend := [1, 2, 3], c_wantWrite := True\<rparr>],
     wk_kern := quiet_kernel\<lparr>dk_writes := [Took 1]\<rparr>\<rparr>"

theorem client_send_conserves_witness:
  "passed 0 pending_worker (FlushPend 0 pending_worker) [1, 2, 3]"
proof -
  have "FlushPend 0 pending_worker = upd_client 0 (\<lambda>c. c\<lparr>c_pend := drop (Suc (Suc 0)) (c_pend c)\<rparr>)
      (did (CWrote 7 [1, 2]) (dk_update (\<lambda>k. k\<lparr>dk_writes := []\<rparr>) pending_worker))"
    by (simp add: FlushPend_def pending_worker_def quiet_kernel_def, subst pend_loop.simps)
      (simp add: new_client_def Let_def, subst pend_loop.simps,
        simp add: dk_update_def did_def upd_client_def Let_def quiet_kernel_def gauge_worker_def)
  then have "c_state (Cl (FlushPend 0 pending_worker) 0) = Active"
    by (simp add: upd_client_def did_def dk_update_def pending_worker_def)
  then show ?thesis
    using client_send_conserves [of 0 pending_worker "[]"] by (simp add: pending_worker_def new_client_def kPendMax_def)
qed

section \<open>Two ways to get stuck\<close>

text \<open>C39. A client whose JOIN cannot be written is lost: the failed write closes the socket, but the
  handler then overwrites the state with \<open>Joining\<close>, so the client is neither connected nor dead; no
  event reaches it, and the loop never reconnects it, not even in churn mode.\<close>

theorem failed_join_is_stuck:
  assumes "i < length (wk_clients W)" "c_state (Cl W i) = Connecting" "0 \<le> c_fd (Cl W i)" "c_pend (Cl W i) = []"
    and "\<not> cf_echoMode (wk_cfg W)" "dk_writes (wk_kern W) = WriteErr # ws" "dk_errors (wk_kern W) = []"
    and "ev AND EPOLL_GONE = 0" "ev AND EPOLLOUT \<noteq> 0"
  defines "W' \<equiv> OnEvent i ev W"
  shows "c_state (Cl W' i) = Joining \<and> c_fd (Cl W' i) = - 1 \<and>
    (\<forall>ev'. OnEvent i ev' W' = W') \<and> (\<forall>ts. client_turn ts i W' = W')"
proof -
  let ?W1 = "dk_update (\<lambda>k. k\<lparr>dk_errors := tl (dk_errors k)\<rparr>) W"
  let ?W0 = "dk_update (\<lambda>k. k\<lparr>dk_writes := tl (dk_writes k)\<rparr>) ?W1"
  have w0: "wk_clients ?W0 = wk_clients W" by (simp add: dk_update_def)
  let ?K = "Kill i True ?W0"
  have S: "Worker_SendBytes i (enc_join kProtocolVersion) ?W1 = ?K"
    using assms(4,6) by (simp add: Worker_SendBytes_def Let_def dk_update_def)
  have k: "c_state (Cl ?K i) = Dead" "length (wk_clients ?K) = length (wk_clients W)" "c_fd (Cl ?K i) = - 1"
    using touches_Kill(2) [of i ?W0 True] touches_len [OF touches_Kill(1) [of i ?W0 True]] assms(1-3) w0
    by (auto simp: Kill_def Let_def stat_def did_def dk_update_def upd_client_def NowNs_def split: list.splits)
  let ?J = "upd_client i (\<lambda>c. c\<lparr>c_state := Joining\<rparr>) ?K"
  have j: "c_state (Cl ?J i) = Joining" "c_fd (Cl ?J i) = - 1" using k assms(1) by (simp_all add: upd_client_def)
  have "UpdateWrite i want ?J = ?J" for want using j(2) by (simp add: UpdateWrite_def Let_def)
  then have W': "W' = ?J"
    using assms(2,3,5,7-9) S by (simp add: W'_def OnEvent_def connected_def Let_def dk_update_def)
  show ?thesis
    unfolding W' using j by (simp add: OnEvent_def client_turn_def Let_def)
qed

definition joining_worker :: DummyWorker where
  "joining_worker = gauge_worker\<lparr>wk_cfg := default_config\<lparr>cf_churnMs := 5000\<rparr>,
     wk_clients := [new_client\<lparr>c_fd := 7, c_state := Connecting\<rparr>], wk_kern := quiet_kernel\<lparr>dk_writes := [WriteErr]\<rparr>\<rparr>"

theorem failed_join_is_stuck_witness:
  "c_state (Cl (OnEvent 0 EPOLLOUT joining_worker) 0) = Joining \<and> c_fd (Cl (OnEvent 0 EPOLLOUT joining_worker) 0) = - 1"
  using failed_join_is_stuck [of 0 joining_worker "[]" EPOLLOUT]
  by (simp add: joining_worker_def new_client_def quiet_kernel_def gauge_worker_def default_config_def EPOLLOUT_def EPOLL_GONE_def)

text \<open>C40. A connected echo client keeps its worker spinning: the interest in writability that
  \<open>StartConnect\<close> registers to learn of the connection is never withdrawn, because the withdrawal
  compares with a flag that was never set. No further \<open>epoll_ctl\<close> call is made, and since the socket
  stays writable, every following wait returns at once with an event that changes nothing.\<close>

theorem connect_keeps_write_interest:
  assumes "i < length (wk_clients W)" "c_state (Cl W i) \<noteq> Active" "\<not> c_wantWrite (Cl W i)" "0 \<le> f"
    and "cf_echoMode (wk_cfg W)" "cf_attackSendQ (wk_cfg W) \<le> 0"
    and "dk_connects (wk_kern W) = Opened f # cs" "dk_ctls (wk_kern W) = []" "dk_errors (wk_kern W) = []"
  defines "W' \<equiv> OnEvent i EPOLLOUT (StartConnect i W)"
  shows "c_state (Cl W' i) = Active \<and> dk_log (wk_kern W') = dk_log (wk_kern W) @ [CWatch f (EPOLLIN OR EPOLLOUT OR EPOLLRDHUP)] \<and>
    OnEvent i EPOLLOUT W' = W'"
proof -
  have now: "wk_clients V' = wk_clients V \<and> dk_log (wk_kern V') = dk_log (wk_kern V) \<and> dk_ctls (wk_kern V') = dk_ctls (wk_kern V) \<and>
      dk_errors (wk_kern V') = dk_errors (wk_kern V) \<and> wk_cfg V' = wk_cfg V" if "NowNs V = (t, V')" for t V V'
    using that by (auto simp: NowNs_def dk_update_def split: list.splits)
  define C where "C = StartConnect i W"
  obtain t W1 where 1: "NowNs (upd_client i (fresh_connection W i f) (dk_update (\<lambda>k. k\<lparr>dk_connects := tl (dk_connects k)\<rparr>) W)) = (t, W1)"
    by (cases "NowNs (upd_client i (fresh_connection W i f) (dk_update (\<lambda>k. k\<lparr>dk_connects := tl (dk_connects k)\<rparr>) W))")
  define L where "L = upd_client i (\<lambda>c. c\<lparr>c_lastRecvNs := t\<rparr>) W1"
  have l: "wk_clients L = upd_at i (\<lambda>c. c\<lparr>c_lastRecvNs := t\<rparr>) (wk_clients W1)" "wk_kern L = wk_kern W1" "wk_cfg L = wk_cfg W1"
    by (simp_all add: L_def upd_client_def)
  obtain t1 W2 where 2: "NowNs L = (t1, W2)" by (cases "NowNs L")
  obtain t2 W3 where 3: "NowNs W2 = (t2, W3)" by (cases "NowNs W2")
  have C: "C = did (CWatch f (EPOLLIN OR EPOLLOUT OR EPOLLRDHUP)) (plan_churn i L)"
  proof -
    have "dk_ctls (wk_kern (plan_churn i L)) = []"
      using assms(8) now [OF 1] now [OF 2] now [OF 3] by (simp add: plan_churn_def 2 3 Let_def upd_client_def dk_update_def l)
    then show ?thesis using assms(7) by (simp add: C_def StartConnect_def 1 Let_def watch_def L_def [symmetric])
  qed
  have c: "i < length (wk_clients C)" "c_state (Cl C i) = Connecting" "c_fd (Cl C i) = f" "\<not> c_wantWrite (Cl C i)" "c_pend (Cl C i) = []"
    "\<not> c_attacker (Cl C i)" "wk_cfg C = wk_cfg W" "dk_errors (wk_kern C) = []"
    "dk_log (wk_kern C) = dk_log (wk_kern W) @ [CWatch f (EPOLLIN OR EPOLLOUT OR EPOLLRDHUP)]"
    using assms(1,3,6,9) now [OF 1] now [OF 2] now [OF 3] unfolding C
    by (simp_all add: plan_churn_def 2 3 l Let_def upd_client_def dk_update_def did_def fresh_connection_def)
  have z: "EPOLLOUT AND EPOLL_GONE = 0" "EPOLLOUT AND EPOLLOUT \<noteq> 0" "EPOLLOUT AND EPOLLIN = 0"
    by (simp_all add: EPOLLOUT_def EPOLL_GONE_def EPOLLIN_def)
  define E where "E = dk_update (\<lambda>k. k\<lparr>dk_errors := tl (dk_errors k)\<rparr>) C"
  have e: "wk_clients E = wk_clients C" "wk_cfg E = wk_cfg C" "dk_log (wk_kern E) = dk_log (wk_kern C)"
    by (simp_all add: E_def dk_update_def)
  define A where "A = stat (\<lambda>s. s\<lparr>ds_active := Inc (ds_active s), ds_joinOk := Inc (ds_joinOk s)\<rparr>)
      (upd_client i (\<lambda>c. c\<lparr>c_state := Active\<rparr>) E)"
  have a: "c_state (Cl A i) = Active" "c_fd (Cl A i) = f" "\<not> c_wantWrite (Cl A i)" "c_pend (Cl A i) = []" "\<not> c_attacker (Cl A i)"
    "dk_log (wk_kern A) = dk_log (wk_kern C)" "wk_cfg A = wk_cfg W"
    using c e by (simp_all add: A_def stat_def upd_client_def)
  have u: "UpdateWrite i False A = A" using a by (simp add: UpdateWrite_def Let_def)
  have "connected i E = A" using assms(5) a u c(7) e(2) by (simp add: connected_def Let_def A_def [symmetric])
  then have W': "W' = A"
    using c z assms(4) by (simp add: W'_def C_def [symmetric] OnEvent_def Let_def E_def)
  have "FlushPend i A = A" using a by (simp add: FlushPend_def, subst pend_loop.simps) (simp add: Let_def)
  then have "OnEvent i EPOLLOUT A = A" using a z u assms(4) by (simp add: OnEvent_def Let_def)
  then show ?thesis unfolding W' using a c by simp
qed

theorem connect_keeps_write_interest_witness:
  "OnEvent 0 EPOLLOUT (OnEvent 0 EPOLLOUT (StartConnect 0 gauge_worker)) = OnEvent 0 EPOLLOUT (StartConnect 0 gauge_worker)"
  using connect_keeps_write_interest [of 0 gauge_worker 7 "[]"]
  by (simp add: gauge_worker_def new_client_def quiet_kernel_def default_config_def)

end
