(* ===== verification/Decimal.thy ===== *)
theory Decimal
  imports Main
begin

text \<open>
  Decimal numbers as the program writes them (\<open>%lld\<close> of printf) and reads them (\<open>atoi\<close>).
\<close>

definition digit :: "nat \<Rightarrow> char" where
  "digit d = char_of (48 + d)"

fun dec_nat :: "nat \<Rightarrow> string" where
  "dec_nat n = (if n < 10 then [digit n] else dec_nat (n div 10) @ [digit (n mod 10)])"

declare dec_nat.simps [simp del]

definition dec :: "int \<Rightarrow> string" where
  "dec k = (if k < 0 then CHR ''-'' # dec_nat (nat (- k)) else dec_nat (nat k))"

definition is_digit :: "char \<Rightarrow> bool" where
  "is_digit c \<longleftrightarrow> 48 \<le> (of_char c :: nat) \<and> (of_char c :: nat) \<le> 57"

definition is_space :: "char \<Rightarrow> bool" where
  "is_space c \<longleftrightarrow> (of_char c :: nat) = 32 \<or> 9 \<le> (of_char c :: nat) \<and> (of_char c :: nat) \<le> 13"

definition digits_value :: "string \<Rightarrow> int" where
  "digits_value ds = foldl (\<lambda>v c. 10 * v + (of_char c - 48)) 0 ds"

text \<open>
  \<open>atoi\<close>: blanks, an optional sign, digits; 0 when there is none. A value outside the range of int
  is undefined in C and unbounded here.
\<close>

definition atoi :: "string \<Rightarrow> int" where
  "atoi s = (case dropWhile is_space s of
      [] \<Rightarrow> 0
    | c # r \<Rightarrow> if c = CHR ''-'' then - digits_value (takeWhile is_digit r)
               else if c = CHR ''+'' then digits_value (takeWhile is_digit r)
               else digits_value (takeWhile is_digit (c # r)))"

lemma of_digit: "d < 10 \<Longrightarrow> (of_char (digit d) :: nat) = 48 + d" "d < 10 \<Longrightarrow> (of_char (digit d) :: int) = 48 + int d"
proof -
  assume d: "d < 10"
  show n: "(of_char (digit d) :: nat) = 48 + d" using d by (simp add: digit_def)
  have "(of_char (digit d) :: int) = int (of_char (digit d) :: nat)" by (simp only: of_nat_of_char)
  then show "(of_char (digit d) :: int) = 48 + int d" unfolding n by simp
qed

lemma digit_class: "d < 10 \<Longrightarrow> is_digit (digit d)" "d < 10 \<Longrightarrow> \<not> is_space (digit d)" "d < 10 \<Longrightarrow> digit d \<noteq> CHR ''-''" "d < 10 \<Longrightarrow> digit d \<noteq> CHR ''+''"
  using of_digit(1) [of d] by (auto simp: is_digit_def is_space_def)

lemma dec_nat_digits: "\<forall>c\<in>set (dec_nat n). is_digit c \<and> \<not> is_space c \<and> c \<noteq> CHR ''-'' \<and> c \<noteq> CHR ''+''" "dec_nat n \<noteq> []"
proof (induction n rule: dec_nat.induct)
  case (1 n)
  {
    case 1
    show ?case using "1.IH"(1) by (subst dec_nat.simps) (auto simp: digit_class)
  next
    case 2
    show ?case by (subst dec_nat.simps) simp
  }
qed

lemma digits_value_snoc: "digits_value (ds @ [c]) = 10 * digits_value ds + (of_char c - 48)"
  by (simp add: digits_value_def)

lemma digits_value_dec_nat: "digits_value (dec_nat n) = int n"
proof (induction n rule: dec_nat.induct)
  case (1 n)
  show ?case
  proof (cases "n < 10")
    case True
    then show ?thesis by (subst dec_nat.simps) (simp add: digits_value_def of_digit)
  next
    case False
    then show ?thesis using 1 by (subst dec_nat.simps) (simp add: digits_value_snoc of_digit zdiv_int zmod_int)
  qed
qed

lemma takeWhile_dec_nat: "takeWhile is_digit (dec_nat n) = dec_nat n"
  using dec_nat_digits(1) [of n] by (simp add: takeWhile_eq_all_conv)

lemma atoi_dec [simp]: "atoi (dec k) = k"
proof (cases "k < 0")
  case True
  have "\<not> is_space (CHR ''-'')" by (simp add: is_space_def)
  then show ?thesis using True by (simp add: atoi_def dec_def takeWhile_dec_nat digits_value_dec_nat)
next
  case False
  obtain c r where c: "dec_nat (nat k) = c # r" using dec_nat_digits(2) [of "nat k"] by (cases "dec_nat (nat k)") auto
  then have "\<not> is_space c" "c \<noteq> CHR ''-''" "c \<noteq> CHR ''+''" using dec_nat_digits(1) [of "nat k"] by auto
  then show ?thesis
    using False takeWhile_dec_nat [of "nat k"] digits_value_dec_nat [of "nat k"] by (simp add: atoi_def dec_def c)
qed

lemma length_dec_nat: "n < 10 ^ k \<Longrightarrow> 0 < k \<Longrightarrow> length (dec_nat n) \<le> k"
proof (induction k arbitrary: n)
  case (Suc k)
  show ?case
  proof (cases "n < 10")
    case True
    then show ?thesis by (subst dec_nat.simps) simp
  next
    case False
    then have "0 < k" using Suc.prems(1) by (cases k) auto
    moreover have "n div 10 < 10 ^ k" using Suc.prems(1) by (simp add: div_less_iff_less_mult mult.commute)
    ultimately have "length (dec_nat (n div 10)) \<le> k" by (rule Suc.IH [rotated])
    then show ?thesis using False by (subst dec_nat.simps) simp
  qed
qed simp

text \<open>A 64-bit number takes at most twenty characters.\<close>

lemma length_dec_i64:
  assumes "- (2 ^ 63) \<le> k" "k < 2 ^ 63"
  shows "length (dec k) \<le> 20"
proof -
  have "nat \<bar>k\<bar> < 10 ^ 19" using assms by simp
  then have "length (dec_nat (nat \<bar>k\<bar>)) \<le> 19" by (rule length_dec_nat) simp
  then show ?thesis by (auto simp: dec_def)
qed

end
