(* ===== verification/Gate.thy ===== *)
theory Gate
  imports DummyLoop Decimal
begin

text \<open>
  The main program of the load generator (dummy_main.cpp): its options, the division of the
  sessions over the threads, and the verdict over a run.
\<close>

section \<open>Options\<close>

record DummyOpts =
  do_host :: string
  do_port :: u16
  do_sessions :: int
  do_threads :: int
  do_inputHz :: int
  do_runSecs :: int
  do_ramp :: int
  do_mport :: u16
  do_cfg :: Config

definition default_dummy_opts :: DummyOpts where
  "default_dummy_opts = \<lparr>do_host = ''127.0.0.1'', do_port = 15400, do_sessions = 500, do_threads = 0, do_inputHz = 60,
     do_runSecs = 15, do_ramp = 20, do_mport = 19160, do_cfg = default_config\<rparr>"

definition upd_cfg :: "(Config \<Rightarrow> Config) \<Rightarrow> DummyOpts \<Rightarrow> DummyOpts" where
  "upd_cfg f x = x\<lparr>do_cfg := f (do_cfg x)\<rparr>"

text \<open>The chain of comparisons, one entry per option with a value.\<close>

definition dummy_options :: "(string \<times> (string \<Rightarrow> DummyOpts \<Rightarrow> DummyOpts)) list" where
  "dummy_options = [
     (''--server'', \<lambda>v x. x\<lparr>do_host := v\<rparr>),
     (''--port'', \<lambda>v x. x\<lparr>do_port := word_of_int (atoi v)\<rparr>),
     (''--sessions'', \<lambda>v x. x\<lparr>do_sessions := atoi v\<rparr>),
     (''--threads'', \<lambda>v x. x\<lparr>do_threads := atoi v\<rparr>),
     (''--input-hz'', \<lambda>v x. x\<lparr>do_inputHz := atoi v\<rparr>),
     (''--run-secs'', \<lambda>v x. x\<lparr>do_runSecs := atoi v\<rparr>),
     (''--ramp'', \<lambda>v x. x\<lparr>do_ramp := atoi v\<rparr>),
     (''--metrics-port'', \<lambda>v x. x\<lparr>do_mport := word_of_int (atoi v)\<rparr>),
     (''--mode'', \<lambda>v. upd_cfg (\<lambda>c. c\<lparr>cf_echoMode := (v = ''echo'')\<rparr>)),
     (''--verify'', \<lambda>v. upd_cfg (\<lambda>c. c\<lparr>cf_verify := (atoi v \<noteq> 0)\<rparr>)),
     (''--pkt-min'', \<lambda>v. upd_cfg (\<lambda>c. c\<lparr>cf_pktMin := atoi v\<rparr>)),
     (''--pkt-max'', \<lambda>v. upd_cfg (\<lambda>c. c\<lparr>cf_pktMax := atoi v\<rparr>)),
     (''--over-send'', \<lambda>v. upd_cfg (\<lambda>c. c\<lparr>cf_overSend := atoi v\<rparr>)),
     (''--echo-timeout-ms'', \<lambda>v. upd_cfg (\<lambda>c. c\<lparr>cf_echoTimeoutMs := atoi v\<rparr>)),
     (''--churn-ms'', \<lambda>v. upd_cfg (\<lambda>c. c\<lparr>cf_churnMs := atoi v\<rparr>)),
     (''--reconnect-ms'', \<lambda>v. upd_cfg (\<lambda>c. c\<lparr>cf_reconnectMs := atoi v\<rparr>)),
     (''--fail-fast'', \<lambda>v. upd_cfg (\<lambda>c. c\<lparr>cf_failFast := (atoi v \<noteq> 0)\<rparr>)),
     (''--attack-sendq'', \<lambda>v. upd_cfg (\<lambda>c. c\<lparr>cf_attackSendQ := atoi v\<rparr>)),
     (''--slow-recv-ms'', \<lambda>v. upd_cfg (\<lambda>c. c\<lparr>cf_slowRecvMs := atoi v\<rparr>))]"

text \<open>A name without a value behind it, and an unknown word, are skipped.\<close>

fun dummy_args :: "string list \<Rightarrow> DummyOpts \<Rightarrow> DummyOpts" where
  "dummy_args (a # v # r) x =
     (case map_of dummy_options a of Some f \<Rightarrow> dummy_args r (f v x) | None \<Rightarrow> dummy_args (v # r) x)"
| "dummy_args _ x = x"

text \<open>The size range is tidied before the threads start.\<close>

definition tidy_sizes :: "Config \<Rightarrow> Config" where
  "tidy_sizes c0 =
     (let c1 = (if cf_pktMin c0 < int kEchoMin then c0\<lparr>cf_pktMin := int kEchoMin\<rparr> else c0);
          c2 = (if int MAX_PACKET_SIZE < cf_pktMax c1 then c1\<lparr>cf_pktMax := int MAX_PACKET_SIZE\<rparr> else c1)
      in if cf_pktMax c2 < cf_pktMin c2 then c2\<lparr>cf_pktMax := cf_pktMin c2\<rparr> else c2)"

section \<open>Threads\<close>

definition thread_count :: "int \<Rightarrow> int \<Rightarrow> int" where
  "thread_count sessions threads = (if threads \<le> 0 then (sessions + 1499) sdiv 1500 else threads)"

text \<open>The number of clients of each thread; None for the division by zero.\<close>

definition split_sessions :: "int \<Rightarrow> int \<Rightarrow> int list option" where
  "split_sessions sessions threads =
     (if threads = 0 then None
      else (let per = sessions sdiv threads; extra = sessions smod threads
            in Some (map (\<lambda>t. per + (if int t < extra then 1 else 0)) [0..<nat threads])))"

section \<open>The verdict\<close>

text \<open>The running sums of the buckets, and the upper edge of the bucket of the 99th percentile.\<close>

fun running_sums :: "int \<Rightarrow> int list \<Rightarrow> int list" where
  "running_sums c [] = []"
| "running_sums c (b # bs) = (c + b) # running_sums (c + b) bs"

definition p99Of :: "int list \<Rightarrow> int list \<Rightarrow> int" where
  "p99Of buckets edges =
     (let total = sum_list buckets in
      if total = 0 then - 1 else
      case first_index (\<lambda>c. (total * 99 + 99) sdiv 100 \<le> c) (running_sums 0 buckets) of
        None \<Rightarrow> - 1
      | Some b \<Rightarrow> if b < length buckets - 1 then edges ! b else - 1)"

definition loop_ok :: "DummyStats \<Rightarrow> bool" where
  "loop_ok s = (let p = p99Of (map sint (ds_loopBucket s)) kLoopBucketUs in 0 < p \<and> p \<le> 40000)"

definition echo_gate :: "Config \<Rightarrow> int \<Rightarrow> DummyStats \<Rightarrow> bool" where
  "echo_gate cf sessions s =
     (let joined = sint (ds_joinOk s); closed = sint (ds_serverClosed s);
          churning = (0 < cf_churnMs cf \<or> 0 < cf_attackSendQ cf);
          connectOk = (if churning then sessions \<le> joined else joined = sessions);
          closeOk = (if churning then True else closed = 0);
          inflightAllow = sessions * (if 0 < cf_overSend cf then cf_overSend cf else 1);
          inflightOk = (0 < cf_attackSendQ cf \<or> sint (ds_echoSent s) - inflightAllow \<le> sint (ds_echoRecv s));
          attackOk = (cf_attackSendQ cf = 0 \<or> 0 < cf_slowRecvMs cf \<or> 0 < closed);
          bufOk = (0 < cf_attackSendQ cf \<or> sint (ds_pendOverflow s) = 0)
      in connectOk \<and> closeOk \<and> inflightOk \<and> attackOk \<and> sint (ds_padError s) = 0 \<and> sint (ds_orderError s) = 0 \<and> bufOk \<and> loop_ok s)"

definition game_gate :: "int \<Rightarrow> DummyStats \<Rightarrow> bool" where
  "game_gate sessions s =
     (sint (ds_joinOk s) = sessions \<and> sint (ds_pendOverflow s) = 0 \<and> sint (ds_serverClosed s) = 0 \<and> loop_ok s)"

definition exit_code :: "Config \<Rightarrow> int \<Rightarrow> DummyStats \<Rightarrow> int" where
  "exit_code cf sessions s =
     (if cf_echoMode cf then (if echo_gate cf sessions s then 0 else 1) else (if game_gate sessions s then 0 else 1))"

text \<open>Division of C, towards zero, on the signs that occur.\<close>

lemma sgn_nonneg:
  fixes a b :: int
  assumes "0 \<le> a" "0 < b"
  shows "sgn a * sgn b * (\<bar>a\<bar> div \<bar>b\<bar>) = a div b" "sgn a * (\<bar>a\<bar> mod \<bar>b\<bar>) = a mod b"
proof -
  have [simp]: "\<bar>a\<bar> = a" "\<bar>b\<bar> = b" "sgn b = 1" using assms by simp_all
  show "sgn a * sgn b * (\<bar>a\<bar> div \<bar>b\<bar>) = a div b" "sgn a * (\<bar>a\<bar> mod \<bar>b\<bar>) = a mod b"
    using assms by (cases "a = 0"; simp)+
qed

lemma sdiv_nonneg: "0 \<le> a \<Longrightarrow> 0 < b \<Longrightarrow> a sdiv b = a div (b :: int)"
  unfolding signed_divide_int_def by (rule sgn_nonneg)

lemma smod_nonneg: "0 \<le> a \<Longrightarrow> 0 < b \<Longrightarrow> a smod b = a mod (b :: int)"
  unfolding signed_modulo_int_def by (rule sgn_nonneg)

lemma sdiv_small: "\<bar>a\<bar> < b \<Longrightarrow> a sdiv b = (0 :: int)"
  by (simp only: signed_divide_int_def div_pos_pos_trivial abs_ge_zero mult_zero_right abs_of_pos order.strict_trans1)
section \<open>The percentile\<close>

lemma running_sums_nth: "b < length bs \<Longrightarrow> running_sums c bs ! b = c + sum_list (take (Suc b) bs)"
proof (induction bs arbitrary: b c)
  case (Cons x bs)
  then show ?case by (cases b) simp_all
qed simp

lemma length_running_sums [simp]: "length (running_sums c bs) = length bs"
  by (induction bs arbitrary: c) simp_all

lemma sum_take_mono:
  fixes bs :: "int list"
  assumes "\<forall>x\<in>set bs. 0 \<le> x" "m \<le> n"
  shows "sum_list (take m bs) \<le> sum_list (take n bs)"
proof -
  have "take n bs = take m bs @ take (n - m) (drop m bs)" using assms(2) by (simp add: take_add [symmetric])
  moreover have "0 \<le> sum_list (take (n - m) (drop m bs))"
    using assms(1) by (intro sum_list_nonneg) (meson in_set_dropD in_set_takeD)
  ultimately show ?thesis by simp
qed

lemma p99_edge:
  assumes nn: "\<forall>x\<in>set bs. 0 \<le> x" and len: "length bs = Suc (length edges)" and pos: "0 < sum_list bs"
    and edges: "sorted_wrt (<) edges" "\<forall>e\<in>set edges. 0 < e" and b: "b < length edges"
  shows "0 < p99Of bs edges \<and> p99Of bs edges \<le> edges ! b \<longleftrightarrow> 99 * sum_list bs \<le> 100 * sum_list (take (Suc b) bs)"
proof -
  let ?T = "sum_list bs" and ?s = "\<lambda>b. sum_list (take (Suc b) bs)"
  define P where "P = (\<lambda>c. (?T * 99 + 99) sdiv 100 \<le> c)"
  have P: "P c \<longleftrightarrow> 99 * ?T \<le> 100 * c" for c
  proof -
    have "(?T * 99 + 99) sdiv 100 = (?T * 99 + 99) div 100"
      using pos by (intro sdiv_nonneg) simp_all
    then show ?thesis unfolding P_def by linarith
  qed
  have all: "?s (length bs - 1) = ?T" using len by simp
  obtain m where m: "first_index P (running_sums 0 bs) = Some m"
  proof (cases "first_index P (running_sums 0 bs)")
    case None
    then have "\<not> P (running_sums 0 bs ! (length bs - 1))" using len by simp
    then show ?thesis using len P pos by (simp add: running_sums_nth)
  qed
  note M = first_index_SomeD [OF m]
  have mP: "m < length bs" "99 * ?T \<le> 100 * ?s m" "\<And>j. j < m \<Longrightarrow> \<not> 99 * ?T \<le> 100 * ?s j"
    using M P by (auto simp: running_sums_nth)
  have p: "p99Of bs edges = (if m < length edges then edges ! m else - 1)"
    using m pos len unfolding p99Of_def P_def by (simp add: Let_def)
  have "0 < p99Of bs edges \<and> p99Of bs edges \<le> edges ! b \<longleftrightarrow> m \<le> b"
  proof (cases "m < length edges")
    case True
    have "edges ! m \<le> edges ! b \<longleftrightarrow> m \<le> b"
      using sorted_wrt_nth_less [OF edges(1), of m b] sorted_wrt_nth_less [OF edges(1), of b m] True b
      by (cases m b rule: linorder_cases) auto
    then show ?thesis using True p edges(2) by simp
  next
    case False
    then show ?thesis using p b by simp
  qed
  also have "m \<le> b \<longleftrightarrow> 99 * ?T \<le> 100 * ?s b"
    using mP(3) [of b] mP(2) sum_take_mono [OF nn, of "Suc m" "Suc b"] by (cases "m \<le> b") auto
  finally show ?thesis .
qed

text \<open>C31. The saturation gate means what it says: over counters that are not negative, it passes exactly
  when there are samples and at most one in a hundred of the loop rounds took longer than 40 ms.\<close>

theorem loop_gate_exact:
  assumes "length (ds_loopBucket s) = kLoopBuckets" "\<forall>v\<in>set (ds_loopBucket s). 0 \<le> sint v"
  shows "loop_ok s \<longleftrightarrow> 0 < sum_list (map sint (ds_loopBucket s)) \<and>
    100 * sint (ds_loopBucket s ! 9) \<le> sum_list (map sint (ds_loopBucket s))"
proof -
  let ?bs = "map sint (ds_loopBucket s)"
  have nn: "\<forall>x\<in>set ?bs. 0 \<le> x" using assms(2) by simp
  have len: "length ?bs = Suc (length kLoopBucketUs)" using assms(1) by (simp add: kLoopBuckets_def kLoopBucketUs_def)
  have e: "sorted_wrt (<) kLoopBucketUs" "\<forall>e\<in>set kLoopBucketUs. 0 < e" "8 < length kLoopBucketUs" "kLoopBucketUs ! 8 = 40000"
    by (simp_all add: kLoopBucketUs_def)
  have "take 10 ?bs = ?bs" using assms(1) by (simp add: kLoopBuckets_def)
  moreover have "take (Suc 9) ?bs = take 9 ?bs @ [?bs ! 9]"
    by (rule take_Suc_conv_app_nth) (use assms(1) in \<open>simp add: kLoopBuckets_def\<close>)
  ultimately have "?bs = take 9 ?bs @ [sint (ds_loopBucket s ! 9)]" using assms(1) by (simp add: kLoopBuckets_def)
  then have "sum_list ?bs = sum_list (take 9 ?bs @ [sint (ds_loopBucket s ! 9)])" by (rule arg_cong)
  then have split: "sum_list ?bs = sum_list (take 9 ?bs) + sint (ds_loopBucket s ! 9)" by (simp only: sum_list_append sum_list.Cons sum_list.Nil add_0_right)
  show ?thesis
  proof (cases "0 < sum_list ?bs")
    case True
    have "loop_ok s \<longleftrightarrow> 99 * sum_list ?bs \<le> 100 * sum_list (take 9 ?bs)"
      using p99_edge [OF nn len True e(1-3)] by (simp add: loop_ok_def e(4))
    then show ?thesis using True split by linarith
  next
    case False
    then have "sum_list ?bs = 0" using sum_list_nonneg [of ?bs] nn by force
    then show ?thesis by (simp add: loop_ok_def p99Of_def)
  qed
qed

theorem loop_gate_exact_witness:
  "loop_ok (zero_dummy_stats\<lparr>ds_loopBucket := [99, 0, 0, 0, 0, 0, 0, 0, 0, 1]\<rparr>) \<and>
   \<not> loop_ok (zero_dummy_stats\<lparr>ds_loopBucket := [98, 0, 0, 0, 0, 0, 0, 0, 0, 1]\<rparr>)"
  using loop_gate_exact [of "zero_dummy_stats\<lparr>ds_loopBucket := [99, 0, 0, 0, 0, 0, 0, 0, 0, 1]\<rparr>"]
    loop_gate_exact [of "zero_dummy_stats\<lparr>ds_loopBucket := [98, 0, 0, 0, 0, 0, 0, 0, 0, 1]\<rparr>"]
  by (simp add: kLoopBuckets_def)


section \<open>Options and threads\<close>

text \<open>C38. The tidied size range suits the protocol whenever the smallest size asked for is at most 1024:
  every packet then has a whole header and is accepted by the server. A larger one slips through,
  since the upper end is raised again to the lower one: then every packet is longer than the 1024
  bytes of the buffer it is built in.\<close>

theorem tidy_sizes_exact:
  assumes "cf_pktMin cf < 65536"
  defines "cf' \<equiv> tidy_sizes cf"
  shows "(cf_pktMin cf \<le> int MAX_PACKET_SIZE \<longrightarrow> size_range_ok cf' \<and>
      (\<forall>seed q. int kEchoMin \<le> int (unat (EchoSizeFor cf' seed q)) \<and> int (unat (EchoSizeFor cf' seed q)) \<le> int MAX_PACKET_SIZE)) \<and>
    (int MAX_PACKET_SIZE < cf_pktMin cf \<longrightarrow> (\<forall>seed q. int MAX_PACKET_SIZE < int (unat (EchoSizeFor cf' seed q))))"
proof -
  have ok: "size_range_ok cf'" if "cf_pktMin cf \<le> int MAX_PACKET_SIZE"
    using that by (auto simp: cf'_def tidy_sizes_def size_range_ok_def Let_def kEchoMin_def MAX_PACKET_SIZE_def)
  have "int kEchoMin \<le> int (unat (EchoSizeFor cf' seed q)) \<and> int (unat (EchoSizeFor cf' seed q)) \<le> int MAX_PACKET_SIZE"
    if "cf_pktMin cf \<le> int MAX_PACKET_SIZE" for seed q
    using EchoSizeFor_bounds [OF ok [OF that], of seed q] ok [OF that] unfolding size_range_ok_def by linarith
  moreover have "int (unat (EchoSizeFor cf' seed q)) = cf_pktMin cf" if "int MAX_PACKET_SIZE < cf_pktMin cf" for seed q
  proof -
    have "EchoSizeFor cf' seed q = word_of_int (cf_pktMin cf)"
      using that by (simp add: cf'_def tidy_sizes_def EchoSizeFor_def Let_def kEchoMin_def MAX_PACKET_SIZE_def)
    then show ?thesis using assms(1) that by (simp add: unsigned_of_int take_bit_int_eq_self MAX_PACKET_SIZE_def)
  qed
  ultimately show ?thesis using ok by simp
qed

theorem tidy_sizes_exact_witness:
  "size_range_ok (tidy_sizes default_config) \<and>
   int MAX_PACKET_SIZE < int (unat (EchoSizeFor (tidy_sizes (default_config\<lparr>cf_pktMin := 2000\<rparr>)) 1 1))"
  using tidy_sizes_exact [of default_config] tidy_sizes_exact [of "default_config\<lparr>cf_pktMin := 2000\<rparr>"]
  by (simp add: default_config_def MAX_PACKET_SIZE_def)

lemma sum_shares:
  "0 \<le> e \<Longrightarrow> sum_list (map (\<lambda>t. p + (if int t < e then 1 else 0)) [0..<n]) = int n * p + min (int n) e"
  by (induction n) (auto simp: algebra_simps min_def)

lemma share_bound:
  fixes s n :: int
  assumes "0 < n" "s \<le> 1500 * n"
  shows "s div n + (if x < s mod n then 1 else 0) \<le> 1500 \<or> x < 0"
proof -
  have e: "s = n * (s div n) + s mod n" "0 \<le> s mod n" using assms(1) by simp_all
  have "s div n \<le> 1500"
  proof (rule ccontr)
    assume "\<not> ?thesis"
    then have "n * 1501 \<le> n * (s div n)" using assms(1) by (intro mult_left_mono) auto
    then show False using e assms by linarith
  qed
  moreover have "s mod n = 0" if "s div n = 1500" using e assms(2) unfolding that by linarith
  ultimately show ?thesis by (cases "s div n = 1500") auto
qed

lemma thread_count_default: "0 < sessions \<Longrightarrow> threads \<le> 0 \<Longrightarrow> thread_count sessions threads = (sessions + 1499) div 1500"
  using sdiv_nonneg [of "sessions + 1499" 1500] by (simp add: thread_count_def)

lemma thread_count_positive:
  assumes "0 < sessions"
  shows "0 < thread_count sessions threads"
proof (cases "threads \<le> 0")
  case True
  have "0 < (sessions + 1499) div 1500" using assms by linarith
  then show ?thesis using thread_count_default [OF assms True] by simp
next
  case False
  then show ?thesis by (simp add: thread_count_def)
qed

lemma split_sessions_shares:
  "0 < n \<Longrightarrow> 0 \<le> sessions \<Longrightarrow>
   split_sessions sessions n = Some (map (\<lambda>t. sessions div n + (if int t < sessions mod n then 1 else 0)) [0..<nat n])"
  using sdiv_nonneg [of sessions n] smod_nonneg [of sessions n] by (simp add: split_sessions_def Let_def)

text \<open>The sessions are divided over the threads without loss: with at least one session there is at
  least one thread, the shares add up to the sessions, and with the default number of threads none
  exceeds 1500, the limit up to which a thread's measurement is valid. Without a session the
  default number of threads is zero and the program divides by it.\<close>

theorem split_sessions_exact:
  assumes "- 1500 < sessions"
  shows "(0 < sessions \<longrightarrow> (\<exists>cs. split_sessions sessions (thread_count sessions threads) = Some cs \<and>
      length cs = nat (thread_count sessions threads) \<and> sum_list cs = sessions \<and> (threads \<le> 0 \<longrightarrow> (\<forall>c\<in>set cs. c \<le> 1500)))) \<and>
    (sessions \<le> 0 \<longrightarrow> threads \<le> 0 \<longrightarrow> split_sessions sessions (thread_count sessions threads) = None)"
proof (cases "0 < sessions")
  case True
  define n where "n = thread_count sessions threads"
  note n = thread_count_positive [OF True, of threads, folded n_def]
  let ?f = "\<lambda>t. sessions div n + (if int t < sessions mod n then 1 else 0)"
  have sp: "split_sessions sessions n = Some (map ?f [0..<nat n])" using split_sessions_shares [OF n] True by simp
  have "sum_list (map ?f [0..<nat n]) = n * (sessions div n) + sessions mod n"
    using n pos_mod_bound [OF n, of sessions] unfolding sum_shares [OF pos_mod_sign [OF n]] by simp
  then have "sum_list (map ?f [0..<nat n]) = sessions" by simp
  moreover have "?f t \<le> 1500" if "threads \<le> 0" for t
  proof -
    have "sessions \<le> 1500 * ((sessions + 1499) div 1500)" by linarith
    then have "sessions \<le> 1500 * n" using thread_count_default [OF True that] by (simp add: n_def)
    then show ?thesis using share_bound [OF n, of sessions "int t"] by simp
  qed
  ultimately show ?thesis using sp True unfolding n_def [symmetric] by auto
next
  case False
  have "thread_count sessions threads = 0" if "threads \<le> 0"
  proof -
    have "\<bar>sessions + 1499\<bar> < 1500" using assms False by linarith
    then show ?thesis using that sdiv_small [of "sessions + 1499" 1500] by (simp only: thread_count_def if_True)
  qed
  then show ?thesis using False by (simp add: split_sessions_def)
qed

theorem split_sessions_exact_witness:
  "\<exists>cs. split_sessions 4000 (thread_count 4000 0) = Some cs \<and> sum_list cs = 4000 \<and> (\<forall>c\<in>set cs. c \<le> 1500)"
  using split_sessions_exact [of 4000 0] by auto

end
