(* ===== verification/MetricsText.thy ===== *)
theory MetricsText
  imports GameWorker Decimal
begin

text \<open>
  The text exposition of the metrics (Metrics.cpp, \<open>BuildText\<close>): one line per counter, the oversleep
  histograms in cumulative form, the processor time of the registered threads. The properties say
  that a scraper reads back the counters, and that the histograms are histograms.
\<close>

section \<open>Lines\<close>

definition NL :: char where "NL = CHR 0x0A"
definition SP :: char where "SP = CHR 0x20"

definition quoted :: "string \<Rightarrow> string" where
  "quoted s = CHR 0x22 # s @ [CHR 0x22]"

text \<open>\<open>snprintf\<close> into the buffer of 128 characters, the last of which is the terminator.\<close>

definition put :: "string \<Rightarrow> int \<Rightarrow> string" where
  "put name v = take 127 (name @ SP # dec v @ [NL])"

text \<open>The counters with a line of their own, in order; the active sessions are derived from two of them.\<close>

definition scalars :: "(string \<times> (Counters \<Rightarrow> i64)) list" where
  "scalars = [
     (''belt_up'', mt_up), (''belt_accepts_total'', mt_accepts), (''belt_disconnects_total'', mt_disconnects),
     (''belt_sessions_active'', \<lambda>g. mt_accepts g - mt_disconnects g),
     (''belt_recv_bytes_total'', mt_recvBytes), (''belt_send_bytes_total'', mt_sendBytes),
     (''belt_ring_split_read_total'', mt_ringSplitRead), (''belt_ring_split_send_total'', mt_ringSplitSend),
     (''belt_partial_send_total'', mt_partialSend), (''belt_epollout_arm_total'', mt_epolloutArm),
     (''belt_send_ring_full_total'', mt_sendRingFull), (''belt_frame_wait_total'', mt_frameWait),
     (''belt_joins_total'', mt_joins), (''belt_join_fails_total'', mt_joinFails),
     (''belt_rooms_created_total'', mt_roomsCreated), (''belt_rooms_active'', mt_roomsActive),
     (''belt_room_moves_total'', mt_roomMoves), (''belt_inputs_queued_total'', mt_inputsQueued),
     (''belt_input_ring_drops_total'', mt_inputRingDrops), (''belt_input_neutralized_total'', mt_inputNeutralized),
     (''belt_snapshots_sent_total'', mt_snapshotsSent), (''belt_snapshots_dropped_total'', mt_snapshotsDropped)]"

definition occupancy_key :: "nat \<Rightarrow> string" where
  "occupancy_key i = ''belt_input_ring_occupancy{n='' @ quoted (dec (int i)) @ ''}''"

definition worker_key :: "string \<Rightarrow> nat \<Rightarrow> string" where
  "worker_key name w = name @ ''{worker='' @ quoted (dec (int w)) @ ''}''"

definition bucket_key :: "nat \<Rightarrow> string \<Rightarrow> string" where
  "bucket_key w edge = ''belt_game_oversleep_us_bucket{worker='' @ quoted (dec (int w)) @ '',le='' @ quoted edge @ ''}''"

text \<open>The running sums of the buckets.\<close>

fun cumulative :: "i64 \<Rightarrow> i64 list \<Rightarrow> i64 list" where
  "cumulative c [] = []"
| "cumulative c (b # bs) = (c + b) # cumulative (c + b) bs"

definition worker_samples :: "nat \<Rightarrow> GameWorkerStats \<Rightarrow> (string \<times> i64) list" where
  "worker_samples w gw =
     [(worker_key ''belt_game_ticks_total'' w, g_ticks gw), (worker_key ''belt_game_wakes_total'' w, g_wakes gw),
      (worker_key ''belt_game_skipped_ticks_total'' w, g_skippedTicks gw), (worker_key ''belt_game_rebases_total'' w, g_rebases gw),
      (worker_key ''belt_game_oversleep_max_ns'' w, g_oversleepMaxNs gw)]
     @ map2 (\<lambda>e c. (bucket_key w e, c)) (map dec kOversleepBucketUs @ [''+Inf''])
         (cumulative 0 (take kOversleepBuckets (g_oversleepBucket gw)))"

definition thread_key :: "string \<Rightarrow> string" where
  "thread_key name = ''belt_thread_cpu_ns{thread='' @ quoted name @ ''}''"

text \<open>The samples in the order of the text; a thread whose clock cannot be read is left out.\<close>

definition samples :: "Counters \<Rightarrow> (string \<times> i64 option) list \<Rightarrow> (string \<times> i64) list" where
  "samples g threads =
     map (\<lambda>(k, f). (k, f g)) scalars
     @ map (\<lambda>i. (occupancy_key i, mt_inputRingOcc g ! i)) [0..<9]
     @ concat (map (\<lambda>w. worker_samples w (mt_game g ! w)) [0..<nat (min (sint (mt_gameWorkerCount g)) (int kMaxGameWorkers))])
     @ concat (map (\<lambda>(n, t). case t of None \<Rightarrow> [] | Some ns \<Rightarrow> [(thread_key n, ns)]) threads)"

definition BuildText :: "Counters \<Rightarrow> (string \<times> i64 option) list \<Rightarrow> string" where
  "BuildText g threads = concat (map (\<lambda>(k, v). put k (sint v)) (samples g threads))"

text \<open>
  The threads announce themselves with their names and the identifier of their processor clock, if
  it can be had; the names are cut to the fifteen characters of their buffer. A scrape reads the
  clocks.
\<close>

definition RegisterThisThread :: "string \<Rightarrow> 'c option \<Rightarrow> (string \<times> 'c) list \<Rightarrow> (string \<times> 'c) list" where
  "RegisterThisThread name cid s_threads = (case cid of None \<Rightarrow> s_threads | Some c \<Rightarrow> s_threads @ [(name, c)])"

definition thread_name :: "string \<Rightarrow> nat \<Rightarrow> string" where
  "thread_name kind k = take 15 (kind @ dec (int k))"

definition read_clocks :: "('c \<Rightarrow> i64 option) \<Rightarrow> (string \<times> 'c) list \<Rightarrow> (string \<times> i64 option) list" where
  "read_clocks clock s_threads = map (\<lambda>(n, c). (n, clock c)) s_threads"

section \<open>Reading the text back\<close>

fun lines_of :: "string \<Rightarrow> string \<Rightarrow> string list" where
  "lines_of acc [] = (if acc = [] then [] else [rev acc])"
| "lines_of acc (c # s) = (if c = NL then rev acc # lines_of [] s else lines_of (c # acc) s)"

definition read_line :: "string \<Rightarrow> string \<times> int" where
  "read_line l = (takeWhile (\<lambda>c. c \<noteq> SP) l, atoi (dropWhile (\<lambda>c. c \<noteq> SP) l))"

definition scrape :: "string \<Rightarrow> (string \<times> int) list" where
  "scrape text = map read_line (lines_of [] text)"

definition plain :: "nat \<Rightarrow> string \<Rightarrow> bool" where
  "plain n k \<longleftrightarrow> length k \<le> n \<and> list_all (\<lambda>c. c \<noteq> SP \<and> c \<noteq> NL) k"

lemma plain_append: "plain m k \<Longrightarrow> plain n l \<Longrightarrow> plain (m + n) (k @ l)"
  by (simp add: plain_def)

lemma plain_mono: "plain m k \<Longrightarrow> m \<le> n \<Longrightarrow> plain n k"
  by (simp add: plain_def)

lemma plain_quoted: "plain n s \<Longrightarrow> plain (n + 2) (quoted s)"
  by (simp add: plain_def quoted_def SP_def NL_def)

lemma dec_plain: "list_all (\<lambda>c. c \<noteq> SP \<and> c \<noteq> NL) (dec v)"
proof -
  have "\<not> is_digit SP" "\<not> is_digit NL" by (simp_all add: is_digit_def SP_def NL_def)
  then have "list_all (\<lambda>c. c \<noteq> SP \<and> c \<noteq> NL) (dec_nat n)" for n
    using dec_nat_digits(1) [of n] by (auto simp: list_all_iff)
  then show ?thesis by (simp add: dec_def SP_def NL_def)
qed

lemma plain_dec_small: "i < 100 \<Longrightarrow> plain 2 (dec (int i))"
  using length_dec_nat [of i 2] dec_plain [of "int i"] by (simp add: plain_def dec_def)

lemma lines_of_line: "NL \<notin> set l \<Longrightarrow> lines_of acc (l @ NL # s) = (rev acc @ l) # lines_of [] s"
  by (induction l arbitrary: acc) auto

lemma atoi_space: "atoi (SP # s) = atoi s"
  by (simp add: atoi_def is_space_def SP_def)

lemma sint_range: "- (2 ^ 63) \<le> sint (v :: i64)" "sint (v :: i64) < 2 ^ 63"
  using sint_ge [of v] sint_lt [of v] by simp_all

lemma put_whole: "plain 105 k \<Longrightarrow> put k (sint (v :: i64)) = k @ SP # dec (sint v) @ [NL]"
proof -
  assume "plain 105 k"
  then have "length (k @ SP # dec (sint v) @ [NL]) \<le> 127"
    using length_dec_i64 [OF sint_range, of v] by (simp add: plain_def)
  then show ?thesis by (simp only: put_def take_all)
qed

lemma scrape_put: "plain 105 k \<Longrightarrow> scrape (put k (sint (v :: i64)) @ s) = (k, sint v) # scrape s"
proof -
  assume p: "plain 105 k"
  have nl: "NL \<notin> set (k @ SP # dec (sint v))"
    using p dec_plain [of "sint v"] by (auto simp: plain_def list_all_iff SP_def NL_def)
  have e: "put k (sint v) @ s = (k @ SP # dec (sint v)) @ NL # s" by (simp add: put_whole [OF p])
  have "scrape (put k (sint v) @ s) = read_line (k @ SP # dec (sint v)) # scrape s"
    unfolding scrape_def e lines_of_line [OF nl] by simp
  moreover have "read_line (k @ SP # dec (sint v)) = (k, sint v)"
    using p by (auto simp: read_line_def plain_def list_all_iff takeWhile_append dropWhile_append atoi_space)
  ultimately show ?thesis by simp
qed

lemma scrape_puts:
  "\<forall>(k, v)\<in>set xs. plain 105 k \<Longrightarrow> scrape (concat (map (\<lambda>(k, v). put k (sint (v :: i64))) xs)) = map (\<lambda>(k, v). (k, sint v)) xs"
  by (induction xs) (auto simp: scrape_put, simp add: scrape_def)

lemma plain_thread_name:
  assumes "kind \<in> {''epoll'', ''game''}"
  shows "plain 70 (thread_name kind k)"
proof -
  have "list_all (\<lambda>c. c \<noteq> SP \<and> c \<noteq> NL) (kind @ dec (int k))"
    using assms dec_plain [of "int k"] by (elim insertE emptyE) (simp_all add: SP_def NL_def)
  moreover have "set (thread_name kind k) \<subseteq> set (kind @ dec (int k))" unfolding thread_name_def by (rule set_take_subset)
  moreover have "length (thread_name kind k) \<le> 70" by (simp add: thread_name_def)
  ultimately show ?thesis unfolding plain_def list_all_iff by blast
qed

lemma scalar_keys: "\<forall>(k, f)\<in>set scalars. plain 105 k"
proof -
  have "list_all (plain 105) (map fst scalars)" by code_simp
  then show ?thesis by (auto simp: list_all_iff)
qed

lemma plain_number: "w < 100 \<Longrightarrow> plain (2 + 2) (quoted (dec (int w)))"
  by (rule plain_quoted [OF plain_dec_small])

lemma plain_parts:
  "plain 28 ''belt_input_ring_occupancy{n=''" "plain 28 ''belt_thread_cpu_ns{thread=''" "plain 8 ''{worker=''"
  "plain 37 ''belt_game_oversleep_us_bucket{worker=''" "plain 4 '',le=''" "plain 1 ''}''"
  by code_simp+

lemma plain_worker_key:
  assumes "w < 100" "plain 40 n"
  shows "plain 105 (worker_key n w)"
proof -
  have "plain (40 + (8 + ((2 + 2) + 1))) (worker_key n w)"
    unfolding worker_key_def by (intro plain_append assms plain_number plain_parts)
  then show ?thesis by (rule plain_mono) simp
qed

lemma plain_bucket_key:
  assumes "w < 100" "plain 5 e"
  shows "plain 105 (bucket_key w e)"
proof -
  have "plain (37 + ((2 + 2) + (4 + ((5 + 2) + 1)))) (bucket_key w e)"
    unfolding bucket_key_def by (intro plain_append assms plain_number plain_parts plain_quoted)
  then show ?thesis by (rule plain_mono) simp
qed

lemma plain_edges: "e \<in> set (map dec kOversleepBucketUs @ [''+Inf'']) \<Longrightarrow> plain 5 e"
proof -
  assume e: "e \<in> set (map dec kOversleepBucketUs @ [''+Inf''])"
  have "\<forall>b\<in>set kOversleepBucketUs. 0 \<le> b \<and> nat b < 10 ^ 5" by (simp add: kOversleepBucketUs_def)
  then have "plain 5 (dec b)" if "b \<in> set kOversleepBucketUs" for b
  proof -
    have "\<not> b < 0" "length (dec_nat (nat b)) \<le> 5"
      using that \<open>\<forall>b\<in>set kOversleepBucketUs. 0 \<le> b \<and> nat b < 10 ^ 5\<close> by (auto intro: length_dec_nat)
    then show ?thesis using dec_plain [of b] by (simp add: plain_def dec_def)
  qed
  moreover have "plain 5 ''+Inf''" by code_simp
  ultimately show ?thesis using e by auto
qed

lemma worker_keys:
  assumes "w < 100" "(k, v) \<in> set (worker_samples w gw)"
  shows "plain 105 k"
proof -
  have names: "plain 40 ''belt_game_ticks_total''" "plain 40 ''belt_game_wakes_total''" "plain 40 ''belt_game_skipped_ticks_total''"
     "plain 40 ''belt_game_rebases_total''" "plain 40 ''belt_game_oversleep_max_ns''" by code_simp+
  let ?es = "map dec kOversleepBucketUs @ [''+Inf'']"
  have "plain 105 k" if m: "(k, v) \<in> set (map2 (\<lambda>e c. (bucket_key w e, c)) ?es cs)" for cs
  proof -
    obtain e where "e \<in> set ?es" "k = bucket_key w e" using m by (auto simp del: set_append map_append dest: set_zip_leftD)
    then show ?thesis using plain_bucket_key [OF assms(1) plain_edges] by blast
  qed
  moreover have "k \<in> {worker_key ''belt_game_ticks_total'' w, worker_key ''belt_game_wakes_total'' w, worker_key ''belt_game_skipped_ticks_total'' w,
     worker_key ''belt_game_rebases_total'' w, worker_key ''belt_game_oversleep_max_ns'' w} \<or>
     (k, v) \<in> set (map2 (\<lambda>e c. (bucket_key w e, c)) ?es (cumulative 0 (take kOversleepBuckets (g_oversleepBucket gw))))"
    using assms(2) unfolding worker_samples_def set_append by (elim UnE) (simp only: list.set insert_iff prod.inject empty_iff, blast, blast)
  ultimately show ?thesis using plain_worker_key [OF assms(1)] names by blast
qed

lemma BuildText_scrapes:
  assumes "\<forall>(n, t)\<in>set threads. plain 70 n"
  shows "scrape (BuildText g threads) = map (\<lambda>(k, v). (k, sint v)) (samples g threads)"
  unfolding BuildText_def
proof (rule scrape_puts, safe)
  fix k v assume "(k, v) \<in> set (samples g threads)"
  then consider "k \<in> fst ` set scalars" | i where "i < 9" "k = occupancy_key i"
    | w where "w < kMaxGameWorkers" "(k, v) \<in> set (worker_samples w (mt_game g ! w))" | n t where "(n, t) \<in> set threads" "k = thread_key n"
    unfolding samples_def set_append
  proof (elim UnE)
    assume "(k, v) \<in> set (map (\<lambda>(k, f). (k, f g)) scalars)"
    then have "k \<in> fst ` set scalars" by force
    then show thesis by (rule that(1))
  next
    assume "(k, v) \<in> set (map (\<lambda>i. (occupancy_key i, mt_inputRingOcc g ! i)) [0..<9])"
    then show thesis using that(2) by fastforce
  next
    assume "(k, v) \<in> set (concat (map (\<lambda>w. worker_samples w (mt_game g ! w)) [0..<nat (min (sint (mt_gameWorkerCount g)) (int kMaxGameWorkers))]))"
    then obtain w where "w < nat (min (sint (mt_gameWorkerCount g)) (int kMaxGameWorkers))" "(k, v) \<in> set (worker_samples w (mt_game g ! w))"
      unfolding set_concat set_map set_upt by auto
    moreover from this(1) have "w < kMaxGameWorkers" by linarith
    ultimately show thesis by (intro that(3))
  next
    assume "(k, v) \<in> set (concat (map (\<lambda>(n, t). case t of None \<Rightarrow> [] | Some ns \<Rightarrow> [(thread_key n, ns)]) threads))"
    then obtain n t where "(n, t) \<in> set threads" "(k, v) \<in> set (case t of None \<Rightarrow> [] | Some ns \<Rightarrow> [(thread_key n, ns)])" by auto
    then show thesis using that(4) [of n t] by (cases t) auto
  qed
  then show "plain 105 k"
  proof cases
    case 1
    then show ?thesis using scalar_keys by auto
  next
    case 2
    have "plain (28 + ((2 + 2) + 1)) k"
      unfolding 2(2) occupancy_key_def by (intro plain_append plain_number plain_parts) (use 2(1) in simp)
    then show ?thesis by (rule plain_mono) simp
  next
    case 3
    show ?thesis by (rule worker_keys [OF _ 3(2)]) (use 3(1) in \<open>simp add: kMaxGameWorkers_def\<close>)
  next
    case 4
    then have "plain 70 n" using assms by auto
    then have "plain (28 + ((70 + 2) + 1)) k"
      unfolding 4(2) thread_key_def by (intro plain_append plain_quoted plain_parts) (use \<open>plain 70 n\<close> in simp)
    then show ?thesis by (rule plain_mono) simp
  qed
qed

lemma BuildText_length: "length (BuildText g threads) \<le> 127 * length (samples g threads)"
proof -
  have "length (concat (map (\<lambda>(k, v). put k (sint v)) xs)) \<le> 127 * length xs" for xs :: "(string \<times> i64) list"
    by (induction xs) (auto simp: put_def)
  then show ?thesis by (simp add: BuildText_def)
qed

text \<open>A scraper reads back what the server counted: no line of the metrics is cut by the buffer of
  128 characters, and parsing the text gives every name once with its value, as long as the names
  of the threads are short and without blanks, as those of the program are.\<close>

theorem scrape_exact:
  assumes "\<forall>(n, t)\<in>set threads. plain 70 n"
  shows "scrape (BuildText g threads) = map (\<lambda>(k, v). (k, sint v)) (samples g threads)"
  by (rule BuildText_scrapes [OF assms])

theorem scrape_exact_witness:
  "scrape (BuildText zero_counters [(''main'', Some 7)]) = map (\<lambda>(k, v). (k, sint v)) (samples zero_counters [(''main'', Some 7)])"
  using scrape_exact [of "[(''main'', Some 7)]" zero_counters] by (simp add: plain_def SP_def NL_def)


section \<open>Histograms\<close>

definition hist_ok :: "GameWorkerStats \<Rightarrow> bool" where
  "hist_ok gw \<longleftrightarrow> length (g_oversleepBucket gw) = kOversleepBuckets \<and> sum_list (g_oversleepBucket gw) = g_wakes gw"

lemma last_cumulative: "bs \<noteq> [] \<Longrightarrow> last (cumulative c bs) = c + sum_list bs"
proof (induction bs arbitrary: c)
  case (Cons b bs)
  then show ?case by (cases bs) simp_all
qed simp

lemma length_cumulative [simp]: "length (cumulative c bs) = length bs"
  by (induction bs arbitrary: c) simp_all

lemma bucket_from_le: "bucket_from es us \<le> length es"
  by (induction es) simp_all

lemma sum_list_Inc: "i < length bs \<Longrightarrow> sum_list (upd_at i Inc bs) = sum_list bs + (1 :: i64)"
proof (induction bs arbitrary: i)
  case (Cons b bs)
  then show ?case by (cases i) (simp_all add: upd_at_def Inc_def)
qed simp

text \<open>The oversleep histograms are consistent: from start-up on, recording a wake-up adds one sample
  to exactly one bucket, so the cumulative line of the open-ended bucket always shows the number of
  wake-ups that the line of their counter shows.\<close>

theorem histogram_counts_wakes:
  "hist_ok zero_stats \<and> (hist_ok gw \<longrightarrow> hist_ok (RecordOversleep ns gw) \<and>
     last (worker_samples w gw) = (bucket_key w ''+Inf'', g_wakes gw))"
proof -
  have z: "hist_ok zero_stats" by (simp add: hist_ok_def zero_stats_def kOversleepBuckets_def numeral_eq_Suc)
  have r: "hist_ok (RecordOversleep ns gw)" if "hist_ok gw"
  proof -
    have "bucket_from kOversleepBucketUs (ns div 1000) < length (g_oversleepBucket gw)"
      using that bucket_from_le [of kOversleepBucketUs "ns div 1000"]
      by (simp add: hist_ok_def kOversleepBuckets_def kOversleepBucketUs_def)
    then show ?thesis using that by (simp add: hist_ok_def RecordOversleep_def sum_list_Inc) (simp add: Inc_def)
  qed
  have "last (worker_samples w gw) = (bucket_key w ''+Inf'', g_wakes gw)" if h: "hist_ok gw"
  proof -
    let ?bs = "take kOversleepBuckets (g_oversleepBucket gw)"
    let ?es = "map dec kOversleepBucketUs @ [''+Inf'']"
    have l: "length ?es = length (cumulative 0 ?bs)" "?bs \<noteq> []" "?bs = g_oversleepBucket gw"
      using h by (auto simp: hist_ok_def kOversleepBuckets_def kOversleepBucketUs_def)
    have "cumulative 0 ?bs \<noteq> []" using l(2) by (cases ?bs) simp_all
    moreover have "?es \<noteq> []" by simp
    ultimately have "last (zip ?es (cumulative 0 ?bs)) = (last ?es, last (cumulative 0 ?bs))" by (intro last_zip l(1))
    moreover have "last (cumulative 0 ?bs) = g_wakes gw"
      using last_cumulative [OF l(2), of 0] l(3) h by (simp add: hist_ok_def)
    moreover have "zip ?es (cumulative 0 ?bs) \<noteq> []" using \<open>cumulative 0 ?bs \<noteq> []\<close> \<open>?es \<noteq> []\<close> by (metis list.size(3) length_0_conv length_zip min_def l(1))
    ultimately show ?thesis unfolding worker_samples_def by (simp add: last_map)
  qed
  then show ?thesis using z r by blast
qed

theorem histogram_counts_wakes_witness:
  "last (worker_samples 0 (RecordOversleep 70000 zero_stats)) = (bucket_key 0 ''+Inf'', 1)"
  using histogram_counts_wakes [of zero_stats 70000 0] histogram_counts_wakes [of "RecordOversleep 70000 zero_stats" 0 0]
  by (simp add: RecordOversleep_def zero_stats_def Inc_def)

end
