(* ===== verification/Dummy_Hist.thy ===== *)
theory Dummy_Hist
  imports DummyText
begin

text \<open>
  The histograms of the load generator: in every state of a worker thread the buckets of the loop
  times add up to the number of rounds, and those of the round trips to the number of echoes, both
  in what the thread has gathered and in the totals.
\<close>

section \<open>The counters of the histograms\<close>

definition hview :: "DummyWorker \<Rightarrow> (i64 \<times> i64 list) list" where
  "hview W = [(lc_loops (wk_local W), lc_buckets (wk_local W)), (lc_echoRecv (wk_local W), lc_rttBuckets (wk_local W)),
     (ds_loops (wk_stats W), ds_loopBucket (wk_stats W)), (ds_echoRecv (wk_stats W), ds_rttBucket (wk_stats W))]"

definition tally :: "i64 \<times> i64 list \<Rightarrow> bool" where
  "tally p \<longleftrightarrow> length (snd p) = 10 \<and> sum_list (snd p) = fst p"

definition tallied :: "DummyWorker \<Rightarrow> bool" where
  "tallied W \<longleftrightarrow> list_all tally (hview W)"

text \<open>What leaves the counters of the histograms alone.\<close>

definition quiet :: "DummyWorker \<Rightarrow> DummyWorker \<Rightarrow> bool" where
  "quiet W W' \<longleftrightarrow> hview W' = hview W"

named_theorems hush

lemma quiet_refl [hush]: "quiet W W" by (simp add: quiet_def)

lemma quiet_trans: "quiet W W' \<Longrightarrow> quiet W' W'' \<Longrightarrow> quiet W W''" by (simp add: quiet_def)

lemma quiet_then [hush]:
  "quiet W W' \<Longrightarrow> quiet W (upd_client i f W')" "quiet W W' \<Longrightarrow> quiet W (dk_update g W')" "quiet W W' \<Longrightarrow> quiet W (did e W')"
  "quiet W W' \<Longrightarrow> quiet W (DumpViolation kind i q W')" "quiet W W' \<Longrightarrow> quiet W (fail_fast W')" "quiet W W' \<Longrightarrow> quiet W (snd (NowNs W'))"
  "quiet W W' \<Longrightarrow> quiet W (snd (watch z ev W'))" "quiet W W' \<Longrightarrow> quiet W (W'\<lparr>wk_nextToConnect := k\<rparr>)"
  by (simp_all add: quiet_def hview_def upd_client_def dk_update_def did_def DumpViolation_def fail_fast_def NowNs_def watch_def Let_def split: list.split)

lemma quiet_stat:
  assumes "\<And>s. ds_loops (f s) = ds_loops s \<and> ds_loopBucket (f s) = ds_loopBucket s \<and> ds_echoRecv (f s) = ds_echoRecv s \<and> ds_rttBucket (f s) = ds_rttBucket s"
  shows "quiet W W' \<Longrightarrow> quiet W (stat f W')"
  using assms by (simp add: quiet_def hview_def stat_def)

lemma quiet_loc:
  assumes "\<And>l. lc_loops (f l) = lc_loops l \<and> lc_buckets (f l) = lc_buckets l \<and> lc_echoRecv (f l) = lc_echoRecv l \<and> lc_rttBuckets (f l) = lc_rttBuckets l"
  shows "quiet W W' \<Longrightarrow> quiet W (loc f W')"
  using assms by (simp add: quiet_def hview_def loc_def)

text \<open>The counters that are not part of a histogram.\<close>

lemma quiet_counts [hush]:
  assumes "quiet W W'"
  shows "quiet W (stat (\<lambda>s. s\<lparr>ds_active := Add (- 1) (ds_active s)\<rparr>) W')"
    "quiet W (stat (\<lambda>s. s\<lparr>ds_serverClosed := Inc (ds_serverClosed s)\<rparr>) W')"
    "quiet W (stat (\<lambda>s. s\<lparr>ds_connectFail := Inc (ds_connectFail s)\<rparr>) W')"
    "quiet W (stat (\<lambda>s. s\<lparr>ds_pendOverflow := Inc (ds_pendOverflow s)\<rparr>) W')"
    "quiet W (stat (\<lambda>s. s\<lparr>ds_padError := Inc (ds_padError s)\<rparr>) W')"
    "quiet W (stat (\<lambda>s. s\<lparr>ds_lateArrival := Inc (ds_lateArrival s)\<rparr>) W')"
    "quiet W (stat (\<lambda>s. s\<lparr>ds_orderError := Inc (ds_orderError s)\<rparr>) W')"
    "quiet W (stat (\<lambda>s. s\<lparr>ds_joinOk := Inc (ds_joinOk s), ds_active := Inc (ds_active s)\<rparr>) W')"
    "quiet W (stat (\<lambda>s. s\<lparr>ds_active := Inc (ds_active s), ds_joinOk := Inc (ds_joinOk s)\<rparr>) W')"
    "quiet W (stat (\<lambda>s. s\<lparr>ds_joinFail := Inc (ds_joinFail s)\<rparr>) W')"
    "quiet W (stat (\<lambda>s. s\<lparr>ds_echoNotRecv := Inc (ds_echoNotRecv s)\<rparr>) W')"
    "quiet W (stat (\<lambda>s. s\<lparr>ds_reconnects := Inc (ds_reconnects s)\<rparr>) W')"
    "quiet W (loc (\<lambda>l. l\<lparr>lc_snapshots := Inc (lc_snapshots l)\<rparr>) W')"
    "quiet W (loc (\<lambda>l. l\<lparr>lc_inputs := Inc (lc_inputs l)\<rparr>) W')"
    "quiet W (loc (\<lambda>l. l\<lparr>lc_echoSent := Inc (lc_echoSent l)\<rparr>) W')"
  using assms by (auto intro!: quiet_stat quiet_loc)

section \<open>Quiet operations\<close>

lemma quiet_Kill [hush]: "quiet W W' \<Longrightarrow> quiet W (Kill i b W')"
  by (auto simp: Kill_def Let_def case_prod_beta intro!: hush)

lemma quiet_UpdateWrite [hush]: "quiet W W' \<Longrightarrow> quiet W (UpdateWrite i want W')"
  by (auto simp: UpdateWrite_def Let_def case_prod_beta intro!: hush)

lemma quiet_Send [hush]: "quiet W W' \<Longrightarrow> quiet W (Worker_SendBytes i bs W')"
  by (auto simp: Worker_SendBytes_def Let_def intro!: hush split: write_result.split)

lemma quiet_pend_loop [hush]: "quiet W W' \<Longrightarrow> quiet W (pend_loop i ws W')"
proof (induction ws arbitrary: W')
  case Nil
  then show ?case by (subst pend_loop.simps) (simp add: Let_def)
next
  case (Cons x ws)
  show ?case
    by (subst pend_loop.simps) (simp add: Let_def Cons.prems Cons.IH quiet_then quiet_Kill split: write_result.split)
qed

lemma quiet_SendEcho [hush]: "quiet W W' \<Longrightarrow> quiet W (SendEcho i W')"
  by (auto simp: SendEcho_def Let_def case_prod_beta intro!: hush)

lemma quiet_StartConnect [hush]: "quiet W W' \<Longrightarrow> quiet W (StartConnect i W')"
  by (auto simp: StartConnect_def plan_churn_def connect_refused_def Let_def case_prod_beta intro!: hush split: connect_result.split)

lemma quiet_plan_recv [hush]: "quiet W W' \<Longrightarrow> quiet W (plan_recv i W')"
  by (auto simp: plan_recv_def case_prod_beta intro!: hush)

lemma quiet_connected [hush]: "quiet W W' \<Longrightarrow> quiet W (connected i W')"
  by (auto simp: connected_def Let_def intro!: hush)

lemma quiet_checks [hush]: "quiet W W' \<Longrightarrow> quiet W (check_contents i eh fr W')" "quiet W W' \<Longrightarrow> quiet W (check_order i q W')"
  "quiet W W' \<Longrightarrow> quiet W (pad_violation k i q W')"
  by (auto simp: check_contents_def check_order_def pad_violation_def Let_def intro!: hush)

lemma quiet_turns [hush]: "quiet W W' \<Longrightarrow> quiet W (flag_silence t i W')" "quiet W W' \<Longrightarrow> quiet W (send_input i W')"
  "quiet W W' \<Longrightarrow> quiet W (attack_turn t i W')"
  by (auto simp: flag_silence_def send_input_def attack_turn_def Let_def intro!: hush)

lemma quiet_send_turn [hush]: "quiet W W' \<Longrightarrow> quiet W (send_turn t i W')"
  by (auto simp: send_turn_def Let_def intro!: hush)

lemma quiet_client_turn [hush]: "quiet W W' \<Longrightarrow> quiet W (client_turn t i W')"
  by (auto simp: client_turn_def Let_def intro!: hush)

lemma quiet_fold: "(\<And>x W'. quiet W W' \<Longrightarrow> quiet W (f x W')) \<Longrightarrow> quiet W W' \<Longrightarrow> quiet W (fold f xs W')"
  by (induction xs arbitrary: W') auto

lemma tallied_quiet: "tallied W \<Longrightarrow> quiet W W' \<Longrightarrow> tallied W'"
  by (simp add: tallied_def quiet_def)

section \<open>Operations that count\<close>

lemma tally_Inc: "tally (n, bs) \<Longrightarrow> i \<le> 9 \<Longrightarrow> tally (Inc n, upd_at i Inc bs)"
  by (simp add: tally_def sum_list_Inc) (simp add: Inc_def)

lemma tallied_note_echo: "tallied W \<Longrightarrow> tallied (note_echo i eh W)"
proof -
  assume t: "tallied W"
  obtain now W1 where n: "NowNs W = (now, W1)" by (cases "NowNs W")
  have t1: "tallied W1" using tallied_quiet [OF t quiet_then(6) [OF quiet_refl]] n by simp
  have "bucket_from kRttBucketUs us \<le> 9" for us using bucket_from_le [of kRttBucketUs us] by (simp add: kRttBucketUs_def)
  then show ?thesis
    using t1 tally_Inc
    by (simp add: note_echo_def n Let_def tallied_def hview_def loc_def upd_client_def)
qed

lemma tallied_handle_frame: "tallied W \<Longrightarrow> tallied (snd (handle_frame i fr W))"
proof -
  assume t: "tallied W"
  have e: "tallied (check_order i q (check_contents i eh fr (note_echo i eh W)))" for eh q
    by (rule tallied_quiet [OF tallied_note_echo [OF t, of i eh]]) (intro hush)
  have k: "tallied (Kill i False (pad_violation kind i q W))" "tallied (Kill i False (stat (\<lambda>s. s\<lparr>ds_joinFail := Inc (ds_joinFail s)\<rparr>) W))"
    "tallied (stat (\<lambda>s. s\<lparr>ds_joinOk := Inc (ds_joinOk s), ds_active := Inc (ds_active s)\<rparr>) (upd_client i f W))"
    "tallied (loc (\<lambda>l. l\<lparr>lc_snapshots := Inc (lc_snapshots l)\<rparr>) W)" for kind q f
    by (rule tallied_quiet [OF t], intro hush)+
  have "tallied (snd (handle_echo i fr W))"
    using e k tallied_note_echo [OF t] by (simp add: handle_echo_def Let_def)
  then show "tallied (snd (handle_frame i fr W))"
    using k t by (simp add: handle_frame_def split: option.split MsgType.split)
qed

lemma tallied_frames_loop: "tallied W \<Longrightarrow> tallied (snd (frames_loop i bs W))"
proof (induction i bs W rule: frames_loop.induct)
  case (1 i bs W)
  have "tallied (Kill i False W)" by (rule tallied_quiet [OF "1.prems"]) (intro hush)
  then show ?case
    using 1 tallied_handle_frame [OF "1.prems"] by (subst frames_loop.simps) (auto simp: Let_def)
qed

lemma tallied_recv_loop: "tallied W \<Longrightarrow> tallied (recv_loop i rs W)"
proof (induction rs arbitrary: W rule: recv_script_induct)
  case Nil
  have "tallied (Kill i False W)" by (rule tallied_quiet [OF Nil]) (intro hush)
  then show ?case using Nil by (simp add: recv_loop.simps)
next
  case (Cons x rs)
  have k: "tallied (dk_update g W)" "tallied (Kill i b W)" "tallied (Kill i b (dk_update g W))" "tallied (upd_client i f (dk_update g W))" for f g b
    by (rule tallied_quiet [OF Cons.prems], intro hush)+
  have "tallied (Worker_ParseFrames i W')" if "tallied W'" for W'
    using tallied_frames_loop [OF that, of i "c_recvBuf (Cl W' i)"] tallied_quiet [OF _ quiet_then(1) [OF quiet_refl]]
    by (auto simp: Worker_ParseFrames_def split: prod.split option.split)
  then show ?case using k Cons.IH by (subst recv_loop.simps(2)) (simp add: Let_def left_over_shrinks split: read_result.split)
qed

lemma tallied_OnEvent: "tallied W \<Longrightarrow> tallied (OnEvent i ev W)"
proof -
  assume t: "tallied W"
  define W1 where "W1 = (if ev AND EPOLLOUT \<noteq> 0
                   then (let W' = FlushPend i W in if c_pend (Cl W' i) = [] then UpdateWrite i False W' else W')
                   else W)"
  have "quiet W W1" by (auto simp: W1_def FlushPend_def Let_def intro!: hush)
  then have t1: "tallied W1" by (rule tallied_quiet [OF t])
  then have t2: "tallied (OnReadable i W1)"
    unfolding OnReadable_def using tallied_recv_loop tallied_quiet [OF t1 quiet_Kill [OF quiet_refl]] by simp
  have t3: "tallied (plan_recv i (snd (watch z e (OnReadable i W1))))" for z e
    by (rule tallied_quiet [OF t2]) (intro hush)
  have q: "tallied (Kill i True W)" "tallied (stat (\<lambda>s. s\<lparr>ds_connectFail := Inc (ds_connectFail s)\<rparr>) (Kill i False (dk_update g W)))"
    "tallied (connected i (dk_update g W))" for g
    by (rule tallied_quiet [OF t], intro hush)+
  show ?thesis unfolding OnEvent_def W1_def [symmetric] using t t1 t2 t3 q by (simp add: Let_def)
qed

lemma sum_map2_Add: "length xs = length ys \<Longrightarrow> sum_list (map2 Add xs ys) = sum_list xs + sum_list ys"
  by (induction xs ys rule: list_induct2) (simp_all add: Add_def algebra_simps)

lemma tally_zero: "tally (0, replicate 10 0)"
  by (simp add: tally_def sum_list_replicate)

lemma tallied_Flush: "tallied W \<Longrightarrow> tallied (Flush W)"
  using tally_zero
  by (simp add: tallied_def hview_def Flush_def Let_def zero_local_def kLoopBuckets_def kRttBuckets_def)
    (simp add: tally_def sum_map2_Add Add_def algebra_simps)

lemma tallied_round: "tallied (snd LW) \<Longrightarrow> tallied (snd (Worker_round es LW))"
proof -
  assume t: "tallied (snd LW)"
  have "quiet (snd LW) (ramp_up (snd LW))"
    unfolding ramp_up_def Let_def by (intro hush quiet_fold)
  define W1 where "W1 = snd (NowNs (ramp_up (snd LW)))"
  define ws where "ws = fst (NowNs (ramp_up (snd LW)))"
  have t1: "tallied W1" unfolding W1_def by (rule tallied_quiet [OF t]) (intro hush \<open>quiet (snd LW) (ramp_up (snd LW))\<close>)
  define W2 where "W2 = fold (\<lambda>e. OnEvent (fst e) (snd e)) es W1"
  have t2: "tallied W2"
    unfolding W2_def using t1 by (induction es arbitrary: W1) (simp_all add: tallied_OnEvent)
  define W3 where "W3 = fold (client_turn ws) [0..<length (wk_clients W2)] W2"
  have t3: "tallied (snd (NowNs W3))" unfolding W3_def by (rule tallied_quiet [OF t2]) (intro hush quiet_fold)
  have "bucket_from kLoopBucketUs us \<le> 9" for us using bucket_from_le [of kLoopBucketUs us] by (simp add: kLoopBucketUs_def)
  then have t4: "tallied (loc (note_work us) (snd (NowNs W3)))" for us
    using t3 tally_Inc by (simp add: tallied_def hview_def loc_def note_work_def)
  have t5: "tallied (snd (NowNs (loc (note_work us) (snd (NowNs W3)))))" for us by (rule tallied_quiet [OF t4 [of us]]) (intro hush)
  have "tallied (snd (NowNs (Flush (snd (NowNs (loc (note_work us) (snd (NowNs W3))))))))" for us
    by (rule tallied_quiet [OF tallied_Flush [OF t5 [of us]]]) (intro hush)
  then show ?thesis
    using t5 unfolding Worker_round_def case_prod_beta Let_def W1_def [symmetric] ws_def [symmetric] W2_def [symmetric] W3_def [symmetric] by simp
qed

lemma tallied_rounds: "tallied (snd LW) \<Longrightarrow> tallied (snd (Worker_rounds ess LW))"
proof (induction ess arbitrary: LW)
  case (Cons es ess)
  have t: "tallied (snd (NowNs (snd LW)))" by (rule tallied_quiet [OF Cons.prems]) (intro hush)
  then show ?case using Cons.IH tallied_round [of "(fst LW, snd (NowNs (snd LW)))" es] by (simp add: case_prod_beta)
qed simp

lemma tallied_Loop: "tallied W \<Longrightarrow> tallied (snd (Worker_Loop ess W))"
proof -
  assume t: "tallied W"
  define W2 where "W2 = snd (Worker_rounds ess (NowNs W))"
  have t2: "tallied W2"
    unfolding W2_def by (rule tallied_rounds) (rule tallied_quiet [OF t], intro hush)
  have "tallied (fold (\<lambda>i. Kill i False) [0..<length (wk_clients W2)] (Flush W2))"
    by (rule tallied_quiet [OF tallied_Flush [OF t2]]) (intro hush quiet_fold)
  then show ?thesis using t2 by (simp add: Worker_Loop_def W2_def case_prod_beta split: bool.split)
qed

section \<open>Property\<close>

lemma last_bucket:
  assumes "tally (n, bs)" "length edges = 9"
  shows "last (bucket_samples name edges bs) = (le_key name ''+Inf'', n)"
proof -
  let ?es = "map dec edges @ [''+Inf'']"
  have b: "bs \<noteq> []" "length ?es = length (cumulative 0 bs)" "cumulative 0 bs \<noteq> []"
    using assms length_cumulative [of 0 bs] by (auto simp: tally_def simp del: length_cumulative)
  then have "last (zip ?es (cumulative 0 bs)) = (''+Inf'', last (cumulative 0 bs))" by (subst last_zip) auto
  moreover have "last (cumulative 0 bs) = n" using last_cumulative [OF b(1), of 0] assms(1) by (simp add: tally_def)
  moreover have "zip ?es (cumulative 0 bs) \<noteq> []" using b by (metis append_is_Nil_conv length_0_conv not_Cons_self2 zip_eq_Nil_iff)
  ultimately show ?thesis unfolding bucket_samples_def by (simp add: last_map)
qed

text \<open>The histograms of the load generator are complete: whatever a worker thread has been through, from
  its start on and for whatever the system calls answered, the open-ended bucket of the loop times
  shows the number of rounds that the counter beside it shows, and that of the round trips the
  number of echoes received; so the percentile of the verdict is taken over all rounds.\<close>

theorem dummy_histograms_complete:
  fixes s :: DummyStats and k :: DummyKernel and clients deadlineNs :: int and x :: DummyOpts and t :: nat
    and ess :: "(nat \<times> u32) list list"
  assumes "tally (ds_loops s, ds_loopBucket s)" "tally (ds_echoRecv s, ds_rttBucket s)"
  defines "s' \<equiv> wk_stats (snd (Worker_Loop ess (Worker_Start t clients x deadlineNs s k)))"
  shows "last (bucket_samples ''dummy_loop_us_bucket'' kLoopBucketUs (ds_loopBucket s')) = (le_key ''dummy_loop_us_bucket'' ''+Inf'', ds_loops s') \<and>
    last (bucket_samples ''dummy_rtt_us_bucket'' kRttBucketUs (ds_rttBucket s')) = (le_key ''dummy_rtt_us_bucket'' ''+Inf'', ds_echoRecv s')"
proof -
  have "tallied (Worker_Start t clients x deadlineNs s k)"
    using assms(1,2) tally_zero by (simp add: tallied_def hview_def Worker_Start_def zero_local_def kLoopBuckets_def kRttBuckets_def)
  then have "tallied (snd (Worker_Loop ess (Worker_Start t clients x deadlineNs s k)))" by (rule tallied_Loop)
  then have "tally (ds_loops s', ds_loopBucket s')" "tally (ds_echoRecv s', ds_rttBucket s')"
    by (simp_all add: tallied_def hview_def s'_def)
  moreover have "length kLoopBucketUs = 9" "length kRttBucketUs = 9" by (simp_all add: kLoopBucketUs_def kRttBucketUs_def)
  ultimately show ?thesis using last_bucket by blast
qed

theorem dummy_histograms_complete_witness:
  "last (bucket_samples ''dummy_loop_us_bucket'' kLoopBucketUs (ds_loopBucket (wk_stats (snd (Worker_Loop [[], []]
     (Worker_Start 0 1 default_dummy_opts 50 zero_dummy_stats (quiet_kernel\<lparr>dk_now := [0, 1, 2, 3, 4, 60]\<rparr>))))))) =
   (le_key ''dummy_loop_us_bucket'' ''+Inf'', ds_loops (wk_stats (snd (Worker_Loop [[], []]
     (Worker_Start 0 1 default_dummy_opts 50 zero_dummy_stats (quiet_kernel\<lparr>dk_now := [0, 1, 2, 3, 4, 60]\<rparr>))))))"
proof -
  have z: "tally (ds_loops zero_dummy_stats, ds_loopBucket zero_dummy_stats)" "tally (ds_echoRecv zero_dummy_stats, ds_rttBucket zero_dummy_stats)"
    using tally_zero by (simp_all add: zero_dummy_stats_def kLoopBuckets_def kRttBuckets_def)
  show ?thesis by (rule conjunct1 [OF dummy_histograms_complete [OF z]])
qed

end
