(* ===== verification/DummyRun.thy ===== *)
theory DummyRun
  imports Client_Props Dummy_Hist
begin

text \<open>
  The load generator as a whole (dummy_main.cpp, \<open>main\<close>): its threads share the totals, the stop
  flag and the log of violations, and take turns in any order, a turn being one round of the loop.
  The totals are only ever counted up and down or raised to a maximum, one atomic operation at a
  time, so rounds of several threads that overlap add up to the same.
\<close>

section \<open>Threads\<close>

datatype phase = Fresh | Running int | Done

text \<open>One turn of a thread: it starts, or runs one round, or flushes and cuts its clients at the end.\<close>

fun thread_step :: "(nat \<times> u32) list \<Rightarrow> phase \<times> DummyWorker \<Rightarrow> phase \<times> DummyWorker" where
  "thread_step es (Fresh, W) = (case NowNs W of (t, W1) \<Rightarrow> (Running t, W1))"
| "thread_step es (Running lf, W) =
     (case NowNs W of (ls, W1) \<Rightarrow>
        if wk_deadline W1 \<le> ls \<or> wk_stop W1
        then (Done, fold (\<lambda>i. Kill i False) [0..<length (wk_clients W1)] (Flush W1))
        else (case Worker_round es (lf, W1) of (lf', W2) \<Rightarrow> (Running lf', W2)))"
| "thread_step es (Done, W) = (Done, W)"

text \<open>A thread that has all the turns runs \<open>Worker_Loop\<close>.\<close>

lemma thread_runs_rounds:
  "case Worker_rounds ess (lf, W) of (fin, W2) \<Rightarrow>
     (if fin then fold thread_step ess (Running lf, W) = (Done, fold (\<lambda>i. Kill i False) [0..<length (wk_clients W2)] (Flush W2))
      else \<exists>lf'. fold thread_step ess (Running lf, W) = (Running lf', W2))"
proof (induction ess arbitrary: lf W)
  case (Cons es ess)
  have d: "fold thread_step es' (Done, W') = (Done, W')" for es' W' by (induction es') simp_all
  obtain ls W1 where 1: "NowNs W = (ls, W1)" by (cases "NowNs W")
  obtain lf' W2 where 2: "Worker_round es (lf, W1) = (lf', W2)" by (cases "Worker_round es (lf, W1)")
  show ?case using Cons.IH [of lf' W2] by (auto simp: 1 2 d split: prod.splits)
qed simp

lemma thread_runs_loop:
  "case Worker_Loop ess W of (fin, W') \<Rightarrow> snd (fold thread_step ([] # ess) (Fresh, W)) = W' \<and>
     (fst (fold thread_step ([] # ess) (Fresh, W)) = Done \<longleftrightarrow> fin)"
proof -
  obtain t W1 where 1: "NowNs W = (t, W1)" by (cases "NowNs W")
  obtain fin W2 where 2: "Worker_rounds ess (t, W1) = (fin, W2)" by (cases "Worker_rounds ess (t, W1)")
  show ?thesis using thread_runs_rounds [of ess t W1] by (cases fin) (auto simp: Worker_Loop_def 1 2)
qed

section \<open>The process\<close>

record DummyProcess =
  dp_stats :: DummyStats
  dp_stop :: bool
  dp_dumps :: "Violation list"
  dp_threads :: "(phase \<times> DummyWorker) list"

text \<open>A thread works on the totals as the others have left them.\<close>

definition lend :: "DummyProcess \<Rightarrow> DummyWorker \<Rightarrow> DummyWorker" where
  "lend D W = W\<lparr>wk_stats := dp_stats D, wk_stop := dp_stop D, wk_dumps := dp_dumps D\<rparr>"

definition dummy_turn :: "nat \<times> (nat \<times> u32) list \<Rightarrow> DummyProcess \<Rightarrow> DummyProcess" where
  "dummy_turn tes D =
     (case tes of (t, es) \<Rightarrow>
        if t < length (dp_threads D)
        then (case dp_threads D ! t of (p, W) \<Rightarrow> case thread_step es (p, lend D W) of (p', W') \<Rightarrow>
                \<lparr>dp_stats = wk_stats W', dp_stop = wk_stop W', dp_dumps = wk_dumps W', dp_threads = (dp_threads D)[t := (p', W')]\<rparr>)
        else D)"

text \<open>
  The sessions are divided over the threads; None when the division is by zero or a thread gets a
  negative share, to which its list of clients cannot be resized.
\<close>

definition dummy_start :: "DummyOpts \<Rightarrow> int \<Rightarrow> (nat \<Rightarrow> DummyKernel) \<Rightarrow> DummyProcess option" where
  "dummy_start x deadlineNs ks =
     (case split_sessions (do_sessions x) (thread_count (do_sessions x) (do_threads x)) of
        None \<Rightarrow> None
      | Some cs \<Rightarrow> if list_ex (\<lambda>n. n < 0) cs then None
          else Some \<lparr>dp_stats = zero_dummy_stats, dp_stop = False, dp_dumps = [],
            dp_threads = map (\<lambda>(t, n). (Fresh, Worker_Start t n x deadlineNs zero_dummy_stats (ks t))) (enumerate 0 cs)\<rparr>)"

text \<open>\<open>ResizeThrows\<close>: \<open>Worker::Start\<close> resizes to a negative number, and nothing catches the exception.\<close>

datatype dummy_outcome = Exited int | DivisionByZero | ResizeThrows | StillRunning

text \<open>\<open>main\<close>, for the limits of open files, the time of the start and a schedule of the threads.\<close>

definition dummy_opts :: "string list \<Rightarrow> DummyOpts" where
  "dummy_opts args = (let x = dummy_args args default_dummy_opts in x\<lparr>do_cfg := tidy_sizes (do_cfg x)\<rparr>)"

definition dummy_main :: "string list \<Rightarrow> (nat \<times> nat) option \<Rightarrow> bool \<Rightarrow> int \<Rightarrow> (nat \<Rightarrow> DummyKernel) \<Rightarrow>
    (nat \<times> (nat \<times> u32) list) list \<Rightarrow> dummy_outcome" where
  "dummy_main args limits can_set now ks sched =
     (let x = dummy_opts args in
      if \<not> Dummy_RaiseFdLimit limits can_set then Exited 1 else
      case dummy_start x (now + do_runSecs x * 1000000000) ks of
        None \<Rightarrow> (if split_sessions (do_sessions x) (thread_count (do_sessions x) (do_threads x)) = None then DivisionByZero else ResizeThrows)
      | Some D0 \<Rightarrow>
          (let D = fold dummy_turn sched D0 in
           if list_all (\<lambda>(p, W). p = Done) (dp_threads D) then Exited (exit_code (do_cfg x) (do_sessions x) (dp_stats D))
           else StillRunning))"

text \<open>No sessions, and the number of threads left to the program: the division over them is by zero.\<close>

lemma no_sessions_divide_by_zero:
  assumes "Dummy_RaiseFdLimit limits can_set"
  shows "dummy_main [''--sessions'', ''0''] limits can_set now ks sched = DivisionByZero"
proof -
  have "split_sessions (do_sessions (dummy_opts [''--sessions'', ''0'']))
      (thread_count (do_sessions (dummy_opts [''--sessions'', ''0''])) (do_threads (dummy_opts [''--sessions'', ''0'']))) = None"
    by code_simp
  then show ?thesis using assms by (simp add: dummy_main_def dummy_start_def Let_def)
qed

text \<open>Fewer than no sessions over threads that were asked for.\<close>

lemma negative_sessions_throw:
  assumes "Dummy_RaiseFdLimit limits can_set"
  shows "dummy_main [''--sessions'', ''-5'', ''--threads'', ''2''] limits can_set now ks sched = ResizeThrows"
proof -
  let ?x = "dummy_opts [''--sessions'', ''-5'', ''--threads'', ''2'']"
  have "split_sessions (do_sessions ?x) (thread_count (do_sessions ?x) (do_threads ?x)) = Some [- 2, - 2]"
    by code_simp
  then show ?thesis using assms by (simp add: dummy_main_def dummy_start_def Let_def)
qed

section \<open>The accounts of the process\<close>

definition clients_of :: "DummyProcess \<Rightarrow> Client list" where
  "clients_of D = concat (map (wk_clients \<circ> snd) (dp_threads D))"

text \<open>What a thread keeps of itself, whatever the totals.\<close>

definition thread_ok :: "phase \<times> DummyWorker \<Rightarrow> bool" where
  "thread_ok pW \<longleftrightarrow> (case pW of (p, W) \<Rightarrow> (p \<noteq> Done \<longrightarrow> fleet_ok (wk_nextToConnect W) W) \<and>
     tally (lc_loops (wk_local W), lc_buckets (wk_local W)) \<and> tally (lc_echoRecv (wk_local W), lc_rttBuckets (wk_local W)) \<and>
     (p = Done \<longrightarrow> (\<forall>c\<in>set (wk_clients W). c_state c = Dead \<and> c_fd c < 0)))"

definition process_ok :: "DummyProcess \<Rightarrow> bool" where
  "process_ok D \<longleftrightarrow> ds_active (dp_stats D) = sum_list (map is_active (clients_of D)) \<and>
     tally (ds_loops (dp_stats D), ds_loopBucket (dp_stats D)) \<and> tally (ds_echoRecv (dp_stats D), ds_rttBucket (dp_stats D)) \<and>
     list_all thread_ok (dp_threads D)"

lemma tallied_iff: "tallied W \<longleftrightarrow> tally (lc_loops (wk_local W), lc_buckets (wk_local W)) \<and>
    tally (lc_echoRecv (wk_local W), lc_rttBuckets (wk_local W)) \<and> tally (ds_loops (wk_stats W), ds_loopBucket (wk_stats W)) \<and>
    tally (ds_echoRecv (wk_stats W), ds_rttBucket (wk_stats W))"
  by (simp add: tallied_def hview_def)

lemma NowNs_frame:
  assumes "NowNs W = (t, W1)"
  shows "gauge W1 = gauge W" "wk_clients W1 = wk_clients W" "wk_nextToConnect W1 = wk_nextToConnect W" "tallied W \<Longrightarrow> tallied W1"
  using assms by (auto simp: NowNs_def dk_update_def gauge_def tallied_def hview_def split: list.splits)

lemma thread_step_keeps:
  assumes "thread_ok (p, W)" "tallied W" "\<forall>e\<in>set es. fst e < length (wk_clients W)" "thread_step es (p, W) = (p', W')"
  shows "gauge W' = gauge W \<and> tallied W' \<and> thread_ok (p', W') \<and> length (wk_clients W') = length (wk_clients W)"
proof (cases p)
  case Done
  then show ?thesis using assms by simp
next
  case Fresh
  then show ?thesis using assms NowNs_frame by (auto simp: thread_ok_def fleet_ok_def tallied_iff split: prod.splits)
next
  case (Running lf)
  obtain ls W1 where 1: "NowNs W = (ls, W1)" by (cases "NowNs W")
  note n = NowNs_frame [OF 1]
  have ok: "fleet_ok (wk_nextToConnect W1) W1" using assms(1) n(2,3) Running by (simp add: thread_ok_def fleet_ok_def)
  show ?thesis
  proof (cases "wk_deadline W1 \<le> ls \<or> wk_stop W1")
    case True
    let ?K = "fold (\<lambda>i. Kill i False) [0..<length (wk_clients W1)] (Flush W1)"
    have e: "p' = Done" "W' = ?K" using assms(4) True Running by (auto simp: 1)
    have F: "gauge (Flush W1) = gauge W1" "wk_clients (Flush W1) = wk_clients W1" by (simp_all add: Flush_def Let_def gauge_def)
    have "\<forall>j<length (wk_clients (Flush W1)). sound (Cl (Flush W1) j)" using ok by (simp add: F fleet_ok_def)
    from Kill_all [OF this, of "length (wk_clients W1)"] have K: "gauge ?K = gauge W1" "length (wk_clients ?K) = length (wk_clients W1)"
      "\<forall>j<length (wk_clients W1). sound (Cl ?K j) \<and> c_state (Cl ?K j) = Dead" by (simp_all add: F)
    have t: "tallied ?K"
      by (rule tallied_quiet [OF tallied_Flush [OF n(4) [OF assms(2)]]]) (intro hush quiet_fold)
    show ?thesis using t K n(1,2) by (auto simp: e thread_ok_def tallied_iff F in_set_conv_nth sound_def)
  next
    case False
    then have r: "p' = Running (fst (Worker_round es (lf, W1)))" "W' = snd (Worker_round es (lf, W1))"
      using assms(4) Running by (auto simp: 1 split: prod.splits)
    have ev: "\<forall>e\<in>set es. fst e < length (wk_clients W1)" using assms(3) n(2) by simp
    have "tallied W'" using tallied_round [of "(lf, W1)" es] n(4) assms(2) r(2) by simp
    then show ?thesis using fleet_round [OF ok ev, of lf] n r by (simp add: thread_ok_def tallied_iff)
  qed
qed

text \<open>The sum of the active clients, when one thread changes its own.\<close>

lemma active_update:
  assumes "t < length ths"
  shows "sum_list (map is_active (concat (map (wk_clients \<circ> snd) (ths[t := (p, W')])))) =
    sum_list (map is_active (concat (map (wk_clients \<circ> snd) ths))) - sum_list (map is_active (wk_clients (snd (ths ! t)))) +
      sum_list (map is_active (wk_clients W'))"
  using assms
proof (induction ths arbitrary: t)
  case (Cons th ths)
  then show ?case by (cases t) (simp_all add: algebra_simps)
qed simp

definition sched_ok :: "(nat \<times> (nat \<times> u32) list) list \<Rightarrow> DummyProcess \<Rightarrow> bool" where
  "sched_ok sched D \<longleftrightarrow> (\<forall>(t, es)\<in>set sched. t < length (dp_threads D) \<longrightarrow>
     (\<forall>e\<in>set es. fst e < length (wk_clients (snd (dp_threads D ! t)))))"

definition sizes :: "DummyProcess \<Rightarrow> nat list" where
  "sizes D = map (length \<circ> wk_clients \<circ> snd) (dp_threads D)"

lemma turn_keeps:
  assumes ok: "process_ok D" and ev: "t < length (dp_threads D) \<Longrightarrow> \<forall>e\<in>set es. fst e < length (wk_clients (snd (dp_threads D ! t)))"
  shows "process_ok (dummy_turn (t, es) D) \<and> sizes (dummy_turn (t, es) D) = sizes D"
proof (cases "t < length (dp_threads D)")
  case False
  then show ?thesis using ok by (simp add: dummy_turn_def)
next
  case True
  obtain p W where d: "dp_threads D ! t = (p, W)" by (cases "dp_threads D ! t")
  obtain p' W' where s: "thread_step es (p, lend D W) = (p', W')" by (cases "thread_step es (p, lend D W)")
  have th: "thread_ok (p, W)" using ok True d by (metis list_all_length process_ok_def)
  then have "thread_ok (p, lend D W)" by (simp add: thread_ok_def lend_def fleet_ok_def)
  moreover have "tallied (lend D W)" using ok th by (simp add: process_ok_def thread_ok_def tallied_iff lend_def)
  moreover have "\<forall>e\<in>set es. fst e < length (wk_clients (lend D W))" using ev [OF True] by (simp add: d lend_def)
  ultimately have K: "gauge W' = gauge (lend D W)" "tallied W'" "thread_ok (p', W')" "length (wk_clients W') = length (wk_clients W)"
    using thread_step_keeps [OF _ _ _ s] by (simp_all add: lend_def)
  let ?D = "dummy_turn (t, es) D"
  have D: "?D = \<lparr>dp_stats = wk_stats W', dp_stop = wk_stop W', dp_dumps = wk_dumps W', dp_threads = (dp_threads D)[t := (p', W')]\<rparr>"
    using True by (simp add: dummy_turn_def d s)
  have "ds_active (wk_stats W') = sum_list (map is_active (clients_of ?D))"
  proof -
    define A where "A = sum_list (map is_active (clients_of D))"
    have "ds_active (dp_stats D) = A" using ok by (simp add: process_ok_def A_def)
    moreover have "sum_list (map is_active (clients_of ?D)) = A - sum_list (map is_active (wk_clients W)) + sum_list (map is_active (wk_clients W'))"
      using active_update [OF True, of p' W'] by (simp add: A_def D clients_of_def d)
    moreover have "ds_active (wk_stats W') - sum_list (map is_active (wk_clients W')) = ds_active (dp_stats D) - sum_list (map is_active (wk_clients W))"
      using K(1) by (simp add: gauge_def lend_def)
    ultimately show ?thesis by (metis diff_add_cancel)
  qed
  moreover have "list_all thread_ok (dp_threads ?D)"
    using ok K(3) by (auto simp: D process_ok_def list_all_iff dest: set_update_subset_insert [THEN subsetD])
  moreover have "sizes ?D = sizes D"
    using True K(4) d by (simp add: D sizes_def map_update list_update_same_conv)
  ultimately show ?thesis using K(2) by (simp add: process_ok_def D tallied_iff)
qed

lemma run_keeps:
  "process_ok D \<Longrightarrow> sched_ok sched D \<Longrightarrow> process_ok (fold dummy_turn sched D) \<and> sizes (fold dummy_turn sched D) = sizes D"
proof (induction sched arbitrary: D)
  case (Cons te sched)
  obtain t es where te: "te = (t, es)" by (cases te)
  have T: "process_ok (dummy_turn te D)" "sizes (dummy_turn te D) = sizes D"
    using turn_keeps [OF Cons.prems(1), of t es] Cons.prems(2) by (auto simp: te sched_ok_def)
  have l: "length (dp_threads (dummy_turn te D)) = length (dp_threads D)" using arg_cong [OF T(2), of length] by (simp add: sizes_def)
  have n: "length (wk_clients (snd (dp_threads (dummy_turn te D) ! t'))) = length (wk_clients (snd (dp_threads D ! t')))"
    if "t' < length (dp_threads D)" for t'
    using arg_cong [OF T(2), of "\<lambda>xs. xs ! t'"] that l by (simp add: sizes_def)
  have "sched_ok sched (dummy_turn te D)" using Cons.prems(2) l n by (auto simp: sched_ok_def)
  then show ?case using Cons.IH [OF T(1)] T(2) by simp
qed simp

lemma sizes_start:
  assumes "dummy_start x deadlineNs ks = Some D"
  shows "process_ok D" "0 < do_sessions x \<Longrightarrow> int (sum_list (sizes D)) = do_sessions x"
proof -
  let ?n = "thread_count (do_sessions x) (do_threads x)"
  obtain cs where cs: "split_sessions (do_sessions x) ?n = Some cs"
    and D: "D = \<lparr>dp_stats = zero_dummy_stats, dp_stop = False, dp_dumps = [],
      dp_threads = map (\<lambda>(t, n). (Fresh, Worker_Start t n x deadlineNs zero_dummy_stats (ks t))) (enumerate 0 cs)\<rparr>"
    using assms by (auto simp: dummy_start_def split: option.splits if_splits)
  have w: "thread_ok (Fresh, Worker_Start t n x deadlineNs zero_dummy_stats (ks t))" for t n
    using tally_zero by (simp add: thread_ok_def Worker_Start_def fleet_ok_def sound_def new_client_def zero_local_def kLoopBuckets_def kRttBuckets_def)
  have "\<forall>c\<in>set (clients_of D). is_active c = 0"
    by (auto simp: clients_of_def D Worker_Start_def new_client_def is_active_def)
  moreover have "\<forall>c\<in>set cs. is_active c = 0 \<Longrightarrow> sum_list (map is_active cs) = 0" for cs by (induction cs) simp_all
  ultimately have "sum_list (map is_active (clients_of D)) = 0" by blast
  then show "process_ok D"
    using tally_zero w by (auto simp: process_ok_def D zero_dummy_stats_def kLoopBuckets_def kRttBuckets_def list_all_iff)
  have z: "sizes D = map nat cs"
    by (rule nth_equalityI) (simp_all add: sizes_def D Worker_Start_def nth_enumerate_eq)
  assume pos: "0 < do_sessions x"
  obtain cs' where "split_sessions (do_sessions x) ?n = Some cs'" "sum_list cs' = do_sessions x"
    using split_sessions_exact [of "do_sessions x" "do_threads x"] pos by auto
  then have sum: "sum_list cs = do_sessions x" using cs by simp
  have n: "0 < ?n" by (rule thread_count_positive [OF pos])
  then have "\<forall>c\<in>set cs. 0 \<le> c"
    using cs pos split_sessions_shares [OF n, of "do_sessions x"] pos_imp_zdiv_nonneg_iff [OF n, of "do_sessions x"] by auto
  then have "int (sum_list (map nat cs)) = sum_list cs" by (induction cs) simp_all
  then show "int (sum_list (sizes D)) = do_sessions x" using sum z by simp
qed

section \<open>Properties\<close>

text \<open>C30. The accounts of the load generator balance over all its threads, however they take turns and
  whatever the system answers: the gauge of active sessions is the number of active clients, no
  session is lost in the division over the threads, and the open-ended bucket of each histogram
  shows the counter beside it; and when every thread has ended, the gauge is zero and every client
  is dead with its socket closed.\<close>

theorem load_run_exact:
  assumes "dummy_start x deadlineNs ks = Some D0" "sched_ok sched D0"
  defines "D \<equiv> fold dummy_turn sched D0"
  shows "ds_active (dp_stats D) = of_nat (length (filter (\<lambda>c. c_state c = Active) (clients_of D))) \<and>
    (0 < do_sessions x \<longrightarrow> int (length (clients_of D)) = do_sessions x) \<and>
    last (bucket_samples ''dummy_loop_us_bucket'' kLoopBucketUs (ds_loopBucket (dp_stats D))) =
      (le_key ''dummy_loop_us_bucket'' ''+Inf'', ds_loops (dp_stats D)) \<and>
    last (bucket_samples ''dummy_rtt_us_bucket'' kRttBucketUs (ds_rttBucket (dp_stats D))) =
      (le_key ''dummy_rtt_us_bucket'' ''+Inf'', ds_echoRecv (dp_stats D)) \<and>
    (list_all (\<lambda>(p, W). p = Done) (dp_threads D) \<longrightarrow>
      ds_active (dp_stats D) = 0 \<and> (\<forall>c\<in>set (clients_of D). c_state c = Dead \<and> c_fd c < 0))"
proof -
  note st = sizes_start [OF assms(1)]
  have D: "process_ok D" "sizes D = sizes D0" using run_keeps [OF st(1) assms(2)] by (simp_all add: D_def)
  have sum: "sum_list (map is_active cs) = of_nat (length (filter (\<lambda>c. c_state c = Active) cs))" for cs
    by (induction cs) (simp_all add: is_active_def)
  have act: "ds_active (dp_stats D) = of_nat (length (filter (\<lambda>c. c_state c = Active) (clients_of D)))"
    using D(1) unfolding process_ok_def sum by blast
  have len: "length (clients_of D) = sum_list (sizes D)" by (simp add: clients_of_def sizes_def length_concat comp_def)
  have dead: "\<forall>c\<in>set (clients_of D). c_state c = Dead \<and> c_fd c < 0" if "list_all (\<lambda>(p, W). p = Done) (dp_threads D)"
    using that D(1) by (fastforce simp: process_ok_def thread_ok_def list_all_iff clients_of_def)
  have zero: "ds_active (dp_stats D) = 0" if "list_all (\<lambda>(p, W). p = Done) (dp_threads D)"
  proof -
    have "filter (\<lambda>c. c_state c = Active) (clients_of D) = []" using dead [OF that] by (auto simp: filter_empty_conv)
    then show ?thesis unfolding act by simp
  qed
  have "length kLoopBucketUs = 9" "length kRttBucketUs = 9" by (simp_all add: kLoopBucketUs_def kRttBucketUs_def)
  moreover have "tally (ds_loops (dp_stats D), ds_loopBucket (dp_stats D))" "tally (ds_echoRecv (dp_stats D), ds_rttBucket (dp_stats D))"
    using D(1) by (simp_all add: process_ok_def)
  moreover have "0 < do_sessions x \<longrightarrow> int (length (clients_of D)) = do_sessions x" using st(2) len D(2) by simp
  ultimately show ?thesis using act dead zero last_bucket by blast
qed

definition demo_kernels :: "nat \<Rightarrow> DummyKernel" where
  "demo_kernels t = quiet_kernel\<lparr>dk_now := [1, 2, 3, 4, 5, 6, 7, 8, 9], dk_connects := [Opened 7]\<rparr>"

theorem load_run_exact_witness:
  "\<exists>D0. dummy_start (dummy_opts [''--sessions'', ''2'', ''--threads'', ''2'']) 50 demo_kernels = Some D0 \<and>
     length (clients_of (fold dummy_turn [(1, []), (0, []), (1, []), (1, [(0, EPOLLOUT)]), (0, [])] D0)) = 2"
proof -
  let ?x = "dummy_opts [''--sessions'', ''2'', ''--threads'', ''2'']"
  have "do_sessions ?x = 2 \<and> do_threads ?x = 2" by code_simp
  then have x: "do_sessions ?x = 2" "do_threads ?x = 2" by simp_all
  have s: "split_sessions 2 (thread_count 2 2) = Some [1, 1]" by code_simp
  then obtain D0 where D: "dummy_start ?x 50 demo_kernels = Some D0" by (auto simp: dummy_start_def x)
  then have "map (length \<circ> wk_clients \<circ> snd) (dp_threads D0) = [1, 1]"
    by (auto simp: dummy_start_def x s Worker_Start_def)
  then have "sched_ok [(1, []), (0, []), (1, []), (1, [(0, EPOLLOUT)]), (0, [])] D0"
    by (auto simp: sched_ok_def map_eq_Cons_conv)
  from load_run_exact [OF D this] D x show ?thesis by auto
qed

text \<open>What is left to do for a thread when the stop flag is up.\<close>

fun turns_left :: "phase \<Rightarrow> nat" where
  "turns_left Fresh = 2"
| "turns_left (Running lf) = 1"
| "turns_left Done = 0"

lemma stop_kept: "wk_stop (Kill i b W) = wk_stop W" "wk_stop (Flush W) = wk_stop W" "wk_stop (snd (NowNs W)) = wk_stop W"
  "wk_stop (fold (\<lambda>i. Kill i b) is W) = wk_stop W"
proof -
  show n: "wk_stop (snd (NowNs W)) = wk_stop W" for W by (simp add: NowNs_def dk_update_def split: list.split)
  show k: "wk_stop (Kill i b W) = wk_stop W" for i W
    using n by (auto simp: Kill_def Let_def stat_def upd_client_def did_def dk_update_def case_prod_beta)
  show "wk_stop (Flush W) = wk_stop W" by (simp add: Flush_def Let_def)
  show "wk_stop (fold (\<lambda>i. Kill i b) is W) = wk_stop W" by (induction "is" arbitrary: W) (simp_all add: k)
qed

lemma stopped_step:
  assumes "wk_stop W"
  shows "wk_stop (snd (thread_step es (p, W))) \<and> turns_left (fst (thread_step es (p, W))) = turns_left p - 1"
  using assms stop_kept(3) [of W] by (cases p) (auto simp: stop_kept case_prod_beta)

lemma stopped_turn:
  assumes "dp_stop D"
  shows "dp_stop (dummy_turn (t, es) D)" "length (dp_threads (dummy_turn (t, es) D)) = length (dp_threads D)"
    "k < length (dp_threads D) \<Longrightarrow> turns_left (fst (dp_threads (dummy_turn (t, es) D) ! k)) = turns_left (fst (dp_threads D ! k)) - of_bool (k = t)"
  using assms stopped_step [of "lend D (snd (dp_threads D ! t))" es "fst (dp_threads D ! t)"]
  by (auto simp: dummy_turn_def lend_def case_prod_beta nth_list_update)

lemma stopped_run:
  "dp_stop D \<Longrightarrow> \<forall>k<length (dp_threads D). turns_left (fst (dp_threads D ! k)) \<le> count_list (map fst sched) k \<Longrightarrow>
   list_all (\<lambda>(p, W). p = Done) (dp_threads (fold dummy_turn sched D))"
proof (induction sched arbitrary: D)
  case Nil
  have "fst (dp_threads D ! k) = Done" if "k < length (dp_threads D)" for k
    using Nil.prems(2) that by (cases "fst (dp_threads D ! k)") auto
  then show ?case by (auto simp: list_all_length case_prod_beta)
next
  case (Cons te sched)
  obtain t es where te: "te = (t, es)" by (cases te)
  note T = stopped_turn [OF Cons.prems(1), where t = t and es = es, folded te]
  have "\<forall>k<length (dp_threads (dummy_turn te D)). turns_left (fst (dp_threads (dummy_turn te D) ! k)) \<le> count_list (map fst sched) k"
    using Cons.prems(2) T(2,3) by (auto simp: te split: if_splits)
  then show ?case using Cons.IH [OF T(1)] by simp
qed

text \<open>C34. The stop flag ends the run: once one thread has raised it, as fail-fast does on the first
  violation, two more turns are enough for every thread, whatever it is doing, and the process
  exits with the verdict over the totals.\<close>

theorem stop_flag_ends_the_run:
  assumes "dp_stop D" "\<forall>t<length (dp_threads D). 2 \<le> count_list (map fst sched) t"
  defines "D' \<equiv> fold dummy_turn sched D"
  shows "list_all (\<lambda>(p, W). p = Done) (dp_threads D') \<and>
    (\<forall>args limits can_set now ks s D0. Dummy_RaiseFdLimit limits can_set \<and>
       dummy_start (dummy_opts args) (now + do_runSecs (dummy_opts args) * 1000000000) ks = Some D0 \<and> D = fold dummy_turn s D0 \<longrightarrow>
       dummy_main args limits can_set now ks (s @ sched) =
         Exited (exit_code (do_cfg (dummy_opts args)) (do_sessions (dummy_opts args)) (dp_stats D')))"
proof -
  have "turns_left p \<le> 2" for p by (cases p) simp_all
  then have "\<forall>k<length (dp_threads D). turns_left (fst (dp_threads D ! k)) \<le> count_list (map fst sched) k"
    using assms(2) le_trans by blast
  then have "list_all (\<lambda>(p, W). p = Done) (dp_threads D')" unfolding D'_def by (rule stopped_run [OF assms(1)])
  then show ?thesis by (auto simp: dummy_main_def Let_def D'_def)
qed

theorem stop_flag_ends_the_run_witness:
  "list_all (\<lambda>(p, W). p = Done) (dp_threads (fold dummy_turn [(0, []), (1, []), (1, []), (0, [])]
     \<lparr>dp_stats = zero_dummy_stats, dp_stop = True, dp_dumps = [], dp_threads = [(Running 5, gauge_worker), (Fresh, gauge_worker)]\<rparr>))"
  by (rule conjunct1 [OF stop_flag_ends_the_run]) (simp_all add: less_Suc_eq all_conj_distrib)

end
