(* ===== verification/Startup.thy ===== *)
theory Startup
  imports Lifecycle Decimal
begin

text \<open>
  The start of the server (main.cpp): the command line, the checks before anything is started, and
  the order in which the services come up. What the operating system answers is a record.
\<close>

section \<open>Options\<close>

record ServerOpts =
  so_port :: u16
  so_listenPort :: u16
  so_gameWorkers :: u32
  so_runSecs :: int
  so_selftest :: bool

definition default_server_opts :: ServerOpts where
  "default_server_opts = \<lparr>so_port = 19100, so_listenPort = 0, so_gameWorkers = 0, so_runSecs = - 1, so_selftest = False\<rparr>"

definition server_options :: "(string \<times> (string \<Rightarrow> ServerOpts \<Rightarrow> ServerOpts)) list" where
  "server_options = [
     (''--port'', \<lambda>v x. x\<lparr>so_port := word_of_int (atoi v)\<rparr>),
     (''--listen'', \<lambda>v x. x\<lparr>so_listenPort := word_of_int (atoi v)\<rparr>),
     (''--game'', \<lambda>v x. x\<lparr>so_gameWorkers := word_of_int (atoi v)\<rparr>),
     (''--run-secs'', \<lambda>v x. x\<lparr>so_runSecs := atoi v\<rparr>)]"

fun server_args :: "string list \<Rightarrow> ServerOpts \<Rightarrow> ServerOpts" where
  "server_args [] x = x"
| "server_args [a] x = (if a = ''--selftest'' then x\<lparr>so_selftest := True\<rparr> else x)"
| "server_args (a # v # r) x =
     (if a = ''--selftest'' then server_args (v # r) (x\<lparr>so_selftest := True\<rparr>)
      else case map_of server_options a of Some f \<Rightarrow> server_args r (f v x) | None \<Rightarrow> server_args (v # r) x)"

section \<open>The checks\<close>

text \<open>The limit of open files, soft and hard, if it can be read; and whether it can be raised.\<close>

definition RaiseFdLimit :: "(nat \<times> nat) option \<Rightarrow> bool \<Rightarrow> nat \<Rightarrow> bool" where
  "RaiseFdLimit limits can_set want =
     (case limits of
        None \<Rightarrow> False
      | Some (cur, hard) \<Rightarrow> if cur < hard then can_set \<and> want \<le> hard else want \<le> cur)"

definition CheckCoreBudget :: "u32 \<Rightarrow> u32 \<Rightarrow> u32 \<Rightarrow> u32 \<Rightarrow> u32 \<Rightarrow> bool" where
  "CheckCoreBudget hw epollN gameG mainN reserve =
     (let need = epollN + gameG + mainN in hw = 0 \<or> need + reserve \<le> hw)"

text \<open>\<open>GameService::Start\<close>: the number of workers it takes.\<close>

definition GameService_Start :: "u32 \<Rightarrow> bool" where
  "GameService_Start n \<longleftrightarrow> \<not> of_nat kMaxGameWorkers < n"

section \<open>The program\<close>

record Env =
  en_hw :: u32                         \<comment> \<open>processors, 0 when unknown\<close>
  en_limits :: "(nat \<times> nat) option"
  en_setrlimit :: bool
  en_metrics_port :: bool              \<comment> \<open>whether the services get what they need\<close>
  en_pools :: bool
  en_transport :: bool

datatype Refusal = FdLimit | CoreBudget | MetricsPort | Pools | Transport | GameWorkers

datatype Outcome = SelfTest | Refused Refusal | Serving

definition kMaxSessions :: nat where "kMaxSessions = 8192"
definition kMaxRooms :: nat where "kMaxRooms = 4096"

definition epoll_count :: "ServerOpts \<Rightarrow> nat" where
  "epoll_count x = (if so_listenPort x \<noteq> 0 then 4 else 0)"

text \<open>The services that are running when \<open>main\<close> gives up or settles to wait.\<close>

datatype Service = MetricsUp | NetUp nat | GameUp nat

definition server_main :: "Env \<Rightarrow> ServerOpts \<Rightarrow> Outcome \<times> Service list" where
  "server_main e x =
     (if so_selftest x then (SelfTest, [])
      else if \<not> RaiseFdLimit (en_limits e) (en_setrlimit e) 8192 then (Refused FdLimit, [])
      else if \<not> CheckCoreBudget (en_hw e) (of_nat (epoll_count x)) (so_gameWorkers x) 1 2 then (Refused CoreBudget, [])
      else if \<not> en_metrics_port e then (Refused MetricsPort, [])
      else if \<not> en_pools e then (Refused Pools, [MetricsUp])
      else if so_listenPort x \<noteq> 0 \<and> \<not> en_transport e then (Refused Transport, [MetricsUp])
      else
        (let up = MetricsUp # (if so_listenPort x \<noteq> 0 then [NetUp (epoll_count x)] else []) in
         if so_gameWorkers x \<noteq> 0
         then (if GameService_Start (so_gameWorkers x)
               then (Serving, up @ [GameUp (unat (so_gameWorkers x))])
               else (Refused GameWorkers, up))
         else (Serving, up)))"

text \<open>The state the services share once the pools are made.\<close>

definition shared_state :: "ServerOpts \<Rightarrow> 'r \<Rightarrow> 's \<Rightarrow> Kernel \<Rightarrow> ('r, 's) Server" where
  "shared_state x r s k = boot kMaxSessions kMaxRooms (unat (so_gameWorkers x)) (epoll_count x) r s k"

section \<open>Properties\<close>

text \<open>C36. A server that serves has passed every check: it has no more game workers than the tables have
  rows, it leaves at least two processors free when their number is known, the transport runs
  with four workers or not at all, and the state its services share is one of the states from
  which the properties of the reachable states are proved.\<close>

theorem serving_server_is_sound:
  assumes "fst (server_main e x) = Serving"
  shows "unat (so_gameWorkers x) \<le> kMaxGameWorkers \<and> booted (shared_state x r s k) \<and>
    (en_hw e \<noteq> 0 \<longrightarrow> epoll_count x + unat (so_gameWorkers x) + 3 \<le> unat (en_hw e)) \<and>
    set (snd (server_main e x)) = {MetricsUp} \<union> (if so_listenPort x \<noteq> 0 then {NetUp 4} else {}) \<union>
      (if so_gameWorkers x \<noteq> 0 then {GameUp (unat (so_gameWorkers x))} else {})"
proof -
  have g: "unat (so_gameWorkers x) \<le> kMaxGameWorkers"
    using assms by (auto simp: server_main_def GameService_Start_def Let_def kMaxGameWorkers_def word_less_nat_alt split: if_splits)
  have b: "CheckCoreBudget (en_hw e) (of_nat (epoll_count x)) (so_gameWorkers x) 1 2"
    using assms by (auto simp: server_main_def split: if_splits)
  have "unat (of_nat (epoll_count x) + so_gameWorkers x + 1 + 2 :: u32) = epoll_count x + unat (so_gameWorkers x) + 3"
    using g by (simp add: epoll_count_def unat_word_ariths kMaxGameWorkers_def)
  then have "en_hw e \<noteq> 0 \<longrightarrow> epoll_count x + unat (so_gameWorkers x) + 3 \<le> unat (en_hw e)"
    using b unfolding CheckCoreBudget_def Let_def word_le_nat_alt by auto
  moreover have "booted (shared_state x r s k)" using g unfolding booted_def shared_state_def by blast
  moreover have "set (snd (server_main e x)) = {MetricsUp} \<union> (if so_listenPort x \<noteq> 0 then {NetUp 4} else {}) \<union>
      (if so_gameWorkers x \<noteq> 0 then {GameUp (unat (so_gameWorkers x))} else {})"
    using assms by (auto simp: server_main_def Let_def epoll_count_def split: if_splits)
  ultimately show ?thesis using g by blast
qed

definition demo_env :: Env where
  "demo_env = \<lparr>en_hw = 20, en_limits = Some (1024, 1048576), en_setrlimit = True, en_metrics_port = True, en_pools = True,
     en_transport = True\<rparr>"

lemma demo_args: "server_args [''--listen'', ''5000'', ''--game'', ''7''] default_server_opts =
    default_server_opts\<lparr>so_listenPort := 5000, so_gameWorkers := 7\<rparr>"
  by code_simp

theorem serving_server_is_sound_witness:
  "\<forall>k. booted (shared_state (server_args [''--listen'', ''5000'', ''--game'', ''7''] default_server_opts) () () k)"
proof -
  have "fst (server_main demo_env (server_args [''--listen'', ''5000'', ''--game'', ''7''] default_server_opts)) = Serving"
    unfolding demo_args
    by (simp add: server_main_def demo_env_def default_server_opts_def RaiseFdLimit_def CheckCoreBudget_def epoll_count_def
        GameService_Start_def kMaxGameWorkers_def)
  from serving_server_is_sound [OF this, of "()" "()"] show ?thesis by blast
qed

lemma minus_one: "atoi ''-1'' = - 1"
  by (simp add: atoi_def is_space_def is_digit_def digits_value_def)

text \<open>C37. Too many game workers are noticed too late: when more than sixteen are asked for and the budget
  check passes, the program is refused only after the transport has come up, so connections are
  already accepted while the room manager counts on workers that its tables have no row for. The
  budget check itself wraps around: minus one worker passes it on any machine with six processors.\<close>

theorem late_refusal:
  assumes "\<not> so_selftest x" "so_listenPort x \<noteq> 0" "kMaxGameWorkers < unat (so_gameWorkers x)"
    and "RaiseFdLimit (en_limits e) (en_setrlimit e) 8192" "en_metrics_port e" "en_pools e" "en_transport e"
    and "CheckCoreBudget (en_hw e) 4 (so_gameWorkers x) 1 2"
  shows "server_main e x = (Refused GameWorkers, [MetricsUp, NetUp 4]) \<and>
    length (roomsPerWorker (shared_state x r s k)) < workerCount (shared_state x r s k) \<and>
    (6 \<le> en_hw e \<longrightarrow> CheckCoreBudget (en_hw e) 4 (word_of_int (atoi ''-1'')) 1 2)"
proof -
  have "so_gameWorkers x \<noteq> 0" "\<not> GameService_Start (so_gameWorkers x)"
    using assms(3) by (auto simp: GameService_Start_def word_less_nat_alt kMaxGameWorkers_def)
  then have "server_main e x = (Refused GameWorkers, [MetricsUp, NetUp 4])"
    using assms by (simp add: server_main_def epoll_count_def Let_def)
  moreover have "length (roomsPerWorker (shared_state x r s k)) < workerCount (shared_state x r s k)"
    using assms(3) by (simp add: shared_state_def boot_def Init_def)
  moreover have "CheckCoreBudget (en_hw e) 4 (word_of_int (atoi ''-1'')) 1 2" if "6 \<le> en_hw e"
  proof -
    have "word_of_int (atoi ''-1'') = (- 1 :: u32)" unfolding minus_one by simp
    then show ?thesis using that by (simp add: CheckCoreBudget_def)
  qed
  ultimately show ?thesis by blast
qed

theorem late_refusal_witness:
  "server_main (demo_env\<lparr>en_hw := 32\<rparr>) (default_server_opts\<lparr>so_listenPort := 5000, so_gameWorkers := 20\<rparr>) =
     (Refused GameWorkers, [MetricsUp, NetUp 4])"
  by (rule conjunct1 [OF late_refusal [where r = "()" and s = "()"]])
    (simp_all add: default_server_opts_def demo_env_def kMaxGameWorkers_def RaiseFdLimit_def CheckCoreBudget_def)

end
