(* ===== verification/HttpServer.thy ===== *)
theory HttpServer
  imports MetricsText "HOL-Library.Sublist"
begin

text \<open>
  The HTTP server of the metrics (Metrics.cpp, class Server): its start, the connections it serves
  one after another, and its stop. Whatever is asked for, it answers with the text of its
  provider. The answers of the system calls are a script, as for the epoll workers.
\<close>

section \<open>Start and stop\<close>

record MetricsServer =
  ms_listenFd :: int
  ms_running :: bool
  ms_thread :: bool        \<comment> \<open>joinable\<close>

definition new_metrics_server :: MetricsServer where
  "new_metrics_server = \<lparr>ms_listenFd = - 1, ms_running = False, ms_thread = False\<rparr>"

text \<open>What the process does, as far as the outside can tell.\<close>

datatype http_event = HOpened int | HClosed int | HShutdown int | HSpawned | HJoined | HRead int bytes | HWrote int string

text \<open>\<open>Start\<close>, for the descriptor \<open>socket\<close> returns and the outcomes of bind and listen.\<close>

definition Server_Start :: "int \<Rightarrow> bool \<Rightarrow> bool \<Rightarrow> MetricsServer \<Rightarrow> bool \<times> http_event list \<times> MetricsServer" where
  "Server_Start sock bound listening s =
     (let s1 = s\<lparr>ms_listenFd := sock\<rparr> in
      if sock < 0 then (False, [], s1)
      else if \<not> bound \<or> \<not> listening then (False, [HOpened sock, HClosed sock], s1\<lparr>ms_listenFd := - 1\<rparr>)
      else (True, [HOpened sock, HSpawned], s1\<lparr>ms_running := True, ms_thread := True\<rparr>))"

definition Server_Stop :: "MetricsServer \<Rightarrow> http_event list \<times> MetricsServer" where
  "Server_Stop s =
     (if \<not> ms_running s then ([], s)
      else
        (let s1 = s\<lparr>ms_running := False\<rparr>;
             e1 = (if 0 \<le> ms_listenFd s1 then [HShutdown (ms_listenFd s1)] else []);
             (e2, s2) = (if ms_thread s1 then ([HJoined], s1\<lparr>ms_thread := False\<rparr>) else ([], s1));
             (e3, s3) = (if 0 \<le> ms_listenFd s2 then ([HClosed (ms_listenFd s2)], s2\<lparr>ms_listenFd := - 1\<rparr>) else ([], s2))
         in (e1 @ e2 @ e3, s3)))"

section \<open>A connection\<close>

definition kReqSize :: nat where "kReqSize = 2048"

definition blank_line :: bytes where "blank_line = [13, 10, 13, 10]"

text \<open>Whether the header of the request has ended in what has been read: the scan over its positions.\<close>

definition header_ended :: "bytes \<Rightarrow> bool" where
  "header_ended req \<longleftrightarrow> list_ex (\<lambda>k. take 4 (drop (k - 3) req) = blank_line) [3..<length req]"

text \<open>
  The read loop: what has been read, and the rest of the script. A read that delivers nothing, by
  end of stream, error or the timeout of half a second, ends it.
\<close>

fun request_loop :: "bytes \<Rightarrow> read_result list \<Rightarrow> bytes \<times> read_result list" where
  "request_loop req [] = (req, [])"
| "request_loop req (r # rs) =
     (if kReqSize \<le> length req then (req, r # rs) else
      case r of
        Got bs \<Rightarrow>
          (let n = min (length bs) (kReqSize - length req); req' = req @ take n bs in
           if n = 0 then (req, rs)
           else if header_ended req' then (req', rs)
           else request_loop req' rs)
      | _ \<Rightarrow> (req, rs))"

definition CRLF :: string where "CRLF = [CHR 0x0D, CHR 0x0A]"

definition http_header :: "nat \<Rightarrow> string" where
  "http_header n =
     ''HTTP/1.1 200 OK'' @ CRLF @ ''Content-Type: text/plain; version=0.0.4'' @ CRLF @
     ''Content-Length: '' @ dec (int n) @ CRLF @ ''Connection: close'' @ CRLF @ CRLF"

text \<open>\<open>snprintf\<close> into 160 characters, the last of which is the terminator; \<open>http_header_fits\<close> shows that nothing is lost.\<close>

definition http_response :: "string \<Rightarrow> string" where
  "http_response body = take 159 (http_header (length body)) @ body"

text \<open>The write loop over what is left of the response: what has been written, and the rest of the script.\<close>

fun response_loop :: "string \<Rightarrow> write_result list \<Rightarrow> string \<times> write_result list" where
  "response_loop resp ws =
     (if resp = [] then ([], ws) else
      case ws of
        [] \<Rightarrow> ([], [])
      | Took k # ws' \<Rightarrow>
          (let n = min (Suc k) (length resp); (out, rest) = response_loop (drop n resp) ws' in (take n resp @ out, rest))
      | _ # ws' \<Rightarrow> ([], ws'))"

declare response_loop.simps [simp del]

text \<open>
  One connection: its descriptor, the answers of read and write, and the text of the provider. The
  last read, which waits for the peer to close, is not looked at.
\<close>

record http_conn =
  hc_fd :: int
  hc_reads :: "read_result list"
  hc_writes :: "write_result list"
  hc_body :: string

definition serve_conn :: "http_conn \<Rightarrow> http_event list" where
  "serve_conn c =
     [HRead (hc_fd c) (fst (request_loop [] (hc_reads c))),
      HWrote (hc_fd c) (fst (response_loop (http_response (hc_body c)) (hc_writes c))),
      HShutdown (hc_fd c), HClosed (hc_fd c)]"

text \<open>
  The loop over the answers of accept, each with the state of \<open>_running\<close> that the thread reads
  after a failed accept; \<open>Stopped\<close> is a round that finds the flag lowered. None: the script ends
  while the server is still running.
\<close>

datatype http_round = Stopped | AcceptFailed bool | Accepted http_conn

fun Server_Loop :: "http_round list \<Rightarrow> http_event list \<times> bool" where
  "Server_Loop [] = ([], False)"
| "Server_Loop (Stopped # rs) = ([], True)"
| "Server_Loop (AcceptFailed running # rs) = (if running then Server_Loop rs else ([], True))"
| "Server_Loop (Accepted c # rs) = (serve_conn c @ fst (Server_Loop rs), snd (Server_Loop rs))"

section \<open>The request\<close>

lemma header_ended_iff: "header_ended req \<longleftrightarrow> (\<exists>a b. req = a @ blank_line @ b)"
proof
  assume "header_ended req"
  then obtain k where k: "3 \<le> k" "k < length req" "take 4 (drop (k - 3) req) = blank_line"
    by (auto simp: header_ended_def list_ex_iff)
  have "req = take (k - 3) req @ blank_line @ drop 4 (drop (k - 3) req)"
    unfolding k(3) [symmetric] append_take_drop_id ..
  then show "\<exists>a b. req = a @ blank_line @ b" by blast
next
  assume "\<exists>a b. req = a @ blank_line @ b"
  then obtain a b where r: "req = a @ blank_line @ b" by blast
  have l: "length blank_line = 4" by (simp add: blank_line_def)
  then have "length a + 3 \<in> set [3..<length req]" "take 4 (drop (length a + 3 - 3) req) = blank_line"
    unfolding r by simp_all
  then show "header_ended req" unfolding header_ended_def list_ex_iff by blast
qed

lemma header_ended_append: "header_ended a \<Longrightarrow> header_ended (a @ b)"
  unfolding header_ended_iff by (metis append.assoc)

lemma request_loop_reads:
  assumes "\<forall>c\<in>set cs. c \<noteq> []" "length req \<le> kReqSize"
  shows "\<exists>r. fst (request_loop req (map Got cs)) = req @ r \<and> prefix r (concat cs) \<and> length (req @ r) \<le> kReqSize \<and>
    (r = concat cs \<or> header_ended (req @ r) \<or> length (req @ r) = kReqSize)"
  using assms
proof (induction cs arbitrary: req)
  case Nil
  then show ?case by simp
next
  case (Cons c cs)
  define n where "n = min (length c) (kReqSize - length req)"
  let ?req = "req @ take n c"
  have pre: "prefix (take n c) (concat (c # cs))" by (simp add: take_is_prefix)
  consider "kReqSize \<le> length req" | "length req < kReqSize" "header_ended ?req" | "length req < kReqSize" "\<not> header_ended ?req" "n < length c"
    | "length req < kReqSize" "\<not> header_ended ?req" "n = length c" unfolding n_def by linarith
  then show ?case
  proof cases
    case 1
    then show ?thesis using Cons.prems by (intro exI [of _ "[]"]) simp
  next
    case 2
    then have "n \<noteq> 0" using Cons.prems(1) by (auto simp: n_def)
    then show ?thesis using 2 pre Cons.prems(2) by (intro exI [of _ "take n c"]) (simp add: n_def [symmetric] Let_def, simp add: n_def)
  next
    case 3
    then have e: "length ?req = kReqSize" "n \<noteq> 0" by (auto simp: n_def)
    have "request_loop ?req (map Got cs) = (?req, map Got cs)" using e(1) by (cases cs) simp_all
    then show ?thesis using 3 e pre by (intro exI [of _ "take n c"]) (simp add: n_def [symmetric] Let_def)
  next
    case 4
    then have nz: "n \<noteq> 0" "length ?req \<le> kReqSize" using Cons.prems(1) by (auto simp: n_def)
    obtain r where r: "fst (request_loop ?req (map Got cs)) = ?req @ r" "prefix r (concat cs)" "length (?req @ r) \<le> kReqSize"
      "r = concat cs \<or> header_ended (?req @ r) \<or> length (?req @ r) = kReqSize"
      using Cons.IH [OF _ nz(2)] Cons.prems(1) by auto
    have "\<not> kReqSize \<le> length req" using 4 by simp
    then have "request_loop req (map Got (c # cs)) = request_loop ?req (map Got cs)"
      using 4 nz(1) by (simp add: n_def [symmetric] Let_def)
    then show ?thesis using 4 r by (intro exI [of _ "c @ r"]) simp
  qed
qed

section \<open>The response\<close>

lemma CR_LF: "CRLF = [CHR 0x0D, CHR 0x0A]" "CHR 0x0D \<noteq> CHR 0x0A"
  by (simp_all add: CRLF_def)

lemma dec_no_CR: "c \<in> set (dec v) \<Longrightarrow> c \<noteq> CHR 0x0D"
proof -
  have "\<not> is_digit (CHR 0x0D)" by (simp add: is_digit_def)
  then show "c \<in> set (dec v) \<Longrightarrow> c \<noteq> CHR 0x0D" using dec_nat_digits(1) by (auto simp: dec_def split: if_splits)
qed

lemma http_header_fits:
  assumes "n < 2 ^ 63"
  shows "length (http_header n) \<le> 159"
proof -
  have "length (dec (int n)) \<le> 20" by (rule length_dec_i64) (use assms in auto)
  then show ?thesis by (simp add: http_header_def CRLF_def)
qed

lemma http_response_eq: "length body < 2 ^ 63 \<Longrightarrow> http_response body = http_header (length body) @ body"
  using http_header_fits [of "length body"] by (simp add: http_response_def)

lemma response_loop_prefix: "prefix (fst (response_loop resp ws)) resp"
proof (induction ws arbitrary: resp)
  case Nil
  then show ?case by (subst response_loop.simps) simp
next
  case (Cons w ws)
  have "prefix (take n resp @ fst (response_loop (drop n resp) ws)) resp" for n
    using Cons.IH [of "drop n resp"] by (metis append_take_drop_id same_prefix_prefix)
  then show ?case by (subst response_loop.simps) (auto simp: Let_def case_prod_beta split: write_result.split)
qed

lemma response_loop_whole:
  "\<forall>w\<in>set ws. \<exists>k. w = Took k \<Longrightarrow> length resp \<le> length ws \<Longrightarrow> fst (response_loop resp ws) = resp"
proof (induction ws arbitrary: resp)
  case Nil
  then show ?case by (subst response_loop.simps) simp
next
  case (Cons w ws)
  obtain k where w: "w = Took k" using Cons.prems(1) by auto
  show ?case
  proof (cases "resp = []")
    case False
    have "fst (response_loop (drop (min (Suc k) (length resp)) resp) ws) = drop (min (Suc k) (length resp)) resp"
      by (rule Cons.IH) (use Cons.prems False in auto)
    then show ?thesis using False by (subst response_loop.simps) (simp add: w Let_def case_prod_beta)
  qed (subst response_loop.simps, simp)
qed

text \<open>A client of the server: the body behind the first empty line, and the length announced for it.\<close>

fun after_blank :: "string \<Rightarrow> string option" where
  "after_blank [] = None"
| "after_blank (c # s) = (if take 4 (c # s) = CRLF @ CRLF then Some (drop 4 (c # s)) else after_blank s)"

fun field_value :: "string \<Rightarrow> string \<Rightarrow> string option" where
  "field_value key [] = None"
| "field_value key (c # s) = (if take (length key) (c # s) = key then Some (drop (length key) (c # s)) else field_value key s)"

definition http_get :: "string \<Rightarrow> (int \<times> string) option" where
  "http_get reply =
     (case (field_value ''Content-Length: '' reply, after_blank reply) of
        (Some v, Some body) \<Rightarrow> Some (atoi v, body)
      | _ \<Rightarrow> None)"

lemma after_blank_skip: "CHR 0x0D \<notin> set a \<Longrightarrow> after_blank (a @ s) = after_blank s"
  by (induction a) (auto simp: CRLF_def)

lemma after_blank_line: "c \<noteq> CHR 0x0D \<Longrightarrow> after_blank (CRLF @ c # s) = after_blank (c # s)"
  by (simp add: CRLF_def)

lemma after_blank_next:
  assumes "CHR 0x0D \<notin> set a" "a \<noteq> []"
  shows "after_blank (CRLF @ a @ s) = after_blank s"
proof -
  have "after_blank (CRLF @ a @ s) = after_blank (a @ s)" using assms after_blank_line [of "hd a" "tl a @ s"]
    by (cases a) (simp_all del: after_blank.simps, metis)
  then show ?thesis by (simp only: after_blank_skip [OF assms(1)])
qed

lemma after_blank_header: "after_blank (http_header n @ body) = Some body"
proof -
  let ?type = "''Content-Type: text/plain; version=0.0.4''" and ?len = "''Content-Length: '' @ dec (int n)"
  have "CHR 0x0D \<notin> set (dec (int n))" using dec_no_CR by blast
  then have l: "CHR 0x0D \<notin> set ?len" by simp
  have e: "http_header n @ body = ''HTTP/1.1 200 OK'' @ CRLF @ ?type @ CRLF @ ?len @ CRLF @ ''Connection: close'' @ CRLF @ CRLF @ body"
    by (simp only: http_header_def append_assoc)
  have "after_blank (http_header n @ body) = after_blank (CRLF @ ?type @ CRLF @ ?len @ CRLF @ ''Connection: close'' @ CRLF @ CRLF @ body)"
    unfolding e by (rule after_blank_skip) simp
  also have "\<dots> = after_blank (CRLF @ ?len @ CRLF @ ''Connection: close'' @ CRLF @ CRLF @ body)"
    by (rule after_blank_next) simp_all
  also have "\<dots> = after_blank (CRLF @ ''Connection: close'' @ CRLF @ CRLF @ body)"
    by (rule after_blank_next [OF l]) simp
  also have "\<dots> = after_blank (CRLF @ CRLF @ body)"
    by (rule after_blank_next) simp_all
  also have "\<dots> = Some body" by (simp add: CRLF_def)
  finally show ?thesis .
qed

lemma atoi_dec_then: "\<not> is_digit c \<Longrightarrow> atoi (dec (int n) @ c # s) = int n"
proof -
  assume c: "\<not> is_digit c"
  obtain d r where d: "dec_nat n = d # r" using dec_nat_digits(2) [of n] by (cases "dec_nat n") auto
  then have "\<not> is_space d" "d \<noteq> CHR ''-''" "d \<noteq> CHR ''+''" using dec_nat_digits(1) [of n] by auto
  moreover have "takeWhile is_digit (dec_nat n @ c # s) = dec_nat n"
    using dec_nat_digits(1) [of n] c by (subst takeWhile_append2) auto
  ultimately show ?thesis using digits_value_dec_nat [of n] by (simp add: atoi_def dec_def d)
qed

lemma field_value_skip: "k \<notin> set a \<Longrightarrow> field_value (k # ks) (a @ s) = field_value (k # ks) s"
  by (induction a) auto

lemma field_value_header:
  "field_value ''Content-Length: '' (http_header n @ body) = Some (dec (int n) @ CRLF @ ''Connection: close'' @ CRLF @ CRLF @ body)"
proof -
  let ?k = "CHR ''C'' # ''ontent-Length: ''"
  let ?r = "dec (int n) @ CRLF @ ''Connection: close'' @ CRLF @ CRLF @ body"
  have 1: "field_value ?k (?k @ ?r) = Some ?r" by simp
  have 2: "field_value ?k ((''ontent-Type: text/plain; version=0.0.4'' @ CRLF) @ ?k @ ?r) = Some ?r"
    by (subst field_value_skip) (simp_all only: 1, simp add: CRLF_def)
  have 3: "field_value ?k (CHR ''C'' # (''ontent-Type: text/plain; version=0.0.4'' @ CRLF) @ ?k @ ?r) = Some ?r"
    by (subst field_value.simps) (simp only: 2, simp)
  have "field_value ?k ((''HTTP/1.1 200 OK'' @ CRLF) @ CHR ''C'' # (''ontent-Type: text/plain; version=0.0.4'' @ CRLF) @ ?k @ ?r) = Some ?r"
    by (subst field_value_skip) (simp_all only: 3, simp add: CRLF_def)
  then show ?thesis by (simp only: http_header_def append_assoc append_Cons append_Nil)
qed

section \<open>Properties\<close>

text \<open>A request is read to the end of its header before it is answered, however the network cuts it:
  if the empty line comes within the first 2048 bytes, what has been read holds it; whatever has been
  read is the beginning of the request, at most 2048 bytes of it, and reading went on to its end
  unless the empty line or the limit came first.\<close>

theorem http_request_read:
  assumes "\<forall>c\<in>set cs. c \<noteq> []"
  defines "req \<equiv> fst (request_loop [] (map Got cs))"
  shows "prefix req (concat cs) \<and> length req \<le> kReqSize \<and>
    (header_ended (take kReqSize (concat cs)) \<longrightarrow> header_ended req) \<and>
    (req = concat cs \<or> header_ended req \<or> length req = kReqSize)"
proof -
  have r: "prefix req (concat cs)" "length req \<le> kReqSize" "req = concat cs \<or> header_ended req \<or> length req = kReqSize"
    using request_loop_reads [OF assms(1), of "[]"] by (auto simp: req_def)
  have "header_ended req" if h: "header_ended (take kReqSize (concat cs))" using r(3)
  proof (elim disjE)
    assume "req = concat cs"
    then show ?thesis using h r(2) by simp
  next
    assume "length req = kReqSize"
    then have "take kReqSize (concat cs) = req" using r(1) by (auto simp: prefix_def)
    then show ?thesis using h by simp
  qed
  then show ?thesis using r by blast
qed

definition demo_request :: bytes where
  "demo_request = map (\<lambda>c. of_nat (of_char c)) ''GET /metrics HTTP/1.1'' @ blank_line"

theorem http_request_read_witness:
  "header_ended (fst (request_loop [] (map Got [take 23 demo_request, drop 23 demo_request])))"
proof -
  have c: "\<forall>c\<in>set [take 23 demo_request, drop 23 demo_request]. c \<noteq> []" by (simp add: demo_request_def blank_line_def)
  have "header_ended demo_request" unfolding header_ended_iff demo_request_def by (metis append.right_neutral)
  then have "header_ended (take kReqSize (concat [take 23 demo_request, drop 23 demo_request]))"
    by (simp add: kReqSize_def demo_request_def blank_line_def)
  then show ?thesis using http_request_read [OF c] by blast
qed

text \<open>C33. A scrape over HTTP returns the counters: whatever a connection is sent is a beginning of the
  response; when every write makes progress all of it is sent, and then a client that splits it at
  the empty line finds the announced length equal to that of the body, and in the body every
  sample of the server.\<close>

theorem http_scrape_exact:
  assumes "\<forall>(n, t)\<in>set threads. plain 70 n" "length (BuildText g threads) < 2 ^ 63"
  defines "resp \<equiv> http_response (BuildText g threads)"
  shows "prefix (fst (response_loop resp ws)) resp \<and>
    ((\<forall>w\<in>set ws. \<exists>k. w = Took k) \<longrightarrow> length resp \<le> length ws \<longrightarrow>
     (\<exists>body. http_get (fst (response_loop resp ws)) = Some (int (length body), body) \<and>
        scrape body = map (\<lambda>(k, v). (k, sint v)) (samples g threads)))"
proof -
  let ?b = "BuildText g threads"
  have r: "resp = http_header (length ?b) @ ?b" unfolding resp_def by (rule http_response_eq [OF assms(2)])
  have "\<not> is_digit (CHR 0x0D)" by (simp add: is_digit_def)
  then have "atoi (dec (int (length ?b)) @ CRLF @ s) = int (length ?b)" for s
    by (simp add: CRLF_def atoi_dec_then)
  then have "http_get resp = Some (int (length ?b), ?b)"
    by (simp add: http_get_def r field_value_header after_blank_header)
  moreover have "scrape ?b = map (\<lambda>(k, v). (k, sint v)) (samples g threads)" by (rule BuildText_scrapes [OF assms(1)])
  ultimately show ?thesis using response_loop_prefix response_loop_whole by metis
qed

text \<open>The names the threads of the server register under meet the hypothesis.\<close>

definition demo_threads :: "(string \<times> i64 option) list" where
  "demo_threads = read_clocks Some (RegisterThisThread (thread_name ''game'' 0) (Some 9) (RegisterThisThread (thread_name ''epoll'' 3) None
     (RegisterThisThread ''main'' (Some 7) [])))"

theorem http_scrape_exact_witness:
  "\<exists>body. http_get (fst (response_loop (http_response (BuildText zero_counters demo_threads)) (replicate 100000 (Took 100)))) =
     Some (int (length body), body) \<and> scrape body = map (\<lambda>(k, v). (k, sint v)) (samples zero_counters demo_threads)"
proof -
  have t: "demo_threads = [(''main'', Some 7), (thread_name ''game'' 0, Some 9)]" by (simp add: demo_threads_def RegisterThisThread_def read_clocks_def)
  have p: "\<forall>(n, t)\<in>set demo_threads. plain 70 n"
    using plain_thread_name [of "''game''" 0] by (simp add: t plain_def SP_def NL_def)
  have l: "length (BuildText zero_counters demo_threads) \<le> 127 * 100"
    by (rule order_trans [OF BuildText_length]) (simp add: samples_def scalars_def zero_counters_def t)
  have l2: "length (BuildText zero_counters demo_threads) < 2 ^ 63" by (rule le_less_trans [OF l]) simp
  have "length (http_response (BuildText zero_counters demo_threads)) \<le> 100000" using l by (simp add: http_response_def)
  then show ?thesis using http_scrape_exact [OF p l2, of "replicate 100000 (Took 100)"] by simp
qed

text \<open>The descriptor of the listening socket is neither leaked nor closed twice: a start that fails leaves
  the server without descriptor and thread and has closed what it opened; after a start that
  succeeds a stop shuts the socket down, joins the thread and only then closes it; a further stop,
  such as that of the destructor, does nothing.\<close>

theorem metrics_server_balanced:
  assumes "\<not> ms_running s" "ms_listenFd s < 0"
  shows "case Server_Start sock bound listening s of (ok, ev, s1) \<Rightarrow>
    (ok \<longleftrightarrow> 0 \<le> sock \<and> bound \<and> listening) \<and> ms_running s1 = ok \<and> (ok \<longleftrightarrow> 0 \<le> ms_listenFd s1) \<and>
    (\<not> ok \<longrightarrow> ev = (if 0 \<le> sock then [HOpened sock, HClosed sock] else [])) \<and>
    (ok \<longrightarrow> Server_Stop s1 = ([HShutdown sock, HJoined, HClosed sock], s1\<lparr>ms_running := False, ms_thread := False, ms_listenFd := - 1\<rparr>)) \<and>
    Server_Stop (snd (Server_Stop s1)) = ([], snd (Server_Stop s1))"
  using assms by (auto simp: Server_Start_def Server_Stop_def Let_def split: if_splits)

theorem metrics_server_balanced_witness:
  "fst (Server_Stop (snd (snd (Server_Start 5 True True new_metrics_server)))) = [HShutdown 5, HJoined, HClosed 5]"
  using metrics_server_balanced [of new_metrics_server 5 True True] by (simp add: new_metrics_server_def split: prod.splits)

end
