(* ===== verification/Services.thy ===== *)
theory Services
  imports Startup Server_Props HttpServer
begin

text \<open>
  Starting and stopping the threads of the server: \<open>EpollWorker::Start\<close>, \<open>Stop\<close> and
  \<open>CleanupInThread\<close>, \<open>NetService\<close> (EpollWorker.cpp), and the order in which \<open>main\<close> stops the
  services. The property of this theory says what a shutdown leaves behind.
\<close>

section \<open>Epoll workers\<close>

text \<open>The descriptors of a worker of its own, and whether its thread runs.\<close>

record EpollThread =
  ew_epfd :: int
  ew_listenFd :: int
  ew_running :: bool

text \<open>The answers of the system calls of a start.\<close>

record SetupScript =
  su_epoll :: int
  su_socket :: int
  su_bind :: bool
  su_listen :: bool
  su_ctl :: bool

definition EpollWorker_Start :: "SetupScript \<Rightarrow> bool \<times> EpollThread" where
  "EpollWorker_Start u =
     (let w1 = \<lparr>ew_epfd = su_epoll u, ew_listenFd = - 1, ew_running = False\<rparr> in
      if su_epoll u < 0 then (False, w1) else
      let w2 = w1\<lparr>ew_listenFd := su_socket u\<rparr> in
      if su_socket u < 0 then (False, w2)
      else if \<not> su_bind u \<or> \<not> su_listen u then (False, w2)
      else if \<not> su_ctl u then (False, w2)
      else (True, w2\<lparr>ew_running := True\<rparr>))"

definition worker_fds :: "EpollThread \<Rightarrow> int list" where
  "worker_fds w = filter (\<lambda>f. 0 \<le> f) [ew_listenFd w, ew_epfd w]"

text \<open>The end of the thread of worker k: its sessions are cut, then its own descriptors closed.\<close>

definition end_of_thread :: "nat \<Rightarrow> EpollThread \<Rightarrow> ('r, 's) Server \<Rightarrow> ('r, 's) Server" where
  "end_of_thread k w S = fold os_close (worker_fds w) (CleanupInThread k S)"

text \<open>\<open>Stop\<close> lowers the flag and joins; a worker that does not run, or no longer, is left alone.\<close>

definition EpollWorker_Stop :: "nat \<Rightarrow> EpollThread \<Rightarrow> ('r, 's) Server \<Rightarrow> ('r, 's) Server" where
  "EpollWorker_Stop k w S = (if ew_running w then end_of_thread k w S else S)"

section \<open>The transport\<close>

text \<open>
  The loop of \<open>NetService::Start\<close>: whether all workers came up, the workers it keeps, and the one
  that failed, which is destroyed.
\<close>

fun NetService_Start :: "SetupScript list \<Rightarrow> bool \<times> EpollThread list \<times> EpollThread option" where
  "NetService_Start [] = (True, [], None)"
| "NetService_Start (u # us) =
     (case EpollWorker_Start u of
        (False, w) \<Rightarrow> (False, [], Some w)
      | (True, w) \<Rightarrow> (case NetService_Start us of (ok, ws, lost) \<Rightarrow> (ok, w # ws, lost)))"

definition NetService_Stop :: "EpollThread list \<Rightarrow> ('r, 's) Server \<Rightarrow> ('r, 's) Server" where
  "NetService_Stop ws S = fold (\<lambda>(k, w). EpollWorker_Stop k w) (enumerate 0 ws) S"

section \<open>Game workers\<close>

record GameThread =
  gt_id :: nat
  gt_total :: nat
  gt_t0Ns :: int
  gt_running :: bool

definition GameWorker_Start :: "nat \<Rightarrow> nat \<Rightarrow> int \<Rightarrow> GameThread" where
  "GameWorker_Start i totalWorkers t0Ns =
     \<lparr>gt_id = i, gt_total = (if totalWorkers = 0 then 1 else totalWorkers), gt_t0Ns = t0Ns, gt_running = True\<rparr>"

text \<open>\<open>GameService::Start\<close> at time \<open>now\<close>: its workers share the time of reference, 100 ms ahead.\<close>

definition GameService_threads :: "u32 \<Rightarrow> int \<Rightarrow> ('r, 's) Server \<Rightarrow> (GameThread list \<times> ('r, 's) Server) option" where
  "GameService_threads n now S =
     (if \<not> GameService_Start n then None
      else Some (map (\<lambda>i. GameWorker_Start i (unat n) (now + 100 * 1000000)) [0..<unat n],
                 count_up (\<lambda>m. m\<lparr>mt_gameWorkerCount := ucast n\<rparr>) S))"

text \<open>
  \<open>Stop\<close> lowers the flag and joins the thread, which ends its loop; the service stops its workers and
  forgets them: the workers as they are destroyed, and those that are left.
\<close>

definition GameWorker_Stop :: "GameThread \<Rightarrow> GameThread" where
  "GameWorker_Stop th = (if \<not> gt_running th then th else th\<lparr>gt_running := False\<rparr>)"

definition GameService_Stop :: "GameThread list \<Rightarrow> GameThread list \<times> GameThread list" where
  "GameService_Stop ths = (map GameWorker_Stop ths, [])"

text \<open>
  The end of \<open>main\<close>: the game workers end first, with the state as their last tick left it; then
  the transport, then the metrics.
\<close>

definition server_stop :: "GameThread list \<Rightarrow> EpollThread list \<Rightarrow> MetricsServer \<Rightarrow> ('r, 's) Server \<Rightarrow>
    (GameThread list \<times> GameThread list) \<times> ('r, 's) Server \<times> http_event list \<times> MetricsServer" where
  "server_stop ths ws ms S = (GameService_Stop ths, NetService_Stop ws S, Server_Stop ms)"

section \<open>Cutting the sessions of a worker\<close>

definition hangups :: "nat list \<Rightarrow> ('r, 's) Server \<Rightarrow> os_event list" where
  "hangups is S = map (\<lambda>i. Closed (fd (At S i))) (filter (\<lambda>i. 0 \<le> fd (At S i)) is)"

lemma hangups_cong: "(\<And>i. i \<in> set is \<Longrightarrow> At S' i = At S i) \<Longrightarrow> hangups is S' = hangups is S"
  by (induction "is") (simp_all add: hangups_def)

lemma cut_one:
  assumes "Inv S" "k < length (mySessions S)" "i \<in> set (mySessions S ! k)"
  defines "S' \<equiv> Disconnect k i S"
  shows "Inv S'" "server_step ST MT S S'" "j \<noteq> i \<Longrightarrow> At S' j = At S j" "k_log (kern S') = k_log (kern S) @ hangups [i] S"
    "distinct (mySessions S' ! k)" "set (mySessions S' ! k) = set (mySessions S ! k) - {i}"
    "length (mySessions S') = length (mySessions S)" "l \<noteq> k \<Longrightarrow> mySessions S' ! l = mySessions S ! l"
proof -
  have s: "i < length (slots (pool S))" "\<not> dead (At S i)" "refs (At S i) \<noteq> 0" "owner (At S i) = k" and d: "distinct (mySessions S ! k)"
    using InvD(3) [OF assms(1)] assms(2,3) by (auto simp: mine_ok_def)
  have ix: "idx (At S i) = i" using pool_okD(1) [OF InvD(6) [OF assms(1)] s(1)] .
  have "inRoom (At S i) \<longrightarrow> roomIdx (At S i) < length (rooms S)"
    using in_room_live(1) [OF assms(1) s(1,3)] by (simp add: live_def)
  note D = Disconnect_eqs [OF s(1,2) ix this, of k, folded S'_def]
  show "Inv S'" unfolding S'_def by (rule Inv_Disconnect [OF assms(1) s(1,3) s(4) [symmetric]])
  show "server_step ST MT S S'" unfolding S'_def by (rule server_step.cleanup [OF assms(2,3)])
  show "j \<noteq> i \<Longrightarrow> At S' j = At S j" using s(1) by (simp add: D(1) slots_Release slots_upd_sess)
  show "k_log (kern S') = k_log (kern S) @ hangups [i] S"
    using s(1,2) by (simp add: S'_def Disconnect_def hangups_def Let_def slots_upd_sess OnSessionLeave_def os_close_def os_log_def)
  have "mySessions S' ! k = swap_remove i (mySessions S ! k)" using assms(2) by (simp add: D(3))
  then show "distinct (mySessions S' ! k)" "set (mySessions S' ! k) = set (mySessions S ! k) - {i}"
    using swap_remove_distinct_set [OF d] by simp_all
  show "length (mySessions S') = length (mySessions S)" "l \<noteq> k \<Longrightarrow> mySessions S' ! l = mySessions S ! l" by (simp_all add: D(3))
qed

lemma cut_all:
  assumes "Inv S" "k < length (mySessions S)" "distinct is" "set is \<subseteq> set (mySessions S ! k)"
  shows "let S' = fold (Disconnect k) is S in
    Inv S' \<and> (server_step ST MT)\<^sup>*\<^sup>* S S' \<and> (\<forall>j. j \<notin> set is \<longrightarrow> At S' j = At S j) \<and>
    k_log (kern S') = k_log (kern S) @ hangups is S \<and> set (mySessions S' ! k) = set (mySessions S ! k) - set is \<and>
    length (mySessions S') = length (mySessions S) \<and> (\<forall>l. l \<noteq> k \<longrightarrow> mySessions S' ! l = mySessions S ! l)"
  using assms
proof (induction "is" arbitrary: S)
  case Nil
  then show ?case by (simp add: hangups_def)
next
  case (Cons i js)
  define S1 where "S1 = Disconnect k i S"
  have i: "i \<in> set (mySessions S ! k)" using Cons.prems(4) by simp
  note c = cut_one [OF Cons.prems(1,2) i, folded S1_def]
  define S2 where "S2 = fold (Disconnect k) js S1"
  have "k < length (mySessions S1)" "distinct js" "set js \<subseteq> set (mySessions S1 ! k)"
    using Cons.prems c(6,7) by auto
  from Cons.IH [OF c(1) this] have IH: "Inv S2" "(server_step ST MT)\<^sup>*\<^sup>* S1 S2" "\<And>j. j \<notin> set js \<Longrightarrow> At S2 j = At S1 j"
    "k_log (kern S2) = k_log (kern S1) @ hangups js S1" "set (mySessions S2 ! k) = set (mySessions S1 ! k) - set js"
    "length (mySessions S2) = length (mySessions S1)" "\<And>l. l \<noteq> k \<Longrightarrow> mySessions S2 ! l = mySessions S1 ! l"
    unfolding Let_def S2_def [symmetric] by blast+
  have "At S1 j = At S j" if "j \<in> set js" for j using c(3) [of j] Cons.prems(3) that by auto
  then have h: "hangups js S1 = hangups js S" by (rule hangups_cong)
  have "hangups (i # js) S = hangups [i] S @ hangups js S" by (simp add: hangups_def)
  then have "k_log (kern S2) = k_log (kern S) @ hangups (i # js) S" by (simp add: IH(4) c(4) h)
  moreover have "(server_step ST MT)\<^sup>*\<^sup>* S S2" by (rule converse_rtranclp_into_rtranclp [OF c(2) IH(2)])
  moreover have "fold (Disconnect k) (i # js) S = S2" by (simp add: S2_def S1_def)
  ultimately show ?case using IH c(3,6-8) by (auto simp: Let_def)
qed

lemma close_log: "k_log (kern (fold os_close fs S)) = k_log (kern S) @ map Closed fs"
  by (induction fs arbitrary: S) (simp_all add: os_close_def os_log_def)

lemma close_frame: "pool (fold os_close fs S) = pool S" "mySessions (fold os_close fs S) = mySessions S"
  "(server_step ST MT)\<^sup>*\<^sup>* S (fold os_close fs S)"
proof -
  have e: "fold os_close fs S = S\<lparr>kern := kern (fold os_close fs S)\<rparr>"
  proof (induction fs arbitrary: S)
    case (Cons f fs)
    have "fold os_close (f # fs) S = (os_close f S)\<lparr>kern := kern (fold os_close fs (os_close f S))\<rparr>" using Cons [of "os_close f S"] by simp
    also have "\<dots> = S\<lparr>kern := kern (fold os_close (f # fs) S)\<rparr>" by (simp add: os_close_def os_log_def)
    finally show ?case .
  qed simp
  show "pool (fold os_close fs S) = pool S" "mySessions (fold os_close fs S) = mySessions S" by (subst e, simp)+
  show "(server_step ST MT)\<^sup>*\<^sup>* S (fold os_close fs S)" by (subst e) (rule r_into_rtranclp, rule server_step.environment)
qed

text \<open>What a thread closes at its end.\<close>

definition closings :: "nat \<Rightarrow> EpollThread \<Rightarrow> ('r, 's) Server \<Rightarrow> os_event list" where
  "closings k w S = hangups (mySessions S ! k) S @ map Closed (worker_fds w)"

lemma thread_ends:
  fixes w :: EpollThread
  assumes "Inv S" "k < length (mySessions S)"
  defines "S' \<equiv> end_of_thread k w S"
  shows "Inv S'" "(server_step ST MT)\<^sup>*\<^sup>* S S'" "j \<notin> set (mySessions S ! k) \<Longrightarrow> At S' j = At S j"
    "k_log (kern S') = k_log (kern S) @ closings k w S" "mySessions S' = (mySessions S)[k := []]"
proof -
  define S1 where "S1 = CleanupInThread k S"
  have d: "distinct (mySessions S ! k)" using InvD(3) [OF assms(1)] assms(2) by (simp add: mine_ok_def)
  from cut_all [OF assms(1,2) d subset_refl, where ST = ST and MT = MT]
  have c: "Inv S1" "(server_step ST MT)\<^sup>*\<^sup>* S S1" "\<And>j. j \<notin> set (mySessions S ! k) \<Longrightarrow> At S1 j = At S j"
    "k_log (kern S1) = k_log (kern S) @ hangups (mySessions S ! k) S" "set (mySessions S1 ! k) = {}"
    "length (mySessions S1) = length (mySessions S)" "\<And>l. l \<noteq> k \<Longrightarrow> mySessions S1 ! l = mySessions S ! l"
    unfolding Let_def CleanupInThread_def [symmetric] S1_def [symmetric] by auto
  have e: "S' = fold os_close (worker_fds w) S1" by (simp add: S'_def end_of_thread_def S1_def)
  show st: "(server_step ST MT)\<^sup>*\<^sup>* S S'" unfolding e by (rule rtranclp_trans [OF c(2) close_frame(3)])
  show "Inv S'" using st assms(1) by (induction rule: rtranclp_induct) (auto intro: Inv_step)
  show "j \<notin> set (mySessions S ! k) \<Longrightarrow> At S' j = At S j" by (simp add: e close_frame(1) c(3))
  show "k_log (kern S') = k_log (kern S) @ closings k w S" by (simp add: e close_log c(4) closings_def)
  have "mySessions S1 = (mySessions S)[k := []]"
    by (rule nth_equalityI) (use c(5-7) assms(2) in \<open>auto simp: nth_list_update\<close>)
  then show "mySessions S' = (mySessions S)[k := []]" by (simp add: e close_frame(2))
qed

lemma all_threads_end:
  assumes "Inv S" "k + length ws = length (mySessions S)" "\<forall>w\<in>set ws. ew_running w" "\<forall>l<k. mySessions S ! l = []"
  defines "S' \<equiv> fold (\<lambda>(k, w). EpollWorker_Stop k w) (enumerate k ws) S"
  shows "Inv S' \<and> (server_step ST MT)\<^sup>*\<^sup>* S S' \<and> (\<forall>l<length (mySessions S'). mySessions S' ! l = []) \<and>
    length (mySessions S') = length (mySessions S) \<and>
    k_log (kern S') = k_log (kern S) @ concat (map (\<lambda>(k, w). closings k w S) (enumerate k ws))"
  using assms(1-4) unfolding S'_def
proof (induction ws arbitrary: k S)
  case Nil
  then show ?case by simp
next
  case (Cons w ws)
  define S1 where "S1 = end_of_thread k w S"
  have k: "k < length (mySessions S)" using Cons.prems(2) by simp
  note t = thread_ends [OF Cons.prems(1) k, where w = w, folded S1_def]
  define S2 where "S2 = fold (\<lambda>(k, w). EpollWorker_Stop k w) (enumerate (Suc k) ws) S1"
  have "Suc k + length ws = length (mySessions S1)" "\<forall>w\<in>set ws. ew_running w" "\<forall>l<Suc k. mySessions S1 ! l = []"
    using Cons.prems k by (auto simp: t(5) nth_list_update less_Suc_eq)
  from Cons.IH [OF t(1) this, folded S2_def]
  have IH: "Inv S2" "(server_step ST MT)\<^sup>*\<^sup>* S1 S2" "\<forall>l<length (mySessions S2). mySessions S2 ! l = []"
    "length (mySessions S2) = length (mySessions S1)"
    "k_log (kern S2) = k_log (kern S1) @ concat (map (\<lambda>(k, w). closings k w S1) (enumerate (Suc k) ws))" by blast+
  have same: "closings l v S1 = closings l v S" if l: "Suc k \<le> l" "l < length (mySessions S)" for l v
  proof -
    have m: "mySessions S1 ! l = mySessions S ! l" using l by (simp add: t(5))
    have "At S1 i = At S i" if "i \<in> set (mySessions S ! l)" for i
    proof (rule t(3))
      show "i \<notin> set (mySessions S ! k)" using InvD(3) [OF Cons.prems(1)] that l k unfolding mine_ok_def by auto
    qed
    then have "hangups (mySessions S ! l) S1 = hangups (mySessions S ! l) S" by (rule hangups_cong)
    then show ?thesis by (simp only: closings_def m)
  qed
  have same_all: "map (\<lambda>(k, w). closings k w S1) (enumerate (Suc k) ws) = map (\<lambda>(k, w). closings k w S) (enumerate (Suc k) ws)"
    using same Cons.prems(2) by (auto simp: in_set_enumerate_eq)
  have "k_log (kern S2) = k_log (kern S) @ concat (map (\<lambda>(k, w). closings k w S) (enumerate k (w # ws)))"
    unfolding IH(5) t(4) same_all by simp
  moreover have "fold (\<lambda>(k, w). EpollWorker_Stop k w) (enumerate k (w # ws)) S = S2"
    using Cons.prems(3) by (simp add: S2_def S1_def EpollWorker_Stop_def)
  ultimately show ?case using IH(1,3,4) rtranclp_trans [OF t(2) IH(2)] by (auto simp: t(5))
qed

section \<open>Properties\<close>

text \<open>C9. A shutdown hangs up on everybody: after \<open>NetService::Stop\<close> every session list is empty and every
  session that is still held is dead, held by its seat alone; and what the transport has closed
  are exactly the sockets of the live sessions and the descriptors of its workers, each once, in
  the order of the workers. The state is still one of those the invariants hold in.\<close>

theorem shutdown_closes_everything:
  assumes "reach booted (server_step ST MT) S" "length ws = length (mySessions S)" "\<forall>w\<in>set ws. ew_running w"
  defines "S' \<equiv> NetService_Stop ws S"
  shows "reach booted (server_step ST MT) S' \<and> (\<forall>k<length (mySessions S'). mySessions S' ! k = []) \<and>
    (\<forall>i<length (slots (pool S')). refs (At S' i) \<noteq> 0 \<longrightarrow> dead (At S' i) \<and> refs (At S' i) = 1) \<and>
    k_log (kern S') = k_log (kern S) @ concat (map (\<lambda>(k, w). closings k w S) (enumerate 0 ws))"
proof -
  note inv = server.reach_inv [OF assms(1)]
  have "0 + length ws = length (mySessions S)" "\<forall>l<0. mySessions S ! l = []" using assms(2) by simp_all
  from all_threads_end [OF inv this(1) assms(3) this(2), where ST = ST and MT = MT, folded NetService_Stop_def, folded S'_def]
  have E: "Inv S'" "(server_step ST MT)\<^sup>*\<^sup>* S S'" "\<forall>l<length (mySessions S'). mySessions S' ! l = []"
    "k_log (kern S') = k_log (kern S) @ concat (map (\<lambda>(k, w). closings k w S) (enumerate 0 ws))" by blast+
  have "dead (At S' i) \<and> refs (At S' i) = 1" if i: "i < length (slots (pool S'))" "refs (At S' i) \<noteq> 0" for i
  proof -
    have m: "owner (At S' i) < length (mySessions S')" using InvD(3) [OF E(1)] i unfolding mine_ok_def by auto
    have d: "dead (At S' i)"
    proof (rule ccontr)
      assume "\<not> ?thesis"
      then have "i \<in> set (mySessions S' ! owner (At S' i))" using InvD(3) [OF E(1)] i m unfolding mine_ok_def by blast
      then show False using E(3) m by simp
    qed
    have "refs (At S' i) = of_bool (\<not> dead (At S' i)) + of_bool (tab S' (roomIdx (At S' i)) (actorId (At S' i)) = Some (i, gen (At S' i)))"
      using InvD(2) [OF E(1)] i unfolding books_ok_def sess_ok_def by blast
    then show ?thesis using d i(2) by (simp split: if_splits)
  qed
  then show ?thesis using E server.reach_star [OF E(2) assms(1)] by blast
qed

theorem shutdown_closes_everything_witness:
  "k_log (kern (NetService_Stop [\<lparr>ew_epfd = 3, ew_listenFd = 4, ew_running = True\<rparr>] demo2)) = k_log (kern demo2) @ [Closed 7, Closed 4, Closed 3]"
  using shutdown_closes_everything [OF demo_reach(2), of "[\<lparr>ew_epfd = 3, ew_listenFd = 4, ew_running = True\<rparr>]"]
  by (simp add: demo2 demo_sess_def closings_def hangups_def worker_fds_def)

text \<open>C35. A transport that comes up has all its workers running; one that does not keeps the workers it has
  started, which are stopped with it, and loses the one that failed: that worker does not run, so
  its \<open>Stop\<close> does nothing, and the descriptors it had opened are never closed.\<close>

theorem failed_start_leaks:
  "case NetService_Start us of (ok, ws, lost) \<Rightarrow>
     (\<forall>w\<in>set ws. ew_running w) \<and> (ok \<longleftrightarrow> lost = None) \<and> (ok \<longrightarrow> length ws = length us) \<and>
     (\<forall>w. lost = Some w \<longrightarrow> length ws < length us \<and> EpollWorker_Start (us ! length ws) = (False, w) \<and>
        EpollWorker_Stop k w S = S \<and>
        (0 \<le> su_epoll (us ! length ws) \<and> 0 \<le> su_socket (us ! length ws) \<longrightarrow>
           worker_fds w = [su_socket (us ! length ws), su_epoll (us ! length ws)]))"
proof (induction us)
  case Nil
  then show ?case by simp
next
  case (Cons u us)
  have r: "fst (EpollWorker_Start u) = ew_running (snd (EpollWorker_Start u))"
    by (simp add: EpollWorker_Start_def Let_def)
  have f: "worker_fds (snd (EpollWorker_Start u)) = [su_socket u, su_epoll u]" if "0 \<le> su_epoll u" "0 \<le> su_socket u"
    using that by (simp add: EpollWorker_Start_def Let_def worker_fds_def)
  obtain b w where e: "EpollWorker_Start u = (b, w)" by (cases "EpollWorker_Start u")
  obtain ok ws lost where n: "NetService_Start us = (ok, ws, lost)" by (cases "NetService_Start us")
  show ?case
  proof (cases b)
    case True
    then show ?thesis using Cons.IH r by (simp add: e n)
  next
    case False
    then show ?thesis using r f by (simp add: e EpollWorker_Stop_def)
  qed
qed

theorem failed_start_leaks_witness:
  "snd (snd (NetService_Start [\<lparr>su_epoll = 3, su_socket = 4, su_bind = False, su_listen = True, su_ctl = True\<rparr>])) =
     Some \<lparr>ew_epfd = 3, ew_listenFd = 4, ew_running = False\<rparr>"
  using failed_start_leaks [of "[\<lparr>su_epoll = 3, su_socket = 4, su_bind = False, su_listen = True, su_ctl = True\<rparr>]"]
  by (simp add: EpollWorker_Start_def)

end
