(* ===== verification/Pacing.thy ===== *)
theory Pacing
  imports GameWorker_Props
begin

text \<open>
  The loop of a game worker over a whole run (GameWorker.cpp, \<open>GameWorker::Loop\<close>): the property says
  that the rate of ticks is that of the clock, up to the rebases.
\<close>

text \<open>
  The loop along the delays with which the sleeps end: \<open>clock_nanosleep\<close> with an absolute time
  returns at that time or later. The end of the list is the lowered flag.
\<close>

fun game_loop :: "'s ring_ops \<Rightarrow> nat \<Rightarrow> nat list \<Rightarrow> int \<Rightarrow> ('r, 's) Server \<Rightarrow> int \<times> ('r, 's) Server" where
  "game_loop MT w [] next S = (next, S)"
| "game_loop MT w (d # ds) next S =
     (case wake MT w (next + int d) next S of (next', S') \<Rightarrow> game_loop MT w ds next' S')"

definition GameWorker_Loop :: "'s ring_ops \<Rightarrow> nat \<Rightarrow> nat \<Rightarrow> int \<Rightarrow> nat list \<Rightarrow> ('r, 's) Server \<Rightarrow> int \<times> ('r, 's) Server" where
  "GameWorker_Loop MT w workers t0 ds S = game_loop MT w ds (first_tick t0 w workers) S"

lemma upd_stats_length [simp]: "length (mt_game (met (upd_stats w f S))) = length (mt_game (met S))"
  by (simp add: upd_stats_def count_up_def)

lemma catch_up_length: "length (mt_game (met (snd (snd (catch_up MT w now n nx S))))) = length (mt_game (met S))"
proof (induction n arbitrary: nx S)
  case (Suc n)
  have "length (mt_game (met (TickOnce MT w S))) = length (mt_game (met S))"
    using same_game_TickOnce [of S MT w] by (simp add: same_game_def)
  then show ?case using Suc by (simp add: Let_def case_prod_beta)
qed simp

lemma wake_length: "length (mt_game (met (snd (wake MT w now next S)))) = length (mt_game (met S))"
  by (simp add: wake_def Let_def case_prod_beta catch_up_length)

text \<open>One wake-up moves the schedule by the ticks it has run or skipped, or up to a period more when it rebases.\<close>

lemma wake_shift:
  fixes MT :: "'s ring_ops" and S :: "('r, 's) Server" and w d :: nat and "next" :: int
  assumes "w < length (mt_game (met S))"
  defines "g \<equiv> mt_game (met S) ! w" and "W \<equiv> wake MT w (next + int d) next S"
  defines "g' \<equiv> mt_game (met (snd W)) ! w"
  shows "\<exists>n k r. 1 \<le> n \<and> n \<le> 3 \<and> r \<le> k \<and> r \<le> 1 \<and> g_ticks g' = g_ticks g + of_nat n \<and>
    g_skippedTicks g' = g_skippedTicks g + of_nat k \<and> g_rebases g' = g_rebases g + of_nat r \<and> g_wakes g' = g_wakes g + 1 \<and>
    next + int (n + k) * kTickPeriodNs \<le> fst W \<and> fst W \<le> next + int (n + k + r) * kTickPeriodNs"
proof -
  let ?P = kTickPeriodNs and ?now = "next + int d"
  define n k where "n = min 3 (due next ?now)" and "k = due next ?now - min 3 (due next ?now)"
  have le: "next \<le> ?now" by simp
  note E = wake_effect [OF assms(1) le, where MT = MT, folded n_def k_def W_def g_def g'_def]
  have d: "int (n + k) = int d div ?P + 1"
  proof -
    have "n + k = due next ?now" by (simp add: n_def k_def)
    also have "int \<dots> = int d div ?P + 1" using period_pos by (simp add: due_eq pos_imp_zdiv_nonneg_iff)
    finally show ?thesis .
  qed
  have b: "int d div ?P * ?P \<le> int d" "int d < (int d div ?P + 1) * ?P"
    using le_div_period [of "int d div ?P" "int d"] le_div_period [of "int d div ?P + 1" "int d"] by linarith+
  have "next + int (n + k) * ?P \<le> fst W \<and> fst W \<le> next + int (n + k + of_bool (0 < k)) * ?P"
  proof (cases "k = 0")
    case True
    then show ?thesis using E by simp
  next
    case False
    then have "fst W = ?now + ?P" using E by simp
    then show ?thesis using b False d by (simp add: algebra_simps)
  qed
  moreover have "n \<le> 3" by (simp add: n_def)
  moreover have "of_bool (0 < k) \<le> k" "of_bool (0 < k) \<le> (1 :: nat)" by simp_all
  moreover have "1 \<le> n" "g_ticks g' = g_ticks g + of_nat n" "g_skippedTicks g' = g_skippedTicks g + of_nat k"
    "g_rebases g' = g_rebases g + of_bool (0 < k)" "g_wakes g' = g_wakes g + 1" using E by blast+
  ultimately show ?thesis by (metis of_nat_of_bool)
qed

lemma loop_shift:
  fixes MT :: "'s ring_ops" and S :: "('r, 's) Server" and w :: nat and ds :: "nat list" and "next" :: int
  assumes "w < length (mt_game (met S))"
  defines "g \<equiv> mt_game (met S) ! w" and "L \<equiv> game_loop MT w ds next S"
  defines "g' \<equiv> mt_game (met (snd L)) ! w"
  shows "\<exists>n k r. length ds \<le> n \<and> n \<le> 3 * length ds \<and> r \<le> k \<and> r \<le> length ds \<and> g_ticks g' = g_ticks g + of_nat n \<and>
    g_skippedTicks g' = g_skippedTicks g + of_nat k \<and> g_rebases g' = g_rebases g + of_nat r \<and> g_wakes g' = g_wakes g + of_nat (length ds) \<and>
    next + int (n + k) * kTickPeriodNs \<le> fst L \<and> fst L \<le> next + int (n + k + r) * kTickPeriodNs"
  using assms(1) unfolding g_def L_def g'_def
proof (induction ds arbitrary: "next" S)
  case Nil
  show ?case by (intro exI [of _ "0 :: nat"]) simp
next
  case (Cons d ds)
  define n1 S1 where "n1 = fst (wake MT w (next + int d) next S)" and "S1 = snd (wake MT w (next + int d) next S)"
  have l1: "w < length (mt_game (met S1))" using Cons.prems by (simp add: S1_def wake_length)
  have e: "game_loop MT w (d # ds) next S = game_loop MT w ds n1 S1" by (simp add: n1_def S1_def case_prod_beta)
  obtain n k r where 1: "1 \<le> n" "n \<le> 3" "r \<le> k" "r \<le> 1"
    "g_ticks (mt_game (met S1) ! w) = g_ticks (mt_game (met S) ! w) + of_nat n"
    "g_skippedTicks (mt_game (met S1) ! w) = g_skippedTicks (mt_game (met S) ! w) + of_nat k"
    "g_rebases (mt_game (met S1) ! w) = g_rebases (mt_game (met S) ! w) + of_nat r"
    "g_wakes (mt_game (met S1) ! w) = g_wakes (mt_game (met S) ! w) + 1"
    "next + int (n + k) * kTickPeriodNs \<le> n1" "n1 \<le> next + int (n + k + r) * kTickPeriodNs"
    using wake_shift [OF Cons.prems, of MT "next" d] unfolding n1_def S1_def by blast
  let ?g' = "mt_game (met (snd (game_loop MT w ds n1 S1))) ! w"
  obtain n' k' r' where 2: "length ds \<le> n'" "n' \<le> 3 * length ds" "r' \<le> k'" "r' \<le> length ds"
    "g_ticks ?g' = g_ticks (mt_game (met S1) ! w) + of_nat n'" "g_skippedTicks ?g' = g_skippedTicks (mt_game (met S1) ! w) + of_nat k'"
    "g_rebases ?g' = g_rebases (mt_game (met S1) ! w) + of_nat r'" "g_wakes ?g' = g_wakes (mt_game (met S1) ! w) + of_nat (length ds)"
    "n1 + int (n' + k') * kTickPeriodNs \<le> fst (game_loop MT w ds n1 S1)"
    "fst (game_loop MT w ds n1 S1) \<le> n1 + int (n' + k' + r') * kTickPeriodNs"
    using Cons.IH [OF l1] by blast
  show ?case
    unfolding e using 1 2
    by (intro exI [of _ "n + n'"] exI [of _ "k + k'"] exI [of _ "r + r'"]) (auto simp: algebra_simps)
qed



end
