(* ===== verification/Threads.thy ===== *)
theory Threads
  imports Services Pacing
begin

text \<open>
  The threads of the server as a whole: the body of an epoll worker (\<open>EpollWorker::Loop\<close>) and that of
  a game worker (\<open>GameWorker::Loop\<close>), from their first round to their end. The property ties them to the transition system in which the invariants are proved.
\<close>

section \<open>Game workers\<close>

text \<open>The body of a game worker, along the delays of its wake-ups until its flag is lowered.\<close>

definition game_thread :: "'s ring_ops \<Rightarrow> GameThread \<Rightarrow> nat list \<Rightarrow> ('r, 's) Server \<Rightarrow> int \<times> ('r, 's) Server" where
  "game_thread MT th ds S = GameWorker_Loop MT (gt_id th) (gt_total th) (gt_t0Ns th) ds S"

section \<open>Epoll workers\<close>

text \<open>The body of an epoll worker, along the batches of \<open>epoll_wait\<close> until its flag is lowered.\<close>

definition EpollWorker_Loop :: "'r ring_ops \<Rightarrow> 's ring_ops \<Rightarrow> nat \<Rightarrow> EpollThread \<Rightarrow> (u64 \<times> u32) list list \<Rightarrow> ('r, 's) Server \<Rightarrow> ('r, 's) Server" where
  "EpollWorker_Loop ST MT k w rounds S = end_of_thread k w (fold (loop_round ST MT k) rounds S)"

text \<open>Every batch is one \<open>epoll_wait\<close> can return: its sessions are registered with this worker.\<close>

fun rounds_ok :: "'r ring_ops \<Rightarrow> 's ring_ops \<Rightarrow> nat \<Rightarrow> (u64 \<times> u32) list list \<Rightarrow> ('r, 's) Server \<Rightarrow> bool" where
  "rounds_ok ST MT k [] S \<longleftrightarrow> True"
| "rounds_ok ST MT k (evs # rs) S \<longleftrightarrow> batch_ok ST MT k evs S \<and> rounds_ok ST MT k rs (loop_round ST MT k evs S)"

section \<open>The threads and the transition system\<close>

lemma rounds_steps:
  "ready k S \<Longrightarrow> rounds_ok ST MT k rs S \<Longrightarrow>
   (server_step ST MT)\<^sup>*\<^sup>* S (fold (loop_round ST MT k) rs S) \<and> ready k (fold (loop_round ST MT k) rs S)"
proof (induction rs arbitrary: S)
  case (Cons evs rs)
  from Cons.prems have "(server_step ST MT)\<^sup>*\<^sup>* S (loop_round ST MT k evs S)" "ready k (loop_round ST MT k evs S)"
    using round_steps [of k S ST MT evs] by auto
  then show ?case using Cons by (auto intro: rtranclp_trans)
qed simp

lemma EpollWorker_Loop_steps:
  assumes "ready k S" "rounds_ok ST MT k rs S"
  shows "(server_step ST MT)\<^sup>*\<^sup>* S (EpollWorker_Loop ST MT k w rs S)"
proof -
  define S1 where "S1 = fold (loop_round ST MT k) rs S"
  have "(server_step ST MT)\<^sup>*\<^sup>* S S1" "ready k S1" using rounds_steps [OF assms] by (simp_all add: S1_def)
  then show ?thesis
    using thread_ends(2) [of S1 k ST MT w] by (auto simp: EpollWorker_Loop_def ready_def S1_def intro: rtranclp_trans)
qed

lemma upd_stats_step: "server_step ST MT S (upd_stats w f S)"
  unfolding upd_stats_def by (rule server_step.counters)

lemma steps_Inv: "(server_step ST MT)\<^sup>*\<^sup>* S S' \<Longrightarrow> Inv S \<Longrightarrow> Inv S'"
  by (induction rule: rtranclp_induct) (auto intro: Inv_step)

lemma catch_up_made_of_steps:
  "w < kMaxGameWorkers \<Longrightarrow> Inv S \<Longrightarrow> (server_step ST MT)\<^sup>*\<^sup>* S (snd (snd (catch_up MT w now n nx S)))"
proof (induction n arbitrary: nx S)
  case (Suc n)
  let ?S1 = "upd_stats w (\<lambda>g. g\<lparr>g_ticks := Inc (g_ticks g)\<rparr>) (TickOnce MT w S)"
  have 1: "(server_step ST MT)\<^sup>*\<^sup>* S ?S1"
    by (rule rtranclp.rtrancl_into_rtrancl [OF TickOnce_steps [OF Suc.prems] upd_stats_step])
  have "(server_step ST MT)\<^sup>*\<^sup>* ?S1 (snd (snd (catch_up MT w now n (nx + kTickPeriodNs) ?S1)))"
    by (rule Suc.IH [OF Suc.prems(1) steps_Inv [OF 1 Suc.prems(2)]])
  then show ?case using 1 by (simp add: Let_def case_prod_beta rtranclp_trans [OF 1])
qed simp

lemma wake_steps:
  assumes "w < kMaxGameWorkers" "Inv S"
  shows "(server_step ST MT)\<^sup>*\<^sup>* S (snd (wake MT w now nx S))"
proof -
  define S2 where "S2 = upd_stats w (RecordOversleep (if nx < now then now - nx else 0)) (S\<lparr>nextTickAt := (nextTickAt S)[w := nx]\<rparr>)"
  define S3 where "S3 = snd (snd (catch_up MT w now kMaxCatchupSteps nx S2))"
  have 2: "(server_step ST MT)\<^sup>*\<^sup>* S S2"
    unfolding S2_def by (rule converse_rtranclp_into_rtranclp, rule server_step.publish, rule r_into_rtranclp, rule upd_stats_step)
  have "(server_step ST MT)\<^sup>*\<^sup>* S2 S3" unfolding S3_def by (rule catch_up_made_of_steps [OF assms(1) steps_Inv [OF 2 assms(2)]])
  then have "(server_step ST MT)\<^sup>*\<^sup>* S S3" by (rule rtranclp_trans [OF 2])
  then have "(server_step ST MT)\<^sup>*\<^sup>* S (upd_stats w f S3)" for f by (rule rtranclp.rtrancl_into_rtrancl) (rule upd_stats_step)
  then show ?thesis by (simp add: wake_def Let_def case_prod_beta S3_def S2_def)
qed

lemma game_loop_steps:
  "w < kMaxGameWorkers \<Longrightarrow> Inv S \<Longrightarrow> (server_step ST MT)\<^sup>*\<^sup>* S (snd (game_loop MT w ds nx S))"
proof (induction ds arbitrary: nx S)
  case (Cons d ds)
  let ?S1 = "snd (wake MT w (nx + int d) nx S)"
  have 1: "(server_step ST MT)\<^sup>*\<^sup>* S ?S1" by (rule wake_steps [OF Cons.prems])
  show ?case
    using Cons.IH [OF Cons.prems(1) steps_Inv [OF 1 Cons.prems(2)]] by (simp add: case_prod_beta rtranclp_trans [OF 1])
qed simp

text \<open>The bodies of the threads are made of steps of the transition system: an epoll worker over any
  number of batches, to the end of its thread, and a game worker that \<open>GameService::Start\<close> has
  started, over any number of wake-ups; each body run by itself ends in a reachable state. What
  the steps of a pass achieve together is in the theory Room_Pass, the pacing in Pacing.\<close>

theorem threads_are_made_of_steps:
  assumes "reach booted (server_step ST MT) S"
  shows "(k < length (mySessions S) \<and> rounds_ok ST MT k rounds S \<longrightarrow>
      (server_step ST MT)\<^sup>*\<^sup>* S (EpollWorker_Loop ST MT k w rounds S) \<and>
      reach booted (server_step ST MT) (EpollWorker_Loop ST MT k w rounds S)) \<and>
    (GameService_threads n now S = Some (ths, S1) \<longrightarrow> server_step ST MT S S1 \<and> (\<forall>th\<in>set ths.
      (server_step ST MT)\<^sup>*\<^sup>* S1 (snd (game_thread MT th ds S1)) \<and>
      reach booted (server_step ST MT) (snd (game_thread MT th ds S1))))"
proof -
  note inv = server.reach_inv [OF assms]
  have "(server_step ST MT)\<^sup>*\<^sup>* S (EpollWorker_Loop ST MT k w rounds S)" if "k < length (mySessions S)" "rounds_ok ST MT k rounds S"
    by (rule EpollWorker_Loop_steps [OF _ that(2)]) (use that inv in \<open>simp add: ready_def\<close>)
  moreover have "server_step ST MT S S1 \<and> (\<forall>th\<in>set ths. (server_step ST MT)\<^sup>*\<^sup>* S1 (snd (game_thread MT th ds S1)))"
    if g: "GameService_threads n now S = Some (ths, S1)"
  proof -
    have s: "server_step ST MT S S1" using g by (auto simp: GameService_threads_def server_step.counters split: if_splits)
    have "gt_id th < kMaxGameWorkers" if "th \<in> set ths" for th
      using that g by (auto simp: GameService_threads_def GameService_Start_def GameWorker_Start_def kMaxGameWorkers_def
          word_less_nat_alt split: if_splits)
    then show ?thesis using s Inv_step [OF s inv] by (auto simp: game_thread_def GameWorker_Loop_def intro: game_loop_steps)
  qed
  moreover have "reach booted (server_step ST MT) X" if "(server_step ST MT)\<^sup>*\<^sup>* S X" for X
    by (rule server.reach_star [OF that assms])
  moreover have "(server_step ST MT)\<^sup>*\<^sup>* S X" if "server_step ST MT S S1" "(server_step ST MT)\<^sup>*\<^sup>* S1 X" for X
    by (rule converse_rtranclp_into_rtranclp [OF that])
  ultimately show ?thesis by blast
qed

theorem threads_are_made_of_steps_witness:
  "reach booted demo_step (EpollWorker_Loop list_ring_ops list_ring_ops 0 \<lparr>ew_epfd = 3, ew_listenFd = 4, ew_running = True\<rparr> [[(0, EPOLLIN)]] demo1) \<and>
   (\<exists>S1. GameService_threads 1 0 demo1 = Some ([GameWorker_Start 0 1 100000000], S1) \<and>
     reach booted demo_step (snd (game_thread list_ring_ops (GameWorker_Start 0 1 100000000) [5, 70000000] S1)))"
proof -
  have "GameService_threads 1 0 demo1 = Some ([GameWorker_Start 0 1 100000000], count_up (\<lambda>m. m\<lparr>mt_gameWorkerCount := ucast (1 :: u32)\<rparr>) demo1)"
    by (simp add: GameService_threads_def GameService_Start_def kMaxGameWorkers_def)
  moreover have "0 < length (mySessions demo1) \<and> rounds_ok list_ring_ops list_ring_ops 0 [[(0, EPOLLIN)]] demo1"
    by (simp add: demo_lists registered_def tag_idx_def)
  ultimately show ?thesis
    using threads_are_made_of_steps [OF demo_reach(1), where n = 1 and now = 0 and k = 0 and rounds = "[[(0, EPOLLIN)]]"] by auto
qed

end
