(* ===== verification/SelfTest.thy ===== *)
theory SelfTest
  imports RingOps Protocol
begin

text \<open>
  The self test of the server (SelfTest.cpp), run by \<open>--selftest\<close>: what it checks of the ring
  buffers, as functions of their operations. The properties say that the checks follow from the
  contract on which the rest of this library relies, whatever the interleaving of the threads of
  the last test, and that this test ends under every fair schedule.
\<close>

section \<open>The rings under test\<close>

text \<open>The operations the server calls, and the two the test needs besides.\<close>

record 'r test_ops =
  t_ops :: "'r ring_ops"
  t_FreeSize :: "'r \<Rightarrow> nat"
  t_Consume :: "nat \<Rightarrow> 'r \<Rightarrow> nat \<times> 'r"

text \<open>The contract of the server, completed by what the test looks at: \<open>Init\<close> of a real size succeeds,
  the free size is what is missing to the capacity, and a read of more than there is takes nothing.\<close>

definition queue_contract :: "'r test_ops \<Rightarrow> ('r \<Rightarrow> bool) \<Rightarrow> ('r \<Rightarrow> nat) \<Rightarrow> ('r \<Rightarrow> bytes) \<Rightarrow> bool" where
  "queue_contract T ok cap buf \<longleftrightarrow> ring_contract (t_ops T) ok cap buf \<and>
     (\<forall>n q. 1 < n \<longrightarrow> fst (rb_Init (t_ops T) n q)) \<and>
     (\<forall>q. ok q \<longrightarrow> t_FreeSize T q = cap q - length (buf q)) \<and>
     (\<forall>n q. ok q \<longrightarrow> length (buf q) < n \<longrightarrow> rb_Dequeue (t_ops T) n q = ([], q)) \<and>
     (\<forall>n q. ok q \<longrightarrow> n \<le> length (buf q) \<longrightarrow> t_Consume T n q = (n, rb_Consume (t_ops T) n q))"

section \<open>The tests\<close>

definition hello :: bytes where "hello = [0x68, 0x65, 0x6C, 0x6C, 0x6F]"
definition abcd :: bytes where "abcd = [0x61, 0x62, 0x63, 0x64]"

text \<open>\<open>received d n\<close> is the zeroed array of n characters behind the \<open>d\<close> that were read into it.\<close>

definition received :: "bytes \<Rightarrow> nat \<Rightarrow> bytes" where
  "received d n = take n (d @ replicate n 0)"

definition TestRingBasic :: "'r test_ops \<Rightarrow> 'r \<Rightarrow> bool list" where
  "TestRingBasic T r0 =
     (let R = t_ops T;
          (i, r1) = rb_Init R 16 r0;
          (big, r2) = rb_Enqueue R (replicate 20 0) r1;
          (n, r3) = rb_Enqueue R hello r2;
          p = rb_Peek R 5 r3;
          (d, r4) = rb_Dequeue R 5 r3;
          (d1, r5) = rb_Dequeue R 1 r4
      in [i, rb_IsValid R r1, t_FreeSize T r1 = 15, big = 0, rb_DataSize R r2 = 0, n = 5, rb_DataSize R r3 = 5,
          length p = 5, take 5 (received p 8) = hello, rb_DataSize R r3 = 5,
          length d = 5, take 5 (received d 8) = hello, rb_DataSize R r4 = 0, length d1 = 0])"

definition TestRingWrap :: "'r test_ops \<Rightarrow> 'r \<Rightarrow> bool list" where
  "TestRingWrap T r0 =
     (let R = t_ops T;
          (i, r1) = rb_Init R 16 r0;
          (n, r2) = rb_Enqueue R (map of_nat [0..<10]) r1;
          (c, r3) = t_Consume T 6 r2;
          (m, r4) = rb_Enqueue R (map (\<lambda>k. of_nat (100 + k)) [0..<9]) r3;
          (d, r5) = rb_Dequeue R 13 r4;
          out = received d 13
      in [i, n = 10, c = 6, m = 9, length d = 13]
         @ map (\<lambda>k. out ! k = of_nat (6 + k)) [0..<4] @ map (\<lambda>k. out ! (4 + k) = of_nat (100 + k)) [0..<9])"

definition TestRingReinit :: "'r test_ops \<Rightarrow> 'r \<Rightarrow> bool list" where
  "TestRingReinit T r0 =
     (let R = t_ops T;
          (i, r1) = rb_Init R 16 r0;
          (n, r2) = rb_Enqueue R abcd r1;
          (j, r3) = rb_Init R 32 r2;
          (m, r4) = rb_Enqueue R abcd r3;
          (d, r5) = rb_Dequeue R 4 r4
      in [i, n = 4, j, t_FreeSize T r3 = 31, rb_DataSize R r3 = 0, m = 4, length d = 4, take 4 (received d 4) = abcd])"

text \<open>
  The test with two threads: each turn is one iteration of the loop of the producer or of the
  consumer. Every operation of the ring holds its lock, so a turn is atomic.
\<close>

definition kMsgs :: nat where "kMsgs = 20000"

record 'r mt_state =
  mt_i :: nat          \<comment> \<open>the producer's counter\<close>
  mt_sum :: int
  mt_got :: nat
  mt_ring :: 'r

definition payload :: "nat \<Rightarrow> bytes" where
  "payload i = le 4 (of_nat i :: u32)"

definition producer_turn :: "'r ring_ops \<Rightarrow> 'r mt_state \<Rightarrow> 'r mt_state" where
  "producer_turn R st =
     (if mt_i st < kMsgs
      then (case rb_Enqueue R (payload (mt_i st)) (mt_ring st) of
              (n, q) \<Rightarrow> st\<lparr>mt_ring := q, mt_i := (if n = 4 then mt_i st + 1 else mt_i st)\<rparr>)
      else st)"

definition consumer_turn :: "'r ring_ops \<Rightarrow> 'r mt_state \<Rightarrow> 'r mt_state" where
  "consumer_turn R st =
     (if mt_got st < kMsgs
      then (case rb_Dequeue R 4 (mt_ring st) of
              (d, q) \<Rightarrow>
                if length d = 4
                then st\<lparr>mt_ring := q, mt_sum := mt_sum st + sint (unle d :: u32), mt_got := mt_got st + 1\<rparr>
                else st\<lparr>mt_ring := q\<rparr>)
      else st)"

text \<open>A schedule says whose turn it is: True for the producer.\<close>

definition mt_turn :: "'r ring_ops \<Rightarrow> bool \<Rightarrow> 'r mt_state \<Rightarrow> 'r mt_state" where
  "mt_turn R p = (if p then producer_turn R else consumer_turn R)"

definition mt_run :: "'r ring_ops \<Rightarrow> bool list \<Rightarrow> 'r mt_state \<Rightarrow> 'r mt_state" where
  "mt_run R sched st = fold (mt_turn R) sched st"

definition mt_start :: "'r \<Rightarrow> 'r mt_state" where
  "mt_start q = \<lparr>mt_i = 0, mt_sum = 0, mt_got = 0, mt_ring = q\<rparr>"

text \<open>The checks at the end; None while a thread is still in its loop.\<close>

definition TestRingMt :: "'r test_ops \<Rightarrow> 'r \<Rightarrow> bool list \<Rightarrow> bool list option" where
  "TestRingMt T q0 sched =
     (let R = t_ops T; st = mt_run R sched (mt_start (snd (rb_Init R 1024 q0)));
          expect = (int kMsgs - 1) * int kMsgs div 2
      in if mt_i st < kMsgs \<or> mt_got st < kMsgs then None
         else Some [mt_sum st = expect, rb_DataSize R (mt_ring st) = 0])"

text \<open>The whole run: its checks in order, and the exit code.\<close>

definition self_test_checks :: "'r test_ops \<Rightarrow> 'm test_ops \<Rightarrow> 'r \<Rightarrow> 'm \<Rightarrow> bool list \<Rightarrow> bool list option" where
  "self_test_checks T M r0 q0 sched =
     map_option (\<lambda>cs. TestRingBasic T r0 @ TestRingWrap T r0 @ TestRingReinit T r0 @ cs) (TestRingMt M q0 sched)"

definition RunSelfTest :: "'r test_ops \<Rightarrow> 'm test_ops \<Rightarrow> 'r \<Rightarrow> 'm \<Rightarrow> bool list \<Rightarrow> int option" where
  "RunSelfTest T M r0 q0 sched =
     map_option (\<lambda>cs. if filter (\<lambda>c. \<not> c) cs = [] then 0 else 1) (self_test_checks T M r0 q0 sched)"

section \<open>The tests follow from the contract\<close>

locale tested_ring =
  fixes T :: "'r test_ops" and ok :: "'r \<Rightarrow> bool" and cap :: "'r \<Rightarrow> nat" and buf :: "'r \<Rightarrow> bytes"
  assumes contract: "queue_contract T ok cap buf"
begin

lemma ring: "ring_contract (t_ops T) ok cap buf"
  using contract by (simp add: queue_contract_def)

lemma init:
  assumes "1 < n"
  shows "fst (rb_Init (t_ops T) n q)" "ok (snd (rb_Init (t_ops T) n q))" "rb_IsValid (t_ops T) (snd (rb_Init (t_ops T) n q))"
    "buf (snd (rb_Init (t_ops T) n q)) = []" "cap (snd (rb_Init (t_ops T) n q)) = n - 1"
proof -
  show i: "fst (rb_Init (t_ops T) n q)" using contract assms by (simp add: queue_contract_def)
  show "ok (snd (rb_Init (t_ops T) n q))" "rb_IsValid (t_ops T) (snd (rb_Init (t_ops T) n q))"
    "buf (snd (rb_Init (t_ops T) n q)) = []" "cap (snd (rb_Init (t_ops T) n q)) = n - 1"
    using ring i by (simp_all add: ring_contract_def)
qed

lemma size: "ok q \<Longrightarrow> rb_DataSize (t_ops T) q = length (buf q)" "ok q \<Longrightarrow> length (buf q) \<le> cap q"
  "ok q \<Longrightarrow> t_FreeSize T q = cap q - length (buf q)"
  using contract by (simp_all add: ring_contract_def queue_contract_def)

lemma enqueue:
  assumes "ok q" "length (buf q) + length bs \<le> cap q"
  shows "fst (rb_Enqueue (t_ops T) bs q) = length bs" "ok (snd (rb_Enqueue (t_ops T) bs q))"
    "cap (snd (rb_Enqueue (t_ops T) bs q)) = cap q" "buf (snd (rb_Enqueue (t_ops T) bs q)) = buf q @ bs"
proof -
  have "if length (buf q) + length bs \<le> cap q
     then fst (rb_Enqueue (t_ops T) bs q) = length bs \<and> ok (snd (rb_Enqueue (t_ops T) bs q)) \<and>
       cap (snd (rb_Enqueue (t_ops T) bs q)) = cap q \<and> buf (snd (rb_Enqueue (t_ops T) bs q)) = buf q @ bs
     else rb_Enqueue (t_ops T) bs q = (0, q)"
    using ring assms(1) by (simp add: ring_contract_def)
  then show "fst (rb_Enqueue (t_ops T) bs q) = length bs" "ok (snd (rb_Enqueue (t_ops T) bs q))"
    "cap (snd (rb_Enqueue (t_ops T) bs q)) = cap q" "buf (snd (rb_Enqueue (t_ops T) bs q)) = buf q @ bs"
    using assms(2) by simp_all
qed

lemma enqueue_full: "ok q \<Longrightarrow> cap q < length (buf q) + length bs \<Longrightarrow> rb_Enqueue (t_ops T) bs q = (0, q)"
  using ring by (simp add: ring_contract_def)

lemma dequeue:
  assumes "ok q" "n \<le> length (buf q)"
  shows "rb_Peek (t_ops T) n q = take n (buf q)" "fst (rb_Dequeue (t_ops T) n q) = take n (buf q)"
    "ok (snd (rb_Dequeue (t_ops T) n q))" "cap (snd (rb_Dequeue (t_ops T) n q)) = cap q"
    "buf (snd (rb_Dequeue (t_ops T) n q)) = drop n (buf q)"
    "fst (t_Consume T n q) = n" "ok (snd (t_Consume T n q))" "cap (snd (t_Consume T n q)) = cap q" "buf (snd (t_Consume T n q)) = drop n (buf q)"
proof -
  have "t_Consume T n q = (n, rb_Consume (t_ops T) n q)" using contract assms by (simp add: queue_contract_def)
  moreover have "rb_Peek (t_ops T) n q = take n (buf q) \<and> fst (rb_Dequeue (t_ops T) n q) = take n (buf q) \<and>
        ok (snd (rb_Dequeue (t_ops T) n q)) \<and> cap (snd (rb_Dequeue (t_ops T) n q)) = cap q \<and>
        buf (snd (rb_Dequeue (t_ops T) n q)) = drop n (buf q) \<and>
        ok (rb_Consume (t_ops T) n q) \<and> cap (rb_Consume (t_ops T) n q) = cap q \<and> buf (rb_Consume (t_ops T) n q) = drop n (buf q)"
    using ring assms by (simp add: ring_contract_def)
  ultimately show "rb_Peek (t_ops T) n q = take n (buf q)" "fst (rb_Dequeue (t_ops T) n q) = take n (buf q)"
    "ok (snd (rb_Dequeue (t_ops T) n q))" "cap (snd (rb_Dequeue (t_ops T) n q)) = cap q"
    "buf (snd (rb_Dequeue (t_ops T) n q)) = drop n (buf q)"
    "fst (t_Consume T n q) = n" "ok (snd (t_Consume T n q))" "cap (snd (t_Consume T n q)) = cap q" "buf (snd (t_Consume T n q)) = drop n (buf q)"
    by simp_all
qed

lemma dequeue_short: "ok q \<Longrightarrow> length (buf q) < n \<Longrightarrow> rb_Dequeue (t_ops T) n q = ([], q)"
  using contract by (simp add: queue_contract_def)

lemma basic_passes: "list_all id (TestRingBasic T r0)"
proof -
  define r1 where "r1 = snd (rb_Init (t_ops T) 16 r0)"
  define r3 where "r3 = snd (rb_Enqueue (t_ops T) hello r1)"
  define r4 where "r4 = snd (rb_Dequeue (t_ops T) 5 r3)"
  have l: "length hello = 5" by (simp add: hello_def)
  have 1: "ok r1" "buf r1 = []" "cap r1 = 15" "rb_IsValid (t_ops T) r1" "fst (rb_Init (t_ops T) 16 r0)"
    unfolding r1_def using init [of 16 r0] by simp_all
  have 2: "rb_Enqueue (t_ops T) (replicate 20 0) r1 = (0, r1)" using enqueue_full [OF 1(1)] 1(2,3) by simp
  have 3: "fst (rb_Enqueue (t_ops T) hello r1) = 5" "ok r3" "cap r3 = 15" "buf r3 = hello"
    using enqueue [OF 1(1), of hello] 1 l unfolding r3_def by simp_all
  have 4: "rb_Peek (t_ops T) 5 r3 = hello" "fst (rb_Dequeue (t_ops T) 5 r3) = hello" "ok r4" "buf r4 = []"
    using dequeue [OF 3(2), of 5] 3 l unfolding r4_def by simp_all
  have 5: "rb_Dequeue (t_ops T) 1 r4 = ([], r4)" using dequeue_short [OF 4(3)] 4(4) by simp
  have e: "rb_Init (t_ops T) 16 r0 = (True, r1)" "rb_Enqueue (t_ops T) hello r1 = (5, r3)" "rb_Dequeue (t_ops T) 5 r3 = (hello, r4)"
    using 1(5) 3(1) 4(2) by (simp_all add: r1_def r3_def r4_def prod_eq_iff)
  have r: "take 5 (received hello 8) = hello" by (simp add: received_def l)
  show ?thesis
    by (simp add: TestRingBasic_def Let_def e 2 4(1) 5 [unfolded One_nat_def] r size(1,3) 1 3 4 l)
qed

lemma wrap_passes: "list_all id (TestRingWrap T r0)"
proof -
  define a :: bytes where "a = map of_nat [0..<10]"
  define b :: bytes where "b = map (\<lambda>k. of_nat (100 + k)) [0..<9]"
  define r1 where "r1 = snd (rb_Init (t_ops T) 16 r0)"
  define r2 where "r2 = snd (rb_Enqueue (t_ops T) a r1)"
  define r3 where "r3 = snd (t_Consume T 6 r2)"
  define r4 where "r4 = snd (rb_Enqueue (t_ops T) b r3)"
  define r5 where "r5 = snd (rb_Dequeue (t_ops T) 13 r4)"
  have l: "length a = 10" "length b = 9" by (simp_all add: a_def b_def)
  have 1: "ok r1" "buf r1 = []" "cap r1 = 15" "fst (rb_Init (t_ops T) 16 r0)"
    unfolding r1_def using init [of 16 r0] by simp_all
  have 2: "fst (rb_Enqueue (t_ops T) a r1) = 10" "ok r2" "cap r2 = 15" "buf r2 = a"
    using enqueue [OF 1(1), of a] 1 l unfolding r2_def by simp_all
  have 3: "fst (t_Consume T 6 r2) = 6" "ok r3" "cap r3 = 15" "buf r3 = drop 6 a"
    using dequeue(6-9) [OF 2(2), of 6] 2 l unfolding r3_def by simp_all
  have 4: "fst (rb_Enqueue (t_ops T) b r3) = 9" "ok r4" "cap r4 = 15" "buf r4 = drop 6 a @ b"
    using enqueue [OF 3(2), of b] 3 l unfolding r4_def by simp_all
  have 5: "fst (rb_Dequeue (t_ops T) 13 r4) = drop 6 a @ b"
    using dequeue(2) [OF 4(2), of 13] 4 l by simp
  have e: "rb_Init (t_ops T) 16 r0 = (True, r1)" "rb_Enqueue (t_ops T) a r1 = (10, r2)" "t_Consume T 6 r2 = (6, r3)"
    "rb_Enqueue (t_ops T) b r3 = (9, r4)" "rb_Dequeue (t_ops T) 13 r4 = (drop 6 a @ b, r5)"
    using 1(4) 2(1) 3(1) 4(1) 5 by (simp_all add: r1_def r2_def r3_def r4_def r5_def prod_eq_iff)
  have o: "received (drop 6 a @ b) 13 = drop 6 a @ b" by (simp add: received_def l)
  have i: "(drop 6 a @ b) ! k = of_nat (6 + k)" if "k < 4" for k using that by (simp add: nth_append l) (simp add: a_def)
  have j: "(drop 6 a @ b) ! (4 + k) = of_nat (100 + k)" if "k < 9" for k using that by (simp add: nth_append l) (simp add: b_def)
  have "TestRingWrap T r0 = [True, True, True, True, True]
      @ map (\<lambda>k. (drop 6 a @ b) ! k = of_nat (6 + k)) [0..<4] @ map (\<lambda>k. (drop 6 a @ b) ! (4 + k) = of_nat (100 + k)) [0..<9]"
    unfolding TestRingWrap_def Let_def a_def [symmetric] b_def [symmetric] e prod.case o by (simp add: l)
  also have "list_all id \<dots>" using i j by (auto simp: list_all_iff)
  finally show ?thesis .
qed

lemma reinit_passes: "list_all id (TestRingReinit T r0)"
proof -
  define r1 where "r1 = snd (rb_Init (t_ops T) 16 r0)"
  define r2 where "r2 = snd (rb_Enqueue (t_ops T) abcd r1)"
  define r3 where "r3 = snd (rb_Init (t_ops T) 32 r2)"
  define r4 where "r4 = snd (rb_Enqueue (t_ops T) abcd r3)"
  have l: "length abcd = 4" by (simp add: abcd_def)
  have 1: "ok r1" "buf r1 = []" "cap r1 = 15" "fst (rb_Init (t_ops T) 16 r0)"
    unfolding r1_def using init [of 16 r0] by simp_all
  have 2: "fst (rb_Enqueue (t_ops T) abcd r1) = 4" using enqueue(1) [OF 1(1), of abcd] 1 l by simp
  have 3: "ok r3" "buf r3 = []" "cap r3 = 31" "fst (rb_Init (t_ops T) 32 r2)"
    unfolding r3_def using init [of 32 r2] by simp_all
  have 4: "fst (rb_Enqueue (t_ops T) abcd r3) = 4" "ok r4" "buf r4 = abcd"
    using enqueue [OF 3(1), of abcd] 3 l unfolding r4_def by simp_all
  have 5: "fst (rb_Dequeue (t_ops T) 4 r4) = abcd" using dequeue(2) [OF 4(2), of 4] 4 l by simp
  have e: "rb_Init (t_ops T) 16 r0 = (True, r1)" "rb_Enqueue (t_ops T) abcd r1 = (4, r2)" "rb_Init (t_ops T) 32 r2 = (True, r3)"
    "rb_Enqueue (t_ops T) abcd r3 = (4, r4)"
    using 1(4) 2 3(4) 4(1) by (simp_all add: r1_def r2_def r3_def r4_def prod_eq_iff)
  obtain q where d: "rb_Dequeue (t_ops T) 4 r4 = (abcd, q)" using 5 by (cases "rb_Dequeue (t_ops T) 4 r4") simp
  have r: "take 4 (received abcd 4) = abcd" by (simp add: received_def l)
  show ?thesis by (simp add: TestRingReinit_def Let_def e d r size(1,3) 3 l)
qed

text \<open>The two threads: what is in the ring are the numbers between the counters.\<close>

definition mt_ok :: "'r mt_state \<Rightarrow> bool" where
  "mt_ok st \<longleftrightarrow> ok (mt_ring st) \<and> cap (mt_ring st) = 1023 \<and> mt_got st \<le> mt_i st \<and> mt_i st \<le> kMsgs \<and>
     buf (mt_ring st) = concat (map payload [mt_got st..<mt_i st]) \<and> mt_sum st = sum_list (map int [0..<mt_got st])"

definition progress :: "'r mt_state \<Rightarrow> nat" where
  "progress st = mt_i st + mt_got st"

lemma payload_facts: "length (payload i) = 4" "i < kMsgs \<Longrightarrow> sint (unle (payload i) :: u32) = int i"
proof -
  show "length (payload i) = 4" by (simp add: payload_def)
  assume "i < kMsgs"
  then show "sint (unle (payload i) :: u32) = int i"
    by (simp add: payload_def kMsgs_def signed_of_nat signed_take_bit_int_eq_self)
qed

lemma buffered: "mt_ok st \<Longrightarrow> length (buf (mt_ring st)) = 4 * (mt_i st - mt_got st)"
  by (simp add: mt_ok_def length_concat comp_def payload_facts(1) sum_list_triv)

lemma produced:
  assumes "mt_ok st"
  shows "mt_ok (producer_turn (t_ops T) st)" (is ?ok)
    and "producer_turn (t_ops T) st = st \<or> progress (producer_turn (t_ops T) st) = progress st + 1" (is ?moved)
    and "mt_i st = mt_got st \<Longrightarrow> mt_i st < kMsgs \<Longrightarrow> producer_turn (t_ops T) st \<noteq> st"
proof -
  define q where "q = mt_ring st"
  have q: "ok q" "cap q = 1023" "length (buf q) = 4 * (mt_i st - mt_got st)"
    using assms buffered [OF assms] by (simp_all add: mt_ok_def q_def)
  have "?ok \<and> ?moved \<and> (mt_i st = mt_got st \<longrightarrow> mt_i st < kMsgs \<longrightarrow> producer_turn (t_ops T) st \<noteq> st)"
  proof (cases "mt_i st < kMsgs \<and> length (buf q) + 4 \<le> 1023")
    case True
    have fits: "length (buf q) + length (payload (mt_i st)) \<le> cap q" using True q(2) by (simp add: payload_facts(1))
    note E = enqueue [OF q(1) fits]
    have s: "producer_turn (t_ops T) st = st\<lparr>mt_ring := snd (rb_Enqueue (t_ops T) (payload (mt_i st)) q), mt_i := mt_i st + 1\<rparr>"
      using True E(1) payload_facts(1) [of "mt_i st"] by (simp add: producer_turn_def q_def case_prod_beta)
    have "mt_ok (producer_turn (t_ops T) st)"
      using assms True E(2-4) q(2) unfolding s by (simp add: mt_ok_def q_def)
    moreover have "mt_i (producer_turn (t_ops T) st) \<noteq> mt_i st" by (simp add: s)
    then have "producer_turn (t_ops T) st \<noteq> st" by metis
    moreover have "progress (producer_turn (t_ops T) st) = progress st + 1" by (simp add: s progress_def)
    ultimately show ?thesis by blast
  next
    case False
    have "producer_turn (t_ops T) st = st"
    proof (cases "mt_i st < kMsgs")
      case True
      then have "rb_Enqueue (t_ops T) (payload (mt_i st)) q = (0, q)"
        using False enqueue_full [OF q(1)] q(2) by (simp add: payload_facts(1))
      then show ?thesis by (simp add: producer_turn_def q_def)
    qed (simp add: producer_turn_def)
    then show ?thesis using assms False q(3) by auto
  qed
  then show ?ok ?moved "mt_i st = mt_got st \<Longrightarrow> mt_i st < kMsgs \<Longrightarrow> producer_turn (t_ops T) st \<noteq> st" by auto
qed

lemma consumed:
  assumes "mt_ok st"
  shows "mt_ok (consumer_turn (t_ops T) st)" (is ?ok)
    and "consumer_turn (t_ops T) st = st \<or> progress (consumer_turn (t_ops T) st) = progress st + 1" (is ?moved)
    and "mt_got st < mt_i st \<Longrightarrow> consumer_turn (t_ops T) st \<noteq> st"
proof -
  define q where "q = mt_ring st"
  have q: "ok q" "length (buf q) = 4 * (mt_i st - mt_got st)" "mt_i st \<le> kMsgs"
    "buf q = concat (map payload [mt_got st..<mt_i st])"
    using assms buffered [OF assms] by (simp_all add: mt_ok_def q_def)
  have "?ok \<and> ?moved \<and> (mt_got st < mt_i st \<longrightarrow> consumer_turn (t_ops T) st \<noteq> st)"
  proof (cases "mt_got st < mt_i st")
    case True
    have b: "buf q = payload (mt_got st) @ concat (map payload [Suc (mt_got st)..<mt_i st])"
      using q(4) True by (simp add: upt_conv_Cons)
    have "4 \<le> length (buf q)" using q(2) True by simp
    note D = dequeue(2-5) [OF q(1) this]
    have s: "consumer_turn (t_ops T) st = st\<lparr>mt_ring := snd (rb_Dequeue (t_ops T) 4 q), mt_sum := mt_sum st + int (mt_got st), mt_got := mt_got st + 1\<rparr>"
      using True q(3) D(1) b payload_facts [of "mt_got st"] by (simp add: consumer_turn_def q_def case_prod_beta)
    have "mt_ok (consumer_turn (t_ops T) st)"
      using assms True D(2-4) b payload_facts(1) [of "mt_got st"] unfolding s by (simp add: mt_ok_def q_def)
    moreover have "mt_got (consumer_turn (t_ops T) st) \<noteq> mt_got st" by (simp add: s)
    then have "consumer_turn (t_ops T) st \<noteq> st" by metis
    moreover have "progress (consumer_turn (t_ops T) st) = progress st + 1" by (simp add: s progress_def)
    ultimately show ?thesis by blast
  next
    case False
    then have "rb_Dequeue (t_ops T) 4 q = ([], q)" using dequeue_short [OF q(1)] q(2) by simp
    then have "consumer_turn (t_ops T) st = st" by (simp add: consumer_turn_def q_def)
    then show ?thesis using assms False by simp
  qed
  then show ?ok ?moved "mt_got st < mt_i st \<Longrightarrow> consumer_turn (t_ops T) st \<noteq> st" by auto
qed

lemma turn:
  assumes "mt_ok st"
  shows "mt_ok (mt_turn (t_ops T) p st)" "mt_turn (t_ops T) p st = st \<or> progress (mt_turn (t_ops T) p st) = progress st + 1"
  using produced [OF assms] consumed [OF assms] by (simp_all add: mt_turn_def)

lemma run:
  assumes "mt_ok st"
  shows "mt_ok (mt_run (t_ops T) sched st) \<and> progress st \<le> progress (mt_run (t_ops T) sched st) \<and>
    (progress (mt_run (t_ops T) sched st) = progress st \<longrightarrow> (\<forall>p\<in>set sched. mt_turn (t_ops T) p st = st))"
  using assms
proof (induction sched arbitrary: st)
  case Nil
  then show ?case by (simp add: mt_run_def)
next
  case (Cons p sched)
  let ?st = "mt_turn (t_ops T) p st"
  have r: "mt_run (t_ops T) (p # sched) st = mt_run (t_ops T) sched ?st" by (simp add: mt_run_def)
  show ?case using Cons.IH [OF turn(1) [OF Cons.prems, of p]] turn(2) [OF Cons.prems, of p] unfolding r by auto
qed

text \<open>A block of turns in which both threads have one moves the test on, until it is done.\<close>

lemma block_moves:
  assumes "mt_ok st" "True \<in> set b" "False \<in> set b" "mt_got st < kMsgs"
  shows "progress st < progress (mt_run (t_ops T) b st)"
proof (rule ccontr)
  assume "\<not> ?thesis"
  then have "\<forall>p\<in>set b. mt_turn (t_ops T) p st = st" using run [OF assms(1), of b] by auto
  then have "producer_turn (t_ops T) st = st" "consumer_turn (t_ops T) st = st" using assms(2,3) by (auto simp: mt_turn_def)
  then show False using produced(3) [OF assms(1)] consumed(3) [OF assms(1)] assms(1,4) unfolding mt_ok_def by fastforce
qed

lemma blocks_move:
  assumes "mt_ok st" "\<forall>b\<in>set blocks. True \<in> set b \<and> False \<in> set b"
  shows "min (2 * kMsgs) (progress st + length blocks) \<le> progress (mt_run (t_ops T) (concat blocks) st)"
  using assms
proof (induction blocks arbitrary: st)
  case Nil
  then show ?case by (simp add: mt_run_def)
next
  case (Cons b bs)
  let ?st = "mt_run (t_ops T) b st"
  have r: "mt_run (t_ops T) (concat (b # bs)) st = mt_run (t_ops T) (concat bs) ?st" by (simp add: mt_run_def)
  note R = run [OF Cons.prems(1), of b]
  have "min (2 * kMsgs) (progress st + 1) \<le> progress ?st"
  proof (cases "mt_got st < kMsgs")
    case True
    then show ?thesis using block_moves [OF Cons.prems(1)] Cons.prems(2) by fastforce
  next
    case False
    then show ?thesis using Cons.prems(1) R by (simp add: mt_ok_def progress_def)
  qed
  then show ?case using Cons.IH [of ?st] Cons.prems(2) R unfolding r by fastforce
qed

lemma gauss: "(int n - 1) * int n div 2 = sum_list (map int [0..<n])"
proof -
  have "(int n - 1) * int n = 2 * sum_list (map int [0..<n])" by (induction n) (simp_all add: algebra_simps)
  then show ?thesis by simp
qed

lemma mt_passes:
  "case TestRingMt T q0 sched of None \<Rightarrow> True | Some cs \<Rightarrow> list_all id cs"
  "\<forall>b\<in>set blocks. True \<in> set b \<and> False \<in> set b \<Longrightarrow> 2 * kMsgs \<le> length blocks \<Longrightarrow> TestRingMt T q0 (concat blocks) \<noteq> None"
proof -
  define s0 where "s0 = mt_start (snd (rb_Init (t_ops T) 1024 q0))"
  have k: "0 < kMsgs" by (simp add: kMsgs_def)
  have i0: "mt_ok s0" using init [of 1024 q0] by (simp add: s0_def mt_start_def mt_ok_def)
  have d: "mt_sum st = (int kMsgs - 1) * int kMsgs div 2 \<and> rb_DataSize (t_ops T) (mt_ring st) = 0"
    if "mt_ok st" "\<not> (mt_i st < kMsgs \<or> mt_got st < kMsgs)" for st
  proof -
    have "mt_got st = kMsgs" "mt_i st = kMsgs" using that unfolding mt_ok_def by linarith+
    then show ?thesis using that(1) size(1) [of "mt_ring st"] by (simp add: mt_ok_def gauss)
  qed
  show "case TestRingMt T q0 sched of None \<Rightarrow> True | Some cs \<Rightarrow> list_all id cs"
    using d [of "mt_run (t_ops T) sched s0"] run [OF i0, of sched] by (simp add: TestRingMt_def Let_def s0_def [symmetric])
  show "TestRingMt T q0 (concat blocks) \<noteq> None" if "\<forall>b\<in>set blocks. True \<in> set b \<and> False \<in> set b" "2 * kMsgs \<le> length blocks"
    using blocks_move [OF i0 that(1)] that(2) run [OF i0, of "concat blocks"]
    by (auto simp: TestRingMt_def Let_def s0_def [symmetric] mt_ok_def progress_def)
qed

end

section \<open>Property\<close>

definition list_test_ops :: "list_ring test_ops" where
  "list_test_ops = \<lparr>t_ops = list_ring_ops, t_FreeSize = (\<lambda>q. fst q - length (snd q)),
     t_Consume = (\<lambda>n q. if n \<le> length (snd q) then (n, (fst q, drop n (snd q))) else (0, q))\<rparr>"

interpretation list_test: tested_ring list_test_ops "\<lambda>q. length (snd q) \<le> fst q" fst snd
proof
  show "queue_contract list_test_ops (\<lambda>q. length (snd q) \<le> fst q) fst snd"
    using list_ring_contract by (auto simp: queue_contract_def list_test_ops_def list_ring_ops_def)
qed

text \<open>C32. The self test checks nothing but the contract: with rings that meet it, every check of the four
  tests passes, the one with two threads under every interleaving of their turns; and it ends: a
  schedule in which both threads have had a turn 40000 times over runs it to the exit code 0.\<close>

theorem self_test_passes:
  assumes "queue_contract T ok cap buf" "queue_contract M okm capm bufm"
  shows "RunSelfTest T M r0 q0 sched \<in> {None, Some 0} \<and>
    ((\<forall>b\<in>set blocks. True \<in> set b \<and> False \<in> set b) \<longrightarrow> 2 * kMsgs \<le> length blocks \<longrightarrow>
     RunSelfTest T M r0 q0 (concat blocks) = Some 0)"
proof -
  note t = tested_ring.intro [OF assms(1)] and m = tested_ring.intro [OF assms(2)]
  have p: "RunSelfTest T M r0 q0 s = (case TestRingMt M q0 s of None \<Rightarrow> None | Some _ \<Rightarrow> Some 0)" for s
    using tested_ring.basic_passes [OF t, of r0] tested_ring.wrap_passes [OF t, of r0] tested_ring.reinit_passes [OF t, of r0]
      tested_ring.mt_passes(1) [OF m, of q0 s]
    by (auto simp: RunSelfTest_def self_test_checks_def list_all_iff filter_empty_conv split: option.splits)
  show ?thesis using tested_ring.mt_passes(2) [OF m, of blocks q0] unfolding p by (auto split: option.split)
qed

theorem self_test_passes_witness:
  "RunSelfTest list_test_ops list_test_ops (0, []) (0, []) (concat (replicate 40000 [True, False])) = Some 0"
proof -
  have "\<forall>b\<in>set (replicate 40000 [True, False]). True \<in> set b \<and> False \<in> set b" "2 * kMsgs \<le> length (replicate 40000 [True, False])"
    by (simp_all add: kMsgs_def)
  then show ?thesis
    using self_test_passes [OF list_test.contract list_test.contract, where blocks = "replicate 40000 [True, False]"] by blast
qed

end
