(* ===== verification/Input_Path.thy ===== *)
theory Input_Path
  imports Stream_Props Sim_Props
begin

text \<open>
  The way of an INPUT packet through the server: from the bytes in the receive ring to the command
  queue of the room, and from there through one tick of the room to the position of the player.
  The packets are given by their literal bytes, and the commands by the values those bytes have on
  the wire, so nothing here rests on the decoder being its own specification.
\<close>

section \<open>The bytes of a packet\<close>

text \<open>The value of bytes in little-endian order, as a number.\<close>

fun le_value :: "bytes \<Rightarrow> nat" where
  "le_value [] = 0"
| "le_value (b # bs) = unat b + 256 * le_value bs"

lemma unle_value: "unle bs = (of_nat (le_value bs) :: 'a::len word)"
proof (induction bs)
  case (Cons b bs)
  have "(ucast b :: 'a word) OR push_bit 8 w = ucast b + push_bit 8 w" for w
  proof (rule disjunctive_add_eq_or [symmetric], rule bit_word_eqI)
    fix n
    show "bit ((ucast b :: 'a word) AND push_bit 8 w) n = bit (0 :: 'a word) n"
      using bit_imp_le_length [of b n] by (cases "8 \<le> n") (auto simp: bit_and_iff bit_push_bit_iff bit_unsigned_iff)
  qed
  then have "unle (b # bs) = (ucast b + push_bit 8 (of_nat (le_value bs)) :: 'a word)"
    by (simp only: unle.simps Cons)
  also have "\<dots> = of_nat (le_value (b # bs))" by (simp add: push_bit_eq_mult)
  finally show ?case .
qed simp

text \<open>The command that the eight payload bytes of an INPUT packet stand for: the sequence number
  in four bytes, the two axes, attack and skill in one byte each; nothing is checked.\<close>

definition input_of :: "('r, 's) Session \<Rightarrow> bytes \<Rightarrow> InputCmd" where
  "input_of s ps = \<lparr>c_sessIdx = idx s, c_sessGen = gen s, c_actorId = actorId s,
     c_seq = of_nat (le_value (take 4 ps)), c_mx = ps ! 4, c_my = ps ! 5, c_attack = ps ! 6, c_skill = ps ! 7\<rparr>"

text \<open>The header of an INPUT packet: size 12, type 11.\<close>

definition input_header :: bytes where "input_header = [12, 0, 11, 0]"

lemma eight_bytes:
  assumes "length ps = (8::nat)"
  obtains b0 b1 b2 b3 b4 b5 b6 b7 where "ps = [b0, b1, b2, b3, b4, b5, b6, b7]"
  using assms by (auto simp: numeral_eq_Suc length_Suc_conv)

lemma input_header_bytes: "length input_header = 4" "dec_header (input_header @ bs) = \<lparr>h_size = 12, h_type = 11\<rparr>"
  by (simp_all add: input_header_def dec_header_def field_def unle_value)

lemma dec_input_bytes:
  assumes "length ps = 8"
  shows "i_seq (dec_input (input_header @ ps)) = of_nat (le_value (take 4 ps))"
    "i_mx (dec_input (input_header @ ps)) = ps ! 4" "i_my (dec_input (input_header @ ps)) = ps ! 5"
    "i_attack (dec_input (input_header @ ps)) = ps ! 6" "i_skill (dec_input (input_header @ ps)) = ps ! 7"
  by (rule eight_bytes [OF assms],
      simp add: dec_input_def field_def input_header_def unle_value)+

section \<open>From the receive ring to the room\<close>

text \<open>What commands of a session do to the rooms: they queue up in its own room.\<close>

definition filed :: "('r, 's) Session \<Rightarrow> InputCmd list \<Rightarrow> Room list \<Rightarrow> Room list" where
  "filed s cs rs = (if inRoom s \<and> roomIdx s < length rs
     then upd_at (roomIdx s) (\<lambda>x. x\<lparr>r_inQ := r_inQ x @ cs\<rparr>) rs else rs)"

lemma filed_filed: "filed s ds (filed s cs rs) = filed s (cs @ ds) rs"
  by (simp add: filed_def upd_at_def)

lemma filed_Nil: "filed s [] rs = rs"
  by (simp add: filed_def upd_at_def)

lemma Dispatch_input:
  assumes "length ps = 8"
  shows "rooms (Dispatch MT w i (input_header @ ps) S) = filed (At S i) [input_of (At S i) ps] (rooms S) \<and>
    pool (Dispatch MT w i (input_header @ ps) S) = pool S \<and> kern (Dispatch MT w i (input_header @ ps) S) = kern S"
proof -
  have "msg_type_of (11 :: u16) = Some C2S_INPUT" by code_simp
  moreover have "length (input_header @ ps) = kInputSize" by (simp add: assms input_header_def kInputSize_def)
  ultimately show ?thesis
    by (simp add: Dispatch_def input_header_bytes handle_input_def PushInput_def Let_def dec_input_bytes [OF assms]
        filed_def input_of_def upd_room_def not_less [symmetric])
qed

text \<open>A receive ring that holds the beginning of a packet, but not the whole of it.\<close>

definition unfinished :: "bytes \<Rightarrow> bool" where
  "unfinished rest \<longleftrightarrow> length rest < 4 \<or> take 4 rest = input_header \<and> length rest < 12"

lemma parse_unfinished:
  assumes "ring_contract ST okr capr bufr" "okr (recvQ (At S i))" "unfinished (bufr (recvQ (At S i)))"
  shows "At (parse_loop ST MT w i n S) i = At S i \<and> rooms (parse_loop ST MT w i n S) = rooms S \<and>
    kern (parse_loop ST MT w i n S) = kern S"
proof (cases n)
  case (Suc m)
  let ?b = "bufr (recvQ (At S i))"
  note C = ring_contractD [OF assms(1,2)]
  have "unat (h_size (dec_header (rb_Peek ST kHeaderSize (recvQ (At S i))))) = 12" if "4 \<le> length ?b" "take 4 ?b = input_header"
    using that C(5) [of kHeaderSize] input_header_bytes(2) [of "[]"] by (simp add: kHeaderSize_def)
  then show ?thesis
    using assms(3) by (auto simp: Suc Let_def C(2) unfinished_def kHeaderSize_def MAX_PACKET_SIZE_def not_less)
qed simp

lemma parse_inputs:
  assumes ST: "ring_contract ST okr capr bufr"
    and "i < length (slots (pool S))" "okr (recvQ (At S i))" "\<not> dead (At S i)"
    and "\<forall>ps\<in>set pss. length ps = 8" "unfinished rest"
    and "bufr (recvQ (At S i)) = concat (map ((@) input_header) pss) @ rest" "length pss < n"
  shows "\<exists>q. okr q \<and> bufr q = rest \<and> At (parse_loop ST MT w i n S) i = (At S i)\<lparr>recvQ := q\<rparr> \<and>
    rooms (parse_loop ST MT w i n S) = filed (At S i) (map (input_of (At S i)) pss) (rooms S) \<and>
    kern (parse_loop ST MT w i n S) = kern S"
  using assms(2-)
proof (induction pss arbitrary: n S)
  case Nil
  then show ?case
    using parse_unfinished [OF ST, of S i MT w n] by (intro exI [of _ "recvQ (At S i)"]) (simp add: filed_Nil)
next
  case (Cons ps pss)
  let ?q = "recvQ (At S i)" and ?f = "input_header @ ps" and ?tl = "concat (map ((@) input_header) pss) @ rest"
  note C = ring_contractD [OF ST Cons.prems(2)]
  have ps: "length ps = 8" and b: "bufr ?q = ?f @ ?tl" using Cons.prems(4,6) by simp_all
  have f12: "length ?f = 12" using ps by (simp add: input_header_bytes)
  have sz: "unat (h_size (dec_header (rb_Peek ST kHeaderSize ?q))) = 12"
    using C(5) [of kHeaderSize] input_header_bytes(2) [of "[]"] by (simp add: kHeaderSize_def b input_header_bytes(1))
  obtain q' where dq: "rb_Dequeue ST 12 ?q = (?f, q')" and q': "okr q'" "bufr q' = ?tl"
    using C(5) [of 12] f12 by (cases "rb_Dequeue ST 12 ?q") (simp add: b)
  obtain m where n: "n = Suc m" "length pss < m" using Cons.prems(7) by (cases n) auto
  define S1 where "S1 = upd_session i (\<lambda>s. s\<lparr>recvQ := q'\<rparr>) (if length (rb_DirectRead ST ?q) < 12
    then count_up (\<lambda>g. g\<lparr>mt_ringSplitRead := Inc (mt_ringSplitRead g)\<rparr>) S else S)"
  have s1: "At S1 i = (At S i)\<lparr>recvQ := q'\<rparr>" "i < length (slots (pool S1))" "rooms S1 = rooms S" "kern S1 = kern S"
    using Cons.prems(1) by (simp_all add: S1_def slots_upd_sess)
  define S2 where "S2 = Dispatch MT w i ?f S1"
  have io: "input_of (s\<lparr>recvQ := q'\<rparr>) = input_of s" "filed (s\<lparr>recvQ := q'\<rparr>) = filed s" for s :: "('a, 'c) Session"
    by (simp_all add: input_of_def filed_def fun_eq_iff)
  have s2: "At S2 i = (At S i)\<lparr>recvQ := q'\<rparr>" "i < length (slots (pool S2))" "kern S2 = kern S"
    "rooms S2 = filed (At S i) [input_of (At S i) ps] (rooms S)"
    using Dispatch_input [OF ps, of MT w i S1] s1 by (simp_all add: S2_def io)
  have "parse_loop ST MT w i n S = parse_loop ST MT w i m S2"
    using sz dq C(2) b f12 s2(1) Cons.prems(3)
    by (simp add: n(1) Let_def kHeaderSize_def MAX_PACKET_SIZE_def S2_def S1_def)
  moreover have "\<exists>q. okr q \<and> bufr q = rest \<and> At (parse_loop ST MT w i m S2) i = (At S2 i)\<lparr>recvQ := q\<rparr> \<and>
      rooms (parse_loop ST MT w i m S2) = filed (At S2 i) (map (input_of (At S2 i)) pss) (rooms S2) \<and>
      kern (parse_loop ST MT w i m S2) = kern S2"
    by (rule Cons.IH) (use Cons.prems s2 q' n in auto)
  ultimately show ?case using s2 by (simp add: io filed_filed)
qed

text \<open>C25. Inputs reach the room exactly as they stand on the wire, and as often. Let the receive ring
  of a live session hold any number of INPUT packets, byte by byte a header (12, 0, 11, 0) and eight
  payload bytes, and then an unfinished packet. After the framing pass the ring holds the
  unfinished packet and nothing else, and the session is otherwise as before; the session being
  in a room, the queue of that room has grown by one command for each packet, in order, with the
  slot, generation and actor of the session, the sequence number read in little-endian order, and
  the axes, attack and skill bytes unchanged and unchecked; no other room changes. A session
  without a room has its packets thrown away. Nothing is written to any socket.\<close>

theorem input_stream_exact:
  fixes w :: nat and S :: "('r, 's) Server" and MT :: "'s ring_ops"
  assumes "ring_contract ST okr capr bufr" "i < length (slots (pool S))" "okr (recvQ (At S i))" "\<not> dead (At S i)"
    and "\<forall>ps\<in>set pss. length ps = 8"
    and "length rest < 4 \<or> take 4 rest = [12, 0, 11, 0] \<and> length rest < 12"
    and "bufr (recvQ (At S i)) = concat (map (\<lambda>ps. [12, 0, 11, 0] @ ps) pss) @ rest"
  defines "S' \<equiv> ParseFrames ST MT w i S" and "s \<equiv> At S i"
  shows "(\<exists>q. okr q \<and> bufr q = rest \<and> At S' i = s\<lparr>recvQ := q\<rparr>) \<and> kern S' = kern S \<and>
    rooms S' = (if inRoom s \<and> roomIdx s < length (rooms S)
      then upd_at (roomIdx s) (\<lambda>x. x\<lparr>r_inQ := r_inQ x @ map (\<lambda>ps. \<lparr>c_sessIdx = idx s, c_sessGen = gen s, c_actorId = actorId s,
          c_seq = of_nat (unat (ps ! 0) + 256 * unat (ps ! 1) + 65536 * unat (ps ! 2) + 16777216 * unat (ps ! 3)),
          c_mx = ps ! 4, c_my = ps ! 5, c_attack = ps ! 6, c_skill = ps ! 7\<rparr>) pss\<rparr>) (rooms S)
      else rooms S)"
proof -
  have u: "unfinished rest" using assms(6) by (simp add: unfinished_def input_header_def)
  have b: "bufr (recvQ (At S i)) = concat (map ((@) input_header) pss) @ rest"
    using assms(7) by (simp only: input_header_def)
  have "length pss \<le> length (concat (map ((@) input_header) pss))"
    by (induction pss) (simp_all add: input_header_def)
  then have n: "length pss < rb_DataSize ST (recvQ (At S i)) + 1"
    by (simp add: ring_contractD(2) [OF assms(1,3)] b)
  have io: "input_of s ps = \<lparr>c_sessIdx = idx s, c_sessGen = gen s, c_actorId = actorId s,
      c_seq = of_nat (unat (ps ! 0) + 256 * unat (ps ! 1) + 65536 * unat (ps ! 2) + 16777216 * unat (ps ! 3)),
      c_mx = ps ! 4, c_my = ps ! 5, c_attack = ps ! 6, c_skill = ps ! 7\<rparr>" if "ps \<in> set pss" for ps
    by (rule eight_bytes [OF assms(5) [rule_format, OF that]]) (simp add: input_of_def algebra_simps)
  have m: "map (input_of s) pss = map (\<lambda>ps. \<lparr>c_sessIdx = idx s, c_sessGen = gen s, c_actorId = actorId s,
      c_seq = of_nat (unat (ps ! 0) + 256 * unat (ps ! 1) + 65536 * unat (ps ! 2) + 16777216 * unat (ps ! 3)),
      c_mx = ps ! 4, c_my = ps ! 5, c_attack = ps ! 6, c_skill = ps ! 7\<rparr>) pss"
    by (rule map_cong [OF refl io])
  show ?thesis
    using parse_inputs [OF assms(1-5) u b n, of MT w]
    unfolding S'_def s_def [symmetric] ParseFrames_def m filed_def by blast
qed

text \<open>A session that has a seat, with two packets and a half in its ring.\<close>

definition input_demo :: "bytes \<Rightarrow> (list_ring, list_ring) Server" where
  "input_demo bs = upd_session 0 (\<lambda>s. s\<lparr>recvQ := (8191, bs)\<rparr>) demo4"

lemma input_demo:
  "At (input_demo bs) 0 = demo_sess\<lparr>refs := 2, inRoom := True, recvQ := (8191, bs)\<rparr>"
  "length (slots (pool (input_demo bs))) = 1"
  "rooms (input_demo bs) = [seat_member 0 0 0 0 (demo_room\<lparr>r_pendingJoin := []\<rparr>)]"
  by (simp_all add: input_demo_def slots_upd_sess demo4)

theorem input_stream_exact_witness:
  "(let S' = ParseFrames list_ring_ops list_ring_ops 0 0
       (input_demo [12, 0, 11, 0, 2, 1, 0, 0, 127, 255, 0, 1, 12, 0, 11, 0, 3, 1, 0, 0, 1, 0, 0, 0, 12, 0])
    in snd (recvQ (At S' 0)) = [12, 0] \<and> map (\<lambda>c. (c_seq c, c_mx c)) (r_inQ (room_at S' 0)) = [(258, 127), (259, 1)])"
proof -
  define S where "S = input_demo [12, 0, 11, 0, 2, 1, 0, 0, 127, 255, 0, 1, 12, 0, 11, 0, 3, 1, 0, 0, 1, 0, 0, 0, 12, 0]"
  note d = input_demo [of "[12, 0, 11, 0, 2, 1, 0, 0, 127, 255, 0, 1, 12, 0, 11, 0, 3, 1, 0, 0, 1, 0, 0, 0, 12, 0]", folded S_def]
  have P: "rooms (ParseFrames list_ring_ops list_ring_ops 0 0 S) = upd_at 0 (\<lambda>x. x\<lparr>r_inQ := r_inQ x @
      map (\<lambda>ps. \<lparr>c_sessIdx = 0, c_sessGen = 0, c_actorId = 0,
          c_seq = of_nat (unat (ps ! 0) + 256 * unat (ps ! 1) + 65536 * unat (ps ! 2) + 16777216 * unat (ps ! 3)),
          c_mx = ps ! 4, c_my = ps ! 5, c_attack = ps ! 6, c_skill = ps ! 7\<rparr>) [[2, 1, 0, 0, 127, 255, 0, 1], [3, 1, 0, 0, 1, 0, 0, 0]]\<rparr>)
        (rooms S) \<and> snd (recvQ (At (ParseFrames list_ring_ops list_ring_ops 0 0 S) 0)) = [12, 0]"
    using input_stream_exact [OF list_ring_contract, of 0 S "[[2, 1, 0, 0, 127, 255, 0, 1], [3, 1, 0, 0, 1, 0, 0, 0]]" "[12, 0]" list_ring_ops 0]
    by (auto simp: d demo_sess_def)
  then show ?thesis
    unfolding S_def [symmetric] Let_def
    by (simp add: d seat_member_def demo_room_def clear_room_def upd_at_def)
qed

section \<open>From the room to the position\<close>

lemma rooms_send_snapshot: "rooms (send_snapshot MT r bs k S) = rooms S"
  by (auto simp: send_snapshot_def enqueue_def mark_def Let_def split: prod.splits)

lemma rooms_broadcast: "rooms (broadcast_snapshot MT r S) = rooms S"
proof -
  have "rooms (fold (send_snapshot MT r bs) ks S) = rooms S" for bs ks
    by (induction ks arbitrary: S) (simp_all add: rooms_send_snapshot)
  then show ?thesis by (simp add: broadcast_snapshot_def)
qed

lemma consume_fold:
  assumes "r < length (rooms S)" "distinct ks" "k < length (r_members (room_at S r))"
  defines "S' \<equiv> fold (consume_one r) ks S"
  shows "r < length (rooms S') \<and> r_world (room_at S' r) = r_world (room_at S r) \<and>
    length (r_members (room_at S' r)) = length (r_members (room_at S r)) \<and>
    r_members (room_at S' r) ! k = (if k \<in> set ks \<and> m_used (r_members (room_at S r) ! k)
      then consume (r_members (room_at S r) ! k) else r_members (room_at S r) ! k)"
  unfolding S'_def using assms(1-3)
proof (induction ks arbitrary: S)
  case (Cons j ks)
  let ?S = "consume_one r j S"
  have s: "r < length (rooms ?S)" "r_world (room_at ?S r) = r_world (room_at S r)"
    "length (r_members (room_at ?S r)) = length (r_members (room_at S r))"
    "r_members (room_at ?S r) ! k = (if k = j \<and> m_used (r_members (room_at S r) ! k)
      then consume (r_members (room_at S r) ! k) else r_members (room_at S r) ! k)"
    using Cons.prems by (auto simp: consume_one_def Let_def upd_room_def upd_member_def nth_upd_at)
  have "m_used (consume m) = m_used m" for m by (simp add: consume_def Let_def)
  then show ?case using Cons.IH [OF s(1)] Cons.prems(2,3) s by auto
qed simp

text \<open>A tick of a room with one queued command, for a member whose own ring is empty: the command is
  the input of that member in the step of the world.\<close>

lemma tick_body_world:
  fixes S :: "('r, 's) Server"
  assumes r: "r < length (rooms S)" and x: "x = room_at S r" and q: "r_inQ x = [c]" and k: "k = c_actorId c" "k < kRoomMembers"
    and m: "length (r_members x) = kRoomMembers" "m = r_members x ! k" "m_used m" "m_sessIdx m = c_sessIdx c"
      "m_sessGen m = c_sessGen c" "member_ok m" "m_ringCount m = 0"
  shows "\<exists>inputs. length inputs = kRoomMembers \<and> inputs ! k = \<lparr>in_mx = sint (c_mx c), in_my = sint (c_my c)\<rparr> \<and>
    list_all (\<lambda>inp. \<bar>in_mx inp\<bar> \<le> 128 \<and> \<bar>in_my inp\<bar> \<le> 128) inputs \<and>
    w_actors (r_world (room_at (tick_body MT r S) r)) = w_actors (SimStep (r_world x) inputs)"
proof -
  define S1 where "S1 = route_inputs r S"
  have s1: "r < length (rooms S1)" "r_world (room_at S1 r) = r_world x" "length (r_members (room_at S1 r)) = kRoomMembers"
    "r_members (room_at S1 r) ! k = ring_push c m"
    using assms by (simp_all add: S1_def route_inputs_def q [unfolded x] route_one_def Let_def upd_room_def upd_member_def kInputRingDepth_def)
  define S2 where "S2 = consume_inputs r S1"
  have u: "m_used (ring_push c m)" "consume (ring_push c m) = (consume (ring_push c m))\<lparr>m_held := c\<rparr>"
    using m(3,6,7) by (simp_all add: ring_push_def Let_def consume_def kInputRingDepth_def member_ok_def)
  have s2: "r < length (rooms S2)" "r_world (room_at S2 r) = r_world x" "length (r_members (room_at S2 r)) = kRoomMembers"
    "r_members (room_at S2 r) ! k = consume (ring_push c m)"
    using consume_fold [OF s1(1), of "[0..<kRoomMembers]" k] s1 u(1) k(2) by (simp_all add: S2_def consume_inputs_def)
  define inputs where "inputs = map (\<lambda>i. member_input (r_members (room_at S2 r) ! i)) [0..<kRoomMembers]"
  have "m_used (consume (ring_push c m))" using u(1) by (simp add: consume_def Let_def)
  moreover have "m_held (consume (ring_push c m)) = c" by (subst u(2)) simp
  ultimately have "inputs ! k = \<lparr>in_mx = sint (c_mx c), in_my = sint (c_my c)\<rparr>"
    using k(2) by (simp add: inputs_def s2(4) member_input_def)
  moreover have "\<bar>sint (b :: 8 word)\<bar> \<le> 128" for b using sint_ge [of b] sint_lt [of b] by simp
  then have "list_all (\<lambda>inp. \<bar>in_mx inp\<bar> \<le> 128 \<and> \<bar>in_my inp\<bar> \<le> 128) inputs"
    by (auto simp: inputs_def list_all_iff member_input_def neutral_input_def)
  moreover have "rooms (tick_body MT r S) = rooms (upd_room r step_room S2)"
    by (simp add: tick_body_def Let_def rooms_broadcast S2_def S1_def)
  then have "w_actors (r_world (room_at (tick_body MT r S) r)) = w_actors (SimStep (r_world x) inputs)"
    using s2(1,2) by (simp add: upd_room_def step_room_def Let_def inputs_def)
  ultimately show ?thesis by (intro exI [of _ inputs]) (simp add: inputs_def)
qed

lemma move_players_nth:
  assumes "length as = kSnapActors" "k < kRoomMembers" "a_present (as ! k)"
  shows "move_players inputs as ! k = move_player (inputs ! k) (as ! k)"
proof -
  have "fold (\<lambda>i as. if a_present (as ! i) then upd_at i (move_player (inputs ! i)) as else as) is as ! k =
      (if k \<in> set is then move_player (inputs ! k) (as ! k) else as ! k)"
    if "distinct is" "a_present (as ! k)" "k < length as" for "is" as
    using that
  proof (induction "is" arbitrary: as)
    case (Cons i "is")
    have p: "a_present (move_player inp a) = a_present a" for inp a by (simp add: move_player_def Let_def)
    show ?case using Cons.prems Cons.IH [of as] Cons.IH [of "upd_at i (move_player (inputs ! i)) as"]
      by (cases "i = k") (auto simp: p)
  qed simp
  then show ?thesis using assms by (simp add: move_players_def)
qed

text \<open>A body is in 13 pairs, and each of them pushes it back by at most 18 pixels.\<close>

lemma separate_if_push:
  assumes "list_all (\<lambda>a. dbl_actor a \<and> \<bar>a_x a\<bar> \<le> 4000 \<and> \<bar>a_y a\<bar> \<le> 4000) as" "i < length as" "j < length as" "i \<noteq> j" "k < length as"
  shows "a_x (as ! k) - (if k = i \<or> k = j then 18 else 0) \<le> a_x (separate_if (i, j) as ! k)"
proof -
  have e: "eps40 \<le> 1" by (rule eps40_bounds)
  have "\<bar>a_x (as ! i)\<bar> \<le> 4000" "\<bar>a_x (as ! j)\<bar> \<le> 4000" using assms(1-3) by (auto simp: list_all_iff)
  moreover have "x - 18 \<le> fsub x p \<and> x - 18 \<le> fadd x p" if "\<bar>x\<bar> \<le> 4000" "\<bar>p\<bar> \<le> 17" for x p
    using round_near [of "x - p"] round_near [of "x + p"] that e unfolding fsub_def fadd_def by (simp add: abs_le_iff)
  ultimately show ?thesis
    using assms(2-5) unfolding separate_if_def separate_at_def Let_def
    by (cases "as ! i" "as ! j" rule: separate_pair_cases) (auto simp: nth_list_update)
qed

lemma pairs_of_one: "k < kSnapActors \<Longrightarrow> length (filter (\<lambda>(i, j). k = i \<or> k = j) actor_pairs) = 13"
proof -
  have "list_all (\<lambda>k. length (filter (\<lambda>(i, j). k = i \<or> k = j) actor_pairs) = 13) [0..<kSnapActors]" by code_simp
  then show "k < kSnapActors \<Longrightarrow> length (filter (\<lambda>(i, j). k = i \<or> k = j) actor_pairs) = 13" by (simp add: list_all_iff)
qed

lemma separate_push:
  assumes "world_ok w" "list_all (\<lambda>inp. \<bar>in_mx inp\<bar> \<le> 128 \<and> \<bar>in_my inp\<bar> \<le> 128) inputs" "length inputs = kRoomMembers"
    "k < kSnapActors"
  shows "a_x (move_players inputs (w_actors w) ! k) - 234 \<le> a_x (separate (move_players inputs (w_actors w)) ! k)"
proof -
  let ?as = "move_players inputs (w_actors w)"
  have l: "length ?as = kSnapActors" using move_players_induct [of "w_actors w" "\<lambda>_. True"] assms(1) by (simp add: world_ok_def)
  have "a_x (?as ! k) - 18 * of_nat (length (filter (\<lambda>(i, j). k = i \<or> k = j) (take n actor_pairs))) \<le>
      a_x (fold separate_if (take n actor_pairs) ?as ! k)" if "n \<le> length actor_pairs" for n
    using that
  proof (induction n)
    case (Suc n)
    let ?bs = "fold separate_if (take n actor_pairs) ?as"
    obtain i j where p: "actor_pairs ! n = (i, j)" by (cases "actor_pairs ! n")
    then have ij: "i < j" "j < kSnapActors" using actor_pairs_less [of i j] nth_mem [of n actor_pairs] Suc.prems by auto
    have lb: "length (fold separate_if ps as) = length as" for ps as by (induction ps arbitrary: as) simp_all
    have "a_x (?bs ! k) - (if k = i \<or> k = j then 18 else 0) \<le> a_x (separate_if (i, j) ?bs ! k)"
      by (rule separate_if_push [OF sim_intermediate_range [OF assms(1-3), of n]]) (use ij assms(4) in \<open>simp_all add: lb l\<close>)
    then show ?case using Suc by (cases "k = i"; cases "k = j"; simp add: take_Suc_conv_app_nth p)
  qed simp
  from this [of "length actor_pairs"] show ?thesis by (simp add: separate_fold [OF l] pairs_of_one [OF assms(4)])
qed

text \<open>C24. The magnitude of an input is never checked, from the wire to the position. Let the receive
  ring of a session that has seat k hold one INPUT packet with 127 as the horizontal and 0 as the
  vertical axis. After the framing pass and one tick of its room, separation and stage bounds
  included, and wherever the other bodies stand, the player is at least 220 pixels further to
  the right or at the right edge of the stage (x = 1580); a legal input moves it by 3.6 pixels.\<close>

theorem unchecked_input_teleports:
  fixes w :: nat and S :: "('r, 's) Server" and MT :: "'s ring_ops"
  assumes "ring_contract ST okr capr bufr" "i < length (slots (pool S))" "okr (recvQ (At S i))" "\<not> dead (At S i)"
    and "bufr (recvQ (At S i)) = [12, 0, 11, 0] @ ps" "length ps = 8" "ps ! 4 = 127" "ps ! 5 = 0"
    and "inRoom (At S i)" "roomIdx (At S i) = r" "r < length (rooms S)" "actorId (At S i) = k" "k < kRoomMembers"
  defines "x \<equiv> room_at S r" and "m \<equiv> r_members (room_at S r) ! k" and "S' \<equiv> tick_body MT r (ParseFrames ST MT w i S)"
  assumes "length (r_members x) = kRoomMembers" "m_used m" "m_sessIdx m = idx (At S i)" "m_sessGen m = gen (At S i)"
    and "member_ok m" "m_ringCount m = 0" "r_inQ x = []" "world_ok (r_world x)" "a_present (w_actors (r_world x) ! k)"
  shows "min 1580 (a_x (w_actors (r_world x) ! k) + 220) \<le> a_x (w_actors (r_world (room_at S' r)) ! k)"
proof -
  define S1 where "S1 = ParseFrames ST MT w i S"
  have n: "length [ps] < rb_DataSize ST (recvQ (At S i)) + 1" using assms(5) by (simp add: ring_contractD(2) [OF assms(1,3)])
  have u: "unfinished []" by (simp add: unfinished_def)
  have b: "bufr (recvQ (At S i)) = concat (map ((@) input_header) [ps]) @ []" using assms(5) by (simp add: input_header_def)
  have "rooms S1 = filed (At S i) [input_of (At S i) ps] (rooms S)"
    using parse_inputs [OF assms(1-4) _ u b n, of MT w] assms(6) by (auto simp: S1_def ParseFrames_def)
  then have s1: "r < length (rooms S1)" "room_at S1 r = x\<lparr>r_inQ := [input_of (At S i) ps]\<rparr>"
    using assms(9-11,23) by (simp_all add: filed_def x_def)
  let ?c = "input_of (At S i) ps"
  have c: "c_actorId ?c = k" "c_sessIdx ?c = idx (At S i)" "c_sessGen ?c = gen (At S i)" "c_mx ?c = 127" "c_my ?c = 0"
    using assms by (simp_all add: input_of_def)
  obtain inputs where I: "length inputs = kRoomMembers" "inputs ! k = \<lparr>in_mx = 127, in_my = 0\<rparr>"
    "list_all (\<lambda>inp. \<bar>in_mx inp\<bar> \<le> 128 \<and> \<bar>in_my inp\<bar> \<le> 128) inputs"
    "w_actors (r_world (room_at S' r)) = w_actors (SimStep (r_world x) inputs)"
    using tick_body_world [OF s1(1) refl, of ?c k m MT] assms(13,17-22) c unfolding s1(2) S'_def S1_def [symmetric]
    by (auto simp: m_def x_def)
  let ?as = "w_actors (r_world x)" and ?ms = "move_players inputs (w_actors (r_world x))"
  have len: "length ?as = kSnapActors" "k < kSnapActors" "length (separate ?ms) = kSnapActors"
    using assms(13,24) move_players_induct [of ?as "\<lambda>_. True" inputs] separate_induct [of ?ms "\<lambda>_. True"] by (simp_all add: world_ok_def)
  have "?as ! k \<in> set ?as" using len by simp
  then have x: "0 \<le> a_x (?as ! k)" "a_x (?as ! k) \<le> 1580" using assms(24,25) by (auto simp: world_ok_def on_stage_def)
  have "?ms ! k = move_player \<lparr>in_mx = 127, in_my = 0\<rparr> (?as ! k)" using move_players_nth [OF len(1) assms(13,25)] I(2) by simp
  then have "a_x (?as ! k) + 454 \<le> a_x (?ms ! k)" using move_player_teleports [OF x, of "\<lparr>in_mx = 127, in_my = 0\<rparr>"] by simp
  with separate_push [OF assms(24) I(3,1) len(2)] have "a_x (?as ! k) + 220 \<le> a_x (separate ?ms ! k)" by simp
  then show ?thesis unfolding I(4) using len by (simp add: SimStep_def clamp_actor_def clampd_def stage_right)
qed

theorem unchecked_input_teleports_witness:
  "400 \<le> a_x (w_actors (r_world (room_at (tick_body list_ring_ops 0 (ParseFrames list_ring_ops list_ring_ops 0 0
     (input_demo [12, 0, 11, 0, 1, 0, 0, 0, 127, 0, 0, 0]))) 0)) ! 0)"
proof -
  define S where "S = input_demo [12, 0, 11, 0, 1, 0, 0, 0, 127, 0, 0, 0]"
  note d = input_demo [of "[12, 0, 11, 0, 1, 0, 0, 0, 127, 0, 0, 0]", folded S_def]
  have w: "r_world (room_at S 0) = (ResetWorld (r_world (new_room 0)))\<lparr>w_actors := upd_at 0 (spawn_player 0) (w_actors (ResetWorld (r_world (new_room 0))))\<rparr>"
    and m: "r_members (room_at S 0) = (replicate kRoomMembers default_member)[0 := default_member\<lparr>m_used := True\<rparr>]"
    and q: "r_inQ (room_at S 0) = []"
    by (simp_all add: d seat_member_def demo_room_def clear_room_def default_member_def)
  have ok: "world_ok (r_world (room_at S 0))"
    unfolding w upd_at_def by (intro world_ok_upd world_ok_ResetWorld) (simp_all add: player_spawn_ok kRoomMembers_def)
  have "w_actors (r_world (room_at S 0)) ! 0 = spawn_player 0 default_actor"
    by (simp add: w ResetWorld_actors upd_at_def numeral_eq_Suc)
  then have a: "a_x (w_actors (r_world (room_at S 0)) ! 0) = 180" "a_present (w_actors (r_world (room_at S 0)) ! 0)"
    by (simp_all add: spawn_player_def kPlayerSpawn_def)
  have c: "r_members (room_at S 0) ! 0 = default_member\<lparr>m_used := True\<rparr>" "length (r_members (room_at S 0)) = kRoomMembers"
    "0 < kRoomMembers" by (simp_all add: m kRoomMembers_def)
  have mo: "member_ok (default_member\<lparr>m_used := True\<rparr>)" using member_ok_default by (simp add: member_ok_def)
  have r: "snd (recvQ (At S 0)) = [12, 0, 11, 0] @ [1, 0, 0, 0, 127, 0, 0, 0]" by (simp add: d)
  have "min 1580 (a_x (w_actors (r_world (room_at S 0)) ! 0) + 220) \<le>
      a_x (w_actors (r_world (room_at (tick_body list_ring_ops 0 (ParseFrames list_ring_ops list_ring_ops 0 0 S)) 0)) ! 0)"
    by (rule unchecked_input_teleports [OF list_ring_contract, of 0 S "[1, 0, 0, 0, 127, 0, 0, 0]" 0 0 list_ring_ops 0])
      (use c mo ok a(2) q r in \<open>simp_all add: d demo_sess_def default_member_def\<close>)
  then show ?thesis unfolding S_def [symmetric] a(1) by simp
qed

end
