(* ===== verification/Queue_Exact.thy ===== *)
theory Queue_Exact
  imports Turn_Props
begin

text \<open>
  The queue processing at the tick boundary, exactly, and from the state of the room and of the
  session slots alone: no book of references, flags or leaves has to be right. So the result also
  holds in the middle of a disconnect, when a session is dead and its leave is not yet filed.
\<close>

section \<open>Rooms ready for a queue turn\<close>

text \<open>
  What the queue processing needs: the seat accounts of the room are right, and its seats, members
  and waiting joins alike, name slots of the pool, each slot once. Nothing is said of the flags,
  the generations, the references or the pending leaves.
\<close>

definition one_slot_each :: "nat \<Rightarrow> (nat \<Rightarrow> tag option) \<Rightarrow> bool" where
  "one_slot_each n f \<longleftrightarrow> (\<forall>k t. f k = Some t \<longrightarrow> fst t < n) \<and>
     (\<forall>k k' t t'. f k = Some t \<longrightarrow> f k' = Some t' \<longrightarrow> fst t = fst t' \<longrightarrow> k = k')"

definition turn_ready :: "nat \<Rightarrow> ('r, 's) Server \<Rightarrow> bool" where
  "turn_ready r S \<longleftrightarrow> r < length (rooms S) \<and> r_idx (room_at S r) = r \<and> room_ok (room_at S r) \<and>
     (\<forall>i<length (slots (pool S)). idx (At S i) = i) \<and> one_slot_each (length (slots (pool S))) (seat (room_at S r))"

lemma turn_ready_live:
  assumes "Inv S" "live S r"
  shows "turn_ready r S"
proof -
  note R = room_liveD [OF assms] and B = InvD(2) [OF assms(1)]
  have t: "tab S r = seat (room_at S r)" using assms(2) by (simp add: tab_def)
  have "fst t < length (slots (pool S))" if "tab S r k = Some t" for k t
    using held_refs(3) [OF B, of r k "fst t" "snd t"] that by simp
  moreover have "k = k'" if "tab S r k = Some t" "tab S r k' = Some t'" "fst t = fst t'" for k k' t t'
    using one_seat(2) [OF B, of r k' "fst t" "snd t'" r k "snd t"] that by (cases t; cases t') simp
  ultimately have "one_slot_each (length (slots (pool S))) (tab S r)" unfolding one_slot_each_def by blast
  then show ?thesis using R pool_okD(1) [OF InvD(6) [OF assms(1)]] by (simp add: turn_ready_def t)
qed

section \<open>Giving up seats\<close>

definition given_up :: "(nat \<Rightarrow> tag option) \<Rightarrow> (nat \<Rightarrow> tag option) \<Rightarrow> nat set" where
  "given_up f g = {i. \<exists>k t. f k = Some (i, t) \<and> g k = None}"

lemma given_up_refl [simp]: "given_up f f = {}"
  by (auto simp: given_up_def)

text \<open>The room r goes from the row f to the row g; the reference of each seat given up is returned.\<close>

definition gives_up :: "nat \<Rightarrow> (nat \<Rightarrow> tag option) \<Rightarrow> (nat \<Rightarrow> tag option) \<Rightarrow> ('r, 's) Server \<Rightarrow> ('r, 's) Server \<Rightarrow> bool" where
  "gives_up r f g S S' \<longleftrightarrow> (\<forall>r'. r' \<noteq> r \<longrightarrow> room_at S' r' = room_at S r') \<and> freeRooms S' = freeRooms S \<and>
     (\<forall>k. g k = f k \<or> g k = None) \<and>
     (\<exists>is. distinct is \<and> set is = given_up f g \<and> pool S' = fold Release is (pool S))"

lemma gives_up_refl: "gives_up r f f S S"
  by (auto simp: gives_up_def intro!: exI [of _ "[]"])

lemma gives_up_trans:
  assumes one: "one_slot_each n f" and 1: "gives_up r f g S S'" and 2: "gives_up r g h S' S''"
  shows "gives_up r f h S S''"
proof -
  obtain "is" js where l: "distinct is" "set is = given_up f g" "pool S' = fold Release is (pool S)"
    "distinct js" "set js = given_up g h" "pool S'' = fold Release js (pool S')"
    using 1 2 by (auto simp: gives_up_def)
  have sub: "g k = f k \<or> g k = None" "h k = g k \<or> h k = None" for k using 1 2 by (auto simp: gives_up_def)
  have sub': "f k = Some t" if "g k = Some t" for k t using sub(1) [of k] that by simp
  have "given_up f g \<inter> given_up g h = {}"
  proof -
    have False if "f k = Some (i, t)" "g k = None" "g k' = Some (i, t')" for i k k' t t'
    proof -
      have "k = k'" using one that(1) sub' [OF that(3)] unfolding one_slot_each_def by (metis fst_conv)
      then show False using that by simp
    qed
    then show ?thesis by (auto simp: given_up_def)
  qed
  moreover have "given_up f h = given_up f g \<union> given_up g h"
  proof -
    have "(f k = Some (i, t) \<and> h k = None) = (f k = Some (i, t) \<and> g k = None \<or> g k = Some (i, t) \<and> h k = None)" for k i t
      using sub [of k] by (cases "g k"; cases "h k") auto
    then show ?thesis unfolding given_up_def by blast
  qed
  ultimately have "distinct (is @ js) \<and> set (is @ js) = given_up f h \<and> pool S'' = fold Release (is @ js) (pool S)"
    using l by simp
  moreover have "h k = f k \<or> h k = None" for k using sub [of k] by auto
  ultimately show ?thesis using 1 2 unfolding gives_up_def by metis
qed

lemma fold_Release:
  assumes "distinct is" "set is \<subseteq> {..<length (slots p)}" "\<forall>i<length (slots p). idx (slots p ! i) = i"
  shows "length (slots (fold Release is p)) = length (slots p) \<and>
    (\<forall>i. slots (fold Release is p) ! i = (if i \<in> set is then (slots p ! i)\<lparr>refs := refs (slots p ! i) - 1,
       gen := (if refs (slots p ! i) = 1 then gen (slots p ! i) + 1 else gen (slots p ! i))\<rparr> else slots p ! i)) \<and>
    sfree (fold Release is p) = sfree p @ filter (\<lambda>i. refs (slots p ! i) = 1) is"
  using assms
proof (induction "is" arbitrary: p)
  case (Cons j "is")
  have j: "j < length (slots p)" "idx (slots p ! j) = j" "j \<notin> set is" "distinct is" using Cons.prems by auto
  note s = slots_Release [OF j(1)]
  have f: "filter (\<lambda>i. refs (slots (Release j p) ! i) = 1) is = filter (\<lambda>i. refs (slots p ! i) = 1) is"
    using j(3) by (intro filter_cong) (auto simp: s)
  have "length (slots (Release j p)) = length (slots p)" by (simp add: Release_def Let_def upd_sess_def)
  then show ?case
    using Cons.IH [of "Release j p"] Cons.prems j f by (auto simp: s sfree_Release [OF j(1)])
qed simp

section \<open>The queues in hand\<close>

text \<open>The room while the worker holds its queues, with the joins js still to come.\<close>

definition in_hand :: "nat \<Rightarrow> RoomJoinEntry list \<Rightarrow> ('r, 's) Server \<Rightarrow> bool" where
  "in_hand r js S \<longleftrightarrow> r < length (rooms S) \<and> r_idx (room_at S r) = r \<and>
     seats_ok js (r_members (room_at S r)) (r_seatUsed (room_at S r)) (r_reservedSeats (room_at S r)) (r_memberCount (room_at S r)) \<and>
     r_everReserved (room_at S r) \<and> \<not> r_dead (room_at S r) \<and> r_pendingJoin (room_at S r) = [] \<and> r_pendingLeave (room_at S r) = [] \<and>
     (\<forall>i<length (slots (pool S)). idx (At S i) = i) \<and> one_slot_each (length (slots (pool S))) (seat_row r js S)"

lemma one_slot_each_sub: "one_slot_each n f \<Longrightarrow> (\<And>k. g k = f k \<or> g k = None) \<Longrightarrow> one_slot_each n g"
  unfolding one_slot_each_def by (metis option.distinct(1))

text \<open>A step in hand: the room is updated in place, and at most the seat k is given up.\<close>

lemma in_hand_step:
  assumes h: "in_hand r js S" and S': "S' = (upd_room r f S)\<lparr>pool := p\<rparr>"
    and f: "r_idx (f (room_at S r)) = r" "r_everReserved (f (room_at S r))" "\<not> r_dead (f (room_at S r))"
      "r_pendingJoin (f (room_at S r)) = []" "r_pendingLeave (f (room_at S r)) = []"
      "seats_ok js' (r_members (f (room_at S r))) (r_seatUsed (f (room_at S r))) (r_reservedSeats (f (room_at S r))) (r_memberCount (f (room_at S r)))"
    and g: "p = pool S \<and> pend js' ++ memb (r_members (f (room_at S r))) = seat_row r js S \<or>
      p = Release i (pool S) \<and> seat_row r js S k = Some (i, t) \<and>
        pend js' ++ memb (r_members (f (room_at S r))) = (seat_row r js S)(k := None)"
  shows "in_hand r js' S'" "gives_up r (seat_row r js S) (seat_row r js' S') S S'"
proof -
  note H = h [unfolded in_hand_def]
  have r: "room_at S' r = f (room_at S r)" "r < length (rooms S')" "\<And>r'. r' \<noteq> r \<Longrightarrow> room_at S' r' = room_at S r'"
    using H by (simp_all add: S')
  have row: "seat_row r js' S' = pend js' ++ memb (r_members (f (room_at S r)))" by (simp add: seat_row_def r)
  have sub: "seat_row r js' S' k' = seat_row r js S k' \<or> seat_row r js' S' k' = None" for k'
    using g unfolding row [symmetric] by (cases "k' = k") auto
  have i: "i < length (slots (pool S))" if "seat_row r js S k = Some (i, t)"
    using H that unfolding one_slot_each_def by (metis fst_conv)
  have p: "length (slots p) = length (slots (pool S))" "idx (slots p ! j) = idx (At S j)" for j
    using g i by (auto simp: slots_Release)
  show "in_hand r js' S'"
    using H f r(1,2) one_slot_each_sub [OF _ sub] by (simp add: in_hand_def S' p)
  have "\<exists>is. distinct is \<and> set is = given_up (seat_row r js S) (seat_row r js' S') \<and> p = fold Release is (pool S)"
    using g
  proof
    assume "p = pool S \<and> pend js' ++ memb (r_members (f (room_at S r))) = seat_row r js S"
    then show ?thesis by (intro exI [of _ "[]"]) (simp add: row)
  next
    assume a: "p = Release i (pool S) \<and> seat_row r js S k = Some (i, t) \<and>
        pend js' ++ memb (r_members (f (room_at S r))) = (seat_row r js S)(k := None)"
    then have "given_up (seat_row r js S) (seat_row r js' S') = {i}" by (auto simp: given_up_def row)
    then show ?thesis using a by (intro exI [of _ "[i]"]) simp
  qed
  then show "gives_up r (seat_row r js S) (seat_row r js' S') S S'" using sub r(3) by (simp add: gives_up_def S')
qed

text \<open>Who is let in: the session is the one that joined, and alive.\<close>

definition admitted :: "('r, 's) Server \<Rightarrow> tag \<Rightarrow> bool" where
  "admitted S t \<longleftrightarrow> gen (At S (fst t)) = snd t \<and> \<not> dead (At S (fst t))"

lemma join_exact:
  assumes h: "in_hand r (e # js) S"
  defines "k \<equiv> j_actorId e" and "t \<equiv> (j_sessIdx e, j_sessGen e)"
  shows "in_hand r js (join_one r e S)" "gives_up r (seat_row r (e # js) S) (seat_row r js (join_one r e S)) S (join_one r e S)"
    "seat_row r (e # js) S k = Some t"
    "seat_row r js (join_one r e S) = (if admitted S t then seat_row r (e # js) S else (seat_row r (e # js) S)(k := None))"
    "j_actorId e' \<noteq> k \<Longrightarrow> e' \<in> set js \<Longrightarrow> At (join_one r e S) (j_sessIdx e') = At S (j_sessIdx e')"
proof -
  note H = h [unfolded in_hand_def]
  let ?x = "room_at S r" and ?f = "seat_row r (e # js) S"
  have ok: "seats_ok (e # js) (r_members ?x) (r_seatUsed ?x) (r_reservedSeats ?x) (r_memberCount ?x)" using H by blast
  have fk: "?f k = Some t"
    using pend_memb_disjoint [OF ok, of e] by (simp add: seat_row_def map_add_def pend_Cons k_def t_def)
  show "?f k = Some t" by (rule fk)
  have i: "fst t < length (slots (pool S))" using H fk unfolding one_slot_each_def by blast
  have r: "r < length (rooms S)" using H by blast
  have "in_hand r js (join_one r e S) \<and> gives_up r ?f (seat_row r js (join_one r e S)) S (join_one r e S) \<and>
    seat_row r js (join_one r e S) = (if admitted S t then ?f else ?f(k := None)) \<and>
    (\<forall>j. j \<noteq> fst t \<longrightarrow> At (join_one r e S) j = At S j)"
  proof (cases "admitted S t")
    case True
    let ?m = "default_member\<lparr>m_used := True, m_sessIdx := j_sessIdx e, m_sessGen := j_sessGen e, m_sessOwner := owner (At S (j_sessIdx e))\<rparr>"
    let ?F = "seat_member (j_actorId e) (j_sessIdx e) (j_sessGen e) (owner (At S (j_sessIdx e)))"
    have J: "join_one r e S = (upd_room r ?F S)\<lparr>pool := pool S\<rparr>"
      using True by (simp add: join_one_def Let_def upd_room_def admitted_def t_def)
    have fs: "r_members (?F ?x) = (r_members ?x)[j_actorId e := ?m]" by (simp add: seat_member_def)
    note st = seats_seat [OF ok, of ?m]
    have row: "pend js ++ memb (r_members (?F ?x)) = ?f" unfolding fs using st(2) by (simp add: seat_row_def)
    have "seats_ok js (r_members (?F ?x)) (r_seatUsed (?F ?x)) (r_reservedSeats (?F ?x)) (r_memberCount (?F ?x))"
      using st(1) by (simp add: seat_member_def)
    then have "in_hand r js (join_one r e S)" "gives_up r ?f (seat_row r js (join_one r e S)) S (join_one r e S)"
      by (intro in_hand_step [OF h J]; (rule disjI1)?; use H row in \<open>simp add: seat_member_def\<close>)+
    then show ?thesis using True row r by (simp add: J seat_row_def)
  next
    case False
    let ?F = "free_seat (j_actorId e)"
    have J: "join_one r e S = (upd_room r ?F S)\<lparr>pool := Release (fst t) (pool S)\<rparr>"
      using False by (simp add: join_one_def Let_def admitted_def t_def)
    note st = seats_skip [OF ok]
    have row: "pend js ++ memb (r_members (?F ?x)) = ?f(k := None)" using st(2) by (simp add: seat_row_def k_def free_seat_def)
    have "seats_ok js (r_members (?F ?x)) (r_seatUsed (?F ?x)) (r_reservedSeats (?F ?x)) (r_memberCount (?F ?x))"
      using st(1) by (simp add: free_seat_def)
    then have "in_hand r js (join_one r e S)" "gives_up r ?f (seat_row r js (join_one r e S)) S (join_one r e S)"
      by (intro in_hand_step [OF h J, where k = k and i = "fst t" and t = "snd t"]; (rule disjI2)?;
          use H row fk in \<open>simp add: free_seat_def\<close>)+
    then show ?thesis using False row r i by (simp add: J seat_row_def slots_Release)
  qed
  note all = this
  show "in_hand r js (join_one r e S)" "gives_up r ?f (seat_row r js (join_one r e S)) S (join_one r e S)"
    "seat_row r js (join_one r e S) = (if admitted S t then ?f else ?f(k := None))"
    using all by blast+
  assume e': "j_actorId e' \<noteq> k" "e' \<in> set js"
  then have "pend (e # js) (j_actorId e') \<noteq> None" by (simp add: pend_None)
  moreover have "distinct (map j_actorId (e # js))" using seats_okD(3) [OF ok] .
  then have "map_of (map (\<lambda>e. (j_actorId e, j_sessIdx e, j_sessGen e)) js) (j_actorId e') = Some (j_sessIdx e', j_sessGen e')"
    using e'(2) by (intro map_of_is_SomeI) (auto simp: comp_def)
  ultimately have "?f (j_actorId e') = Some (j_sessIdx e', j_sessGen e')"
    using pend_memb_disjoint [OF ok, of e'] e' by (simp add: seat_row_def map_add_def pend_Cons pend_def k_def)
  then have "j_sessIdx e' \<noteq> fst t" using H fk e'(1) unfolding one_slot_each_def by (metis fst_conv)
  then show "At (join_one r e S) (j_sessIdx e') = At S (j_sessIdx e')" using all by blast
qed

lemma joins_exact:
  assumes "in_hand r js S"
  defines "S' \<equiv> fold (join_one r) js S"
  shows "in_hand r [] S' \<and> gives_up r (seat_row r js S) (seat_row r [] S') S S' \<and>
    seat_row r [] S' = (\<lambda>k. case memb (r_members (room_at S r)) k of Some t \<Rightarrow> Some t
      | None \<Rightarrow> (case pend js k of None \<Rightarrow> None | Some t \<Rightarrow> if admitted S t then Some t else None))"
  unfolding S'_def using assms(1)
proof (induction js arbitrary: S)
  case Nil
  then show ?case by (auto simp: gives_up_refl seat_row_def fun_eq_iff split: option.split)
next
  case (Cons e js)
  let ?S = "join_one r e S" and ?k = "j_actorId e" and ?t = "(j_sessIdx e, j_sessGen e)"
  note J = join_exact [OF Cons.prems]
  note IH = Cons.IH [OF J(1)]
  have one: "one_slot_each (length (slots (pool S))) (seat_row r (e # js) S)" using Cons.prems by (simp add: in_hand_def)
  have ok: "seats_ok (e # js) (r_members (room_at S r)) (r_seatUsed (room_at S r)) (r_reservedSeats (room_at S r)) (r_memberCount (room_at S r))"
    using Cons.prems by (simp add: in_hand_def)
  have fresh: "?k \<notin> j_actorId ` set js" "memb (r_members (room_at S r)) ?k = None"
    using seats_okD(3) [OF ok] pend_memb_disjoint [OF ok, of e] by simp_all
  have adm: "admitted ?S t = admitted S t" if "pend js k = Some t" for k t
  proof -
    have "(k, t) \<in> set (map (\<lambda>e. (j_actorId e, (j_sessIdx e, j_sessGen e))) js)"
      using that unfolding pend_def by (rule map_of_SomeD)
    then obtain e' where e': "e' \<in> set js" "t = (j_sessIdx e', j_sessGen e')" by auto
    then have "j_actorId e' \<noteq> ?k" using fresh(1) by (metis image_eqI)
    then show ?thesis using J(5) e' by (simp add: admitted_def)
  qed
  have pk: "pend js ?k = None" using fresh(1) by (simp add: pend_None)
  have mk: "memb (r_members (room_at ?S r)) k = (if k = ?k \<and> admitted S ?t then Some ?t else memb (r_members (room_at S r)) k)" for k
  proof (cases "pend js k")
    case None
    then show ?thesis
      using fun_cong [OF J(4), of k] fresh(2)
      by (cases "k = ?k") (simp_all add: seat_row_def pend_Cons map_add_def split: option.splits if_splits)
  next
    case (Some t')
    then have "k \<in> j_actorId ` set js" by (metis pend_None option.distinct(1))
    then obtain e' where e': "e' \<in> set js" "k = j_actorId e'" by auto
    have "in_hand r js ?S" by (rule J(1))
    then have "memb (r_members (room_at ?S r)) k = None" using pend_memb_disjoint [OF _ e'(1)] e'(2) by (auto simp: in_hand_def)
    moreover have "memb (r_members (room_at S r)) k = None" using pend_memb_disjoint [OF ok, of e'] e' by simp
    moreover have "k \<noteq> ?k" using fresh(1) e' by (metis image_eqI)
    ultimately show ?thesis by simp
  qed
  have "(case memb (r_members (room_at ?S r)) k of Some t \<Rightarrow> Some t
      | None \<Rightarrow> (case pend js k of None \<Rightarrow> None | Some t \<Rightarrow> if admitted ?S t then Some t else None)) =
    (case memb (r_members (room_at S r)) k of Some t \<Rightarrow> Some t
      | None \<Rightarrow> (case pend (e # js) k of None \<Rightarrow> None | Some t \<Rightarrow> if admitted S t then Some t else None))" for k
    using adm [of k] pk fresh(2) by (auto simp: mk pend_Cons split: option.splits)
  note eq = this
  let ?T = "fold (join_one r) js ?S"
  have "gives_up r (seat_row r (e # js) S) (seat_row r [] ?T) S ?T" using gives_up_trans [OF one J(2)] IH by blast
  moreover have "seat_row r [] ?T = (\<lambda>k. case memb (r_members (room_at S r)) k of Some t \<Rightarrow> Some t
      | None \<Rightarrow> (case pend (e # js) k of None \<Rightarrow> None | Some t \<Rightarrow> if admitted S t then Some t else None))"
    using IH eq by presburger
  moreover have "in_hand r [] ?T" using IH by blast
  ultimately show ?case by simp
qed

lemma leave_exact:
  assumes h: "in_hand r [] S"
  defines "f \<equiv> seat_row r [] S"
  shows "in_hand r [] (leave_one r e S) \<and> gives_up r f (seat_row r [] (leave_one r e S)) S (leave_one r e S) \<and>
    seat_row r [] (leave_one r e S) = (\<lambda>k. if f k = Some (leave_tag e) then None else f k)"
proof -
  note H = h [unfolded in_hand_def]
  let ?x = "room_at S r" and ?i = "l_sessIdx e" and ?g = "l_sessGen e"
  let ?P = "\<lambda>m. m_used m \<and> m_sessIdx m = l_sessIdx e \<and> m_sessGen m = l_sessGen e"
  have f: "f = memb (r_members ?x)" by (simp add: f_def seat_row_def)
  show ?thesis
  proof (cases "first_index ?P (r_members ?x)")
    case None
    then have L: "leave_one r e S = S" unfolding leave_one_def by (simp only: option.case)
    have none: "\<forall>m\<in>set (r_members ?x). \<not> ?P m" using None by (simp only: first_index_None)
    have "f k \<noteq> Some (leave_tag e)" for k using none by (auto simp: f memb_def leave_tag_def split: if_splits)
    then show ?thesis using h by (simp add: L f_def gives_up_refl)
  next
    case (Some k)
    from first_index_SomeD [OF Some] have k: "k < length (r_members ?x)" "?P (r_members ?x ! k)" by auto
    have kr: "k < kRoomMembers" using k(1) seats_okD(1) H by auto
    have fk: "f k = Some (?i, ?g)" using k by (simp add: f memb_def)
    have only: "k' = k" if "f k' = Some (leave_tag e)" for k'
      using H fk that unfolding one_slot_each_def f_def leave_tag_def by (metis fst_conv)
    let ?F = "unseat_member k"
    have L: "leave_one r e S = (upd_room r ?F S)\<lparr>pool := Release ?i (pool S)\<rparr>" using Some by (simp add: leave_one_def Let_def)
    have ok: "seats_ok [] (r_members ?x) (r_seatUsed ?x) (r_reservedSeats ?x) (r_memberCount ?x)" using H by blast
    note lv = seats_leave [OF ok kr, of]
    have row: "pend [] ++ memb (r_members (?F ?x)) = f(k := None)" "pend [] ++ memb (r_members ?x) = f"
      using lv(2) k by (simp_all add: f unseat_member_def free_seat_def)
    have "seats_ok [] (r_members (?F ?x)) (r_seatUsed (?F ?x)) (r_reservedSeats (?F ?x)) (r_memberCount (?F ?x))"
      using lv(1) k by (simp add: unseat_member_def free_seat_def)
    moreover have "r_idx (?F ?x) = r" "r_everReserved (?F ?x)" "\<not> r_dead (?F ?x)" "r_pendingJoin (?F ?x) = []" "r_pendingLeave (?F ?x) = []"
      using H by (simp_all add: unseat_member_def free_seat_def)
    moreover have "Release ?i (pool S) = pool S \<and> pend [] ++ memb (r_members (?F ?x)) = seat_row r [] S \<or>
      Release ?i (pool S) = Release ?i (pool S) \<and> seat_row r [] S k = Some (?i, ?g) \<and> pend [] ++ memb (r_members (?F ?x)) = (seat_row r [] S)(k := None)"
      using row(1) fk unfolding f_def by blast
    ultimately have "in_hand r [] (leave_one r e S) \<and> gives_up r f (seat_row r [] (leave_one r e S)) S (leave_one r e S)"
      unfolding f_def by (intro conjI in_hand_step [OF h L])
    moreover have "seat_row r [] (leave_one r e S) = f(k := None)" using row(1) H by (simp add: L seat_row_def)
    moreover have "(f(k := None)) k' = (if f k' = Some (leave_tag e) then None else f k')" for k'
      using only [of k'] fk by (cases "k' = k") (auto simp: leave_tag_def)
    then have "f(k := None) = (\<lambda>k. if f k = Some (leave_tag e) then None else f k)" by (rule ext)
    ultimately show ?thesis by simp
  qed
qed

lemma leaves_exact:
  fixes S :: "('r, 's) Server" and ls :: "RoomLeaveEntry list"
  assumes "in_hand r [] S"
  defines "S' \<equiv> fold (leave_one r) ls S"
  shows "in_hand r [] S' \<and> gives_up r (seat_row r [] S) (seat_row r [] S') S S' \<and>
    seat_row r [] S' = (\<lambda>k. case seat_row r [] S k of None \<Rightarrow> None | Some t \<Rightarrow> if t \<in> leave_tag ` set ls then None else Some t)"
  unfolding S'_def using assms(1)
proof (induction ls arbitrary: S)
  case Nil
  then show ?case by (auto simp: gives_up_refl fun_eq_iff split: option.split)
next
  case (Cons e ls)
  note L = leave_exact [OF Cons.prems, of e]
  have one: "one_slot_each (length (slots (pool S))) (seat_row r [] S)" using Cons.prems by (simp add: in_hand_def)
  have "(case seat_row r [] (leave_one r e S) k of None \<Rightarrow> None | Some t \<Rightarrow> if t \<in> leave_tag ` set ls then None else Some t) =
      (case seat_row r [] S k of None \<Rightarrow> None | Some t \<Rightarrow> if t \<in> leave_tag ` set (e # ls) then None else Some t)" for k
    using L by (auto split: option.splits)
  then show ?case using Cons.IH [of "leave_one r e S"] L gives_up_trans [OF one] by auto
qed

section \<open>The turn\<close>

text \<open>
  The row of seats after a queue turn: a member stays unless its leave is filed here, a waiting join
  becomes a member if it is admitted and its leave is not filed here.
\<close>

definition row_after :: "('r, 's) Server \<Rightarrow> Room \<Rightarrow> nat \<Rightarrow> tag option" where
  "row_after S x k = (case seat x k of None \<Rightarrow> None
     | Some t \<Rightarrow> if t \<in> leave_tag ` set (r_pendingLeave x) \<or> memb (r_members x) k = None \<and> \<not> admitted S t then None else Some t)"

lemma apply_queues_exact:
  assumes t: "turn_ready r S"
  defines "S' \<equiv> apply_queues r S"
  shows "in_hand r [] S' \<and> gives_up r (seat (room_at S r)) (row_after S (room_at S r)) S S' \<and>
    seat_row r [] S' = row_after S (room_at S r)"
proof -
  let ?x = "room_at S r" and ?js = "r_pendingJoin (room_at S r)" and ?ls = "r_pendingLeave (room_at S r)"
  let ?S0 = "upd_room r (\<lambda>x. x\<lparr>r_pendingJoin := [], r_pendingLeave := []\<rparr>) S"
  define S1 where "S1 = fold (join_one r) ?js ?S0"
  note T = t [unfolded turn_ready_def]
  have s0: "seat_row r ?js ?S0 = seat ?x" using T by (simp add: seat_row_def seat_def)
  have h0: "in_hand r ?js ?S0" using T by (simp add: in_hand_def s0 room_ok_def)
  have adm: "admitted ?S0 = admitted S" by (simp add: admitted_def fun_eq_iff)
  note J = joins_exact [OF h0, folded S1_def, unfolded s0 adm]
  have S': "S' = fold (leave_one r) ?ls S1" by (simp add: S'_def apply_queues_def Let_def S1_def)
  have h1: "in_hand r [] S1" using J by blast
  note L = leaves_exact [OF h1, of ?ls, folded S']
  have ms: "memb (r_members (room_at ?S0 r)) = memb (r_members ?x)" using T by simp
  have "seat_row r [] S' k = row_after S ?x k" for k
  proof (cases "memb (r_members ?x) k")
    case None
    then have "seat ?x k = pend ?js k" by (simp add: seat_def map_add_def)
    then show ?thesis using J L ms None by (auto simp: row_after_def split: option.split)
  next
    case (Some t)
    then have "seat ?x k = Some t" by (simp add: seat_def)
    then show ?thesis using J L ms Some by (auto simp: row_after_def split: option.split)
  qed
  then have row: "seat_row r [] S' = row_after S ?x" by (rule ext)
  have "gives_up r (seat ?x) (seat ?x) S ?S0" unfolding gives_up_def given_up_def by (auto intro!: exI [of _ "[]"])
  moreover have one: "one_slot_each (length (slots (pool S))) (seat ?x)" using T by blast
  moreover have "gives_up r (seat ?x) (seat_row r [] S1) ?S0 S1" using J by blast
  moreover have "gives_up r (seat_row r [] S1) (row_after S ?x) S1 S'" unfolding row [symmetric] using L by blast
  ultimately have "gives_up r (seat ?x) (row_after S ?x) S S'" using gives_up_trans [OF one] by blast
  then show ?thesis using L row by blast
qed

lemma turn_exact:
  assumes t: "turn_ready r S"
  defines "x \<equiv> room_at S r" and "S' \<equiv> snd (ProcessRoomQueues r S)"
  defines "row \<equiv> row_after S x"
  shows "fst (ProcessRoomQueues r S) = (row = Map.empty)" "memb (r_members (room_at S' r)) = row"
    "r_pendingJoin (room_at S' r) = []" "r_pendingLeave (room_at S' r) = []"
    "\<And>r'. r' \<noteq> r \<Longrightarrow> room_at S' r' = room_at S r'" "freeRooms S' = freeRooms S @ (if row = Map.empty then [r] else [])"
    "row \<noteq> Map.empty \<Longrightarrow> turn_ready r S'"
    "\<exists>is. distinct is \<and> set is = given_up (seat x) row \<and> pool S' = fold Release is (pool S)"
proof -
  define S1 where "S1 = apply_queues r S"
  note A = apply_queues_exact [OF t, folded S1_def x_def row_def]
  note H = conjunct1 [OF A, unfolded in_hand_def]
  let ?y = "room_at S1 r"
  have ok: "seats_ok [] (r_members ?y) (r_seatUsed ?y) (r_reservedSeats ?y) (r_memberCount ?y)" using H by blast
  have m: "memb (r_members ?y) = row" using A by (simp add: seat_row_def)
  have "finite (dom row)" using seats_dom(3) [OF ok] m by simp
  moreover have "r_reservedSeats ?y = int (card (dom row))" using seats_okD(6) [OF ok] m by simp
  ultimately have e: "room_empty ?y \<longleftrightarrow> row = Map.empty" using H by (simp add: room_empty_def)
  have P: "ProcessRoomQueues r S = (if row = Map.empty then (True, FreeRoomIfDrained r
      ((upd_room r (\<lambda>x. x\<lparr>r_dead := True\<rparr>) S1)\<lparr>roomsPerWorker := upd_at (r_gameWorker ?y) (\<lambda>n. n - 1) (roomsPerWorker S1),
         openRooms := swap_remove r (openRooms S1)\<rparr>)) else (False, S1))"
    using H e by (simp add: ProcessRoomQueues_def S1_def [symmetric] Let_def)
  have g: "gives_up r (seat x) row S S1" using A by blast
  show "fst (ProcessRoomQueues r S) = (row = Map.empty)" by (simp add: P)
  show "memb (r_members (room_at S' r)) = row" "r_pendingJoin (room_at S' r) = []" "r_pendingLeave (room_at S' r) = []"
    using H m by (simp_all add: S'_def P FreeRoomIfDrained_def Let_def)
  show "room_at S' r' = room_at S r'" if "r' \<noteq> r" for r'
    using g that by (simp add: S'_def P FreeRoomIfDrained_def Let_def gives_up_def)
  show "freeRooms S' = freeRooms S @ (if row = Map.empty then [r] else [])"
    using g H by (simp add: S'_def P FreeRoomIfDrained_def Let_def gives_up_def)
  show "\<exists>is. distinct is \<and> set is = given_up (seat x) row \<and> pool S' = fold Release is (pool S)"
  proof -
    have "pool S' = pool S1" by (simp add: S'_def P FreeRoomIfDrained_def Let_def)
    then show ?thesis using g unfolding gives_up_def by metis
  qed
  show "turn_ready r S'" if "row \<noteq> Map.empty"
  proof -
    have "seat ?y = seat_row r [] S1" using H by (simp add: seat_def seat_row_def)
    then show ?thesis using that H by (simp add: S'_def P turn_ready_def room_ok_def)
  qed
qed

end
