(* ===== verification/Tick_Frame.thy ===== *)
theory Tick_Frame
  imports Turn_Props
begin

text \<open>
  What the tick of a room reads and what it leaves alone: it treats alike two states that differ only
  in the flags, references and buffers of the sessions, it never touches those flags and
  references, and of the rooms it changes only its own and the one it moves to.
\<close>

section \<open>What a tick reads\<close>

text \<open>
  Two states that a tick treats alike: the same rooms, lists and generations. The flags, references,
  buffers, sockets, counters and bitmaps may differ.
\<close>

definition alike :: "('r, 's) Server \<Rightarrow> ('r, 's) Server \<Rightarrow> bool" where
  "alike S T \<longleftrightarrow> rooms S = rooms T \<and> freeRooms S = freeRooms T \<and> openRooms S = openRooms T \<and> workerCount S = workerCount T \<and>
     roomsPerWorker S = roomsPerWorker T \<and> mail S = mail T \<and> myRooms S = myRooms T \<and> (\<forall>j. gen (At S j) = gen (At T j))"

lemma alike_trans: "alike S T \<Longrightarrow> alike T U \<Longrightarrow> alike S U"
  by (simp add: alike_def)

lemma alike_sym: "alike S T \<Longrightarrow> alike T S"
  by (simp add: alike_def)

lemma alike_refl [simp]: "alike S S"
  by (simp add: alike_def)

lemma At_keeps: "(\<And>s. v (f s) = v s) \<Longrightarrow> v (slots (upd_sess i f p) ! j) = v (slots p ! j)"
  by (cases "i < length (slots p)") (auto simp: upd_sess_def nth_upd_at)

lemma alike_cong:
  assumes "alike S T"
  shows "alike (upd_room r f S) (upd_room r f T)" "alike (count_up c S) (count_up d T)"
    "(\<And>s. gen (g s) = gen s) \<Longrightarrow> (\<And>s. gen (h s) = gen s) \<Longrightarrow> alike (upd_session i g S) (upd_session j h T)"
    "alike (upd_session i (\<lambda>s. s\<lparr>roomIdx := a\<rparr>) S) (upd_session i (\<lambda>s. s\<lparr>roomIdx := a\<rparr>) T)"
  using assms by (simp_all add: alike_def At_keeps)

lemma alike_fold:
  assumes "\<And>x S T. alike S T \<Longrightarrow> alike (F x S) (F x T)"
  shows "alike S T \<Longrightarrow> alike (fold F xs S) (fold F xs T)"
  by (induction xs arbitrary: S T) (auto intro: assms)

lemma alike_send_snapshot: "alike S (send_snapshot MT r bs k S)"
  by (auto simp: send_snapshot_def enqueue_def mark_def Let_def alike_def At_keeps split: prod.splits)

lemma alike_send_room_event: "alike S (send_room_event MT r k S)"
  by (auto simp: send_room_event_def enqueue_def mark_def Let_def alike_def At_keeps split: prod.splits)

lemma alike_fold_self: "(\<And>x S. alike S (F x S)) \<Longrightarrow> alike S (fold F xs S)"
  by (induction xs arbitrary: S) (auto intro: alike_trans)

lemma alike_tick_body:
  assumes "alike S T"
  shows "alike (tick_body MT r S) (tick_body MT r T)"
proof -
  have one: "alike (route_one r c U) (route_one r c V)" if "alike U V" for c U V
  proof -
    have "rooms U = rooms V" using that by (simp add: alike_def)
    then show ?thesis using that by (simp add: route_one_def Let_def alike_cong)
  qed
  have b: "r_inQ (room_at S r) = r_inQ (room_at T r)" using assms by (simp add: alike_def)
  have "alike (route_inputs r S) (route_inputs r T)"
    unfolding route_inputs_def Let_def b by (rule alike_fold [where F = "route_one r", OF one alike_cong(1) [OF assms]])
  moreover have "alike (consume_one r k U) (consume_one r k V)" if "alike U V" for k U V
  proof -
    have "rooms U = rooms V" using that by (simp add: alike_def)
    then show ?thesis using that by (simp add: consume_one_def Let_def alike_cong)
  qed
  ultimately have "alike (consume_inputs r (route_inputs r S)) (consume_inputs r (route_inputs r T))"
    unfolding consume_inputs_def by (intro alike_fold)
  then have a: "alike (upd_room r step_room (consume_inputs r (route_inputs r S))) (upd_room r step_room (consume_inputs r (route_inputs r T)))"
    by (rule alike_cong(1))
  have bc: "alike U (broadcast_snapshot MT r U)" for U
    unfolding broadcast_snapshot_def by (rule alike_fold_self) (rule alike_send_snapshot)
  have "rooms (upd_room r step_room (consume_inputs r (route_inputs r S))) = rooms (upd_room r step_room (consume_inputs r (route_inputs r T)))"
    using a by (simp add: alike_def)
  then show ?thesis
    unfolding tick_body_def Let_def using a alike_trans [OF alike_sym [OF bc] alike_trans [OF a bc]] by simp
qed

lemma alike_carry_member:
  assumes "alike S T"
  shows "alike (carry_member old nr k S) (carry_member old nr k T)"
proof -
  let ?om = "r_members (room_at S old) ! k"
  have r: "rooms S = rooms T" using assms by (simp add: alike_def)
  let ?F = "\<lambda>S. upd_room old (upd_member k (\<lambda>m. m\<lparr>m_used := False\<rparr>)) (upd_room nr (take_member k ?om) S)"
  have a: "alike (?F S) (?F T)" by (intro alike_cong(1) assms)
  have "rooms (?F S) = rooms (?F T)" "gen (At (?F S) j) = gen (At (?F T) j)" for j using a by (simp_all only: alike_def)
  then show ?thesis
    using a unfolding carry_member_def Let_def r [symmetric] by (auto intro: alike_cong(4) assms)
qed

lemma alike_carry_join:
  assumes "alike S T"
  shows "alike (carry_join nr e S) (carry_join nr e T)"
proof -
  have a: "alike (upd_room nr (carry_join_entry e) S) (upd_room nr (carry_join_entry e) T)" by (rule alike_cong(1) [OF assms])
  then have "rooms (upd_room nr (carry_join_entry e) S) = rooms (upd_room nr (carry_join_entry e) T)"
    "gen (At (upd_room nr (carry_join_entry e) S) j) = gen (At (upd_room nr (carry_join_entry e) T) j)" for j
    by (simp_all only: alike_def)
  then show ?thesis using a unfolding carry_join_def Let_def by (auto intro: alike_cong(4))
qed

text \<open>The end of \<open>move_room\<close>: the queue of leaves, the lists, the old room.\<close>

definition close_move :: "nat \<Rightarrow> nat \<Rightarrow> RoomLeaveEntry list \<Rightarrow> int \<Rightarrow> ('r, 's) Server \<Rightarrow> ('r, 's) Server" where
  "close_move old nr carryLeave moved S6 =
     (let S8 = upd_room nr (\<lambda>x. x\<lparr>r_memberCount := moved\<rparr>) (upd_room nr (\<lambda>x. x\<lparr>r_pendingLeave := r_pendingLeave x @ carryLeave\<rparr>) S6);
          S9 = S8\<lparr>openRooms := swap_remove (r_idx (room_at S8 old)) (openRooms S8)\<rparr>;
          S10 = (if r_reservedSeats (room_at S9 nr) < int kRoomMembers
                 then S9\<lparr>openRooms := openRooms S9 @ [r_idx (room_at S9 nr)]\<rparr> else S9);
          S11 = S10\<lparr>roomsPerWorker := upd_at (r_gameWorker (room_at S10 old)) (\<lambda>n. n - 1) (roomsPerWorker S10)\<rparr>
      in count_up (\<lambda>g. g\<lparr>mt_roomMoves := Inc (mt_roomMoves g)\<rparr>) (FreeRoomIfDrained old S11))"

lemma move_room_close:
  "move_room old nr S = close_move old nr (r_pendingLeave (room_at S old)) (int (length (filter m_used (r_members (room_at S old)))))
     (fold (carry_join nr) (r_pendingJoin (room_at S old)) (upd_room nr reserve_members (upd_room old (\<lambda>x. x\<lparr>r_memberCount := 0\<rparr>)
       (let S2 = fold (carry_member old nr) [0..<kRoomMembers] (upd_room old close_room S); t = w_tick (r_world (room_at S2 old))
        in upd_room nr (\<lambda>x. x\<lparr>r_world := (r_world x)\<lparr>w_tick := t\<rparr>, r_tickAtomic := t\<rparr>) S2))))"
  by (simp add: move_room_def close_move_def Let_def)

lemma alike_close_move:
  assumes "alike S T"
  shows "alike (close_move old nr ls n S) (close_move old nr ls n T)"
  using assms by (simp add: close_move_def FreeRoomIfDrained_def Let_def alike_def)

lemma alike_move_room:
  assumes "alike S T"
  shows "alike (move_room old nr S) (move_room old nr T)"
proof -
  let ?F = "\<lambda>S. fold (carry_member old nr) [0..<kRoomMembers] (upd_room old close_room S)"
  have a: "alike (?F S) (?F T)"
    by (rule alike_fold [where F = "carry_member old nr", OF alike_carry_member alike_cong(1) [OF assms]])
  have r: "rooms S = rooms T" "rooms (?F S) = rooms (?F T)" using assms a by (simp_all add: alike_def)
  show ?thesis
    unfolding move_room_close Let_def r
    by (intro alike_close_move alike_fold [where F = "carry_join nr", OF alike_carry_join] alike_cong(1) a)
qed

lemma alike_TransferRoom:
  assumes "alike S T"
  shows "fst (TransferRoom MT r S) = fst (TransferRoom MT r T)" "alike (snd (TransferRoom MT r S)) (snd (TransferRoom MT r T))"
proof -
  have e: "rooms S = rooms T" "freeRooms S = freeRooms T" using assms by (simp_all add: alike_def)
  let ?w = "r_gameWorker (room_at S r)"
  have al: "fst (AllocRoomSlotLocked ?w False S) = fst (AllocRoomSlotLocked ?w False T)"
    "alike (snd (AllocRoomSlotLocked ?w False S)) (snd (AllocRoomSlotLocked ?w False T))"
    using assms by (simp_all add: AllocRoomSlotLocked_def Let_def alike_def)
  have ev: "alike U (fold (send_room_event MT nr) [0..<kRoomMembers] U)" for U nr
    by (rule alike_fold_self) (rule alike_send_room_event)
  have "alike (fold (send_room_event MT nr) [0..<kRoomMembers] (move_room r nr U)) (fold (send_room_event MT nr) [0..<kRoomMembers] (move_room r nr V))"
    if "alike U V" for U V nr
    using alike_trans [OF alike_sym [OF ev] alike_trans [OF alike_move_room [OF that] ev]] .
  then show "fst (TransferRoom MT r S) = fst (TransferRoom MT r T)" "alike (snd (TransferRoom MT r S)) (snd (TransferRoom MT r T))"
    using al unfolding TransferRoom_def e(1)
    by (cases "AllocRoomSlotLocked ?w False S"; cases "AllocRoomSlotLocked ?w False T"; auto simp: e split: option.splits)+
qed

lemma alike_tick_turn:
  assumes "alike S T"
  shows "alike (tick_turn MT w ps S) (tick_turn MT w ps T)"
proof -
  let ?r = "myRooms S ! w ! ps"
  have a: "alike (tick_body MT ?r S) (tick_body MT ?r T)" by (rule alike_tick_body [OF assms])
  note t = alike_TransferRoom [OF a, of MT ?r]
  have m: "myRooms T = myRooms S" "rooms (tick_body MT ?r S) = rooms (tick_body MT ?r T)" using assms a by (simp_all add: alike_def)
  have "fst (RoomTick MT ?r S) = fst (RoomTick MT ?r T) \<and> alike (snd (RoomTick MT ?r S)) (snd (RoomTick MT ?r T))"
    using a t by (simp add: RoomTick_def ExitCheckAndMaybeTransfer_def m)
  then show ?thesis
    unfolding tick_turn_def m
    by (cases "RoomTick MT ?r S"; cases "RoomTick MT ?r T"; auto simp: alike_def split: option.splits)
qed

text \<open>What a tick never touches of a session.\<close>

definition calm :: "('r, 's) Server \<Rightarrow> ('r, 's) Server \<Rightarrow> bool" where
  "calm S T \<longleftrightarrow> length (slots (pool T)) = length (slots (pool S)) \<and>
     (\<forall>j. dead (At T j) = dead (At S j) \<and> refs (At T j) = refs (At S j) \<and> idx (At T j) = idx (At S j) \<and> gen (At T j) = gen (At S j))"

lemma calm_trans: "calm S T \<Longrightarrow> calm T U \<Longrightarrow> calm S U"
  by (simp add: calm_def)

lemma calm_pool: "pool T = pool S \<Longrightarrow> calm S T"
  by (simp add: calm_def)

lemma calm_fold: "(\<And>x S. calm S (F x S)) \<Longrightarrow> calm S (fold F xs S)"
  by (induction xs arbitrary: S) (auto intro: calm_trans calm_pool)

lemma calm_send:
  "calm S (send_snapshot MT r bs k S)" "calm S (send_room_event MT nr k S)"
  by (auto simp: send_snapshot_def send_room_event_def enqueue_def mark_def Let_def calm_def At_keeps split: prod.splits)

lemma calm_tick_body: "calm S (tick_body MT r S)"
proof -
  have "calm U (route_one r c U)" for c U by (rule calm_pool) (simp add: route_one_def Let_def)
  then have "calm S (route_inputs r S)"
    unfolding route_inputs_def Let_def by (rule calm_trans [OF calm_pool calm_fold, rotated]) simp
  moreover have "calm U (consume_one r k U)" for k U by (rule calm_pool) (simp add: consume_one_def Let_def)
  then have "calm (route_inputs r S) (upd_room r step_room (consume_inputs r (route_inputs r S)))"
    unfolding consume_inputs_def by (rule calm_trans [OF calm_fold calm_pool]) simp
  moreover have "calm U (broadcast_snapshot MT r U)" for U
    unfolding broadcast_snapshot_def by (rule calm_fold) (rule calm_send(1))
  ultimately show ?thesis unfolding tick_body_def Let_def by (auto intro: calm_trans)
qed

lemma calm_TransferRoom: "calm S (snd (TransferRoom MT r S))"
proof -
  have al: "pool (snd (AllocRoomSlotLocked w False S)) = pool S" for w
    by (simp add: AllocRoomSlotLocked_def Let_def)
  have cm: "calm U (carry_member old nr k U)" for old nr k U
    by (auto simp: carry_member_def Let_def calm_def At_keeps)
  have cj: "calm U (carry_join nr e U)" for nr e U
    by (auto simp: carry_join_def Let_def calm_def At_keeps)
  have cl: "pool (close_move old nr ls n U) = pool U" for old nr ls n U
    by (simp add: close_move_def FreeRoomIfDrained_def Let_def)
  have mv: "calm U (move_room old nr U)" for old nr U
  proof -
    let ?F = "fold (carry_member old nr) [0..<kRoomMembers] (upd_room old close_room U)"
    have "calm U ?F" by (rule calm_trans [OF calm_pool calm_fold [where F = "carry_member old nr", OF cm]]) simp
    moreover have "calm ?F (upd_room nr reserve_members (upd_room old (\<lambda>x. x\<lparr>r_memberCount := 0\<rparr>) (upd_room nr g ?F)))" for g
      by (rule calm_pool) simp
    ultimately have "calm U (upd_room nr reserve_members (upd_room old (\<lambda>x. x\<lparr>r_memberCount := 0\<rparr>) (upd_room nr g ?F)))" for g
      by (rule calm_trans)
    then have "calm U (fold (carry_join nr) js (upd_room nr reserve_members (upd_room old (\<lambda>x. x\<lparr>r_memberCount := 0\<rparr>) (upd_room nr g ?F))))" for js g
      by (rule calm_trans) (rule calm_fold [where F = "carry_join nr", OF cj])
    then show ?thesis unfolding move_room_close Let_def by (rule calm_trans) (rule calm_pool, rule cl)
  qed
  have ev: "calm U (fold (send_room_event MT nr) [0..<kRoomMembers] U)" for nr U
    by (rule calm_fold) (rule calm_send(2))
  show ?thesis
  proof (cases "AllocRoomSlotLocked (r_gameWorker (room_at S r)) False S")
    case (Pair nro S1)
    have p: "calm S S1" using al [of "r_gameWorker (room_at S r)"] by (simp add: Pair calm_pool)
    show ?thesis
      unfolding TransferRoom_def Pair using p calm_trans [OF p calm_trans [OF mv ev]] by (simp split: option.split)
  qed
qed

lemma calm_tick_turn: "calm S (tick_turn MT w ps S)"
proof -
  let ?r = "myRooms S ! w ! ps"
  have "calm S (snd (RoomTick MT ?r S))"
    by (simp add: RoomTick_def ExitCheckAndMaybeTransfer_def calm_tick_body calm_trans [OF calm_tick_body calm_TransferRoom])
  then show ?thesis
    unfolding tick_turn_def by (cases "RoomTick MT ?r S") (auto simp: calm_def split: option.split)
qed

end
