(* ===== verification/Disconnect_Gap.thy ===== *)
theory Disconnect_Gap
  imports Queue_Exact Tick_Frame Sim_Props
begin

text \<open>
  The disconnect, piece by piece. \<open>Disconnect\<close> is one step of the transition system, but in the
  program a game worker can run between its parts: the dead flag is raised first, the room is read
  without a lock, the leave is filed under the lock of that room, and the reference of the owner
  goes back at the end. Here the parts are definitions of their own; the queue turn of a room is
  exact whatever parts have run, and a room move between the read and the filing loses the leave.
\<close>

section \<open>The pieces\<close>

text \<open>The dead flag and the socket.\<close>

definition hang_up :: "nat \<Rightarrow> ('r, 's) Server \<Rightarrow> ('r, 's) Server" where
  "hang_up i S =
     (let S1 = upd_session i (\<lambda>s. s\<lparr>dead := True\<rparr>) S
      in if 0 \<le> fd (At S1 i)
         then upd_session i (\<lambda>s. s\<lparr>fd := - 1\<rparr>) (os_close (fd (At S1 i)) S1) else S1)"

text \<open>\<open>OnSessionLeave\<close> up to its lock: the room is chosen.\<close>

definition leave_read :: "nat \<Rightarrow> ('r, 's) Server \<Rightarrow> nat option \<times> ('r, 's) Server" where
  "leave_read i S =
     (let ridx = roomIdx (At S i) in
      if \<not> inRoom (At S i) \<or> length (rooms S) \<le> ridx then (None, S)
      else (Some ridx, upd_session i (\<lambda>s. s\<lparr>inRoom := False\<rparr>) S))"

text \<open>\<open>OnSessionLeave\<close> under the lock of the room it chose.\<close>

definition leave_file :: "nat \<Rightarrow> nat \<Rightarrow> ('r, 's) Server \<Rightarrow> ('r, 's) Server" where
  "leave_file ridx i S =
     upd_room ridx (\<lambda>x. x\<lparr>r_pendingLeave := r_pendingLeave x @ [\<lparr>l_sessIdx = idx (At S i), l_sessGen = gen (At S i)\<rparr>]\<rparr>) S"

text \<open>The list of the owner and its reference.\<close>

definition let_go :: "nat \<Rightarrow> nat \<Rightarrow> ('r, 's) Server \<Rightarrow> ('r, 's) Server" where
  "let_go w i S =
     (let S1 = S\<lparr>mySessions := upd_at w (swap_remove (idx (At S i))) (mySessions S)\<rparr>;
          S2 = count_up (\<lambda>g. g\<lparr>mt_disconnects := Inc (mt_disconnects g)\<rparr>) S1
      in S2\<lparr>pool := Release i (pool S2)\<rparr>)"

text \<open>The pieces are all there is: undisturbed, one after the other, they are \<open>Disconnect\<close>.\<close>

lemma leave_undisturbed:
  "OnSessionLeave i S = (case leave_read i S of (None, S1) \<Rightarrow> S1 | (Some r, S1) \<Rightarrow> leave_file r i S1)"
proof (cases "i < length (slots (pool S))")
  case True
  then show ?thesis by (simp add: OnSessionLeave_def leave_read_def leave_file_def Let_def slots_upd_sess)
next
  case False
  then have "pool (upd_session i f S) = pool S" for f by (simp add: upd_sess_def)
  then show ?thesis by (simp add: OnSessionLeave_def leave_read_def leave_file_def Let_def)
qed

theorem disconnect_in_pieces:
  "Disconnect w i S = (if dead (At S i) then S else
     case leave_read i (hang_up i S) of (None, S1) \<Rightarrow> let_go w i S1 | (Some r, S1) \<Rightarrow> let_go w i (leave_file r i S1))"
proof -
  have "Disconnect w i S = (if dead (At S i) then S else let_go w i (OnSessionLeave i (hang_up i S)))"
    by (simp add: Disconnect_def hang_up_def let_go_def Let_def)
  then show ?thesis by (simp add: leave_undisturbed split: prod.split option.split)
qed

text \<open>Any piece of any disconnect, whatever came before.\<close>

inductive disconnect_piece :: "('r, 's) Server \<Rightarrow> ('r, 's) Server \<Rightarrow> bool" where
  piece_hang_up: "disconnect_piece S (hang_up i S)"
| piece_read: "disconnect_piece S (snd (leave_read i S))"
| piece_file: "disconnect_piece S (leave_file r i S)"
| piece_let_go: "disconnect_piece S (let_go w i S)"

section \<open>Ready rooms stay ready\<close>

lemma turn_ready_piece:
  assumes "turn_ready r S" "disconnect_piece S S'"
  shows "turn_ready r S'"
proof -
  have keep: "turn_ready r T" if "length (rooms T) = length (rooms S)" "\<And>j. idx (At T j) = idx (At S j)"
    "length (slots (pool T)) = length (slots (pool S))" "seat (room_at T r) = seat (room_at S r)"
    "room_ok (room_at T r) = room_ok (room_at S r)" "r_idx (room_at T r) = r_idx (room_at S r)" for T
    using assms(1) that by (simp add: turn_ready_def)
  have ix: "(\<And>s. idx (f s) = idx s) \<Longrightarrow> idx (slots (upd_sess i f p) ! j) = idx (slots p ! j)" for f i j and p :: "('a, 'b) SessionPool"
    by (cases "i < length (slots p)") (auto simp: upd_sess_def nth_upd_at)
  have rel: "idx (slots (Release i p) ! j) = idx (slots p ! j)" "length (slots (Release i p)) = length (slots p)"
    for i j and p :: "('a, 'b) SessionPool"
    by (simp_all add: Release_def Let_def ix)
  show ?thesis
    using assms(2)
  proof cases
    case (piece_hang_up i)
    show ?thesis unfolding piece_hang_up by (rule keep) (simp_all add: hang_up_def Let_def ix)
  next
    case (piece_read i)
    show ?thesis unfolding piece_read by (rule keep) (simp_all add: leave_read_def Let_def ix)
  next
    case (piece_file r' i)
    have x: "room_at S' r = room_at S r \<or> r' = r \<and> (\<exists>g. room_at S' r = file_leave (idx (At S i)) g (room_at S r))"
      using assms(1) by (cases "r' = r") (auto simp: piece_file leave_file_def file_leave_def turn_ready_def)
    show ?thesis by (rule keep) (use x in \<open>auto simp: piece_file leave_file_def\<close>)
  next
    case (piece_let_go w i)
    show ?thesis unfolding piece_let_go by (rule keep) (simp_all add: let_go_def Let_def rel)
  qed
qed

lemma turn_ready_pieces: "disconnect_piece\<^sup>*\<^sup>* S S' \<Longrightarrow> turn_ready r S \<Longrightarrow> turn_ready r S'"
  by (induction rule: rtranclp_induct) (auto intro: turn_ready_piece)

section \<open>The tick boundary, exactly\<close>

text \<open>C3. The queue turn of a room is exact, also while disconnects are under way. Take any reachable
  state, let any pieces of any disconnects run after it, and then the queue turn of a room: a
  member keeps its seat unless its leave is filed in this room, whether its session is dead or
  not; a waiting join becomes a member on its own seat when its session still has the generation
  that joined, is not dead, and its leave is not filed; all others are dropped. Both queues are
  empty afterwards, no other room changes, the slot of each dropped seat loses exactly one
  reference and goes to the free list, with the next generation, exactly when that was its last.
  The room dies, and leaves the list of its worker, exactly when no seat is left.\<close>

theorem tick_boundary_exact:
  assumes "reach booted (server_step ST MT) S0" "w < kMaxGameWorkers" "ps < length (myRooms S0 ! w)"
    and "disconnect_piece\<^sup>*\<^sup>* S0 S"
  defines "r \<equiv> myRooms S0 ! w ! ps" and "x \<equiv> room_at S (myRooms S0 ! w ! ps)" and "S' \<equiv> snd (queues_turn w ps S)"
  defines "row \<equiv> (\<lambda>k. case seat x k of None \<Rightarrow> None | Some (i, g) \<Rightarrow>
      if (i, g) \<in> leave_tag ` set (r_pendingLeave x) then None
      else if memb (r_members x) k = Some (i, g) \<or> gen (At S i) = g \<and> \<not> dead (At S i) then Some (i, g) else None)"
  defines "gone \<equiv> {i. \<exists>k g. seat x k = Some (i, g) \<and> row k = None}"
  shows "memb (r_members (room_at S' r)) = row \<and> r_pendingJoin (room_at S' r) = [] \<and> r_pendingLeave (room_at S' r) = [] \<and>
    (\<forall>r'. r' \<noteq> r \<longrightarrow> room_at S' r' = room_at S r') \<and>
    (\<forall>i. At S' i = (if i \<in> gone then (At S i)\<lparr>refs := refs (At S i) - 1,
        gen := (if refs (At S i) = 1 then gen (At S i) + 1 else gen (At S i))\<rparr> else At S i)) \<and>
    (\<exists>new. sfree (pool S') = sfree (pool S) @ new \<and> distinct new \<and> set new = {i \<in> gone. refs (At S i) = 1}) \<and>
    fst (queues_turn w ps S) = (row = Map.empty) \<and> freeRooms S' = freeRooms S @ (if row = Map.empty then [r] else []) \<and>
    myRooms S' ! w = (if row = Map.empty then swap_pop ps (myRooms S ! w) else myRooms S ! w)"
proof -
  note inv = server.reach_inv [OF assms(1)]
  note M = my_room [OF inv assms(2,3), folded r_def]
  have my: "myRooms S = myRooms S0"
    using assms(4)
  proof (induction rule: rtranclp_induct)
    case (step T T')
    from step.hyps(2) have "myRooms T' = myRooms T"
      by cases (auto simp: hang_up_def leave_read_def leave_file_def let_go_def Let_def)
    then show ?case using step.IH by simp
  qed simp
  have rdy: "turn_ready r S" by (rule turn_ready_pieces [OF assms(4) turn_ready_live [OF inv M(1)]])
  have x: "x = room_at S r" by (simp add: x_def r_def)
  have row: "row = row_after S x"
    by (auto simp: row_def row_after_def admitted_def seat_def fun_eq_iff split: option.split)
  note E = turn_exact [OF rdy, folded x row]
  have gone: "gone = given_up (seat x) row" by (auto simp: gone_def given_up_def)
  obtain "is" where l: "distinct is" "set is = gone" "pool (snd (ProcessRoomQueues r S)) = fold Release is (pool S)"
    using E(8) gone by blast
  have sub: "set is \<subseteq> {..<length (slots (pool S))}" "\<forall>i<length (slots (pool S)). idx (At S i) = i"
    using rdy by (auto simp: l(2) gone_def x turn_ready_def one_slot_each_def)
  note F = fold_Release [OF l(1) sub, folded l(3), unfolded l(2)]
  have my2: "myRooms (snd (ProcessRoomQueues r S)) = myRooms S"
    by (simp add: ProcessRoomQueues_def FreeRoomIfDrained_def Let_def apply_queues_lists(4) [OF refl])
  have Q: "queues_turn w ps S = (if row = Map.empty
      then (True, (snd (ProcessRoomQueues r S))\<lparr>myRooms := upd_at w (swap_pop ps) (myRooms S)\<rparr>)
      else (False, snd (ProcessRoomQueues r S)))"
  proof -
    obtain d b where P: "ProcessRoomQueues r S = (d, b)" by (cases "ProcessRoomQueues r S")
    moreover have "myRooms S ! w ! ps = r" by (simp add: my r_def)
    ultimately show ?thesis using E(1) my2 by (cases d) (auto simp: queues_turn_def)
  qed
  have wl: "w < length (myRooms S)" using InvD(5) [OF inv] assms(2) by (simp add: my work_ok_def)
  have new: "distinct (filter (\<lambda>i. refs (At S i) = 1) is)" "set (filter (\<lambda>i. refs (At S i) = 1) is) = {i \<in> gone. refs (At S i) = 1}"
    using l by auto
  show ?thesis
    unfolding S'_def Q using E(2-6) F new wl my2 by auto
qed

theorem tick_boundary_exact_witness:
  "(let S' = snd (queues_turn 0 0 (hang_up 0 demo4)) in
     dead (At S' 0) \<and> refs (At S' 0) = 2 \<and> memb (r_members (room_at S' 0)) 0 = Some (0, 0))"
proof -
  have p: "disconnect_piece\<^sup>*\<^sup>* demo4 (hang_up 0 demo4)"
    by (rule r_into_rtranclp) (rule piece_hang_up)
  have h: "At (hang_up 0 demo4) 0 = (At demo4 0)\<lparr>dead := True, fd := - 1\<rparr>" "rooms (hang_up 0 demo4) = rooms demo4"
    by (simp_all add: hang_up_def Let_def slots_upd_sess demo4 demo_sess_def)
  let ?x = "seat_member 0 0 0 0 (demo_room\<lparr>r_pendingJoin := []\<rparr>)"
  have x: "seat ?x = [0 \<mapsto> (0, 0)]" "memb (r_members ?x) = [0 \<mapsto> (0, 0)]" "r_pendingLeave ?x = []"
    by (auto simp: seat_def seat_member_def demo_room_def memb_update clear_room_def new_room_def kRoomMembers_def)
  show ?thesis
    using tick_boundary_exact [OF demo_reach(4) _ _ p, of 0 0] by (simp add: h x demo4 kMaxGameWorkers_def demo_sess_def Let_def)
qed

section \<open>A leave that is lost\<close>

lemma hang_up_keeps: "alike (hang_up i S) S" "idx (At (hang_up i S) j) = idx (At S j)"
  by (simp_all add: hang_up_def Let_def alike_def At_keeps)

lemma leave_row_kept:
  assumes t: "turn_ready r S" and k: "memb (r_members (room_at S r)) k = Some (i, g)"
    and no: "(i, g) \<notin> leave_tag ` set (r_pendingLeave (room_at S r))"
  defines "T \<equiv> \<lambda>n. ((\<lambda>T. snd (ProcessRoomQueues r T)) ^^ n) S"
  shows "turn_ready r (T n) \<and> memb (r_members (room_at (T n) r)) k = Some (i, g) \<and>
    (i, g) \<notin> leave_tag ` set (r_pendingLeave (room_at (T n) r)) \<and> At (T n) i = At S i"
proof (induction n)
  case 0
  then show ?case using assms by simp
next
  case (Suc n)
  let ?x = "room_at (T n) r"
  have R: "turn_ready r (T n)" "memb (r_members ?x) k = Some (i, g)" "(i, g) \<notin> leave_tag ` set (r_pendingLeave ?x)"
    "At (T n) i = At S i" using Suc by blast+
  have T: "T (Suc n) = snd (ProcessRoomQueues r (T n))" by (simp add: T_def)
  note E = turn_exact [OF R(1), folded T]
  have sk: "seat ?x k = Some (i, g)" using R(2) by (simp add: seat_def)
  then have row: "row_after (T n) ?x k = Some (i, g)" using R(2,3) by (simp add: row_after_def)
  then have ne: "row_after (T n) ?x \<noteq> Map.empty" by auto
  obtain "is" where l: "distinct is" "set is = given_up (seat ?x) (row_after (T n) ?x)" "pool (T (Suc n)) = fold Release is (pool (T n))"
    using E(8) by blast
  have "i \<notin> set is"
  proof
    assume "i \<in> set is"
    then obtain k' g' where "seat ?x k' = Some (i, g')" "row_after (T n) ?x k' = None" by (auto simp: l(2) given_up_def)
    moreover from this(1) have "k' = k" using R(1) sk unfolding turn_ready_def one_slot_each_def by (metis fst_conv)
    ultimately show False using row by simp
  qed
  moreover have "set is \<subseteq> {..<length (slots (pool (T n)))}" "\<forall>i<length (slots (pool (T n))). idx (At (T n) i) = i"
    using R(1) by (auto simp: l(2) given_up_def turn_ready_def one_slot_each_def)
  ultimately have "At (T (Suc n)) i = At (T n) i" using fold_Release [OF l(1), of "pool (T n)"] unfolding l(3) by (simp only: if_False)
  then show ?case using E(2,4) E(7) [OF ne] row R(4) by simp
qed

text \<open>C4. A leave that is filed while its room moves is lost, and the seat with it. In any state that
  satisfies the invariant of the reachable states, let session i sit on seat k of room r, alive,
  with everybody of the room in the exit zone and a room slot free; let its connection break, and
  let the worker of the room run the tick of r between the moment \<open>OnSessionLeave\<close> has read the
  room number and the moment it takes the lock of that room. Then the leave ends in the queue of
  the old room, which is free; the session is dead and its owner has returned its reference, but
  it is still a member of the new room, which has no leave for it. Another disconnect does nothing,
  and after any number of queue turns the dead session still has its seat and its slot one
  reference, and the room is not given back.\<close>

theorem leave_lost_in_a_move:
  fixes S :: "('r, 's) Server" and MT :: "'s ring_ops" and e :: nat
  assumes "Inv S" "w < kMaxGameWorkers" "ps < length (myRooms S ! w)"
  defines "r \<equiv> myRooms S ! w ! ps" and "nr \<equiv> last (freeRooms S)"
  assumes "memb (r_members (room_at S r)) k = Some (i, g)" "\<not> dead (At S i)"
    and "at_exit (room_at (tick_body MT r S) r)" "freeRooms S \<noteq> []"
  defines "S1 \<equiv> hang_up i S" and "S2 \<equiv> snd (leave_read i (hang_up i S))"
    and "S3 \<equiv> tick_turn MT w ps (snd (leave_read i (hang_up i S)))"
  defines "S4 \<equiv> let_go e i (leave_file r i S3)"
  shows "leave_read i S1 = (Some r, S2) \<and> myRooms S4 ! w ! ps = nr \<and> r \<in> set (freeRooms S4) \<and> nr \<notin> set (freeRooms S4) \<and>
    dead (At S4 i) \<and> gen (At S4 i) = g \<and> refs (At S4 i) = 1 \<and> (\<forall>v. Disconnect v i S4 = S4) \<and>
    (\<forall>n. let T = ((\<lambda>T. snd (ProcessRoomQueues nr T)) ^^ n) S4 in
       memb (r_members (room_at T nr)) k = Some (i, g) \<and> dead (At T i) \<and> refs (At T i) = 1 \<and> \<not> fst (ProcessRoomQueues nr T))"
proof -
  note inv = assms(1)
  note M = my_room [OF inv assms(2,3), folded r_def] and B = InvD(2) [OF inv]
  have lr: "live S r" by (rule M(1))
  have hk: "tab S r k = Some (i, g)" using lr assms(6) by (simp add: tab_def seat_def)
  note s = seat_okD [OF books_okD(3) [OF B hk]] and h = held_refs [OF B hk]
  have in_r: "inRoom (At S i)" "roomIdx (At S i) = r" "r < length (rooms S)" using s assms(7) lr by (simp_all add: live_def)
  have s1: "roomIdx (At S1 i) = r" "inRoom (At S1 i)" "rooms S1 = rooms S" "dead (At S1 i)" "refs (At S1 i) = 2" "gen (At S1 i) = g"
    "idx (At S1 i) = i" "length (slots (pool S1)) = length (slots (pool S))"
    using in_r s(1,2) h(1) assms(7) pool_okD(1) [OF InvD(6) [OF inv] s(1)]
    by (simp_all add: S1_def hang_up_def Let_def slots_upd_sess)
  have lr1: "leave_read i S1 = (Some r, S2)" using s1 in_r(3) by (simp add: leave_read_def S2_def S1_def Let_def)
  have S2: "S2 = upd_session i (\<lambda>s. s\<lparr>inRoom := False\<rparr>) S1" using lr1 s1 in_r(3) by (simp add: leave_read_def Let_def)
  have s2: "dead (At S2 i)" "refs (At S2 i) = 2" "gen (At S2 i) = g" "idx (At S2 i) = i" "length (slots (pool S2)) = length (slots (pool S))"
    "\<And>j. idx (At S2 j) = idx (At S j)"
    using s1 s(1) by (simp_all add: S2 slots_upd_sess At_keeps) (simp add: S1_def hang_up_keeps)
  have "alike S2 S1" by (simp add: S2 alike_def At_keeps)
  then have al: "alike S2 S" unfolding S1_def using hang_up_keeps(1) by (rule alike_trans)
  define T where "T = tick_turn MT w ps S"
  have S3: "S3 = tick_turn MT w ps S2" by (simp add: S3_def S2_def)
  have a3: "alike S3 T" unfolding S3 T_def by (rule alike_tick_turn [OF al])
  have c3: "calm S2 S3" unfolding S3 by (rule calm_tick_turn)
  have s3: "dead (At S3 i)" "refs (At S3 i) = 2" "gen (At S3 i) = g" "idx (At S3 i) = i" "length (slots (pool S3)) = length (slots (pool S))"
    using c3 s2 by (simp_all add: calm_def)
  have T: "Inv T" "live T nr" "\<not> live T r" "myRooms T ! w ! ps = nr" "leaves T nr = leaves S r"
    using tick_moves [OF inv assms(2,3), of MT, folded r_def nr_def T_def] Inv_tick_turn [OF inv assms(2,3), of MT, folded T_def] assms(8,9)
      lr by (auto split: if_splits)
  have nrr: "nr \<noteq> r" using T(2,3) by auto
  note TM = tick_turn_moved [OF inv assms(2,3), of MT, folded r_def nr_def T_def, OF assms(8,9)]
  have mT: "memb (r_members (room_at T nr)) k = Some (i, g)" using TM(1) assms(6) by simp
  have lT: "length (rooms T) = length (rooms S4)" and r4: "room_at S4 nr = room_at T nr" and f4: "freeRooms S4 = freeRooms T" "myRooms S4 = myRooms T"
    using a3 nrr by (simp_all add: S4_def let_go_def leave_file_def Let_def alike_def)
  have rf: "r \<in> set (freeRooms S4)" "nr \<notin> set (freeRooms S4)" using TM(2) T(2) by (simp_all add: f4(1) live_def)
  have p4: "pool S4 = Release i (pool S3)" "i < length (slots (pool S3))" using s(1) s3(5) by (simp_all add: S4_def let_go_def leave_file_def Let_def)
  have s4: "dead (At S4 i)" "gen (At S4 i) = g" "refs (At S4 i) = 1" using s3 p4 by (simp_all add: slots_Release)
  have "turn_ready nr S4"
  proof -
    have "turn_ready nr T" by (rule turn_ready_live [OF T(1,2)])
    moreover have "idx (At S4 j) = idx (At S j)" for j
      using c3 s2(6) p4 by (simp add: slots_Release calm_def)
    moreover have "length (slots (pool S4)) = length (slots (pool S))" "length (slots (pool T)) = length (slots (pool S))"
      using p4 s3(5) calm_tick_turn [of S MT w ps] by (simp_all add: calm_def T_def)
    ultimately show ?thesis using pool_okD(1) [OF InvD(6) [OF inv]] by (simp add: turn_ready_def r4 lT)
  qed
  moreover have "(i, g) \<notin> leave_tag ` set (r_pendingLeave (room_at S4 nr))"
  proof -
    have "(i, g) \<notin> leaves S r" using books_okD(4) [OF B, of "(i, g)" r] assms(7) by auto
    then show ?thesis using T(2,5) by (simp add: r4 leaves_def)
  qed
  moreover have "memb (r_members (room_at S4 nr)) k = Some (i, g)" using mT by (simp add: r4)
  ultimately have kept: "turn_ready nr (((\<lambda>T. snd (ProcessRoomQueues nr T)) ^^ n) S4) \<and>
      memb (r_members (room_at (((\<lambda>T. snd (ProcessRoomQueues nr T)) ^^ n) S4) nr)) k = Some (i, g) \<and>
      (i, g) \<notin> leave_tag ` set (r_pendingLeave (room_at (((\<lambda>T. snd (ProcessRoomQueues nr T)) ^^ n) S4) nr)) \<and>
      At (((\<lambda>T. snd (ProcessRoomQueues nr T)) ^^ n) S4) i = At S4 i" for n
    by (intro leave_row_kept)
  have "\<not> fst (ProcessRoomQueues nr U)" if "turn_ready nr U" "memb (r_members (room_at U nr)) k = Some (i, g)"
    "(i, g) \<notin> leave_tag ` set (r_pendingLeave (room_at U nr))" for U :: "('r, 's) Server"
  proof -
    have "row_after U (room_at U nr) k = Some (i, g)" using that(2,3) by (simp add: row_after_def seat_def)
    then show ?thesis unfolding turn_exact(1) [OF that(1)] by (metis option.distinct(1))
  qed
  moreover have "Disconnect v i S4 = S4" for v using s4(1) by (simp add: Disconnect_def)
  ultimately show ?thesis using lr1 T(4) f4(2) rf s4 kept by (simp add: Let_def)
qed

text \<open>The state of the witness: the demo room with its player at the exit, and one more room slot.\<close>

lemma Inv_spare_room:
  assumes inv: "Inv S" and f: "freeRooms S = []" and n: "n = length (rooms S)"
  shows "Inv (S\<lparr>rooms := rooms S @ [new_room n], freeRooms := [n]\<rparr>)"
proof -
  let ?S = "S\<lparr>rooms := rooms S @ [new_room n], freeRooms := [n]\<rparr>"
  note I = InvD [OF inv]
  have live: "live ?S r = live S r" for r by (auto simp: live_def f n)
  have at: "room_at ?S r = room_at S r" if "live S r" for r using that by (simp add: live_def nth_append)
  have t: "tab ?S = tab S" "leaves ?S = leaves S" using at by (auto simp: tab_def leaves_def live fun_eq_iff)
  have "rooms_ok ?S"
    using I(1) at by (auto simp: rooms_ok_def live nth_append n less_Suc_eq) (simp_all add: new_room_def live_def f)
  moreover have "lists_ok ?S"
    unfolding lists_ok_def live using I(4) at by (auto simp: lists_ok_def n)
  moreover have "{r. live S r \<and> r_gameWorker (room_at ?S r) = w} = {r. live S r \<and> r_gameWorker (room_at S r) = w}" for w
    using at by auto
  then have "work_ok ?S" using I(5) at by (simp add: work_ok_def placed_def live)
  ultimately show ?thesis using I(2,3) by (simp add: Inv_def t)
qed

definition exit_world :: SimWorld where
  "exit_world = \<lparr>w_tick = 0, w_actors = default_actor\<lparr>a_present := True, a_x := 1500, a_y := 100\<rparr> # replicate 13 default_actor\<rparr>"

definition exit_demo :: "(list_ring, list_ring) Server" where
  "exit_demo = upd_room 0 (\<lambda>x. x\<lparr>r_world := exit_world\<rparr>) (demo4\<lparr>rooms := rooms demo4 @ [new_room 1], freeRooms := [1]\<rparr>)"

lemma exit_demo:
  "Inv exit_demo" "rooms exit_demo = [(seat_member 0 0 0 0 (demo_room\<lparr>r_pendingJoin := []\<rparr>))\<lparr>r_world := exit_world\<rparr>, new_room 1]"
  "freeRooms exit_demo = [1]" "pool exit_demo = pool demo4" "myRooms exit_demo = myRooms demo4"
proof -
  have "Inv (demo4\<lparr>rooms := rooms demo4 @ [new_room 1], freeRooms := [1]\<rparr>)"
    using Inv_spare_room [OF server.reach_inv [OF demo_reach(4)] demo4(3), of 1] by (simp add: demo4)
  then show "Inv exit_demo"
    unfolding exit_demo_def by (rule Inv_same [OF same_acct_room, rotated]) (simp add: room_acct_def)
qed (simp_all add: exit_demo_def demo4 upd_at_def)

lemma exit_world_step:
  "a_present (w_actors (SimStep exit_world (replicate 4 neutral_input)) ! 0) \<and>
   a_x (w_actors (SimStep exit_world (replicate 4 neutral_input)) ! 0) = 1500"
proof -
  let ?P = "\<lambda>as :: SimActor list. a_present (as ! 0) \<and> a_x (as ! 0) = 1500 \<and> (\<forall>k<kSnapActors. 0 < k \<longrightarrow> \<not> a_present (as ! k))"
  have "?P (w_actors (SimStep exit_world (replicate 4 neutral_input)))"
  proof (rule SimStep_induct)
    show "length (w_actors exit_world) = kSnapActors" by (simp add: exit_world_def kSnapActors_def)
    show "?P (w_actors exit_world)" by (auto simp: exit_world_def kSnapActors_def default_actor_def nth_Cons')
  next
    fix i as assume a: "i < kRoomMembers" "length as = kSnapActors" "?P as" "a_present (as ! i)"
    then have "i = 0" by (metis member_slot gr0I)
    moreover have "a_x (move_player neutral_input a) = a_x a" "a_present (move_player neutral_input a) = a_present a" for a
      by (simp_all add: move_player_def neutral_input_def)
    ultimately show "?P (upd_at i (move_player (replicate 4 neutral_input ! i)) as)" using a by (simp add: kSnapActors_def)
  next
    fix i j as assume "i < j" "j < kSnapActors" "?P as" "a_present (as ! j)"
    then show "?P (separate_at i j as)" by (metis gr_implies_not_zero neq0_conv)
  next
    fix as assume "length as = kSnapActors" "?P as"
    then show "?P (map clamp_actor as)" by (simp add: clamp_actor_def clampd_def stage_right kSnapActors_def)
  qed
  then show ?thesis by blast
qed

lemma exit_demo_at_exit: "at_exit (room_at (tick_body list_ring_ops 0 exit_demo) 0)"
proof -
  define X where "X = (seat_member 0 0 0 0 (demo_room\<lparr>r_pendingJoin := []\<rparr>))\<lparr>r_world := exit_world\<rparr>"
  let ?m = "default_member\<lparr>m_used := True\<rparr>"
  let ?ms = "[consume ?m, default_member, default_member, default_member]"
  have u: "[0..<kRoomMembers] = [0, 1, 2, 3]" by (simp add: kRoomMembers_def upt_rec)
  have d: "\<not> m_used default_member" by (simp add: default_member_def)
  have X: "r_members X = [?m, default_member, default_member, default_member]" "r_inQ X = []" "r_world X = exit_world" "r_memberCount X = 1"
    by (simp_all add: X_def seat_member_def demo_room_def clear_room_def default_member_def kRoomMembers_def numeral_eq_Suc)
  have E: "rooms exit_demo = [X, new_room 1]" by (simp add: exit_demo(2) X_def)
  have idq: "X\<lparr>r_inQ := []\<rparr> = X" using X(2) by (cases X) simp
  have ri: "rooms (route_inputs 0 exit_demo) = [X, new_room 1]"
    using X(2) idq by (simp add: route_inputs_def Let_def E upd_at_def)
  define Y where "Y = X\<lparr>r_members := ?ms\<rparr>"
  have "rooms (consume_one 0 0 (route_inputs 0 exit_demo)) = [Y, new_room 1]"
    by (simp add: consume_one_def Let_def ri X(1) upd_member_def upd_at_def Y_def)
  moreover have rest: "consume_one 0 k U = U" if "rooms U = [Y, new_room 1]" "k \<in> {1, 2, 3}" for k U
    using that d by (auto simp: consume_one_def Let_def Y_def)
  have "rooms (fold (consume_one 0) ks U) = [Y, new_room 1]" if "rooms U = [Y, new_room 1]" "set ks \<subseteq> {1, 2, 3}" for ks U
    using that
  proof (induction ks arbitrary: U)
    case (Cons k ks)
    then have "consume_one 0 k U = U" by (intro rest) simp_all
    then show ?case using Cons by simp
  qed simp
  note fold_rest = this
  ultimately have "rooms (fold (consume_one 0) [1, 2, 3] (consume_one 0 0 (route_inputs 0 exit_demo))) = [Y, new_room 1]"
    by (intro fold_rest) simp_all
  then have ci: "rooms (consume_inputs 0 (route_inputs 0 exit_demo)) = [Y, new_room 1]"
    unfolding consume_inputs_def u by simp
  have mi: "member_input (consume ?m) = neutral_input" "member_input default_member = neutral_input"
    by (simp_all add: member_input_def consume_def Let_def default_member_def zero_cmd_def neutral_input_def)
  have Yf: "r_members Y = ?ms" "r_world Y = exit_world" "r_memberCount Y = 1" by (simp_all add: Y_def X)
  have "map (\<lambda>i. member_input (r_members Y ! i)) [0..<kRoomMembers] = replicate 4 neutral_input"
    unfolding u Yf by (simp add: mi numeral_eq_Suc)
  then have sr: "r_members (step_room Y) = ?ms" "w_actors (r_world (step_room Y)) = w_actors (SimStep exit_world (replicate 4 neutral_input))"
    "r_memberCount (step_room Y) = 1" "w_tick (r_world (step_room Y)) = 1"
    by (simp_all add: step_room_def Let_def Yf SimStep_def exit_world_def)
  have "rooms (tick_body list_ring_ops 0 exit_demo) = [step_room Y, new_room 1]"
    by (simp add: tick_body_def Let_def ci upd_at_def sr)
  then show ?thesis
    using exit_world_step d by (simp add: at_exit_def u EXIT_ZONE_X_value sr)
qed

theorem leave_lost_in_a_move_witness:
  "(let S4 = let_go 0 0 (leave_file 0 0 (tick_turn list_ring_ops 0 0 (snd (leave_read 0 (hang_up 0 exit_demo)))))
    in dead (At S4 0) \<and> refs (At S4 0) = 1 \<and> 0 \<in> set (freeRooms S4) \<and>
       memb (r_members (room_at (snd (ProcessRoomQueues 1 S4)) 1)) 0 = Some (0, 0))"
proof -
  define S4 where "S4 = let_go 0 0 (leave_file 0 0 (tick_turn list_ring_ops 0 0 (snd (leave_read 0 (hang_up 0 exit_demo)))))"
  have m: "myRooms exit_demo ! 0 = [0]" by (simp add: exit_demo(5) demo4)
  have x: "memb (r_members (room_at exit_demo 0)) 0 = Some (0, 0)"
    by (simp add: exit_demo(2) seat_member_def demo_room_def memb_update clear_room_def new_room_def kRoomMembers_def)
  have all: "dead (At S4 0) \<and> refs (At S4 0) = 1 \<and> 0 \<in> set (freeRooms S4) \<and>
     (\<forall>n. memb (r_members (room_at (((\<lambda>T. snd (ProcessRoomQueues 1 T)) ^^ n) S4) 1)) 0 = Some (0, 0))"
    using leave_lost_in_a_move [OF exit_demo(1), of 0 0 0 0 0 list_ring_ops 0] exit_demo_at_exit x
    by (simp add: m exit_demo(3,4) kMaxGameWorkers_def demo4 demo_sess_def S4_def Let_def)
  then have "memb (r_members (room_at (((\<lambda>T. snd (ProcessRoomQueues 1 T)) ^^ Suc 0) S4) 1)) 0 = Some (0, 0)" by blast
  then show ?thesis using all by (simp add: S4_def [symmetric] Let_def)
qed

end
