(* ===== verification/Room_Pass.thy ===== *)
theory Room_Pass
  imports Tick_Frame
begin

text \<open>
  One pass of a game worker over its rooms (\<open>TickOnce\<close>): each room of its list and of its mailbox gets
  exactly one queue turn, and exactly one tick if it survives that. The loop changes the list it
  runs over: a room that dies is replaced by the last one, a room that moves by its successor.
\<close>

section \<open>The clock of a room\<close>

definition clock :: "('r, 's) Server \<Rightarrow> nat \<Rightarrow> u32" where
  "clock S r = w_tick (r_world (room_at S r))"

text \<open>A change of the room \<open>r\<close> alone that leaves its clock.\<close>

definition in_room :: "nat \<Rightarrow> ('r, 's) Server \<Rightarrow> ('r, 's) Server \<Rightarrow> bool" where
  "in_room r S T \<longleftrightarrow> length (rooms T) = length (rooms S) \<and> (\<forall>r'. r' \<noteq> r \<longrightarrow> room_at T r' = room_at S r') \<and>
     (r < length (rooms S) \<longrightarrow> clock T r = clock S r)"

lemma in_room_trans: "in_room r S T \<Longrightarrow> in_room r T U \<Longrightarrow> in_room r S U"
  by (auto simp: in_room_def)

lemma in_room_rooms: "rooms T = rooms S \<Longrightarrow> in_room r S T"
  by (simp add: in_room_def clock_def)

lemma in_room_upd:
  assumes "\<And>x. w_tick (r_world (f x)) = w_tick (r_world x)"
  shows "in_room r S (upd_room r f S)"
  using assms by (simp add: in_room_def clock_def)

lemma in_room_fold: "(\<And>x S. in_room r S (F x S)) \<Longrightarrow> in_room r S (fold F xs S)"
  by (induction xs arbitrary: S) (auto intro: in_room_trans in_room_rooms)

lemma in_room_apply_queues: "in_room r S (apply_queues r S)"
proof -
  have p: "in_room r T (U\<lparr>pool := p\<rparr>)" if "in_room r T U" for T U :: "('a, 'b) Server" and p
    using that by (simp add: in_room_def clock_def)
  have f: "in_room r T (upd_room r (free_seat k) T)" "in_room r T (upd_room r (seat_member k i g own) T)" "in_room r T (upd_room r (unseat_member k) T)"
    for T :: "('a, 'b) Server" and k i g own
    by (rule in_room_upd, simp add: free_seat_def seat_member_def unseat_member_def)+
  have "in_room r T (join_one r e T)" for T :: "('a, 'b) Server" and e
    by (simp add: join_one_def Let_def f p)
  moreover have "in_room r T (leave_one r e T)" for T :: "('a, 'b) Server" and e
    by (simp add: leave_one_def Let_def f p in_room_rooms split: option.split)
  moreover have "in_room r S (upd_room r (\<lambda>x. x\<lparr>r_pendingJoin := [], r_pendingLeave := []\<rparr>) S)" by (rule in_room_upd) simp
  ultimately show ?thesis
    unfolding apply_queues_def Let_def
    using in_room_trans [OF in_room_trans [OF _ in_room_fold [where F = "join_one r"]] in_room_fold [where F = "leave_one r"]] by blast
qed

lemma in_room_inputs: "in_room r S (consume_inputs r (route_inputs r S))"
proof -
  have c: "in_room r T (upd_room r (upd_member k f) (count_up g T))" "in_room r T (upd_room r (upd_member k f) T)" for T :: "('a, 'b) Server" and k f g
    by (rule in_room_trans [OF in_room_rooms in_room_upd]; simp add: upd_member_def)+
  have "in_room r T (route_one r x T)" "in_room r T (consume_one r k T)" for T :: "('a, 'b) Server" and x k
    by (simp_all add: route_one_def consume_one_def Let_def c in_room_rooms)
  moreover have "in_room r S (upd_room r (\<lambda>x. x\<lparr>r_inQ := []\<rparr>) S)" by (rule in_room_upd) simp
  ultimately show ?thesis
    unfolding route_inputs_def consume_inputs_def Let_def
    using in_room_trans [OF in_room_trans [OF _ in_room_fold [where F = "route_one r"]] in_room_fold [where F = "consume_one r"]] by blast
qed

lemma tick_body_clock:
  assumes "r < length (rooms S)"
  shows "clock (tick_body MT r S) r = clock S r + 1" "r' \<noteq> r \<Longrightarrow> room_at (tick_body MT r S) r' = room_at S r'"
proof -
  let ?S1 = "consume_inputs r (route_inputs r S)"
  have "rooms (send_snapshot MT r bs k T) = rooms T" for bs k and T :: "('a, 'b) Server"
    by (auto simp: send_snapshot_def enqueue_def mark_def Let_def split: prod.split)
  then have "rooms (fold (send_snapshot MT r bs) ks T) = rooms T" for bs ks and T :: "('a, 'b) Server"
    by (induction ks arbitrary: T) simp_all
  then have "rooms (tick_body MT r S) = upd_at r step_room (rooms ?S1)"
    by (simp add: tick_body_def broadcast_snapshot_def Let_def)
  moreover have "w_tick (r_world (step_room x)) = w_tick (r_world x) + 1" for x by (simp add: step_room_def SimStep_def Let_def)
  ultimately show "clock (tick_body MT r S) r = clock S r + 1" "r' \<noteq> r \<Longrightarrow> room_at (tick_body MT r S) r' = room_at S r'"
    using in_room_inputs [of r S] assms by (simp_all add: in_room_def clock_def)
qed

section \<open>One turn\<close>

text \<open>
  The queues of the room: those of the room's row who are alive stay; the room goes when none
  is. Nothing else changes but the number of references.
\<close>

lemma queue_half:
  assumes inv: "Inv S" and w: "w < kMaxGameWorkers" "pos < length (myRooms S ! w)"
  defines "r \<equiv> myRooms S ! w ! pos" and "S1 \<equiv> snd (queues_turn w pos S)"
  shows "Inv S1" "\<And>j. dead (At S1 j) = dead (At S j)" "fst (queues_turn w pos S) = (alive_row S (tab S r) = Map.empty)"
    "\<And>r'. live S r' \<Longrightarrow> r' \<noteq> r \<Longrightarrow> live S1 r' \<and> room_at S1 r' = room_at S r'"
    "if fst (queues_turn w pos S) then myRooms S1 = upd_at w (swap_pop pos) (myRooms S)
     else myRooms S1 = myRooms S \<and> live S1 r \<and> tab S1 r = alive_row S (tab S r) \<and> clock S1 r = clock S r"
proof -
  note M = my_room [OF inv w, folded r_def]
  show "Inv S1" unfolding S1_def by (rule Inv_queues_turn [OF inv w])
  let ?Q = "apply_queues r S"
  note C = queues_turn_cases [OF inv w, folded r_def S1_def] and E = row_empty_iff [OF inv M(1) refl]
  have st: "dead (At ?Q j) = dead (At S j)" for j using apply_queues_settles [OF inv M(1)] by (simp add: settles_def)
  then show "dead (At S1 j) = dead (At S j)" for j by (simp add: C(2))
  note q = in_room_apply_queues [of r S] and L = apply_queues_lists [where S = S and r = r, OF refl]
  have live: "live ?Q x = live S x" for x by (simp add: live_def L)
  show b: "fst (queues_turn w pos S) = (alive_row S (tab S r) = Map.empty)" using C(1) E by (auto split: if_splits)
  have p: "fst (ProcessRoomQueues r S) = fst (queues_turn w pos S)"
    by (cases "ProcessRoomQueues r S") (auto simp: queues_turn_def r_def split: bool.split)
  show "live S1 r' \<and> room_at S1 r' = room_at S r'" if "live S r'" "r' \<noteq> r" for r'
  proof (cases "fst (queues_turn w pos S)")
    case False
    then have "S1 = ?Q" using C(1) by (auto simp: S1_def split: if_splits)
    then show ?thesis using that q live by (simp add: in_room_def)
  next
    case True
    then obtain S2 where P: "ProcessRoomQueues r S = (True, S2)" using p by (cases "ProcessRoomQueues r S") simp
    then have S1: "S1 = S2\<lparr>myRooms := upd_at w (swap_pop pos) (myRooms S2)\<rparr>" by (simp add: S1_def queues_turn_def r_def)
    have "room_at S2 r' = room_at ?Q r'"
      using P that(2) by (auto simp: ProcessRoomQueues_def Let_def FreeRoomIfDrained_def split: if_splits)
    then show ?thesis using that q Process_dies(5) [OF inv M(1) P, of r'] by (simp add: S1 live_def in_room_def)
  qed
  show "if fst (queues_turn w pos S) then myRooms S1 = upd_at w (swap_pop pos) (myRooms S)
     else myRooms S1 = myRooms S \<and> live S1 r \<and> tab S1 r = alive_row S (tab S r) \<and> clock S1 r = clock S r"
  proof (cases "fst (queues_turn w pos S)")
    case False
    then have S1: "S1 = ?Q" using C(1) by (auto simp: S1_def split: if_splits)
    have "seat (room_at ?Q r) = memb (r_members (room_at ?Q r))" using queues_row(2) [OF inv M(1) refl] by (simp add: seat_def pend_def)
    then show ?thesis
      using False M(1) q live queues_row(1) [OF inv M(1) refl] by (simp add: S1 L tab_def in_room_def live_def)
  next
    case True
    then obtain S2 where P: "ProcessRoomQueues r S = (True, S2)" using p by (cases "ProcessRoomQueues r S") simp
    then have "S1 = S2\<lparr>myRooms := upd_at w (swap_pop pos) (myRooms S2)\<rparr>" by (simp add: S1_def queues_turn_def r_def)
    then show ?thesis using True Process_dies(9) [OF inv M(1) P] by simp
  qed
qed

text \<open>The tick of the room: it or its successor stands in its place, one tick older.\<close>

lemma tick_half:
  fixes S :: "('r, 's) Server" and MT :: "'s ring_ops"
  assumes inv: "Inv S" and w: "w < kMaxGameWorkers" "pos < length (myRooms S ! w)"
  defines "r \<equiv> myRooms S ! w ! pos" and "S1 \<equiv> tick_turn MT w pos S"
  shows "Inv S1" "\<And>j. dead (At S1 j) = dead (At S j)" "\<And>r'. live S r' \<Longrightarrow> r' \<noteq> r \<Longrightarrow> live S1 r' \<and> room_at S1 r' = room_at S r'"
    "\<exists>nr. myRooms S1 = upd_at w (\<lambda>q. q[pos := nr]) (myRooms S) \<and> live S1 nr \<and> tab S1 nr = tab S r \<and> clock S1 nr = clock S r + 1 \<and> (nr = r \<or> \<not> live S nr)"
proof -
  show "Inv S1" unfolding S1_def by (rule Inv_tick_turn [OF inv w])
  show "dead (At S1 j) = dead (At S j)" for j using calm_tick_turn [of S MT w pos] by (simp add: S1_def calm_def)
  let ?S0 = "tick_body MT r S" and ?nr = "last (freeRooms S)"
  note M = my_room [OF inv w, folded r_def]
  have len: "r < length (rooms S)" using M(1) by (simp add: live_def)
  note B = tick_body_clock [OF len, where MT = MT]
  have sa: "same_acct S ?S0" by (rule same_acct_tick_body)
  note l0 = same_acct_tab [OF sa]
  note T = tick_moves [OF inv w, where MT = MT, folded r_def S1_def]
  have "(\<forall>r'. live S r' \<longrightarrow> r' \<noteq> r \<longrightarrow> live S1 r' \<and> room_at S1 r' = room_at S r') \<and>
    (\<exists>nr. myRooms S1 = upd_at w (\<lambda>q. q[pos := nr]) (myRooms S) \<and> live S1 nr \<and> tab S1 nr = tab S r \<and> clock S1 nr = clock S r + 1 \<and> (nr = r \<or> \<not> live S nr))"
  proof (cases "at_exit (room_at ?S0 r) \<and> freeRooms S \<noteq> []")
    case True
    then have a: "at_exit (room_at ?S0 r)" "freeRooms S \<noteq> []" by auto
    note V = tick_turn_moved [OF inv w, where MT = MT, folded r_def S1_def, OF a]
    have t: "\<not> live S ?nr" "live S1 ?nr" "tab S1 = (tab S)(?nr := tab S r, r := Map.empty)" using T True by simp_all
    have ne: "?nr \<noteq> r" using t(1) M(1) by auto
    have "live S1 r' \<and> room_at S1 r' = room_at S r'" if "live S r'" "r' \<noteq> r" for r'
    proof -
      have ne': "r' \<noteq> ?nr" using that(1) t(1) by auto
      then have "tab S1 r' = seat (room_at S r')" using that by (simp add: t(3)) (simp add: tab_def)
      then have "tab S1 r' \<noteq> Map.empty" using InvD(1) [OF inv] that(1) by (auto simp: rooms_ok_def)
      then have "live S1 r'" by (auto simp: tab_def split: if_splits)
      then show ?thesis using V(4) [OF ne' that(2)] B(2) [OF that(2)] by simp
    qed
    then show ?thesis using V(3,5) t B(1) ne by (auto simp: clock_def intro!: exI [of _ ?nr])
  next
    case False
    then have "ExitCheckAndMaybeTransfer MT r ?S0 = (None, ?S0)"
      using sa by (auto simp: ExitCheckAndMaybeTransfer_def TransferRoom_fails same_acct_def)
    then have S1: "S1 = ?S0" by (simp add: S1_def tick_turn_def RoomTick_def r_def)
    have "upd_at w (\<lambda>q. q[pos := r]) (myRooms S) = myRooms S" by (simp add: upd_at_def r_def)
    then show ?thesis using S1 B l0 M(1) sa by (auto simp: same_acct_def intro!: exI [of _ r])
  qed
  then show "\<And>r'. live S r' \<Longrightarrow> r' \<noteq> r \<Longrightarrow> live S1 r' \<and> room_at S1 r' = room_at S r'"
    "\<exists>nr. myRooms S1 = upd_at w (\<lambda>q. q[pos := nr]) (myRooms S) \<and> live S1 nr \<and> tab S1 nr = tab S r \<and> clock S1 nr = clock S r + 1 \<and> (nr = r \<or> \<not> live S nr)"
    by blast+
qed

text \<open>Both halves.\<close>

lemma turn_effect:
  fixes S :: "('r, 's) Server" and MT :: "'s ring_ops"
  assumes inv: "Inv S" and w: "w < kMaxGameWorkers" "pos < length (myRooms S ! w)" and t: "room_turn MT w pos S = (gone, S')"
  defines "r \<equiv> myRooms S ! w ! pos"
  shows "Inv S'" "\<And>j. dead (At S' j) = dead (At S j)" "gone = (alive_row S (tab S r) = Map.empty)"
    "\<And>r'. live S r' \<Longrightarrow> r' \<noteq> r \<Longrightarrow> live S' r' \<and> room_at S' r' = room_at S r'"
    "gone \<Longrightarrow> myRooms S' = upd_at w (swap_pop pos) (myRooms S)"
    "\<not> gone \<Longrightarrow> \<exists>nr. myRooms S' = upd_at w (\<lambda>q. q[pos := nr]) (myRooms S) \<and> tab S' nr = alive_row S (tab S r) \<and> clock S' nr = clock S r + 1"
proof -
  obtain b S1 where q: "queues_turn w pos S = (b, S1)" by (cases "queues_turn w pos S")
  note Q = queue_half [OF inv w, unfolded q fst_conv snd_conv, folded r_def]
  have g: "gone = b" using t q by (auto simp: room_turn_def split: bool.splits)
  have "Inv S' \<and> (\<forall>j. dead (At S' j) = dead (At S j)) \<and> (\<forall>r'. live S r' \<longrightarrow> r' \<noteq> r \<longrightarrow> live S' r' \<and> room_at S' r' = room_at S r') \<and>
    (gone \<longrightarrow> myRooms S' = upd_at w (swap_pop pos) (myRooms S)) \<and> (\<not> gone \<longrightarrow> (\<exists>nr. myRooms S' = upd_at w (\<lambda>q. q[pos := nr]) (myRooms S) \<and>
       tab S' nr = alive_row S (tab S r) \<and> clock S' nr = clock S r + 1))"
  proof (cases b)
    case True
    then have "S' = S1" using t q by (simp add: room_turn_def)
    then show ?thesis using Q True g by simp
  next
    case False
    then have S': "S' = tick_turn MT w pos S1" using t q by (simp add: room_turn_def)
    have m: "myRooms S1 = myRooms S" "tab S1 r = alive_row S (tab S r)" "clock S1 r = clock S r" using Q(5) False by simp_all
    have p: "pos < length (myRooms S1 ! w)" using w(2) by (simp add: m(1))
    note T = tick_half [OF Q(1) w(1) p, where MT = MT, folded S', unfolded m(1), folded r_def, unfolded m(2,3)]
    have "live S' r' \<and> room_at S' r' = room_at S r'" if "live S r'" "r' \<noteq> r" for r'
      using T(3) [of r'] Q(4) [OF that] that(2) by simp
    then show ?thesis using T(1,2,4) Q(2) g False by auto
  qed
  then show "Inv S'" "\<And>j. dead (At S' j) = dead (At S j)" "\<And>r'. live S r' \<Longrightarrow> r' \<noteq> r \<Longrightarrow> live S' r' \<and> room_at S' r' = room_at S r'"
    "gone \<Longrightarrow> myRooms S' = upd_at w (swap_pop pos) (myRooms S)"
    "\<not> gone \<Longrightarrow> \<exists>nr. myRooms S' = upd_at w (\<lambda>q. q[pos := nr]) (myRooms S) \<and> tab S' nr = alive_row S (tab S r) \<and> clock S' nr = clock S r + 1"
    by blast+
  show "gone = (alive_row S (tab S r) = Map.empty)" using g Q(3) by simp
qed

section \<open>The loop\<close>

text \<open>A room before and after its turn: its row of the table of seats, and its clock.\<close>

definition row_clock :: "('r, 's) Server \<Rightarrow> nat \<Rightarrow> (nat \<Rightarrow> tag option) \<times> u32" where
  "row_clock S r = (tab S r, w_tick (r_world (room_at S r)))"

definition served :: "('r, 's) Server \<Rightarrow> nat list \<Rightarrow> ((nat \<Rightarrow> tag option) \<times> u32) multiset" where
  "served S rs = mset (map (\<lambda>r. (alive_row S (tab S r), w_tick (r_world (room_at S r)) + 1)) (filter (\<lambda>r. alive_row S (tab S r) \<noteq> Map.empty) rs))"

lemma same_room:
  assumes "live S r" "live S' r \<and> room_at S' r = room_at S r"
  shows "tab S' r = tab S r" "row_clock S' r = row_clock S r"
  using assms by (simp_all add: tab_def row_clock_def)

lemma served_cong:
  assumes "\<And>j. dead (At S' j) = dead (At S j)" "\<And>r. r \<in> set rs \<Longrightarrow> live S r \<and> live S' r \<and> room_at S' r = room_at S r"
  shows "served S' rs = served S rs"
proof -
  have a: "alive_row S' f = alive_row S f" for f by (rule ext) (simp add: alive_row_def assms(1) split: option.split)
  have e: "tab S' r = tab S r \<and> room_at S' r = room_at S r" if "r \<in> set rs" for r
    using assms(2) [OF that] same_room(1) [of S r S'] by blast
  show ?thesis
    unfolding served_def a by (rule arg_cong [where f = mset], rule map_cong) (simp_all add: e cong: filter_cong)
qed

lemma mset_rest:
  assumes "pos < length xs"
  shows "mset (drop pos (swap_pop pos xs)) = mset (drop (Suc pos) xs)" "take pos (swap_pop pos xs) = take pos xs"
proof -
  show t: "take pos (swap_pop pos xs) = take pos xs" using assms by (simp add: swap_pop_def take_butlast)
  have "mset xs = mset (take pos xs) + (add_mset (xs ! pos) (mset (drop (Suc pos) xs)))"
    using arg_cong [OF id_take_nth_drop [OF assms], of mset] by simp
  moreover have "mset (swap_pop pos xs) = mset (take pos (swap_pop pos xs)) + mset (drop pos (swap_pop pos xs))"
    by (metis append_take_drop_id mset_append)
  ultimately show "mset (drop pos (swap_pop pos xs)) = mset (drop (Suc pos) xs)"
    using mset_swap_pop [OF assms] t by simp
qed

lemma served_mset: "mset rs = mset rs' \<Longrightarrow> served S rs = served S rs'"
  by (simp add: served_def mset_filter)

lemma rooms_loop_serves:
  fixes S :: "('r, 's) Server" and MT :: "'s ring_ops"
  assumes "Inv S" "w < kMaxGameWorkers" "length (myRooms S ! w) - pos \<le> n" "pos \<le> length (myRooms S ! w)"
  defines "S' \<equiv> rooms_loop MT w n pos S"
  shows "mset (map (row_clock S') (myRooms S' ! w)) = mset (map (row_clock S) (take pos (myRooms S ! w))) + served S (drop pos (myRooms S ! w)) \<and>
    (\<forall>r. live S r \<longrightarrow> r_gameWorker (room_at S r) \<noteq> w \<longrightarrow> live S' r \<and> room_at S' r = room_at S r)"
  using assms(1,3,4) unfolding S'_def
proof (induction n arbitrary: pos S)
  case 0
  then show ?case by (simp add: served_def)
next
  case (Suc n)
  let ?L = "myRooms S ! w"
  show ?case
  proof (cases "length ?L \<le> pos")
    case True
    then show ?thesis using Suc.prems by (simp add: served_def)
  next
    case False
    then have p: "pos < length ?L" by simp
    let ?r = "?L ! pos"
    obtain gone S1 where t: "room_turn MT w pos S = (gone, S1)" by (cases "room_turn MT w pos S")
    note T = turn_effect [OF Suc.prems(1) assms(2) p t] and M = my_room [OF Suc.prems(1) assms(2) p]
    let ?pos = "if gone then pos else pos + 1" and ?L1 = "myRooms S1 ! w"
    have d: "distinct ?L" "\<And>x. x \<in> set ?L \<Longrightarrow> live S x"
      using InvD(5) [OF Suc.prems(1)] assms(2) by (auto simp: work_ok_def placed_def)
    have oth: "x \<noteq> ?r" if "x \<in> set (take pos ?L) \<or> x \<in> set (drop (Suc pos) ?L)" for x
      using that d(1) p id_take_nth_drop [OF p] by (metis distinct.simps(2) distinct_append disjoint_iff list.set_intros(1) not_distinct_conv_prefix set_append Un_iff)
    have keep: "live S x \<and> live S1 x \<and> room_at S1 x = room_at S x" if "x \<in> set (take pos ?L) \<or> x \<in> set (drop (Suc pos) ?L)" for x
      using d(2) [of x] T(4) [of x] oth [OF that] that by (auto dest: in_set_takeD in_set_dropD)
    have rc: "image_mset (row_clock S1) (mset (take pos ?L)) = image_mset (row_clock S) (mset (take pos ?L))"
      by (rule image_mset_cong) (use keep same_room(2) [of S _ S1] in auto)
    have sv: "served S1 (drop (Suc pos) ?L) = served S (drop (Suc pos) ?L)"
      by (rule served_cong [OF T(2)]) (use keep in blast)
    have dr: "drop pos ?L = ?r # drop (Suc pos) ?L" using Cons_nth_drop_Suc [OF p] by simp
    have "length ?L1 - ?pos \<le> n \<and> ?pos \<le> length ?L1 \<and>
      mset (map (row_clock S1) (take ?pos ?L1)) + served S1 (drop ?pos ?L1) = mset (map (row_clock S) (take pos ?L)) + served S (drop pos ?L)"
    proof (cases gone)
      case True
      then have L1: "?L1 = swap_pop pos ?L" using T(5) M(3) by simp
      have "served S1 (drop pos ?L1) = served S (drop (Suc pos) ?L)"
        unfolding L1 sv [symmetric] by (rule served_mset [OF mset_rest(1) [OF p]])
      moreover have "served S (drop pos ?L) = served S (drop (Suc pos) ?L)" using T(3) True by (simp add: dr served_def)
      moreover have "length ?L1 = length ?L - 1" by (simp add: L1 swap_pop_def)
      ultimately show ?thesis using True p Suc.prems(2) mset_rest(2) [OF p] rc by (simp add: L1) arith
    next
      case False
      then obtain nr where nr: "myRooms S1 = upd_at w (\<lambda>q. q[pos := nr]) (myRooms S)" "tab S1 nr = alive_row S (tab S ?r)" "clock S1 nr = clock S ?r + 1"
        using T(6) by blast
      have L1: "?L1 = ?L[pos := nr]" using nr(1) M(3) by simp
      have "take (Suc pos) ?L1 = take pos ?L @ [nr]" "drop (Suc pos) ?L1 = drop (Suc pos) ?L"
        using p by (simp_all add: L1 take_Suc_conv_app_nth)
      moreover have "served S (drop pos ?L) = add_mset (row_clock S1 nr) (served S (drop (Suc pos) ?L))"
        using T(3) False nr(2,3) by (simp add: dr served_def row_clock_def clock_def)
      ultimately show ?thesis using False p Suc.prems(2) rc sv by (simp add: L1)
    qed
    moreover have "live S1 x \<and> room_at S1 x = room_at S x" if "live S x" "r_gameWorker (room_at S x) \<noteq> w" for x
      using T(4) [OF that(1)] that(2) M(2) by auto
    moreover note Suc.IH [OF T(1), of ?pos]
    ultimately show ?thesis using False t by auto
  qed
qed

text \<open>C8. A pass that runs by itself serves every room exactly once, though the list changes under the loop: what is on the
  worker's list afterwards are, counted with multiplicity, the rooms that were on its list or in
  its mailbox and still have somebody alive, each with its row of living members and its clock
  advanced by exactly one tick; the rooms without anybody alive are gone. The rooms of the other
  workers are not touched.\<close>

theorem pass_serves_every_room_once:
  assumes "reach booted (server_step ST MT) S" "w < kMaxGameWorkers"
  defines "S' \<equiv> TickOnce MT w S"
  shows "mset (map (\<lambda>r. (tab S' r, w_tick (r_world (room_at S' r)))) (myRooms S' ! w)) =
      mset (map (\<lambda>r. (alive_row S (tab S r), w_tick (r_world (room_at S r)) + 1))
        (filter (\<lambda>r. alive_row S (tab S r) \<noteq> Map.empty) (myRooms S ! w @ mail S ! w))) \<and>
    (\<forall>r. live S r \<longrightarrow> r_gameWorker (room_at S r) \<noteq> w \<longrightarrow> live S' r \<and> room_at S' r = room_at S r)"
proof -
  let ?D = "DrainRoomAddQ w S"
  note inv = server.reach_inv [OF assms(1)]
  have l: "w < length (myRooms S)" "w < length (mail S)" using InvD(5) [OF inv] assms(2) by (simp_all add: work_ok_def)
  have r: "live ?D = live S \<and> tab ?D = tab S \<and> leaves ?D = leaves S" by (rule tab_cong) (simp_all add: DrainRoomAddQ_def)
  have m: "myRooms ?D ! w = myRooms S ! w @ mail S ! w" "rooms ?D = rooms S" "pool ?D = pool S" using l by (simp_all add: DrainRoomAddQ_def)
  have a: "alive_row ?D = alive_row S" by (intro ext) (simp add: alive_row_def m split: option.split)
  have rc: "row_clock T = (\<lambda>r. (tab T r, w_tick (r_world (room_at T r))))" for T :: "('a, 'b) Server"
    by (rule ext) (simp add: row_clock_def)
  show ?thesis
    using rooms_loop_serves [OF Inv_drain_mail [OF inv] assms(2), of w 0 "length (myRooms ?D ! w)" MT]
    by (simp add: S'_def TickOnce_def Let_def rc served_def m r a del: map_append filter_append mset_map)
qed

theorem pass_serves_every_room_once_witness:
  "mset (map (\<lambda>r. (tab (TickOnce list_ring_ops 0 demo2) r, w_tick (r_world (room_at (TickOnce list_ring_ops 0 demo2) r))))
      (myRooms (TickOnce list_ring_ops 0 demo2) ! 0)) = {#(Map.empty(0 \<mapsto> (0, 0)), 1)#}"
proof -
  have s: "seat demo_room = Map.empty(0 \<mapsto> (0, 0))"
    by (rule ext) (simp add: seat_def demo_room_def pend_def memb_def clear_room_def default_member_def kRoomMembers_def map_add_def cong: conj_cong)
  have t: "w_tick (r_world demo_room) = 0" by (simp add: demo_room_def clear_room_def ResetWorld_def new_room_def)
  have "live demo2 0" by (simp add: live_def demo2)
  then have "tab demo2 0 = Map.empty(0 \<mapsto> (0, 0))" by (simp add: tab_def demo2 s)
  then have a: "alive_row demo2 (tab demo2 0) = Map.empty(0 \<mapsto> (0, 0))" by (intro ext) (simp add: alive_row_def demo2 demo_sess_def)
  have "(Map.empty(0 \<mapsto> (0, 0)) :: nat \<Rightarrow> tag option) \<noteq> Map.empty" by simp
  then show ?thesis
    using pass_serves_every_room_once [OF demo_reach(2), of 0] by (simp add: kMaxGameWorkers_def demo2 a t)
qed

end
