(* ===== verification/Spec2Isabelle.thy ===== *)
theory Spec2Isabelle
  imports Sim_Props Session_Props Server_Props Turn_Props Epoll_Props Stream_Props GameWorker_Props
    Echo_Props Client_Props Gate DummyRun Startup Threads SelfTest Input_Path Disconnect_Gap Room_Pass
begin

text \<open>
  Verification of MO_Belt (C++): the game server (src/server/src), an authoritative 60 Hz server for
  rooms of four players, and its load generator (src/dummy/dummy_main.cpp).

  \<^bold>\<open>The program.\<close> Epoll workers accept connections, cut the byte stream of every session into
  frames and dispatch them: ECHO and PING are answered on the spot, JOIN asks the room manager for
  a seat, INPUT goes to the mailbox of the room. Game workers own the rooms: sixty times a second
  each takes the queued joins and leaves of its rooms, moves the queued inputs into the input
  rings of the members, applies one input per member, steps the simulation, and every third tick
  puts a snapshot into the send rings and marks the sessions in a dirty bitmap, which the epoll
  workers drain to flush them. A room whose living members all reach the exit is moved: a fresh
  room takes its members, and the old one is freed. Sessions live in a pool of slots with a
  generation number and a reference count: one reference for the connection, one for the seat. A
  thread of its own answers HTTP requests with the metrics; \<open>main\<close> reads the command line, checks
  the limits, starts the services in order and stops them; \<open>--selftest\<close> tests the ring buffers. The
  load generator runs thousands of clients on a few threads, each a state machine (connecting,
  joining, active, dead) with its own receive buffer and pending bytes; in echo mode it sends
  packets whose size and padding follow from a seed and verifies what comes back, and at the end a
  gate passes or fails the run.

  \<^bold>\<open>The model.\<close> The whole server is one record \<open>Server\<close> (RoomManager, after Room.h): the rooms,
  the free and open room lists, the mailboxes and room lists of the game workers, the session
  pool, the session lists of the epoll workers, the dirty bitmap, the metrics, and \<open>kern\<close>, the
  kernel seen from the process: a script of the answers of accept, read, write and epoll_ctl that
  is consumed from the front, and a log of what was written, closed and watched. Every function
  of the source is a definition from state to state; errors and early returns are branches.
  Integers keep their C++ width (\<open>32 word\<close> generations that wrap, 64-bit counters and bitmaps),
  reference counts and seat counts are \<open>int\<close>, and doubles are rationals with every operation
  rounded to binary64 (Double). The load generator has a state of its own: \<open>DummyWorker\<close> for each of
  its threads (the clients, the local counters, the script of its kernel) and \<open>DummyProcess\<close> for
  what they share (the totals, the stop flag, the log of violations).

  \<^bold>\<open>Theories and sources.\<close>
  \<^item> Prelude: integer types, in-place update \<open>upd_at\<close>, search loops, \<open>swap_pop\<close>. Double: binary64
    rounding to nearest even, with error bounds and monotonicity.
  \<^item> World (Constants.h, Room.h spawn tables, RoomManager.cpp ResetWorld), Sim (Sim.cpp SimStep),
    Sim_Props: invariant, speed and stage bounds of the simulation.
  \<^item> Protocol (Protocol.h): the packed messages as byte lists. The source copies the packed structs to
    and from the wire; \<open>enc_*\<close> and \<open>dec_*\<close> are the two directions of that copy.
  \<^item> Metrics (Metrics.h): counters, the statistics of the game workers.
  \<^item> RingOps: the interface of the ring buffers of the ServerCore submodule.
  \<^item> Session (Session.h: SessionPool and DirtyMap) and Session_Props; the pool is an instance of
    the locale \<open>counted_slots\<close> and the bitmap of \<open>mark_sets\<close>, their laws proved on the model.
  \<^item> Room (Room.h, the input ring and its consumption in RoomManager.cpp), RoomManager
    (RoomManager.cpp: Init to GetPingInfo), RoomTick (RoomTick, ExitCheckAndMaybeTransfer,
    TransferRoom).
  \<^item> EpollWorker (EpollWorker.cpp), GameWorker (GameWorker.cpp).
  \<^item> Seats, Books, Invariant: the abstract accounts. \<open>tab S r k\<close> is the session (slot and
    generation) on seat k of the live room r, member or waiting; \<open>leaves\<close> the queued leaves.
    \<open>Inv\<close> relates the pool, the rooms, the free and open lists and the workers to this table.
  \<^item> Preserve_Tick, Preserve_Session, Preserve_Join, Preserve_Queues, Preserve_Move, Preserve_Turn:
    one lemma per operation, what it does to the table and that it keeps \<open>Inv\<close>.
  \<^item> Lifecycle: the transition system. \<open>server_step\<close> has one rule per handler of an epoll worker
    (accept, session event, dirty flush, clean-up), per half of a turn of a game worker (queues,
    tick), per drain of the mailbox, and for the environment; \<open>reach\<close> is reachability, and the
    locale \<open>invariant_system\<close> is interpreted on it with \<open>Inv\<close>.
  \<^item> Demo: a concrete run (accept, join, seat, hang up, free) for the witnesses.
  \<^item> Server_Props: what \<open>Inv\<close> means for every reachable state. Turn_Props: what the turns and JOIN
    do, as operations on the seat table. Epoll_Props, Stream_Props: disconnect, malformed input,
    framing, the send path, echo. Queue_Effect, GameWorker_Props: the queue turn in detail, one
    wake-up of the pacing loop, the end of the pass over the rooms. Pacing (GameWorker.cpp,
    \<open>GameWorker::Loop\<close>): the schedule over a whole run.
  \<^item> Input_Path: INPUT packets from the bytes in the receive ring to the queue of the room, and on
    through a tick to the position of the player.
  \<^item> Queue_Exact: the queue turn of a room that only has to be \<open>turn_ready\<close>, without \<open>Inv\<close>: which seats are
    kept, what happens to the references. Tick_Frame: what a tick reads (\<open>alike\<close>) and what it leaves
    alone (\<open>calm\<close>). Disconnect_Gap (EpollWorker.cpp Disconnect, RoomManager.cpp OnSessionLeave): the
    disconnect cut at the places where a game worker can run in between, the queue turn in the
    middle of it, and the leave that a room move loses.
  \<^item> Room_Pass: one pass of a game worker over its rooms (\<open>TickOnce\<close>), as a whole.
  \<^item> Decimal: \<open>atoi\<close> and the decimal numbers of printf. MetricsText, HttpServer (Metrics.cpp): the
    text exposition, its scraper, and the HTTP server from start to stop. Startup (main.cpp): the
    command line, the checks, the services that come up and the state they share.
  \<^item> Services (EpollWorker.cpp and GameWorker.cpp Start, Stop; NetService, GameService; main.cpp): the
    start and the shutdown of the services. Threads: the bodies of the epoll and game workers over a whole run, made of the
    steps of Lifecycle.
  \<^item> SelfTest (SelfTest.cpp): the checks on the ring buffers, the one with two threads over any
    schedule of their turns; the locale \<open>tested_ring\<close> derives them from the contract.
  \<^item> Echo (dummy_main.cpp: configuration, packet sizes, padding, head), Dummy (clients, connect,
    send path, statistics), DummyLoop (receive path, verifier, \<open>Worker::Loop\<close>); Verify_Props: the
    verifier, on one frame and on a stream over any number of readable events and pieces;
    Client_Props: the gauge of active clients and two faults of the connection state machine;
    Echo_Props: server and verifier together, over any number of rounds; Gate: options, division of the sessions,
    percentiles and verdict; DummyText, Dummy_Hist: its metrics and their histograms. DummyRun: the
    whole load generator, its threads taking turns under any schedule, from the command line to
    the exit code.

  \<^bold>\<open>Bounds and fuel.\<close> \<open>flush_loop\<close>, \<open>read_loop\<close> and the accept loop run along the kernel script, so
  they end with it (an empty script answers \<open>would block\<close>); the accept loop has the limit of the
  source, 64. \<open>recv_loop\<close> of the load generator reads no more than its buffer has room for: what an
  answer has beyond that stays in the script (\<open>left_over\<close>), so its measure is the number of bytes and
  answers to come. \<open>parse_loop\<close> has a bound, the number of buffered bytes plus one, and \<open>rooms_loop\<close> one, the
  number of rooms; framing_terminates and room_pass_terminates show that any larger bound gives
  the same result, so the bound never cuts a loop short. The loops of the threads run along a list
  from outside: \<open>game_loop\<close> along the delays of its wake-ups, \<open>EpollWorker_Loop\<close> and \<open>Worker_rounds\<close> along
  the batches of \<open>epoll_wait\<close>, \<open>Server_Loop\<close> along the answers of accept; the end of the list is the
  lowered flag. The threads of the load generator run along a schedule, one round a turn
  (\<open>dummy_turn\<close>), and \<open>dummy_main\<close> is \<open>StillRunning\<close> while one of them has turns left;
  stop_flag_ends_the_run bounds them. The test with two threads has a schedule too, and \<open>TestRingMt\<close> is None while a thread is
  still in its loop; 40000 blocks in which both threads have a turn are enough for its 20000
  messages, since every block moves one of the two counters.

  \<^bold>\<open>Parameters and hypotheses.\<close> \<open>ring_ops\<close> is a record of the operations of the ring buffers;
  \<open>ring_contract\<close> states the queue behaviour the self test of the program checks (\<open>queue_contract\<close>
  adds what only the test looks at), and list_ring_contract shows that a bounded list has it. The
  environment of \<open>server_step\<close> may change the kernel script at will.

  \<^bold>\<open>Atomicity.\<close> A step of \<open>server_step\<close> is one handler of an epoll worker or one half of a turn of a game
  worker, and runs as a whole; every property over \<open>reach\<close> is about executions of this kind. The
  source serialises most of what a step touches by the room lock, the manager lock or a single
  owner thread, but not all of it. \<open>Disconnect\<close> is one step, while the source raises the dead flag,
  reads the room number outside any lock, and files the leave and returns the reference later:
  queue turns, ticks and room moves of a game worker fit in between. Disconnect_Gap treats these
  pieces as definitions of their own: tick_boundary_exact holds after any pieces of any disconnects
  that follow a reachable state, and leave_lost_in_a_move shows what the gap costs. States
  after such a loss are not in \<open>reach\<close>, and the properties over \<open>reach\<close> say nothing of them. dead_flag_after_release is likewise about two steps by
  themselves. Other interleavings inside a step are not modelled. An event of
  \<open>epoll_wait\<close> is one of a descriptor the worker has registered (\<open>registered\<close>, \<open>batch_ok\<close>). Answers of
  the system during start-up are records (\<open>Env\<close>, \<open>SetupScript\<close>).

  \<^bold>\<open>Not modelled.\<close> The ring buffers themselves (the submodule is not in the repository); socket
  options, signal masks and printed messages, which no modelled state depends on; the
  interleaving of two threads of the load generator inside a round, since the counters
  and maxima they share change by one atomic operation at a time, and the rest is a flag and a log; and the JavaScript client with its tools.
\<close>

end
